(* ===== verification/Prelude.thy ===== *)
theory Prelude
  imports Main "HOL-Library.Word"
begin

unbundle bit_operations_syntax

text \<open>
  Shared material of the development: the C++ integer conversions the sources use, the
  three numeric templates of ACE they call everywhere, runs of a machine whose steps are
  labelled by events, and the list and counting lemmas several components need.

  \<^item> \<open>c_int\<close> is the cast of an unsigned machine word to a 32-bit \<^verbatim>\<open>int\<close>,
    \<open>size_of_int\<close> the cast of an \<^verbatim>\<open>int\<close> to a 64-bit \<^verbatim>\<open>size_t\<close>; \<open>c_div\<close> and
    \<open>c_mod\<close> truncate towards zero.
  \<^item> \<open>ace_min\<close>, \<open>ace_max\<close>, \<open>ace_range\<close> are the smaller, the larger and the
    clamped value, as ACE documents them.
  \<^item> \<open>run\<close> executes a list of events, \<open>reachable\<close> is what some run reaches, and the
    locale \<open>event_invariant\<close> lifts an invariant of single steps to runs.
\<close>

named_theorems daf_splits \<open>case distinctions on the result types of the operations\<close>

section \<open>Machine integers\<close>

definition INT_MAX :: int where
  "INT_MAX = 2147483647"

definition c_int :: "nat \<Rightarrow> int" where
  "c_int n = (let k = int n mod 4294967296 in if k < 2147483648 then k else k - 4294967296)"

definition size_of_int :: "int \<Rightarrow> nat" where
  "size_of_int i = nat (i mod 18446744073709551616)"

definition size_add :: "nat \<Rightarrow> nat \<Rightarrow> nat" where
  "size_add a b = (a + b) mod 18446744073709551616"

definition c_div :: "int \<Rightarrow> int \<Rightarrow> int" where
  "c_div a b = sgn a * sgn b * (\<bar>a\<bar> div \<bar>b\<bar>)"

definition c_mod :: "int \<Rightarrow> int \<Rightarrow> int" where
  "c_mod a b = a - b * c_div a b"

definition ace_min :: "'a::linorder \<Rightarrow> 'a \<Rightarrow> 'a" where
  "ace_min a b = (if a < b then a else b)"

definition ace_max :: "'a::linorder \<Rightarrow> 'a \<Rightarrow> 'a" where
  "ace_max a b = (if a > b then a else b)"

definition ace_range :: "'a::linorder \<Rightarrow> 'a \<Rightarrow> 'a \<Rightarrow> 'a" where
  "ace_range lo hi v = ace_min (ace_max lo v) hi"

lemma ace_min_eq_min [simp]: "ace_min a b = min a b"
  by (auto simp: ace_min_def min_def)

lemma ace_max_eq_max [simp]: "ace_max a b = max a b"
  by (auto simp: ace_max_def max_def)

lemma ace_range_eq_iff: "lo \<le> hi \<Longrightarrow> ace_range lo hi v = v \<longleftrightarrow> lo \<le> v \<and> v \<le> hi"
  by (auto simp: ace_range_def min_def max_def)

lemma ace_range_eq_iff_sym: "lo \<le> hi \<Longrightarrow> v = ace_range lo hi v \<longleftrightarrow> lo \<le> v \<and> v \<le> hi"
  using ace_range_eq_iff [of lo hi v] by metis

lemma ace_range_bounds: "lo \<le> hi \<Longrightarrow> lo \<le> ace_range lo hi v \<and> ace_range lo hi v \<le> hi"
  by (auto simp: ace_range_def min_def max_def)

lemma c_int_small: "int n \<le> INT_MAX \<Longrightarrow> c_int n = int n"
  by (simp add: c_int_def INT_MAX_def Let_def)

lemma c_int_le: "c_int n \<le> INT_MAX"
proof -
  define k where "k = int n mod 4294967296"
  have "k < 4294967296" by (simp add: k_def)
  then show ?thesis by (auto simp: c_int_def INT_MAX_def Let_def k_def [symmetric])
qed

lemma size_of_int_nonneg: "0 \<le> i \<Longrightarrow> i \<le> INT_MAX \<Longrightarrow> size_of_int i = nat i"
  by (simp add: size_of_int_def INT_MAX_def)

lemma size_add_small: "a + b < 18446744073709551616 \<Longrightarrow> size_add a b = a + b"
  by (simp add: size_add_def)

text \<open>Evaluation with binary numerals.\<close>

lemma size_add_code [code]: "size_add a b = nat ((int a + int b) mod 18446744073709551616)"
  by (simp add: size_add_def nat_mod_distrib nat_add_distrib)

lemma c_div_pos: "0 \<le> a \<Longrightarrow> 0 < b \<Longrightarrow> c_div a b = a div b"
  by (cases "a = 0") (auto simp: c_div_def sgn_if)

lemma c_div_eqI: "0 \<le> a \<Longrightarrow> 0 < b \<Longrightarrow> a div b = q \<Longrightarrow> c_div a b = q"
  by (simp add: c_div_pos)

lemma c_mod_pos: "0 \<le> a \<Longrightarrow> 0 < b \<Longrightarrow> c_mod a b = a mod b"
  by (simp add: c_mod_def c_div_pos minus_mult_div_eq_mod)

section \<open>Machines with labelled steps\<close>

primrec run :: "('s \<Rightarrow> 'e \<Rightarrow> 's option) \<Rightarrow> 's \<Rightarrow> 'e list \<Rightarrow> 's option" where
  "run step s [] = Some s"
| "run step s (e # es) = (case step s e of None \<Rightarrow> None | Some s' \<Rightarrow> run step s' es)"

definition reachable :: "('s \<Rightarrow> 'e \<Rightarrow> 's option) \<Rightarrow> 's \<Rightarrow> 's \<Rightarrow> bool" where
  "reachable step s0 s \<longleftrightarrow> (\<exists>es. run step s0 es = Some s)"

lemma run_append:
  "run step s (es @ fs) = (case run step s es of None \<Rightarrow> None | Some s' \<Rightarrow> run step s' fs)"
  by (induction es arbitrary: s) (auto split: option.splits)

lemma reachableI [intro]: "run step s0 es = Some s \<Longrightarrow> reachable step s0 s"
  by (auto simp: reachable_def)

lemma reachable_run: "run step s es \<noteq> None \<Longrightarrow> reachable step s (the (run step s es))"
  by auto

lemma reachable_refl [simp, intro]: "reachable step s0 s0"
  by (rule reachableI [where es = "[]"]) simp

lemma reachable_step: "reachable step s0 s \<Longrightarrow> step s e = Some s' \<Longrightarrow> reachable step s0 s'"
  unfolding reachable_def by (metis (no_types, lifting) option.simps(5) run.simps run_append)

locale event_invariant =
  fixes step :: "'s \<Rightarrow> 'e \<Rightarrow> 's option"
    and inv :: "'s \<Rightarrow> bool"
  assumes step_inv: "inv s \<Longrightarrow> step s e = Some s' \<Longrightarrow> inv s'"
begin

lemma run_inv: "inv s \<Longrightarrow> run step s es = Some s' \<Longrightarrow> inv s'"
proof (induction es arbitrary: s)
  case Nil
  then show ?case by simp
next
  case (Cons e es)
  then show ?case using step_inv by (auto split: option.splits)
qed

lemma reachable_inv: "inv s0 \<Longrightarrow> reachable step s0 s \<Longrightarrow> inv s"
  unfolding reachable_def using run_inv by blast

end

section \<open>Lists and counting\<close>

lemma map_nth_upt: "i < n \<Longrightarrow> map f [0..<n] ! i = f i"
  by simp

lemma list_eq_nthI:
  "length xs = length ys \<Longrightarrow> (\<And>i. i < length ys \<Longrightarrow> xs ! i = ys ! i) \<Longrightarrow> xs = ys"
  by (simp add: list_eq_iff_nth_eq)

lemma remove1_length_less: "x \<in> set xs \<Longrightarrow> Suc (length (remove1 x xs)) = length xs"
  by (simp add: length_remove1) (metis Suc_pred length_pos_if_in_set)

lemma card_Collect_upd_new:
  "finite {t. f t = c} \<Longrightarrow> f u \<noteq> c \<Longrightarrow> card {t. (f(u := c)) t = c} = Suc (card {t. f t = c})"
proof -
  assume fin: "finite {t. f t = c}" and ne: "f u \<noteq> c"
  have "{t. (f(u := c)) t = c} = insert u {t. f t = c}" by auto
  with fin ne show ?thesis by simp
qed

lemma card_Collect_upd_old:
  "finite {t. f t = c} \<Longrightarrow> f u = c \<Longrightarrow> d \<noteq> c \<Longrightarrow>
     Suc (card {t. (f(u := d)) t = c}) = card {t. f t = c}"
proof -
  assume fin: "finite {t. f t = c}" and eq: "f u = c" and ne: "d \<noteq> c"
  have "{t. (f(u := d)) t = c} = {t. f t = c} - {u}" using ne by auto
  then show ?thesis using card_Suc_Diff1 [OF fin, of u] eq by simp
qed

end
