(* ===== verification/Exceptions.thy ===== *)
theory Exceptions
  imports Prelude
begin

text \<open>
  The exceptions of \<^verbatim>\<open>daf/Exception.h\<close>, their place in the C++ class hierarchy (a
  handler catches an exception when its class is among the ancestors of the thrown one),
  the value their constructors leave in \<^verbatim>\<open>errno\<close>, and the deadline computation
  \<^verbatim>\<open>gettimeofday(msec)\<close> of \<^verbatim>\<open>daf/OS.cpp\<close>.

  A C++ operation has an \<open>outcome\<close>: it returns a value, throws an exception, or its
  behaviour is undefined (a null pointer is dereferenced, an empty container is popped);
  the development proves where the last case cannot arise.
\<close>

section \<open>Exceptions\<close>

datatype daf_exception =
    InternalException
  | InitializationException
  | TimeoutException
  | ClassCastException
  | IndexOutOfRange
  | ObjectNotExistException
  | DateTimeException
  | IllegalStateException
  | InvocationTargetException
  | IllegalArgumentException
  | IllegalLengthException
  | InterruptedException
  | LockFailureException
  | BrokenBarrierException
  | IllegalThreadStateException
  | ResourceExhaustionException
  | NotFoundException
  | IllegalPropertyException
  | INV_OBJREF

datatype 'a outcome = Returns 'a | Throws daf_exception | Undefined

primrec and_then :: "'a outcome \<Rightarrow> ('a \<Rightarrow> 'b outcome) \<Rightarrow> 'b outcome" where
  "and_then (Returns x) f = f x"
| "and_then (Throws e) f = Throws e"
| "and_then Undefined f = Undefined"

lemma and_then_cong [fundef_cong]:
  "m = m' \<Longrightarrow> (\<And>x. m' = Returns x \<Longrightarrow> f x = f' x) \<Longrightarrow> and_then m f = and_then m' f'"
  by (cases m') auto

text \<open>The classes a handler can name: the exceptions themselves and the standard bases.\<close>

datatype exn_class =
    Daf daf_exception
  | Std_runtime_error
  | Std_logic_error
  | Std_out_of_range
  | Std_invalid_argument
  | Std_length_error
  | Std_exception

fun exn_base :: "exn_class \<Rightarrow> exn_class option" where
  "exn_base (Daf InternalException) = Some Std_runtime_error"
| "exn_base (Daf InitializationException) = Some Std_runtime_error"
| "exn_base (Daf TimeoutException) = Some Std_runtime_error"
| "exn_base (Daf ClassCastException) = Some Std_logic_error"
| "exn_base (Daf IndexOutOfRange) = Some Std_out_of_range"
| "exn_base (Daf ObjectNotExistException) = Some Std_invalid_argument"
| "exn_base (Daf DateTimeException) = Some Std_runtime_error"
| "exn_base (Daf IllegalStateException) = Some Std_runtime_error"
| "exn_base (Daf InvocationTargetException) = Some Std_runtime_error"
| "exn_base (Daf IllegalArgumentException) = Some Std_invalid_argument"
| "exn_base (Daf IllegalLengthException) = Some Std_length_error"
| "exn_base (Daf InterruptedException) = Some (Daf InternalException)"
| "exn_base (Daf LockFailureException) = Some (Daf InternalException)"
| "exn_base (Daf BrokenBarrierException) = Some (Daf InterruptedException)"
| "exn_base (Daf IllegalThreadStateException) = Some (Daf InternalException)"
| "exn_base (Daf ResourceExhaustionException) = Some (Daf InternalException)"
| "exn_base (Daf NotFoundException) = Some (Daf IllegalArgumentException)"
| "exn_base (Daf IllegalPropertyException) = Some (Daf IllegalArgumentException)"
| "exn_base (Daf INV_OBJREF) = Some (Daf ObjectNotExistException)"
| "exn_base Std_out_of_range = Some Std_logic_error"
| "exn_base Std_invalid_argument = Some Std_logic_error"
| "exn_base Std_length_error = Some Std_logic_error"
| "exn_base Std_runtime_error = Some Std_exception"
| "exn_base Std_logic_error = Some Std_exception"
| "exn_base Std_exception = None"

text \<open>The hierarchy is at most five classes deep, so five base steps visit every ancestor.\<close>

primrec exn_is_a_within :: "nat \<Rightarrow> exn_class \<Rightarrow> exn_class \<Rightarrow> bool" where
  "exn_is_a_within 0 c d = (c = d)"
| "exn_is_a_within (Suc n) c d =
     (c = d \<or> (case exn_base c of None \<Rightarrow> False | Some b \<Rightarrow> exn_is_a_within n b d))"

definition catches :: "exn_class \<Rightarrow> daf_exception \<Rightarrow> bool" where
  "catches h e = exn_is_a_within 5 (Daf e) h"

section \<open>Error numbers\<close>

datatype errno = E_NONE | EINTR | ETIME | ENOLCK | EBUSY | EINVAL | ENOEXEC | EEXIST | ENOENT
  | EACCES | E_OTHER int

fun exn_sets_errno :: "daf_exception \<Rightarrow> errno option" where
  "exn_sets_errno TimeoutException = Some ETIME"
| "exn_sets_errno InterruptedException = Some EINTR"
| "exn_sets_errno BrokenBarrierException = Some EINTR"
| "exn_sets_errno LockFailureException = Some ENOLCK"
| "exn_sets_errno _ = None"

section \<open>Deadlines\<close>

definition MSECS_ONE_SECOND :: int where
  "MSECS_ONE_SECOND = 1 * 1000"

definition MSECS_ONE_MINUTE :: int where
  "MSECS_ONE_MINUTE = 60 * MSECS_ONE_SECOND"

definition MSECS_ONE_HOUR :: int where
  "MSECS_ONE_HOUR = 60 * MSECS_ONE_MINUTE"

text \<open>A time value in microseconds: \<open>gettimeofday(msec)\<close> offsets the current time.\<close>

definition gettimeofday_msec :: "int \<Rightarrow> int \<Rightarrow> int" where
  "gettimeofday_msec now msec =
     (if msec \<noteq> 0 then
        let offset = 1000000 * c_div msec 1000 + c_mod msec 1000 * 1000
        in if msec > 0 then now + offset else now - offset
      else now)"

section \<open>Properties\<close>

lemma exn_chain_ends: "((\<lambda>c. Option.bind c exn_base) ^^ 6) (Some (Daf e)) = None"
  by (cases e) (simp_all add: eval_nat_numeral)

lemma c_div_mod_1000: "1000000 * c_div m 1000 + c_mod m 1000 * 1000 = 1000 * m"
  by (simp add: c_mod_def)

lemma gettimeofday_msec_eq: "gettimeofday_msec now msec = now + 1000 * \<bar>msec\<bar>"
  by (auto simp: gettimeofday_msec_def Let_def c_div_mod_1000)

end
