(* ===== verification/Bitset.thy ===== *)
theory Bitset
  imports Exceptions
begin

unbundle bit_operations_syntax

text \<open>
  \<^verbatim>\<open>DAF::Bitset\<close> (\<^verbatim>\<open>daf/Bitset.h\<close>, \<^verbatim>\<open>daf/Bitset.cpp\<close>): a bit sequence of
  arbitrary length packed into bytes, most significant bit first.  The object is a record
  of the bit count and the byte buffer; an empty list is the null buffer.  Operations
  follow the loops of the source (single bits down to a byte boundary, then whole bytes).

  Parameters: \<open>mem n\<close> says whether \<^verbatim>\<open>new BIT_BYTE_type[n]\<close> succeeds; \<open>same\<close> says
  whether the right operand is the object itself, which several operators test.
  \<open>bits_of\<close> abstracts an object to the list of its bits; every operator is shown to
  compute the expected list function.
\<close>

section \<open>Model\<close>

record bitset =
  nbits :: nat
  buffer :: "8 word list"

definition bit_bytes :: "nat \<Rightarrow> nat" where
  "bit_bytes bits = bits div 8 + (if bits mod 8 \<noteq> 0 then 1 else 0)"

definition bit_mask :: "nat \<Rightarrow> 8 word" where
  "bit_mask b = [0x80, 0x40, 0x20, 0x10, 0x08, 0x04, 0x02, 0x01] ! (b mod 8)"

definition Bitset_size :: "bitset \<Rightarrow> nat" where
  "Bitset_size b = bit_bytes (nbits b)"

definition bit_buffer :: "bitset \<Rightarrow> nat \<Rightarrow> nat option outcome" where
  "bit_buffer b off =
     (if nbits b \<noteq> 0 then
        if buffer b \<noteq> [] then
          if off \<ge> Bitset_size b then Throws IndexOutOfRange else Returns (Some off)
        else Returns None
      else Throws IndexOutOfRange)"

definition has_bits :: "bitset \<Rightarrow> bool" where
  "has_bits b = (if nbits b \<noteq> 0 then bit_buffer b 0 \<noteq> Returns None else False)"

text \<open>\<open>bitraits\<close>: one bit of a byte, selected by a mask.\<close>

definition bitraits_and :: "bool \<Rightarrow> 8 word \<Rightarrow> 8 word \<Rightarrow> 8 word" where
  "bitraits_and val byte msk = (if \<not> val then byte AND NOT msk else byte)"

definition bitraits_or :: "bool \<Rightarrow> 8 word \<Rightarrow> 8 word \<Rightarrow> 8 word" where
  "bitraits_or val byte msk = (if val then byte OR msk else byte)"

definition bitraits_xor :: "bool \<Rightarrow> 8 word \<Rightarrow> 8 word \<Rightarrow> 8 word" where
  "bitraits_xor val byte msk =
     (if val then byte XOR msk
      else if byte AND msk \<noteq> 0 then byte
      else byte AND NOT msk)"

definition bitraits_assign :: "bool \<Rightarrow> 8 word \<Rightarrow> 8 word \<Rightarrow> 8 word" where
  "bitraits_assign val byte msk = (if val then byte OR msk else byte AND NOT msk)"

definition bitraits_not :: "8 word \<Rightarrow> 8 word \<Rightarrow> 8 word" where
  "bitraits_not byte msk = byte XOR msk"

definition bitraits_bool :: "8 word \<Rightarrow> 8 word \<Rightarrow> bool" where
  "bitraits_bool byte msk = (byte AND msk \<noteq> 0)"

text \<open>The subscript operators; an \<^verbatim>\<open>int\<close> indexes the array pointer.\<close>

definition byte_index :: "bitset \<Rightarrow> int \<Rightarrow> nat outcome" where
  "byte_index b k =
     (if 0 \<le> k \<and> nat k < length (buffer b) then Returns (nat k) else Undefined)"

definition bit_ref :: "bitset \<Rightarrow> nat \<Rightarrow> (nat \<times> 8 word) outcome" where
  "bit_ref b i =
     (if has_bits b \<and> ace_range 0 (nbits b - 1) i = i
      then and_then (byte_index b (c_int (i div 8))) (\<lambda>k. Returns (k, bit_mask i))
      else Throws IndexOutOfRange)"

definition bit_get :: "bitset \<Rightarrow> nat \<Rightarrow> bool outcome" where
  "bit_get b i =
     (if has_bits b \<and> ace_range 0 (nbits b - 1) i = i
      then and_then (byte_index b (c_int (i div 8)))
             (\<lambda>k. Returns (buffer b ! k AND bit_mask i \<noteq> 0))
      else Throws IndexOutOfRange)"

definition bit_update :: "(8 word \<Rightarrow> 8 word \<Rightarrow> 8 word) \<Rightarrow> bitset \<Rightarrow> nat \<Rightarrow> bitset outcome" where
  "bit_update f b i =
     and_then (bit_ref b i) (\<lambda>(k, msk).
       Returns (b\<lparr>buffer := (buffer b)[k := f (buffer b ! k) msk]\<rparr>))"

definition byte_at :: "bitset \<Rightarrow> nat \<Rightarrow> 8 word outcome" where
  "byte_at b i =
     and_then (bit_buffer b i) (\<lambda>p. case p of
       None \<Rightarrow> Undefined
     | Some k \<Rightarrow> and_then (byte_index b (int k)) (\<lambda>k'. Returns (buffer b ! k')))"

primrec block_mask_loop :: "nat \<Rightarrow> 8 word \<Rightarrow> 8 word" where
  "block_mask_loop 0 m = m"
| "block_mask_loop (Suc b) m = block_mask_loop b (m OR bit_mask b)"

definition trim_bits :: "bitset \<Rightarrow> bitset outcome" where
  "trim_bits b =
     (if nbits b mod 8 \<noteq> 0 then
        and_then (byte_index b (c_int (nbits b div 8))) (\<lambda>k.
          Returns (b\<lparr>buffer :=
            (buffer b)[k := buffer b ! k AND block_mask_loop (nbits b mod 8) 0]\<rparr>))
      else Returns b)"

definition Bitset_new :: "(nat \<Rightarrow> bool) \<Rightarrow> nat \<Rightarrow> bool \<Rightarrow> bitset outcome" where
  "Bitset_new mem bits val =
     (if ace_range 0 INT_MAX (c_int bits) = c_int bits then
        let len = bit_bytes bits in
        if len \<noteq> 0 then
          if mem len then
            let b = \<lparr>nbits = bits, buffer = replicate len (if val then - 1 else 0)\<rparr> in
            if val then trim_bits b else Returns b
          else Throws ResourceExhaustionException
        else Returns \<lparr>nbits = bits, buffer = []\<rparr>
      else Throws IllegalArgumentException)"

definition Bitset_copy :: "(nat \<Rightarrow> bool) \<Rightarrow> bitset \<Rightarrow> bitset outcome" where
  "Bitset_copy mem b =
     (let len = Bitset_size b in
      if len \<noteq> 0 then
        if mem len then
          if buffer b = [] then Undefined
          else Returns \<lparr>nbits = nbits b, buffer = take len (buffer b)\<rparr>
        else Throws ResourceExhaustionException
      else Returns \<lparr>nbits = nbits b, buffer = []\<rparr>)"

definition Bitset_assign :: "(nat \<Rightarrow> bool) \<Rightarrow> bool \<Rightarrow> bitset \<Rightarrow> bitset \<Rightarrow> bitset \<times> unit outcome" where
  "Bitset_assign mem same a b =
     (if \<not> same then
        let len = bit_bytes (nbits b); a1 = a\<lparr>nbits := nbits b\<rparr> in
        if len \<noteq> 0 then
          if mem len then
            if buffer b = [] then (a1, Undefined)
            else (a1\<lparr>buffer := take len (buffer b)\<rparr>, Returns ())
          else (a1\<lparr>buffer := []\<rparr>, Throws ResourceExhaustionException)
        else (a1\<lparr>buffer := []\<rparr>, Returns ())
      else (a, Returns ()))"

fun append_loop :: "bool \<Rightarrow> bitset \<Rightarrow> bitset \<Rightarrow> nat \<Rightarrow> nat \<Rightarrow> nat \<Rightarrow> bitset \<times> unit outcome" where
  "append_loop same a b pos i 0 = (a, Returns ())"
| "append_loop same a b pos i (Suc n) =
     (case bit_get (if same then a else b) i of
        Returns v \<Rightarrow>
          (case bit_update (bitraits_assign v) a pos of
             Returns a' \<Rightarrow> append_loop same a' b (Suc pos) (Suc i) n
           | Throws e \<Rightarrow> (a, Throws e)
           | Undefined \<Rightarrow> (a, Undefined))
      | Throws e \<Rightarrow> (a, Throws e)
      | Undefined \<Rightarrow> (a, Undefined))"

definition Bitset_append :: "(nat \<Rightarrow> bool) \<Rightarrow> bool \<Rightarrow> bitset \<Rightarrow> bitset \<Rightarrow> bitset \<times> unit outcome" where
  "Bitset_append mem same a b =
     (let pos = nbits a in
      if has_bits b then
        let bits = size_add pos (nbits b) in
        if ace_range 0 INT_MAX (c_int bits) \<noteq> c_int bits then (a, Throws IllegalArgumentException)
        else
          let len = bit_bytes bits in
          if len > Bitset_size a \<and> \<not> mem len then (a, Throws ResourceExhaustionException)
          else
            let buf = (if len > Bitset_size a then
                         (if pos \<noteq> 0
                          then take (Bitset_size a) (buffer a)
                                 @ replicate (len - Bitset_size a) 0
                          else replicate len 0)
                       else buffer a);
                a1 = a\<lparr>nbits := bits, buffer := buf\<rparr>
            in (case append_loop same a1 b pos 0 (nbits (if same then a1 else b)) of
                  (a2, Returns _) \<Rightarrow>
                    (case trim_bits a2 of
                       Returns a3 \<Rightarrow> (a3, Returns ())
                     | Throws e \<Rightarrow> (a2, Throws e)
                     | Undefined \<Rightarrow> (a2, Undefined))
                | r \<Rightarrow> r)
      else (a, Returns ()))"

text \<open>
  The loop shared by the three compound operators: single bits while the count is not a
  multiple of eight, then whole bytes.  \<open>start_bit\<close> is the initial loop counter, an
  \<^verbatim>\<open>int\<close>; were it negative the first subscript throws, or the loop breaks at once.
\<close>

fun bitop_loop ::
  "(bool \<Rightarrow> 8 word \<Rightarrow> 8 word \<Rightarrow> 8 word) \<Rightarrow> (8 word \<Rightarrow> 8 word \<Rightarrow> 8 word) \<Rightarrow> bitset \<Rightarrow> bitset \<Rightarrow> nat
     \<Rightarrow> bitset outcome"
where
  "bitop_loop fb fw a b n =
     (if n = 0 then Returns a
      else if n mod 8 \<noteq> 0 then
        and_then (bit_get b (n - 1)) (\<lambda>v.
        and_then (bit_update (fb v) a (n - 1)) (\<lambda>a'.
          bitop_loop fb fw a' b (n - 1)))
      else
        and_then (byte_at a (n div 8 - 1)) (\<lambda>w.
        and_then (byte_at b (n div 8 - 1)) (\<lambda>w'.
          bitop_loop fb fw (a\<lparr>buffer := (buffer a)[n div 8 - 1 := fw w w']\<rparr>) b (n - 8))))"

declare bitop_loop.simps [simp del]

definition bitop_from ::
  "(bool \<Rightarrow> 8 word \<Rightarrow> 8 word \<Rightarrow> 8 word) \<Rightarrow> (8 word \<Rightarrow> 8 word \<Rightarrow> 8 word) \<Rightarrow> bitset \<Rightarrow> bitset \<Rightarrow> bitset outcome"
where
  "bitop_from fb fw a b =
     (let start_bit = c_int (ace_min (nbits a) (nbits b)) in
      if start_bit < 0 then
        if c_mod start_bit 8 \<noteq> 0 then Throws IndexOutOfRange else Returns a
      else bitop_loop fb fw a b (nat start_bit))"

definition Bitset_and :: "bool \<Rightarrow> bitset \<Rightarrow> bitset \<Rightarrow> bitset outcome" where
  "Bitset_and same a b = (if \<not> same then bitop_from bitraits_and (AND) a b else Returns a)"

definition Bitset_or :: "bool \<Rightarrow> bitset \<Rightarrow> bitset \<Rightarrow> bitset outcome" where
  "Bitset_or same a b = (if \<not> same then bitop_from bitraits_or (OR) a b else Returns a)"

definition Bitset_xor :: "bool \<Rightarrow> bitset \<Rightarrow> bitset \<Rightarrow> bitset outcome" where
  "Bitset_xor same a b = (if \<not> same then bitop_from bitraits_xor (XOR) a b else Returns a)"

text \<open>\<open>memcmp\<close> on two byte sequences of the same length, by sign.\<close>

fun memcmp :: "8 word list \<Rightarrow> 8 word list \<Rightarrow> int" where
  "memcmp (x # xs) (y # ys) = (if x < y then - 1 else if y < x then 1 else memcmp xs ys)"
| "memcmp _ _ = 0"

definition Bitset_compare_to :: "bool \<Rightarrow> bitset \<Rightarrow> bitset \<Rightarrow> int" where
  "Bitset_compare_to same a b =
     (if same then 0
      else if nbits a = nbits b \<and> Bitset_size a \<noteq> 0
      then memcmp (take (Bitset_size a) (buffer a)) (take (Bitset_size a) (buffer b))
      else c_int (nat ((int (nbits a) - int (nbits b)) mod 18446744073709551616)))"

fun eq_loop :: "bitset \<Rightarrow> bitset \<Rightarrow> nat \<Rightarrow> bool outcome" where
  "eq_loop a b 0 = Returns True"
| "eq_loop a b (Suc n) =
     (if Suc n mod 8 \<noteq> 0 then
        and_then (bit_get a n) (\<lambda>v.
        and_then (bit_get b n) (\<lambda>w.
          if v \<noteq> w then Returns False else eq_loop a b n))
      else Returns (memcmp (take (Suc n div 8) (buffer a)) (take (Suc n div 8) (buffer b)) = 0))"

definition Bitset_eq :: "bool \<Rightarrow> bitset \<Rightarrow> bitset \<Rightarrow> bool outcome" where
  "Bitset_eq same a b =
     (if Bitset_compare_to same a b \<noteq> 0 then
        let start_bit = c_int (ace_min (nbits a) (nbits b)) in
        if start_bit < 0 then
          if c_mod start_bit 8 \<noteq> 0 then Throws IndexOutOfRange else Returns True
        else eq_loop a b (nat start_bit)
      else Returns True)"

definition Bitset_neq :: "bool \<Rightarrow> bitset \<Rightarrow> bitset \<Rightarrow> bool outcome" where
  "Bitset_neq same a b = and_then (Bitset_eq same a b) (\<lambda>r. Returns (if r then False else True))"

fun subits_loop :: "bitset \<Rightarrow> bitset \<Rightarrow> nat \<Rightarrow> nat \<Rightarrow> nat \<Rightarrow> bitset outcome" where
  "subits_loop src dst i pos 0 = Returns dst"
| "subits_loop src dst i pos (Suc n) =
     and_then (bit_get src pos) (\<lambda>v.
     and_then (bit_update (bitraits_assign v) dst i) (\<lambda>dst'.
       subits_loop src dst' (Suc i) (Suc pos) n))"

definition Bitset_subits :: "(nat \<Rightarrow> bool) \<Rightarrow> bitset \<Rightarrow> int \<Rightarrow> int \<Rightarrow> bitset outcome" where
  "Bitset_subits mem b pos len =
     (if has_bits b \<and> ace_range 0 (c_int (nbits b - 1)) pos = pos then
        let bits = ace_min (nbits b - nat pos) (size_of_int len) in
        and_then (Bitset_new mem bits False) (\<lambda>dst. subits_loop b dst 0 (nat pos) bits)
      else Throws IndexOutOfRange)"

function erase_loop :: "bitset \<Rightarrow> nat \<Rightarrow> nat \<Rightarrow> (bitset \<times> nat) outcome" where
  "erase_loop b pos epos =
     (if nbits b > epos then
        and_then (bit_get b epos) (\<lambda>v.
        and_then (bit_update (bitraits_assign v) b pos) (\<lambda>b'.
          if nbits b' = nbits b then erase_loop b' (Suc pos) (Suc epos) else Undefined))
      else Returns (b, pos))"
  by pat_completeness auto
termination
  by (relation "measure (\<lambda>(b, pos, epos). nbits b - epos)") auto

declare erase_loop.simps [simp del]

definition Bitset_erase :: "bitset \<Rightarrow> int \<Rightarrow> int \<Rightarrow> bitset outcome" where
  "Bitset_erase b pos len =
     (if has_bits b \<and> ace_range 0 (c_int (nbits b - 1)) pos = pos then
        let bits = ace_min (nbits b - nat pos) (size_of_int len) in
        and_then (erase_loop b (nat pos) (nat (c_int (nat pos + bits)))) (\<lambda>(b', p).
          trim_bits (b'\<lparr>nbits := p\<rparr>))
      else Throws IndexOutOfRange)"

primrec flip_loop :: "nat \<Rightarrow> 8 word list \<Rightarrow> 8 word list outcome" where
  "flip_loop 0 buf = Returns buf"
| "flip_loop (Suc i) buf =
     (if i < length buf then flip_loop i (buf[i := buf ! i XOR - 1]) else Undefined)"

definition Bitset_flip :: "bitset \<Rightarrow> bitset outcome" where
  "Bitset_flip b =
     and_then (flip_loop (Bitset_size b) (buffer b)) (\<lambda>buf. trim_bits (b\<lparr>buffer := buf\<rparr>))"

definition Bitset_reset :: "(nat \<Rightarrow> bool) \<Rightarrow> bitset \<Rightarrow> nat \<Rightarrow> bool \<Rightarrow> bitset \<times> unit outcome" where
  "Bitset_reset mem b bits val =
     (if ace_range 0 INT_MAX (c_int bits) = c_int bits then
        let len = bit_bytes bits in
        if len \<noteq> 0 then
          if mem len then
            let b1 = \<lparr>nbits = bits, buffer = replicate len (if val then - 1 else 0)\<rparr> in
            if val then
              (case trim_bits b1 of
                 Returns b2 \<Rightarrow> (b2, Returns ())
               | Throws e \<Rightarrow> (b1, Throws e)
               | Undefined \<Rightarrow> (b1, Undefined))
            else (b1, Returns ())
          else (\<lparr>nbits = 0, buffer = []\<rparr>, Throws ResourceExhaustionException)
        else (\<lparr>nbits = 0, buffer = []\<rparr>, Returns ())
      else (b, Throws IllegalArgumentException))"

text \<open>The free operators of the header, on copies of the left operand.\<close>

definition op_and :: "(nat \<Rightarrow> bool) \<Rightarrow> bitset \<Rightarrow> bitset \<Rightarrow> bitset outcome" where
  "op_and mem l r = and_then (Bitset_copy mem l) (\<lambda>t. Bitset_and False t r)"

definition op_or :: "(nat \<Rightarrow> bool) \<Rightarrow> bitset \<Rightarrow> bitset \<Rightarrow> bitset outcome" where
  "op_or mem l r = and_then (Bitset_copy mem l) (\<lambda>t. Bitset_or False t r)"

definition op_xor :: "(nat \<Rightarrow> bool) \<Rightarrow> bitset \<Rightarrow> bitset \<Rightarrow> bitset outcome" where
  "op_xor mem l r = and_then (Bitset_copy mem l) (\<lambda>t. Bitset_xor False t r)"

definition op_plus :: "(nat \<Rightarrow> bool) \<Rightarrow> bitset \<Rightarrow> bitset \<Rightarrow> bitset outcome" where
  "op_plus mem l r =
     and_then (Bitset_copy mem l) (\<lambda>t.
       case Bitset_append mem False t r of (t', res) \<Rightarrow> and_then res (\<lambda>_. Returns t'))"

definition op_not :: "(nat \<Rightarrow> bool) \<Rightarrow> bitset \<Rightarrow> bitset outcome" where
  "op_not mem b = and_then (Bitset_new mem (nbits b) True) (\<lambda>t. Bitset_xor False t b)"

definition op_lnot :: "(nat \<Rightarrow> bool) \<Rightarrow> bitset \<Rightarrow> bool outcome" where
  "op_lnot mem b =
     and_then (Bitset_new mem (nbits b) False) (\<lambda>t.
     and_then (Bitset_eq False t b) (\<lambda>r. Returns (if r then True else False)))"


section \<open>Abstraction and invariant\<close>

definition bit_of :: "bitset \<Rightarrow> nat \<Rightarrow> bool" where
  "bit_of b i = bit (buffer b ! (i div 8)) (7 - i mod 8)"

definition bits_of :: "bitset \<Rightarrow> bool list" where
  "bits_of b = map (bit_of b) [0..<nbits b]"

text \<open>
  A well-formed object: the count fits an \<^verbatim>\<open>int\<close>, the buffer is large enough, and the
  bits of the last byte beyond the count are clear.
\<close>

definition wf_bitset :: "bitset \<Rightarrow> bool" where
  "wf_bitset b \<longleftrightarrow>
     int (nbits b) \<le> INT_MAX \<and> bit_bytes (nbits b) \<le> length (buffer b) \<and>
     (\<forall>i < 8 * bit_bytes (nbits b). nbits b \<le> i \<longrightarrow> \<not> bit_of b i)"

section \<open>Bytes, masks and subscripts\<close>

lemma bit_bytes_bounds: "n \<le> 8 * bit_bytes n" "8 * bit_bytes n < n + 8"
proof -
  have "n = 8 * (n div 8) + n mod 8" "n mod 8 < 8" by simp_all
  then have "n \<le> 8 * bit_bytes n \<and> 8 * bit_bytes n < n + 8"
    unfolding bit_bytes_def by presburger
  then show "n \<le> 8 * bit_bytes n" "8 * bit_bytes n < n + 8" by simp_all
qed

lemma bit_bytes_0 [simp]: "bit_bytes n = 0 \<longleftrightarrow> n = 0"
  using bit_bytes_bounds [of n] by (auto simp: bit_bytes_def)

lemma bit_bytes_pos [simp]: "0 < bit_bytes n \<longleftrightarrow> 0 < n"
  using bit_bytes_0 [of n] by linarith

lemma div8_less_bit_bytes: "i < n \<Longrightarrow> i div 8 < bit_bytes n"
  using bit_bytes_bounds(1) [of n] by linarith

lemma bit_bytes_mono: "m \<le> n \<Longrightarrow> bit_bytes m \<le> bit_bytes n"
  using bit_bytes_bounds [of m] bit_bytes_bounds [of n] by linarith

lemma div_bit_bytes_exact: "n mod 8 = 0 \<Longrightarrow> bit_bytes n = n div 8"
  by (simp add: bit_bytes_def)

lemma div_bit_bytes_partial: "n mod 8 \<noteq> 0 \<Longrightarrow> bit_bytes n = Suc (n div 8)"
  by (simp add: bit_bytes_def)

lemma mod8_cases: "i mod (8::nat) \<in> {0, 1, 2, 3, 4, 5, 6, 7}"
proof -
  have "i mod 8 < 8" by simp
  then show ?thesis by auto
qed

lemma bit_mask_eq: "bit_mask i = push_bit (7 - i mod 8) 1"
  using mod8_cases [of i] by (auto simp: bit_mask_def)

lemma bit_bit_mask [simp]: "bit (bit_mask i) n \<longleftrightarrow> n = 7 - i mod 8"
  using bit_imp_le_length [of "bit_mask i" n]
  by (auto simp: bit_mask_eq bit_exp_iff)

lemma and_bit_mask_nonzero: "w AND bit_mask i \<noteq> 0 \<longleftrightarrow> bit w (7 - i mod 8)"
proof
  assume "w AND bit_mask i \<noteq> 0"
  then obtain n where "bit (w AND bit_mask i) n" by (auto simp: bit_eq_iff)
  then show "bit w (7 - i mod 8)" by (auto simp: bit_and_iff)
next
  assume "bit w (7 - i mod 8)"
  then have "bit (w AND bit_mask i) (7 - i mod 8)" by (simp add: bit_and_iff)
  then show "w AND bit_mask i \<noteq> 0" by auto
qed

lemma has_bits_iff [simp]: "has_bits b \<longleftrightarrow> nbits b \<noteq> 0 \<and> buffer b \<noteq> []"
  by (auto simp: has_bits_def bit_buffer_def Bitset_size_def)

lemma wf_buffer_nonempty: "wf_bitset b \<Longrightarrow> nbits b \<noteq> 0 \<Longrightarrow> buffer b \<noteq> []"
  by (auto simp: wf_bitset_def)

lemma bit_index_ok:
  assumes "int n \<le> INT_MAX" "bit_bytes n \<le> length (buffer b)" "i < n"
  shows "byte_index b (c_int (i div 8)) = Returns (i div 8)"
proof -
  have "i div 8 < length (buffer b)"
    using div8_less_bit_bytes [OF assms(3)] assms(2) by linarith
  moreover have "c_int (i div 8) = int (i div 8)"
    using assms(1,3) by (intro c_int_small) linarith
  ultimately show ?thesis by (simp add: byte_index_def)
qed

text \<open>The subscript laws hold as soon as the count and the buffer length fit.\<close>

definition bits_fit :: "bitset \<Rightarrow> bool" where
  "bits_fit b \<longleftrightarrow> int (nbits b) \<le> INT_MAX \<and> bit_bytes (nbits b) \<le> length (buffer b)"

lemma wf_bits_fit [simp]: "wf_bitset b \<Longrightarrow> bits_fit b"
  by (simp add: wf_bitset_def bits_fit_def)

lemma bits_fit_subscript: "bits_fit b \<Longrightarrow> i < nbits b \<Longrightarrow> has_bits b \<and> ace_range 0 (nbits b - 1) i = i"
  by (auto simp: bits_fit_def ace_range_def)

lemma bit_get_ok: "bits_fit b \<Longrightarrow> i < nbits b \<Longrightarrow> bit_get b i = Returns (bit_of b i)"
  using bits_fit_subscript [of b i] bit_index_ok [of "nbits b" b i]
  by (simp add: bit_get_def bits_fit_def and_bit_mask_nonzero bit_of_def)

lemma bit_get_out: "nbits b \<le> i \<Longrightarrow> bit_get b i = Throws IndexOutOfRange"
  by (auto simp: bit_get_def ace_range_def)

lemma bit_update_ok:
  "bits_fit b \<Longrightarrow> i < nbits b \<Longrightarrow>
     bit_update f b i =
       Returns (b\<lparr>buffer := (buffer b)[i div 8 := f (buffer b ! (i div 8)) (bit_mask i)]\<rparr>)"
  using bits_fit_subscript [of b i] bit_index_ok [of "nbits b" b i]
  by (simp add: bit_update_def bit_ref_def bits_fit_def)

lemma bit_update_out: "nbits b \<le> i \<Longrightarrow> bit_update f b i = Throws IndexOutOfRange"
  by (auto simp: bit_update_def bit_ref_def ace_range_def)

lemma byte_at_ok: "bits_fit b \<Longrightarrow> i < bit_bytes (nbits b) \<Longrightarrow> byte_at b i = Returns (buffer b ! i)"
  by (cases "nbits b = 0")
    (auto simp: bit_bytes_def [of 0] byte_at_def bit_buffer_def byte_index_def bits_fit_def Bitset_size_def)

section \<open>The shared loop\<close>

text \<open>
  An operator of the loop: a function on one masked bit and a function on whole bytes that
  both act bit by bit as the same boolean function \<open>g\<close>.
\<close>

locale byte_operator =
  fixes fb :: "bool \<Rightarrow> 8 word \<Rightarrow> 8 word \<Rightarrow> 8 word"
    and fw :: "8 word \<Rightarrow> 8 word \<Rightarrow> 8 word"
    and g :: "bool \<Rightarrow> bool \<Rightarrow> bool"
  assumes fb_bit: "n < 8 \<Longrightarrow> bit (fb v w (bit_mask i)) n = (if n = 7 - i mod 8 then g (bit w n) v else bit w n)"
    and fw_bit: "n < 8 \<Longrightarrow> bit (fw w w') n = g (bit w n) (bit w' n)"
begin

lemma bit_of_update_bit:
  assumes "i div 8 < length (buffer a)" "j div 8 < length (buffer a)"
  shows "bit_of (a\<lparr>buffer := (buffer a)[i div 8 := fb v (buffer a ! (i div 8)) (bit_mask i)]\<rparr>) j
           = (if j = i then g (bit_of a i) v else bit_of a j)"
proof -
  have "j = i" if "j div 8 = i div 8" "7 - j mod 8 = 7 - i mod 8"
  proof -
    have "j mod 8 < 8" "i mod 8 < 8" by simp_all
    with that have "j mod 8 = i mod 8" by linarith
    with that(1) show ?thesis by (metis div_mult_mod_eq)
  qed
  with assms show ?thesis by (auto simp: bit_of_def nth_list_update fb_bit)
qed

lemma bit_of_update_byte:
  assumes "k < length (buffer a)" "j div 8 < length (buffer a)"
  shows "bit_of (a\<lparr>buffer := (buffer a)[k := fw (buffer a ! k) (buffer b ! k)]\<rparr>) j
           = (if j div 8 = k then g (bit_of a j) (bit_of b j) else bit_of a j)"
  using assms by (auto simp: bit_of_def nth_list_update fw_bit)

lemma loop_correct:
  assumes "bits_fit a" "bits_fit b" "n \<le> nbits a" "n \<le> nbits b"
  shows "\<exists>a'. bitop_loop fb fw a b n = Returns a' \<and> nbits a' = nbits a \<and>
           length (buffer a') = length (buffer a) \<and>
           (\<forall>j. j div 8 < length (buffer a) \<longrightarrow>
              bit_of a' j = (if j < n then g (bit_of a j) (bit_of b j) else bit_of a j))"
  using assms
proof (induction n arbitrary: a rule: less_induct)
  case (less n)
  consider "n = 0" | "n \<noteq> 0" "n mod 8 \<noteq> 0" | "n \<noteq> 0" "n mod 8 = 0" by blast
  then show ?case
  proof cases
    case 1
    then show ?thesis by (simp add: bitop_loop.simps)
  next
    case 2
    define a' where "a' = a\<lparr>buffer := (buffer a)[(n - 1) div 8 :=
        fb (bit_of b (n - 1)) (buffer a ! ((n - 1) div 8)) (bit_mask (n - 1))]\<rparr>"
    have fit: "bits_fit a'" using less.prems by (simp add: bits_fit_def a'_def)
    have idx: "(n - 1) div 8 < length (buffer a)"
      using less.prems(1,3) 2(1) div8_less_bit_bytes [of "n - 1" "nbits a"]
      by (fastforce simp: bits_fit_def)
    have step: "bitop_loop fb fw a b n = bitop_loop fb fw a' b (n - 1)"
      using less.prems 2
      by (subst bitop_loop.simps) (simp add: bit_get_ok bit_update_ok a'_def)
    have eq: "bit_of a' j = (if j = n - 1 then g (bit_of a j) (bit_of b j) else bit_of a j)"
      if "j div 8 < length (buffer a)" for j
      using bit_of_update_bit [OF idx that] by (auto simp: a'_def)
    have "nbits a' = nbits a" "length (buffer a') = length (buffer a)" by (simp_all add: a'_def)
    with less.IH [of "n - 1" a'] fit 2 less.prems eq step show ?thesis by fastforce
  next
    case 3
    then have n8: "8 \<le> n" and nd: "n = 8 * (n div 8)" by auto
    define k where "k = n div 8 - 1"
    define a' where "a' = a\<lparr>buffer := (buffer a)[k := fw (buffer a ! k) (buffer b ! k)]\<rparr>"
    have kn: "n = 8 * Suc k" using nd n8 by (simp add: k_def)
    have "k < bit_bytes m" if "n \<le> m" for m
      using that kn bit_bytes_bounds(1) [of m] by simp
    then have ka: "k < bit_bytes (nbits a)" and kb: "k < bit_bytes (nbits b)"
      using less.prems(3,4) by blast+
    have idx: "k < length (buffer a)" using ka less.prems(1) by (simp add: bits_fit_def)
    have fit: "bits_fit a'" using less.prems by (simp add: bits_fit_def a'_def)
    have step: "bitop_loop fb fw a b n = bitop_loop fb fw a' b (n - 8)"
      using less.prems 3 ka kb
      by (subst bitop_loop.simps) (simp add: byte_at_ok a'_def k_def)
    have eq: "bit_of a' j = (if j div 8 = k then g (bit_of a j) (bit_of b j) else bit_of a j)"
      if "j div 8 < length (buffer a)" for j
      using bit_of_update_byte [OF idx that] by (simp add: a'_def)
    have "nbits a' = nbits a" "length (buffer a') = length (buffer a)" by (simp_all add: a'_def)
    moreover have "j div 8 = k \<longleftrightarrow> j < n \<and> \<not> j < n - 8" for j using kn by auto
    ultimately show ?thesis using less.IH [of "n - 8" a'] fit n8 less.prems eq step by fastforce
  qed
qed

text \<open>The operator on well-formed operands: pointwise on the common span, the rest kept.\<close>

lemma operator_correct:
  assumes "wf_bitset a" "wf_bitset b"
  shows "\<exists>a'. bitop_from fb fw a b = Returns a' \<and> wf_bitset a' \<and> nbits a' = nbits a \<and>
           bits_of a' = map2 g (bits_of a) (bits_of b) @ drop (nbits b) (bits_of a)"
proof -
  let ?n = "min (nbits a) (nbits b)"
  have "c_int ?n = int ?n" using assms by (intro c_int_small) (auto simp: wf_bitset_def)
  then have start: "bitop_from fb fw a b = bitop_loop fb fw a b ?n"
    by (simp add: bitop_from_def Let_def)
  obtain a' where a': "bitop_loop fb fw a b ?n = Returns a'" "nbits a' = nbits a"
      "length (buffer a') = length (buffer a)"
      "\<And>j. j div 8 < length (buffer a) \<Longrightarrow>
         bit_of a' j = (if j < ?n then g (bit_of a j) (bit_of b j) else bit_of a j)"
    using loop_correct [of a b ?n] assms by auto
  have in_buf: "j div 8 < length (buffer a)" if "j < 8 * bit_bytes (nbits a)" for j
    using that assms(1) by (auto simp: wf_bitset_def)
  have "wf_bitset a'"
    using assms(1) a' in_buf by (auto simp: wf_bitset_def)
  moreover have "bits_of a' = map2 g (bits_of a) (bits_of b) @ drop (nbits b) (bits_of a)"
  proof (rule list_eq_nthI)
    fix i assume "i < length (map2 g (bits_of a) (bits_of b) @ drop (nbits b) (bits_of a))"
    then have i: "i < nbits a" by (auto simp: bits_of_def)
    then have "i div 8 < length (buffer a)"
      using in_buf bit_bytes_bounds(1) [of "nbits a"] by simp
    with i a' show "bits_of a' ! i = (map2 g (bits_of a) (bits_of b) @ drop (nbits b) (bits_of a)) ! i"
      by (auto simp: bits_of_def nth_append)
  qed (auto simp: bits_of_def a')
  ultimately show ?thesis using start a' by auto
qed

end

lemma bit_lt_8: "bit (w :: 8 word) n \<Longrightarrow> n < 8"
  using bit_imp_le_length by fastforce

interpretation and_op: byte_operator bitraits_and "(AND)" "(\<and>)"
  by unfold_locales (auto simp: bitraits_and_def bit_and_iff bit_not_iff)

interpretation or_op: byte_operator bitraits_or "(OR)" "(\<or>)"
  by unfold_locales (auto simp: bitraits_or_def bit_or_iff)

interpretation xor_op: byte_operator bitraits_xor "(XOR)" "(\<noteq>)"
  by unfold_locales
    (auto simp: bitraits_xor_def bit_and_iff bit_not_iff bit_xor_iff and_bit_mask_nonzero)

text \<open>Assignment of one bit acts as "take the new value"; its byte part is never used.\<close>

interpretation assign_op: byte_operator bitraits_assign "\<lambda>w w'. w'" "\<lambda>old new. new"
  by unfold_locales (auto simp: bitraits_assign_def bit_and_iff bit_or_iff bit_not_iff)

section \<open>Trimming, construction and single-bit assignment\<close>

lemma wf_bitsetI:
  "bits_fit b \<Longrightarrow> (\<And>i. i < 8 * bit_bytes (nbits b) \<Longrightarrow> nbits b \<le> i \<Longrightarrow> \<not> bit_of b i) \<Longrightarrow> wf_bitset b"
  by (auto simp: wf_bitset_def bits_fit_def)

lemma bits_of_eqI:
  "nbits a = length xs \<Longrightarrow> (\<And>i. i < nbits a \<Longrightarrow> bit_of a i = xs ! i) \<Longrightarrow> bits_of a = xs"
  by (rule list_eq_nthI) (auto simp: bits_of_def)

lemma length_bits_of [simp]: "length (bits_of b) = nbits b"
  by (simp add: bits_of_def)

lemma nth_bits_of [simp]: "i < nbits b \<Longrightarrow> bits_of b ! i = bit_of b i"
  by (simp add: bits_of_def)

lemma bit_div_in_buffer: "bits_fit b \<Longrightarrow> i < nbits b \<Longrightarrow> i div 8 < length (buffer b)"
  using div8_less_bit_bytes [of i "nbits b"] by (auto simp: bits_fit_def)

lemma bit_block_mask_loop:
  "k \<le> 8 \<Longrightarrow> bit (block_mask_loop k m) n \<longleftrightarrow> bit m n \<or> (\<exists>i<k. n = 7 - i)"
proof (induction k arbitrary: m)
  case 0
  then show ?case by simp
next
  case (Suc k)
  then have "k mod 8 = k" by simp
  with Suc show ?case by (auto simp: bit_or_iff less_Suc_eq)
qed

lemma trim_bits_correct:
  assumes "bits_fit b"
  shows "\<exists>b'. trim_bits b = Returns b' \<and> nbits b' = nbits b \<and>
           length (buffer b') = length (buffer b) \<and> wf_bitset b' \<and>
           (\<forall>j < nbits b. bit_of b' j = bit_of b j)"
proof (cases "nbits b mod 8 = 0")
  case True
  then have "wf_bitset b"
    using assms div_bit_bytes_exact [OF True] by (intro wf_bitsetI) auto
  with True show ?thesis by (auto simp: trim_bits_def)
next
  case False
  let ?k = "nbits b div 8" and ?m = "block_mask_loop (nbits b mod 8) 0"
  define b' where "b' = b\<lparr>buffer := (buffer b)[?k := buffer b ! ?k AND ?m]\<rparr>"
  have k: "?k < length (buffer b)"
    using assms div_bit_bytes_partial [OF False] by (auto simp: bits_fit_def)
  have "c_int ?k = int ?k"
    using assms by (intro c_int_small) (simp only: bits_fit_def, linarith)
  with k False have trim: "trim_bits b = Returns b'"
    by (simp add: trim_bits_def byte_index_def b'_def)
  have mask: "bit ?m (7 - j mod 8) \<longleftrightarrow> j mod 8 < nbits b mod 8" for j
  proof -
    have lt: "j mod 8 < 8" "nbits b mod 8 < 8" by simp_all
    have "j mod 8 < nbits b mod 8" if "i < nbits b mod 8" "7 - j mod 8 = 7 - i" for i
      using that lt by linarith
    then have "(\<exists>i < nbits b mod 8. 7 - j mod 8 = 7 - i) \<longleftrightarrow> j mod 8 < nbits b mod 8" by blast
    then show ?thesis by (simp add: bit_block_mask_loop)
  qed
  have in_last: "j mod 8 < nbits b mod 8 \<longleftrightarrow> j < nbits b" if "j div 8 = ?k" for j
    using that by (metis div_mult_mod_eq nat_add_left_cancel_less)
  have bit': "bit_of b' j \<longleftrightarrow> bit_of b j \<and> (j div 8 = ?k \<longrightarrow> j < nbits b)"
    if "j div 8 < length (buffer b)" for j
    using that k mask [of j] in_last [of j]
    by (auto simp: bit_of_def b'_def nth_list_update bit_and_iff)
  have "wf_bitset b'"
  proof (rule wf_bitsetI)
    show "bits_fit b'" using assms by (simp add: bits_fit_def b'_def)
  next
    fix j assume j: "j < 8 * bit_bytes (nbits b')" "nbits b' \<le> j"
    then have "j div 8 = ?k"
      using div_bit_bytes_partial [OF False] by (simp add: b'_def)
    with j k bit' [of j] show "\<not> bit_of b' j" by (simp add: b'_def)
  qed
  moreover have "\<forall>j < nbits b. bit_of b' j = bit_of b j"
    using bit' bit_div_in_buffer [OF assms] by simp
  ultimately show ?thesis using trim by (auto simp: b'_def)
qed

lemma put_bit_correct:
  assumes "bits_fit a" "i < nbits a"
  shows "\<exists>a'. bit_update (bitraits_assign v) a i = Returns a' \<and> nbits a' = nbits a \<and>
           length (buffer a') = length (buffer a) \<and> bits_fit a' \<and>
           (\<forall>j. j div 8 < length (buffer a) \<longrightarrow> bit_of a' j = (if j = i then v else bit_of a j))"
  using bit_update_ok [OF assms] assign_op.bit_of_update_bit [of i a] bit_div_in_buffer [OF assms]
    assms(1)
  by (auto simp: bits_fit_def)

lemma bits_of_replicate:
  "nbits b = n \<Longrightarrow> (\<And>j. j < n \<Longrightarrow> bit_of b j = v) \<Longrightarrow> bits_of b = replicate n v"
  by (rule bits_of_eqI) auto

lemma new_correct:
  assumes "int n \<le> INT_MAX" "mem (bit_bytes n)"
  shows "\<exists>b. Bitset_new mem n v = Returns b \<and> wf_bitset b \<and> bits_of b = replicate n v"
proof -
  define b where "b = \<lparr>nbits = n, buffer = replicate (bit_bytes n) (if v then - 1 else 0 :: 8 word)\<rparr>"
  have fit: "bits_fit b" using assms(1) by (simp add: bits_fit_def b_def)
  have bit: "bit_of b j = v" if "j < n" for j
    using that div8_less_bit_bytes [of j n] by (auto simp: bit_of_def b_def bit_minus_1_iff)
  have rng: "ace_range 0 INT_MAX (c_int n) = c_int n"
    using assms(1) by (simp add: ace_range_eq_iff c_int_small INT_MAX_def)
  show ?thesis
  proof (cases v)
    case True
    obtain b' where "trim_bits b = Returns b'" "nbits b' = nbits b" "wf_bitset b'"
        "\<forall>j < nbits b. bit_of b' j = bit_of b j"
      using trim_bits_correct [OF fit] by blast
    moreover from this bit have "bits_of b' = replicate n v"
      by (intro bits_of_replicate) (auto simp: b_def)
    ultimately show ?thesis
      using rng assms(2) True by (cases "n = 0") (auto simp: Bitset_new_def Let_def b_def trim_bits_def bit_bytes_def)
  next
    case False
    have "wf_bitset b"
    proof (rule wf_bitsetI [OF fit])
      fix i assume "i < 8 * bit_bytes (nbits b)"
      then have "i div 8 < bit_bytes n" by (simp add: b_def less_mult_imp_div_less mult.commute)
      with False show "\<not> bit_of b i" by (simp add: bit_of_def b_def)
    qed
    moreover have "bits_of b = replicate n v"
      using bit by (intro bits_of_replicate) (auto simp: b_def)
    ultimately show ?thesis
      using rng assms(2) False by (cases "n = 0") (auto simp: Bitset_new_def Let_def b_def bit_bytes_def)
  qed
qed

section \<open>Copying loops\<close>

lemma subits_loop_correct:
  assumes "bits_fit src" "bits_fit dst" "pos + n \<le> nbits src" "i + n \<le> nbits dst"
  shows "\<exists>d. subits_loop src dst i pos n = Returns d \<and> nbits d = nbits dst \<and>
           length (buffer d) = length (buffer dst) \<and> bits_fit d \<and>
           (\<forall>j. j div 8 < length (buffer dst) \<longrightarrow>
              bit_of d j = (if i \<le> j \<and> j < i + n then bit_of src (pos + (j - i)) else bit_of dst j))"
  using assms
proof (induction n arbitrary: dst i pos)
  case 0
  then show ?case by auto
next
  case (Suc n)
  obtain d1 where d1: "bit_update (bitraits_assign (bit_of src pos)) dst i = Returns d1"
      "nbits d1 = nbits dst" "length (buffer d1) = length (buffer dst)" "bits_fit d1"
      "\<And>j. j div 8 < length (buffer dst) \<Longrightarrow> bit_of d1 j = (if j = i then bit_of src pos else bit_of dst j)"
    using put_bit_correct [of dst i "bit_of src pos"] Suc.prems by auto
  obtain d where d: "subits_loop src d1 (Suc i) (Suc pos) n = Returns d" "nbits d = nbits dst"
      "length (buffer d) = length (buffer dst)" "bits_fit d"
      "\<And>j. j div 8 < length (buffer dst) \<Longrightarrow>
         bit_of d j = (if Suc i \<le> j \<and> j < Suc i + n then bit_of src (Suc pos + (j - Suc i)) else bit_of d1 j)"
    using Suc.IH [of d1 "Suc pos" "Suc i"] Suc.prems d1 by auto
  have "bit_of d j = (if i \<le> j \<and> j < i + Suc n then bit_of src (pos + (j - i)) else bit_of dst j)"
    if "j div 8 < length (buffer dst)" for j
    using d(5) [OF that] d1(5) [OF that] by (auto simp: Suc_diff_Suc)
  then show ?case using Suc.prems d1 d by (auto simp: bit_get_ok)
qed

lemma append_loop_eq_subits_loop:
  assumes "bits_fit b" "bits_fit a" "i + n \<le> nbits b" "pos + n \<le> nbits a"
  shows "\<exists>d. append_loop False a b pos i n = (d, Returns ()) \<and> subits_loop b a pos i n = Returns d"
  using assms
proof (induction n arbitrary: a i pos)
  case 0
  then show ?case by simp
next
  case (Suc n)
  obtain a1 where a1: "bit_update (bitraits_assign (bit_of b i)) a pos = Returns a1"
      "nbits a1 = nbits a" "bits_fit a1"
    using put_bit_correct [of a pos "bit_of b i"] Suc.prems by auto
  with Suc.IH [of a1 "Suc i" "Suc pos"] Suc.prems show ?case by (auto simp: bit_get_ok)
qed

lemma append_self_loop_throws:
  assumes "bits_fit a" "i < pos" "pos \<le> nbits a" "nbits a < pos + n"
  shows "snd (append_loop True a b pos i n) = Throws IndexOutOfRange"
  using assms
proof (induction n arbitrary: a i pos)
  case 0
  then show ?case by simp
next
  case (Suc n)
  have get: "bit_get a i = Returns (bit_of a i)" using Suc.prems by (simp add: bit_get_ok)
  show ?case
  proof (cases "pos = nbits a")
    case True
    then show ?thesis by (simp add: get bit_update_out)
  next
    case False
    then obtain a1 where "bit_update (bitraits_assign (bit_of a i)) a pos = Returns a1"
        "nbits a1 = nbits a" "bits_fit a1"
      using put_bit_correct [of a pos "bit_of a i"] Suc.prems by auto
    then show ?thesis using Suc.IH [of a1 "Suc i" "Suc pos"] Suc.prems False by (simp add: get)
  qed
qed

lemma erase_loop_correct:
  assumes "bits_fit b" "pos \<le> epos" "epos \<le> nbits b"
  shows "\<exists>b'. erase_loop b pos epos = Returns (b', pos + (nbits b - epos)) \<and> nbits b' = nbits b \<and>
           bits_fit b' \<and> length (buffer b') = length (buffer b) \<and>
           (\<forall>j < nbits b. bit_of b' j =
              (if pos \<le> j \<and> j < pos + (nbits b - epos) then bit_of b (epos + (j - pos)) else bit_of b j))"
  using assms
proof (induction "nbits b - epos" arbitrary: b pos epos)
  case 0
  then show ?case by (auto simp: erase_loop.simps)
next
  case (Suc n)
  have lt: "epos < nbits b" using Suc.hyps(2) by simp
  obtain b1 where b1: "bit_update (bitraits_assign (bit_of b epos)) b pos = Returns b1"
      "nbits b1 = nbits b" "length (buffer b1) = length (buffer b)" "bits_fit b1"
      "\<And>j. j div 8 < length (buffer b) \<Longrightarrow> bit_of b1 j = (if j = pos then bit_of b epos else bit_of b j)"
    using put_bit_correct [of b pos "bit_of b epos"] Suc.prems lt by auto
  have bit1: "bit_of b1 j = (if j = pos then bit_of b epos else bit_of b j)" if "j < nbits b" for j
    using b1(5) bit_div_in_buffer [OF Suc.prems(1) that] by simp
  have step: "erase_loop b pos epos = erase_loop b1 (Suc pos) (Suc epos)"
    using lt Suc.prems b1 by (subst erase_loop.simps) (simp add: bit_get_ok)
  have rest: "n = nbits b1 - Suc epos" using Suc.hyps(2) b1(2) by simp
  obtain b' where b': "erase_loop b1 (Suc pos) (Suc epos) = Returns (b', Suc pos + (nbits b - Suc epos))"
      "nbits b' = nbits b" "bits_fit b'" "length (buffer b') = length (buffer b)"
      "\<And>j. j < nbits b \<Longrightarrow> bit_of b' j =
         (if Suc pos \<le> j \<and> j < Suc pos + (nbits b - Suc epos) then bit_of b1 (Suc epos + (j - Suc pos)) else bit_of b1 j)"
    using Suc.hyps(1) [of b1 "Suc epos" "Suc pos"] rest Suc.prems lt b1(2-4) by auto
  have "bit_of b' j = (if pos \<le> j \<and> j < pos + (nbits b - epos) then bit_of b (epos + (j - pos)) else bit_of b j)"
    if "j < nbits b" for j
    using b'(5) [OF that] bit1 [OF that] bit1 [of "Suc epos + (j - Suc pos)"] lt Suc.prems(2) that
    by (auto simp: Suc_diff_Suc)
  then show ?case using step b' lt by auto
qed

section \<open>Operations on well-formed objects\<close>

lemma wf_nbits_le: "wf_bitset b \<Longrightarrow> int (nbits b) \<le> INT_MAX"
  by (simp add: wf_bitset_def)

lemma copy_correct:
  assumes "wf_bitset b" "mem (Bitset_size b)"
  shows "\<exists>c. Bitset_copy mem b = Returns c \<and> wf_bitset c \<and> nbits c = nbits b \<and> bits_of c = bits_of b"
proof (cases "nbits b = 0")
  case True
  then show ?thesis
    by (auto simp: Bitset_copy_def Bitset_size_def bit_bytes_def wf_bitset_def bits_of_def INT_MAX_def)
next
  case False
  define c where "c = \<lparr>nbits = nbits b, buffer = take (bit_bytes (nbits b)) (buffer b)\<rparr>"
  have len: "bit_bytes (nbits b) \<le> length (buffer b)" using assms(1) by (simp add: wf_bitset_def)
  have bit: "bit_of c j = bit_of b j" if "j < 8 * bit_bytes (nbits b)" for j
    using that by (auto simp: bit_of_def c_def)
  have "wf_bitset c"
    using assms(1) bit len by (auto simp: wf_bitset_def c_def)
  moreover have "bits_of c = bits_of b"
    using bit bit_bytes_bounds(1) [of "nbits b"] by (intro bits_of_eqI) (auto simp: c_def)
  moreover have "Bitset_copy mem b = Returns c"
    using assms False wf_buffer_nonempty [OF assms(1) False]
    by (simp add: Bitset_copy_def Bitset_size_def c_def)
  ultimately show ?thesis by (auto simp: c_def)
qed

lemma append_correct:
  assumes "wf_bitset a" "wf_bitset b" "int (nbits a + nbits b) \<le> INT_MAX"
    "mem (bit_bytes (nbits a + nbits b))"
  shows "\<exists>r. Bitset_append mem False a b = (r, Returns ()) \<and> wf_bitset r \<and>
           bits_of r = bits_of a @ bits_of b"
proof (cases "nbits b = 0")
  case True
  then show ?thesis using assms(1) by (auto simp: Bitset_append_def Let_def bits_of_def)
next
  case False
  let ?n = "nbits a + nbits b"
  define buf where "buf = (if bit_bytes ?n > Bitset_size a then
      (if nbits a \<noteq> 0 then take (Bitset_size a) (buffer a) @ replicate (bit_bytes ?n - Bitset_size a) 0
       else replicate (bit_bytes ?n) 0) else buffer a)"
  define a1 where "a1 = a\<lparr>nbits := ?n, buffer := buf\<rparr>"
  have la: "Bitset_size a \<le> length (buffer a)" using assms(1) by (simp add: wf_bitset_def Bitset_size_def)
  have fit1: "bits_fit a1"
    using la assms(1,3) bit_bytes_mono [of "nbits a" ?n]
    by (auto simp: bits_fit_def a1_def buf_def Bitset_size_def wf_bitset_def)
  have bit1: "bit_of a1 j = bit_of a j" if "j < nbits a" for j
    using that la div8_less_bit_bytes [OF that]
    by (auto simp: bit_of_def a1_def buf_def Bitset_size_def nth_append)
  have hb: "has_bits b" using False wf_buffer_nonempty [OF assms(2) False] by simp
  have sum: "size_add (nbits a) (nbits b) = ?n"
    using assms(3) by (intro size_add_small) (simp add: INT_MAX_def)
  have rng: "ace_range 0 INT_MAX (c_int ?n) = c_int ?n"
    using assms(3) by (simp add: ace_range_eq_iff c_int_small INT_MAX_def)
  obtain d where d: "append_loop False a1 b (nbits a) 0 (nbits b) = (d, Returns ())"
      "nbits d = ?n" "bits_fit d"
      "\<And>j. j < ?n \<Longrightarrow> bit_of d j = (if nbits a \<le> j then bit_of b (j - nbits a) else bit_of a1 j)"
    using append_loop_eq_subits_loop [of b a1 0 "nbits b" "nbits a"]
      subits_loop_correct [of b a1 0 "nbits b" "nbits a"] fit1 assms(2) bit_div_in_buffer [OF fit1]
    by (fastforce simp: a1_def)
  obtain r where r: "trim_bits d = Returns r" "nbits r = ?n" "wf_bitset r"
      "\<forall>j < ?n. bit_of r j = bit_of d j"
    using trim_bits_correct [OF d(3)] d(2) by auto
  have "Bitset_append mem False a b = (r, Returns ())"
    using hb sum rng assms(4) d(1) r(1)
    by (simp add: Bitset_append_def Let_def buf_def [symmetric] a1_def [symmetric])
  moreover have "bits_of r = bits_of a @ bits_of b"
    using r d(4) bit1 by (intro bits_of_eqI) (auto simp: nth_append)
  ultimately show ?thesis using r(3) by blast
qed

lemma subits_correct:
  assumes "wf_bitset b" "0 \<le> pos" "nat pos < nbits b"
    "mem (bit_bytes (min (nbits b - nat pos) (size_of_int len)))"
  shows "\<exists>r. Bitset_subits mem b pos len = Returns r \<and> bits_fit r \<and>
           bits_of r = take (size_of_int len) (drop (nat pos) (bits_of b))"
proof -
  let ?n = "min (nbits b - nat pos) (size_of_int len)"
  have nb: "int (nbits b) \<le> INT_MAX" using assms(1) by (rule wf_nbits_le)
  have "?n \<le> nbits b" by simp
  then have nn: "int ?n \<le> INT_MAX" using nb by (meson of_nat_mono order_trans)
  obtain dst where dst: "Bitset_new mem ?n False = Returns dst" "wf_bitset dst"
      "bits_of dst = replicate ?n False"
    using new_correct [OF nn, of mem False] assms(4) by blast
  have pn: "nat pos + ?n \<le> nbits b" using assms(3) by simp
  have nd: "nbits dst = ?n" using arg_cong [OF dst(3), of length] by simp
  obtain d where d: "subits_loop b dst 0 (nat pos) ?n = Returns d" "nbits d = ?n" "bits_fit d"
      "\<And>j. j div 8 < length (buffer dst) \<Longrightarrow>
         bit_of d j = (if 0 \<le> j \<and> j < 0 + ?n then bit_of b (nat pos + (j - 0)) else bit_of dst j)"
    using subits_loop_correct [of b dst "nat pos" ?n 0] wf_bits_fit [OF assms(1)]
      wf_bits_fit [OF dst(2)] nd pn by auto
  have lt: "pos < int (nbits b)" using assms(2,3) by simp
  have "has_bits b" using assms(3) wf_buffer_nonempty [OF assms(1)] by auto
  moreover have "c_int (nbits b - 1) = int (nbits b) - 1"
    using nb assms(3) by (subst c_int_small) auto
  ultimately have "Bitset_subits mem b pos len = Returns d"
    using assms(2) lt dst(1) d(1) by (simp add: Bitset_subits_def Let_def ace_range_eq_iff)
  moreover have "bits_of d = take (size_of_int len) (drop (nat pos) (bits_of b))"
  proof (rule bits_of_eqI)
    fix i assume i: "i < nbits d"
    then have "i div 8 < length (buffer dst)"
      using bit_div_in_buffer [OF wf_bits_fit [OF dst(2)]] nd d(2) by simp
    with i d(2,4) assms(3) show "bit_of d i = take (size_of_int len) (drop (nat pos) (bits_of b)) ! i"
      by (simp add: less_diff_conv add.commute)
  qed (simp add: d(2))
  ultimately show ?thesis using d(3) by blast
qed

lemma erase_correct:
  assumes "wf_bitset b" "0 \<le> pos" "nat pos < nbits b"
  shows "\<exists>r. Bitset_erase b pos len = Returns r \<and> wf_bitset r \<and>
           bits_of r = take (nat pos) (bits_of b) @ drop (nat pos + size_of_int len) (bits_of b)"
proof -
  let ?p = "nat pos"
  let ?k = "min (nbits b - ?p) (size_of_int len)"
  have nb: "int (nbits b) \<le> INT_MAX" using assms(1) by (rule wf_nbits_le)
  have epos: "nat (c_int (?p + ?k)) = ?p + ?k"
    using nb assms(3) by (subst c_int_small) auto
  have ek: "?p + ?k \<le> nbits b" using assms(3) by auto
  obtain b' where b': "erase_loop b ?p (?p + ?k) = Returns (b', ?p + (nbits b - (?p + ?k)))"
      "nbits b' = nbits b" "bits_fit b'" "length (buffer b') = length (buffer b)"
      "\<And>j. j < nbits b \<Longrightarrow> bit_of b' j =
        (if ?p \<le> j \<and> j < ?p + (nbits b - (?p + ?k)) then bit_of b (?p + ?k + (j - ?p)) else bit_of b j)"
    using erase_loop_correct [of b ?p "?p + ?k"] assms(1) ek by auto
  define m where "m = ?p + (nbits b - (?p + ?k))"
  have m: "m \<le> nbits b" "m = nbits b - ?k" using ek by (auto simp: m_def)
  have fit: "bits_fit (b'\<lparr>nbits := m\<rparr>)"
    using b'(2,3,4) m(1) nb bit_bytes_mono [OF m(1)] by (simp add: bits_fit_def)
  obtain r where r: "trim_bits (b'\<lparr>nbits := m\<rparr>) = Returns r" "nbits r = m" "wf_bitset r"
      "\<And>j. j < m \<Longrightarrow> bit_of r j = bit_of (b'\<lparr>nbits := m\<rparr>) j"
    using trim_bits_correct [OF fit] by auto
  have same: "bit_of (b'\<lparr>nbits := m\<rparr>) j = bit_of b' j" for j by (simp add: bit_of_def)
  have lt: "pos < int (nbits b)" using assms(2,3) by simp
  have "has_bits b" using assms(3) wf_buffer_nonempty [OF assms(1)] by auto
  moreover have "c_int (nbits b - 1) = int (nbits b) - 1"
    using nb assms(3) by (subst c_int_small) auto
  ultimately have "Bitset_erase b pos len = Returns r"
    using assms(2) lt epos b'(1) r(1) by (simp add: Bitset_erase_def Let_def ace_range_eq_iff m_def)
  moreover have "bits_of r = take ?p (bits_of b) @ drop (?p + size_of_int len) (bits_of b)"
  proof (rule bits_of_eqI)
    show "nbits r = length (take ?p (bits_of b) @ drop (?p + size_of_int len) (bits_of b))"
      using r(2) m(2) assms(3) by (auto simp: min_def)
  next
    fix i assume "i < nbits r"
    with r(2) have i: "i < m" by simp
    with m have im: "i < nbits b" by simp
    have "bit_of r i = (if ?p \<le> i then bit_of b (?p + ?k + (i - ?p)) else bit_of b i)"
      using r(4) [OF i] same [of i] b'(5) [OF im] i by (auto simp: m_def)
    then show "bit_of r i = (take ?p (bits_of b) @ drop (?p + size_of_int len) (bits_of b)) ! i"
      using i m assms(3) by (auto simp: nth_append min_def add.commute split: if_splits)
  qed
  ultimately show ?thesis using r(3) by blast
qed

lemma flip_loop_eq:
  "k \<le> length buf \<Longrightarrow> flip_loop k buf = Returns (map (\<lambda>w. w XOR - 1) (take k buf) @ drop k buf)"
proof (induction k arbitrary: buf)
  case 0
  then show ?case by simp
next
  case (Suc k)
  then show ?case
    by (auto simp: take_Suc_conv_app_nth Cons_nth_drop_Suc [symmetric])
qed

lemma flip_correct:
  assumes "wf_bitset b"
  shows "\<exists>r. Bitset_flip b = Returns r \<and> wf_bitset r \<and> bits_of r = map Not (bits_of b)"
proof -
  let ?k = "bit_bytes (nbits b)"
  define c where "c = b\<lparr>buffer := map (\<lambda>w. w XOR - 1) (take ?k (buffer b)) @ drop ?k (buffer b)\<rparr>"
  have len: "?k \<le> length (buffer b)" using assms by (simp add: wf_bitset_def)
  have fit: "bits_fit c" using assms len by (simp add: bits_fit_def c_def wf_bitset_def)
  obtain r where r: "trim_bits c = Returns r" "nbits r = nbits b" "wf_bitset r"
      "\<forall>j < nbits b. bit_of r j = bit_of c j"
    using trim_bits_correct [OF fit] by (auto simp: c_def)
  have bit: "bit_of c j = (\<not> bit_of b j)" if "j < nbits b" for j
    using div8_less_bit_bytes [OF that] len
    by (auto simp: bit_of_def c_def nth_append bit_not_iff)
  have "Bitset_flip b = Returns r"
    using flip_loop_eq [OF len] r(1) by (simp add: Bitset_flip_def Bitset_size_def c_def)
  moreover have "bits_of r = map Not (bits_of b)"
    using r bit by (intro bits_of_eqI) auto
  ultimately show ?thesis using r(3) by blast
qed

section \<open>Comparison\<close>

lemma memcmp_0_iff: "length xs = length ys \<Longrightarrow> memcmp xs ys = 0 \<longleftrightarrow> xs = ys"
  by (induction xs ys rule: memcmp.induct) auto

lemma bytes_eq_iff:
  assumes "k \<le> length (buffer a)" "k \<le> length (buffer b)"
  shows "take k (buffer a) = take k (buffer b) \<longleftrightarrow> (\<forall>j < 8 * k. bit_of a j = bit_of b j)"
proof
  assume eq: "take k (buffer a) = take k (buffer b)"
  have "buffer a ! i = buffer b ! i" if "i < k" for i
    using arg_cong [OF eq, of "\<lambda>xs. xs ! i"] that by simp
  then show "\<forall>j < 8 * k. bit_of a j = bit_of b j"
    by (simp add: bit_of_def less_mult_imp_div_less mult.commute)
next
  assume all: "\<forall>j < 8 * k. bit_of a j = bit_of b j"
  show "take k (buffer a) = take k (buffer b)"
  proof (rule list_eq_nthI)
    fix i assume "i < length (take k (buffer b))"
    then have i: "i < k" by simp
    have "buffer a ! i = buffer b ! i"
    proof (rule bit_word_eqI)
      fix n assume "n < LENGTH(8)"
      then have n: "n < 8" by simp
      define m where "m = 7 - n"
      have m: "m < 8" "7 - m = n" using n by (auto simp: m_def)
      then have "bit_of a (8 * i + m) = bit_of b (8 * i + m)" using i all by simp
      then show "bit (buffer a ! i) n = bit (buffer b ! i) n"
        using m by (simp add: bit_of_def)
    qed
    then show "take k (buffer a) ! i = take k (buffer b) ! i" using i by simp
  qed (use assms in simp)
qed

lemma memcmp_bytes_0_iff:
  assumes "k \<le> length (buffer a)" "k \<le> length (buffer b)"
  shows "memcmp (take k (buffer a)) (take k (buffer b)) = 0 \<longleftrightarrow> (\<forall>j < 8 * k. bit_of a j = bit_of b j)"
  using memcmp_0_iff [of "take k (buffer a)" "take k (buffer b)"] bytes_eq_iff [OF assms] assms
  by simp

lemma c_int_size_diff:
  assumes "int a \<le> INT_MAX" "int b \<le> INT_MAX"
  shows "c_int (nat ((int a - int b) mod 18446744073709551616)) = int a - int b"
proof (cases "b \<le> a")
  case True
  then have "(int a - int b) mod 18446744073709551616 = int a - int b"
    using assms by (simp add: INT_MAX_def)
  then show ?thesis using True assms by (simp add: c_int_small)
next
  case False
  have rng: "- 2147483648 < int a - int b" "int a - int b < 0"
    using False assms by (simp_all add: INT_MAX_def)
  have "(int a - int b) mod 18446744073709551616
      = (int a - int b + 18446744073709551616) mod 18446744073709551616" by simp
  also have "\<dots> = int a - int b + 18446744073709551616"
    using rng by (intro mod_pos_pos_trivial) auto
  finally have "(int a - int b) mod 18446744073709551616 = int a - int b + 18446744073709551616" .
  moreover have "(int a - int b + 18446744073709551616) mod 4294967296
      = (int a - int b + 4294967296 + 4294967295 * 4294967296) mod 4294967296"
    by (simp add: add.commute)
  moreover have "\<dots> = int a - int b + 4294967296"
    using rng by (subst mod_mult_self1) (intro mod_pos_pos_trivial, auto)
  ultimately show ?thesis using False assms by (simp add: c_int_def INT_MAX_def Let_def)
qed

lemma compare_0_iff:
  assumes "wf_bitset a" "wf_bitset b"
  shows "Bitset_compare_to False a b = 0 \<longleftrightarrow> bits_of a = bits_of b"
proof (cases "nbits a = nbits b")
  case False
  then have "bits_of a \<noteq> bits_of b" by (metis length_bits_of)
  with False assms show ?thesis
    by (simp add: Bitset_compare_to_def c_int_size_diff wf_nbits_le)
next
  case True
  let ?k = "bit_bytes (nbits a)"
  have len: "?k \<le> length (buffer a)" "?k \<le> length (buffer b)"
    using assms True by (simp_all add: wf_bitset_def)
  have tail: "\<not> bit_of a j" "\<not> bit_of b j" if "nbits a \<le> j" "j < 8 * ?k" for j
    using assms True that by (auto simp: wf_bitset_def)
  have "(\<forall>j < 8 * ?k. bit_of a j = bit_of b j) \<longleftrightarrow> (\<forall>j < nbits a. bit_of a j = bit_of b j)"
    using tail bit_bytes_bounds(1) [of "nbits a"] by (meson less_le_trans not_less)
  also have "\<dots> \<longleftrightarrow> bits_of a = bits_of b"
    using True by (auto simp: list_eq_iff_nth_eq)
  finally have eq: "(\<forall>j < 8 * ?k. bit_of a j = bit_of b j) \<longleftrightarrow> bits_of a = bits_of b" .
  show ?thesis
  proof (cases "nbits a = 0")
    case True
    with \<open>nbits a = nbits b\<close> show ?thesis
      by (simp add: Bitset_compare_to_def Bitset_size_def c_int_def bits_of_def)
  next
    case False
    then show ?thesis
      using \<open>nbits a = nbits b\<close> memcmp_bytes_0_iff [OF len] eq
      by (simp add: Bitset_compare_to_def Bitset_size_def)
  qed
qed

lemma eq_loop_correct:
  assumes "bits_fit a" "bits_fit b" "n \<le> nbits a" "n \<le> nbits b"
  shows "eq_loop a b n = Returns (\<forall>j < n. bit_of a j = bit_of b j)"
  using assms
proof (induction n)
  case 0
  then show ?case by simp
next
  case (Suc n)
  show ?case
  proof (cases "Suc n mod 8 = 0")
    case True
    define k where "k = Suc n div 8"
    have n: "Suc n = 8 * k" using True by (auto simp: k_def)
    have step: "eq_loop a b (Suc n) = Returns (memcmp (take k (buffer a)) (take k (buffer b)) = 0)"
      using True by (simp add: k_def)
    have "k \<le> length (buffer a)" "k \<le> length (buffer b)"
      using Suc.prems bit_bytes_bounds(1) [of "nbits a"] bit_bytes_bounds(1) [of "nbits b"] n
      by (auto simp: bits_fit_def)
    then show ?thesis
      using memcmp_bytes_0_iff [of k a b] step n by simp
  next
    case False
    with Suc show ?thesis by (auto simp: bit_get_ok less_Suc_eq)
  qed
qed

lemma prefix_eq_iff:
  "take n (bits_of a) = take n (bits_of b) \<longleftrightarrow> (\<forall>j < n. bit_of a j = bit_of b j)"
  if "n \<le> nbits a" "n \<le> nbits b"
  using that by (auto simp: list_eq_iff_nth_eq)

lemma eq_correct:
  assumes "wf_bitset a" "wf_bitset b"
  shows "Bitset_eq False a b =
    Returns (take (min (nbits a) (nbits b)) (bits_of a) = take (min (nbits a) (nbits b)) (bits_of b))"
proof -
  let ?n = "min (nbits a) (nbits b)"
  have "c_int ?n = int ?n" using assms by (intro c_int_small) (auto simp: wf_bitset_def)
  moreover have "eq_loop a b ?n = Returns (take ?n (bits_of a) = take ?n (bits_of b))"
    using eq_loop_correct [of a b ?n] prefix_eq_iff [of ?n a b] assms by simp
  ultimately show ?thesis
    using compare_0_iff [OF assms] by (simp add: Bitset_eq_def Let_def)
qed

lemma reset_correct:
  assumes "int n \<le> INT_MAX" "mem (bit_bytes n)"
  shows "\<exists>r. Bitset_reset mem b n v = (r, Returns ()) \<and> wf_bitset r \<and> bits_of r = replicate n v"
proof (cases "n = 0")
  case True
  then show ?thesis
    by (auto simp: Bitset_reset_def bit_bytes_def INT_MAX_def c_int_def ace_range_def wf_bitset_def bits_of_def)
next
  case False
  have "fst (Bitset_reset mem b n v) = r \<and> snd (Bitset_reset mem b n v) = Returns ()"
    if "Bitset_new mem n v = Returns r" for r
    using that False assms(2)
    by (auto simp: Bitset_reset_def Bitset_new_def Let_def split: if_splits outcome.splits)
  then show ?thesis using new_correct [of n mem v] assms by (metis prod.collapse)
qed

lemma assign_correct:
  assumes "wf_bitset b" "mem (Bitset_size b)"
  shows "\<exists>r. Bitset_assign mem False a b = (r, Returns ()) \<and> wf_bitset r \<and> bits_of r = bits_of b"
proof -
  obtain c where c: "Bitset_copy mem b = Returns c" "wf_bitset c" "bits_of c = bits_of b"
    using copy_correct [of b mem] assms by blast
  have "Bitset_assign mem False a b = (c, Returns ())"
    using c(1) assms(2) by (auto simp: Bitset_copy_def Bitset_assign_def Bitset_size_def Let_def split: if_splits)
  with c show ?thesis by blast
qed

lemma append_self:
  assumes "wf_bitset a" "nbits a \<noteq> 0" "int (nbits a + nbits a) \<le> INT_MAX"
    "mem (bit_bytes (nbits a + nbits a))"
  shows "snd (Bitset_append mem True a a) = Throws IndexOutOfRange"
proof -
  let ?n = "nbits a + nbits a"
  define buf where "buf = (if bit_bytes ?n > Bitset_size a then
      (if nbits a \<noteq> 0 then take (Bitset_size a) (buffer a) @ replicate (bit_bytes ?n - Bitset_size a) 0
       else replicate (bit_bytes ?n) 0) else buffer a)"
  define a1 where "a1 = a\<lparr>nbits := ?n, buffer := buf\<rparr>"
  have la: "Bitset_size a \<le> length (buffer a)" using assms(1) by (simp add: wf_bitset_def Bitset_size_def)
  have fit: "bits_fit a1"
    using la assms(1,3) bit_bytes_mono [of "nbits a" ?n]
    by (auto simp: bits_fit_def a1_def buf_def Bitset_size_def wf_bitset_def)
  have sum: "size_add (nbits a) (nbits a) = ?n"
    using assms(3) by (intro size_add_small) (simp add: INT_MAX_def)
  have rng: "ace_range 0 INT_MAX (c_int ?n) = c_int ?n"
    using assms(3) by (simp add: ace_range_eq_iff c_int_small INT_MAX_def)
  have loop: "snd (append_loop True a1 a (nbits a) 0 ?n) = Throws IndexOutOfRange"
    using fit assms(2) by (intro append_self_loop_throws) (auto simp: a1_def)
  then obtain d where "append_loop True a1 a (nbits a) 0 ?n = (d, Throws IndexOutOfRange)"
    by (metis prod.collapse)
  then show ?thesis
    using assms(2,4) wf_buffer_nonempty [OF assms(1)] sum rng
    by (simp add: Bitset_append_def Let_def buf_def [symmetric] a1_def [symmetric])
qed

lemma map2_neq_self: "map2 (\<noteq>) xs xs = replicate (length xs) False"
  by (induction xs) auto

lemma map2_neq_ones: "length xs = n \<Longrightarrow> map2 (\<noteq>) (replicate n True) xs = map Not xs"
  by (induction xs arbitrary: n) auto

definition sample_a :: bitset where
  "sample_a = \<lparr>nbits = 11, buffer = [0xA5, 0x60]\<rparr>"

definition sample_b :: bitset where
  "sample_b = \<lparr>nbits = 9, buffer = [0xFF, 0x80]\<rparr>"

lemma sample_wf: "wf_bitset sample_a" "wf_bitset sample_b"
  by code_simp+

lemma sample_bits:
  "bits_of sample_a = [True, False, True, False, False, True, False, True, False, True, True]"
  "bits_of sample_b = [True, True, True, True, True, True, True, True, True]"
  "nbits sample_a = 11" "nbits sample_b = 9"
  by code_simp+

lemma map2_self:
  "map2 (\<and>) xs xs = xs" "map2 (\<or>) xs xs = xs" "xs = map2 (\<noteq>) xs xs \<longleftrightarrow> True \<notin> set xs"
  by (induction xs) auto

section \<open>Properties\<close>

text \<open>
  Claim C34.  On well-formed operands that are distinct objects (which may have equal bits) the compound operators \<^verbatim>\<open>&=\<close>, \<^verbatim>\<open>|=\<close> and
  \<^verbatim>\<open>^=\<close>, which combine single bits down to a byte boundary and then whole bytes, return
  normally, keep the object well formed, and act on the bit sequence as the boolean
  function on the common span; the bits of a longer left operand are kept.  Applied to an object and itself
  each of them leaves it as it is: for \<^verbatim>\<open>&=\<close> and \<^verbatim>\<open>|=\<close> that is the boolean function too, but for
  \<^verbatim>\<open>^=\<close>, whose function clears every bit, it is not, as soon as a bit is set.
\<close>

theorem bitset_operators_refine:
  assumes "wf_bitset a" "wf_bitset b"
  shows "(\<exists>r. Bitset_and False a b = Returns r \<and> wf_bitset r \<and>
            bits_of r = map2 (\<and>) (bits_of a) (bits_of b) @ drop (nbits b) (bits_of a)) \<and>
         (\<exists>r. Bitset_or False a b = Returns r \<and> wf_bitset r \<and>
            bits_of r = map2 (\<or>) (bits_of a) (bits_of b) @ drop (nbits b) (bits_of a)) \<and>
         (\<exists>r. Bitset_xor False a b = Returns r \<and> wf_bitset r \<and>
            bits_of r = map2 (\<noteq>) (bits_of a) (bits_of b) @ drop (nbits b) (bits_of a)) \<and>
         (Bitset_and True a a = Returns a \<and> bits_of a = map2 (\<and>) (bits_of a) (bits_of a)) \<and>
         (Bitset_or True a a = Returns a \<and> bits_of a = map2 (\<or>) (bits_of a) (bits_of a)) \<and>
         (Bitset_xor True a a = Returns a \<and> (bits_of a = map2 (\<noteq>) (bits_of a) (bits_of a) \<longleftrightarrow> True \<notin> set (bits_of a)))"
  using and_op.operator_correct [OF assms] or_op.operator_correct [OF assms]
    xor_op.operator_correct [OF assms] map2_self
  by (auto simp: Bitset_and_def Bitset_or_def Bitset_xor_def)

theorem bitset_operators_refine_witness:
  "(\<exists>r. Bitset_xor False sample_a sample_b = Returns r \<and>
      bits_of r = [False, True, False, True, True, False, True, False, True, True, True]) \<and>
   Bitset_xor True sample_a sample_a = Returns sample_a \<and> bits_of sample_a \<noteq> map2 (\<noteq>) (bits_of sample_a) (bits_of sample_a)"
  using bitset_operators_refine [OF sample_wf] by (auto simp: sample_bits)

text \<open>
  \<^verbatim>\<open>a += b\<close> for two objects appends: when the joint length fits an
  \<^verbatim>\<open>int\<close> and the allocation succeeds, the bit sequence of the result is the
  concatenation.  Appending a non-empty object to itself is different: the loop takes its
  bound from the already enlarged object, so \<^verbatim>\<open>a += a\<close> leaves with an
  \<open>IndexOutOfRange\<close> exception.
\<close>

theorem bitset_append_concat:
  assumes "wf_bitset a" "wf_bitset b"
    "int (nbits a + nbits b) \<le> INT_MAX" "mem (bit_bytes (nbits a + nbits b))"
  shows "(\<exists>r. Bitset_append mem False a b = (r, Returns ()) \<and> wf_bitset r \<and>
            bits_of r = bits_of a @ bits_of b) \<and>
         (a = b \<and> nbits a \<noteq> 0 \<longrightarrow> snd (Bitset_append mem True a a) = Throws IndexOutOfRange)"
  using append_correct [of a b mem] append_self [of a mem] assms by auto

theorem bitset_append_concat_witness:
  "(\<exists>r. Bitset_append (\<lambda>_. True) False sample_a sample_b = (r, Returns ()) \<and>
      bits_of r = bits_of sample_a @ bits_of sample_b) \<and>
   snd (Bitset_append (\<lambda>_. True) True sample_a sample_a) = Throws IndexOutOfRange"
  using bitset_append_concat [of sample_a sample_b "\<lambda>_. True"]
    bitset_append_concat [of sample_a sample_a "\<lambda>_. True"]
  by (auto simp: sample_wf sample_bits INT_MAX_def)

text \<open>
  \<^verbatim>\<open>subits(pos, len)\<close> yields the \<^verbatim>\<open>len\<close> bits from \<^verbatim>\<open>pos\<close> on (fewer
  at the end) and \<^verbatim>\<open>erase(pos, len)\<close> removes exactly these, for every start inside the
  object; a negative \<^verbatim>\<open>len\<close> counts as unbounded because it is converted to
  \<^verbatim>\<open>size_t\<close>.
\<close>

theorem bitset_subits_erase:
  assumes "wf_bitset b" "0 \<le> pos" "nat pos < nbits b" "\<And>n. n \<le> Bitset_size b \<Longrightarrow> mem n"
  shows "\<exists>s r. Bitset_subits mem b pos len = Returns s \<and> Bitset_erase b pos len = Returns r \<and>
           wf_bitset r \<and>
           bits_of s = take (size_of_int len) (drop (nat pos) (bits_of b)) \<and>
           bits_of b = take (nat pos) (bits_of b) @ bits_of s @ drop (nat pos) (bits_of r) \<and>
           bits_of r = take (nat pos) (bits_of b) @ drop (nat pos + size_of_int len) (bits_of b)"
proof -
  let ?n = "min (nbits b - nat pos) (size_of_int len)"
  have "bit_bytes ?n \<le> Bitset_size b" by (auto simp: Bitset_size_def intro: bit_bytes_mono)
  then obtain s where s: "Bitset_subits mem b pos len = Returns s"
      "bits_of s = take (size_of_int len) (drop (nat pos) (bits_of b))"
    using subits_correct [of b pos mem len] assms by blast
  obtain r where r: "Bitset_erase b pos len = Returns r" "wf_bitset r"
      "bits_of r = take (nat pos) (bits_of b) @ drop (nat pos + size_of_int len) (bits_of b)"
    using erase_correct [OF assms(1-3)] by blast
  have "drop (nat pos) (bits_of r) = drop (size_of_int len) (drop (nat pos) (bits_of b))"
    using r(3) assms(3) by (simp add: add.commute)
  then have "bits_of b = take (nat pos) (bits_of b) @ bits_of s @ drop (nat pos) (bits_of r)"
    using s(2) by (metis append_take_drop_id)
  with s r show ?thesis by blast
qed

theorem bitset_subits_erase_witness:
  "\<exists>s r. Bitset_subits (\<lambda>_. True) sample_a 2 4 = Returns s \<and> Bitset_erase sample_a 2 4 = Returns r \<and>
     bits_of s = [True, False, False, True] \<and>
     bits_of r = [True, False, False, True, False, True, True]"
proof -
  have "size_of_int 4 = 4" by code_simp
  then show ?thesis
    using bitset_subits_erase [of sample_a 2 "\<lambda>_. True" 4]
    by (auto simp: sample_wf sample_bits)
qed

text \<open>
  Claim C35.  \<^verbatim>\<open>compare_to\<close> is zero exactly on equal bit sequences, but
  \<^verbatim>\<open>operator ==\<close> compares the common prefix only: objects of different length are
  "equal" when one is a prefix of the other.
\<close>

theorem bitset_equality_on_prefix:
  assumes "wf_bitset a" "wf_bitset b"
  shows "(Bitset_compare_to False a b = 0 \<longleftrightarrow> bits_of a = bits_of b) \<and>
    Bitset_eq False a b =
      Returns (take (min (nbits a) (nbits b)) (bits_of a) = take (min (nbits a) (nbits b)) (bits_of b))"
  using compare_0_iff [OF assms] eq_correct [OF assms] by blast

theorem bitset_equality_on_prefix_witness:
  "\<not> Bitset_compare_to False sample_a \<lparr>nbits = 2, buffer = [0x80]\<rparr> = 0 \<and>
   Bitset_eq False sample_a \<lparr>nbits = 2, buffer = [0x80]\<rparr> = Returns True"
proof -
  have "wf_bitset \<lparr>nbits = 2, buffer = [0x80]\<rparr>" "bits_of \<lparr>nbits = 2, buffer = [0x80]\<rparr> = [True, False]"
    by code_simp+
  then show ?thesis
    using bitset_equality_on_prefix [of sample_a "\<lparr>nbits = 2, buffer = [0x80]\<rparr>"]
    by (simp add: sample_wf sample_bits)
qed

text \<open>
  Complement and exclusive or: \<^verbatim>\<open>flip\<close> and \<^verbatim>\<open>~\<close> both invert every bit,
  \<^verbatim>\<open>!b\<close> holds exactly when no bit is set, and \<^verbatim>\<open>a ^ a\<close> on a copy clears every bit
  whereas the in-place \<^verbatim>\<open>a ^= a\<close> returns the object unchanged.
\<close>

theorem bitset_complement:
  assumes "wf_bitset b" "mem (Bitset_size b)"
  shows "(\<exists>r. Bitset_flip b = Returns r \<and> wf_bitset r \<and> bits_of r = map Not (bits_of b)) \<and>
    (\<exists>r. op_not mem b = Returns r \<and> wf_bitset r \<and> bits_of r = map Not (bits_of b)) \<and>
    op_lnot mem b = Returns (True \<notin> set (bits_of b)) \<and>
    (\<exists>r. op_xor mem b b = Returns r \<and> bits_of r = replicate (nbits b) False) \<and>
    Bitset_xor True b b = Returns b"
proof -
  have new: "\<exists>t. Bitset_new mem (nbits b) v = Returns t \<and> wf_bitset t \<and> bits_of t = replicate (nbits b) v"
    for v using new_correct [of "nbits b" mem v] assms by (simp add: Bitset_size_def wf_nbits_le)
  obtain t1 where t1: "Bitset_new mem (nbits b) True = Returns t1" "wf_bitset t1"
      "bits_of t1 = replicate (nbits b) True" using new by blast
  obtain t0 where t0: "Bitset_new mem (nbits b) False = Returns t0" "wf_bitset t0"
      "bits_of t0 = replicate (nbits b) False" using new by blast
  obtain c where c: "Bitset_copy mem b = Returns c" "wf_bitset c" "bits_of c = bits_of b"
    using copy_correct [of b mem] assms by blast
  have nt0: "nbits t0 = nbits b" using arg_cong [OF t0(3), of length] by simp
  have "op_lnot mem b = Returns (replicate (nbits b) False = bits_of b)"
    using eq_correct [OF t0(2) assms(1)] t0(1,3) nt0 by (simp add: op_lnot_def)
  moreover have "replicate (nbits b) False = bits_of b \<longleftrightarrow> True \<notin> set (bits_of b)"
    by (metis (full_types) in_set_replicate length_bits_of replicate_eqI)
  moreover have "\<exists>r. op_not mem b = Returns r \<and> wf_bitset r \<and> bits_of r = map Not (bits_of b)"
    using xor_op.operator_correct [OF t1(2) assms(1)] t1(1,3)
      map2_neq_ones [of "bits_of b" "nbits b"]
    by (auto simp: op_not_def Bitset_xor_def)
  moreover have "\<exists>r. op_xor mem b b = Returns r \<and> bits_of r = replicate (nbits b) False"
    using xor_op.operator_correct [OF c(2) assms(1)] c(1,3)
      map2_neq_self [of "bits_of b"]
    by (auto simp: op_xor_def Bitset_xor_def)
  ultimately show ?thesis using flip_correct [OF assms(1)] by (simp add: Bitset_xor_def)
qed

theorem bitset_complement_witness:
  "\<exists>r. Bitset_flip sample_a = Returns r \<and>
     bits_of r = [False, True, False, True, True, False, True, False, True, False, False]"
  using bitset_complement [of sample_a "\<lambda>_. True"] by (auto simp: sample_wf sample_bits)

end
