(* ===== verification/C_Text.thy ===== *)
theory C_Text
  imports Prelude
begin

text \<open>
  The parts of the C library's text handling the sources rely on: character classes of the
  \<^verbatim>\<open>C\<close> locale, decimal and hexadecimal conversion of \<^verbatim>\<open>printf\<close>, and the
  \<^verbatim>\<open>scanf\<close> directives (a \<^verbatim>\<open>%d\<close> with an optional field width, literal characters
  and white space).  The lemmas show that a zero-padded number is read back unchanged.
\<close>

section \<open>Characters\<close>

definition c_code :: "char \<Rightarrow> nat" where
  "c_code c = of_char c"

definition c_isspace :: "char \<Rightarrow> bool" where
  "c_isspace c = (c_code c = 32 \<or> (9 \<le> c_code c \<and> c_code c \<le> 13))"

definition c_iscntrl :: "char \<Rightarrow> bool" where
  "c_iscntrl c = (c_code c < 32 \<or> c_code c = 127)"

definition c_isprint :: "char \<Rightarrow> bool" where
  "c_isprint c = (32 \<le> c_code c \<and> c_code c < 127)"

definition c_isdigit :: "char \<Rightarrow> bool" where
  "c_isdigit c = (48 \<le> c_code c \<and> c_code c \<le> 57)"

definition digit_char :: "nat \<Rightarrow> char" where
  "digit_char n = char_of (48 + n)"

definition hex_char :: "nat \<Rightarrow> char" where
  "hex_char n = (if n < 10 then char_of (48 + n) else char_of (55 + n))"

section \<open>Printing numbers\<close>

fun dec_digits :: "nat \<Rightarrow> string" where
  "dec_digits n = (if n < 10 then [digit_char n] else dec_digits (n div 10) @ [digit_char (n mod 10)])"

declare dec_digits.simps [simp del]

definition pad_left :: "char \<Rightarrow> nat \<Rightarrow> string \<Rightarrow> string" where
  "pad_left c w s = replicate (w - length s) c @ s"

definition print_d :: "int \<Rightarrow> string" where
  "print_d i = (if i < 0 then CHR ''-'' # dec_digits (nat (- i)) else dec_digits (nat i))"

definition print_0d :: "nat \<Rightarrow> int \<Rightarrow> string" where
  "print_0d w i =
     (if i < 0 then CHR ''-'' # pad_left (CHR ''0'') (w - 1) (dec_digits (nat (- i)))
      else pad_left (CHR ''0'') w (dec_digits (nat i)))"

definition print_02X :: "nat \<Rightarrow> string" where
  "print_02X n = [hex_char (n div 16 mod 16), hex_char (n mod 16)]"

section \<open>Scanning\<close>

datatype scan_item = Conv nat | Lit char | Blank

primrec dec_value :: "string \<Rightarrow> nat \<Rightarrow> nat" where
  "dec_value [] acc = acc"
| "dec_value (c # cs) acc = dec_value cs (10 * acc + (c_code c - 48))"

text \<open>\<open>%<w>d\<close>: blanks are skipped; a sign counts towards the width; width 0 is "no limit".\<close>

definition scan_d :: "nat \<Rightarrow> string \<Rightarrow> (int \<times> string) option" where
  "scan_d w s =
     (let s0 = dropWhile c_isspace s;
          lim = (if w = 0 then length s0 else w);
          signed = (s0 \<noteq> [] \<and> (hd s0 = CHR ''-'' \<or> hd s0 = CHR ''+'') \<and> 0 < lim);
          s1 = (if signed then tl s0 else s0);
          ds = takeWhile c_isdigit (take (if signed then lim - 1 else lim) s1)
      in if ds = [] then None
         else Some ((if signed \<and> hd s0 = CHR ''-'' then - int (dec_value ds 0) else int (dec_value ds 0)),
                    drop (length ds) s1))"

fun scan :: "scan_item list \<Rightarrow> string \<Rightarrow> int list" where
  "scan [] s = []"
| "scan (Conv w # is) s = (case scan_d w s of None \<Rightarrow> [] | Some (v, s') \<Rightarrow> v # scan is s')"
| "scan (Lit c # is) s = (case s of [] \<Rightarrow> [] | d # s' \<Rightarrow> if d = c then scan is s' else [])"
| "scan (Blank # is) s = scan is (dropWhile c_isspace s)"

section \<open>Reading back what was printed\<close>

lemma c_code_char_of [simp]: "c_code (char_of n) = n mod 256"
  by (simp add: c_code_def)

lemma c_code_digit_char [simp]: "n < 10 \<Longrightarrow> c_code (digit_char n) = 48 + n"
  by (simp add: digit_char_def)

lemma isdigit_digit_char [simp]: "n < 10 \<Longrightarrow> c_isdigit (digit_char n)"
  by (simp add: c_isdigit_def)

lemma digit_not_space: "c_isdigit c \<Longrightarrow> \<not> c_isspace c"
  by (auto simp: c_isdigit_def c_isspace_def)

lemma digit_not_sign: "c_isdigit c \<Longrightarrow> c \<noteq> CHR ''-'' \<and> c \<noteq> CHR ''+''"
  by (auto simp: c_isdigit_def c_code_def)

lemma dec_digits_nonempty [simp]: "dec_digits n \<noteq> []"
  by (subst dec_digits.simps) simp

lemma dec_digits_isdigit: "c \<in> set (dec_digits n) \<Longrightarrow> c_isdigit c"
proof (induction n rule: dec_digits.induct)
  case (1 n)
  then show ?case by (subst (asm) (2) dec_digits.simps) (auto split: if_splits)
qed

lemma dec_value_append: "dec_value (xs @ ys) acc = dec_value ys (dec_value xs acc)"
  by (induction xs arbitrary: acc) auto

lemma dec_value_acc: "dec_value xs acc = acc * 10 ^ length xs + dec_value xs 0"
proof (induction xs arbitrary: acc)
  case Nil
  then show ?case by simp
next
  case (Cons c xs)
  show ?case
    using Cons.IH [of "10 * acc + (c_code c - 48)"] Cons.IH [of "c_code c - 48"]
    by (simp add: algebra_simps)
qed

lemma dec_value_dec_digits: "dec_value (dec_digits n) 0 = n"
proof (induction n rule: dec_digits.induct)
  case (1 n)
  show ?case
  proof (cases "n < 10")
    case True
    then show ?thesis by (subst dec_digits.simps) simp
  next
    case False
    with 1 show ?thesis by (subst dec_digits.simps) (simp add: dec_value_append)
  qed
qed

lemma dec_value_zeros: "dec_value (replicate k (CHR ''0'') @ s) 0 = dec_value s 0"
  by (induction k) (auto simp: c_code_def)

lemma length_dec_digits: "0 < w \<Longrightarrow> n < 10 ^ w \<Longrightarrow> length (dec_digits n) \<le> w"
proof (induction n arbitrary: w rule: dec_digits.induct)
  case (1 n)
  show ?case
  proof (cases "n < 10")
    case True
    with 1(2) show ?thesis by (subst dec_digits.simps) simp
  next
    case False
    obtain v where v: "w = Suc v" using 1(2) by (cases w) auto
    with 1(3) False have "0 < v" by (cases v) auto
    moreover have "n div 10 < 10 ^ v" using 1(3) v by (simp add: less_mult_imp_div_less mult.commute)
    ultimately have "length (dec_digits (n div 10)) \<le> v" using 1(1) False by blast
    with False v show ?thesis by (subst dec_digits.simps) simp
  qed
qed

lemma isdigit_0: "c_isdigit (CHR ''0'')"
  by (simp add: c_isdigit_def c_code_def)

lemma print_0d_props:
  assumes "0 < w" "0 \<le> i" "i < 10 ^ w"
  shows "length (print_0d w i) = w" "\<forall>c \<in> set (print_0d w i). c_isdigit c"
    "int (dec_value (print_0d w i) 0) = i"
proof -
  have "nat i < 10 ^ w" using assms(2,3) by (simp add: nat_less_iff)
  then have "length (dec_digits (nat i)) \<le> w" using length_dec_digits assms(1) by blast
  then show "length (print_0d w i) = w" using assms(2) by (simp add: print_0d_def pad_left_def)
  show "\<forall>c \<in> set (print_0d w i). c_isdigit c"
    using assms(2) isdigit_0 by (auto simp: print_0d_def pad_left_def dec_digits_isdigit)
  show "int (dec_value (print_0d w i) 0) = i"
    using assms(2) by (simp add: print_0d_def pad_left_def dec_value_zeros dec_value_dec_digits)
qed

lemma scan_d_digits:
  assumes "length ds = w" "0 < w" "\<forall>c \<in> set ds. c_isdigit c"
  shows "scan_d w (ds @ rest) = Some (int (dec_value ds 0), rest)"
proof -
  obtain c cs where ds: "ds = c # cs" using assms by (cases ds) auto
  then have c: "c_isdigit c" using assms(3) by simp
  have "dropWhile c_isspace (ds @ rest) = ds @ rest"
    using digit_not_space [OF c] by (simp add: ds)
  moreover have "takeWhile c_isdigit (take w (ds @ rest)) = ds"
    using assms by (simp add: takeWhile_eq_all_conv)
  ultimately show ?thesis
    using digit_not_sign [OF c] assms(1,2) by (auto simp: scan_d_def ds)
qed

lemma scan_print_0d:
  "0 < w \<Longrightarrow> 0 \<le> i \<Longrightarrow> i < 10 ^ w \<Longrightarrow> scan_d w (print_0d w i @ rest) = Some (i, rest)"
  using scan_d_digits [of "print_0d w i" w rest] print_0d_props [of w i] by simp

end
