(* ===== verification/DAF_Text.thy ===== *)
theory DAF_Text
  imports Exceptions C_Text
begin

unbundle bit_operations_syntax

text \<open>
  The free functions of \<^verbatim>\<open>daf/DAF.cpp\<close>: string trimming and unescaping, joining of
  argument vectors, hexadecimal and binary dumps, error texts and elapsed high-resolution
  time.  Strings are character lists; lengths are below \<^verbatim>\<open>INT_MAX\<close>, so the casts of
  positions to \<^verbatim>\<open>int\<close> are exact and "not found" is a negative position.  Characters
  above 127 belong to no class, as in the C locale.
\<close>

section \<open>Model\<close>

definition char_at :: "string \<Rightarrow> nat \<Rightarrow> char" where
  "char_at s i = (if i < length s then s ! i else CHR 0x00)"

definition erase1 :: "string \<Rightarrow> nat \<Rightarrow> string" where
  "erase1 s i = take i s @ drop (Suc i) s"

definition blank :: "char \<Rightarrow> bool" where
  "blank c = (c_isspace c \<or> c_iscntrl c)"

definition uncntrl :: "string \<Rightarrow> nat \<Rightarrow> string" where
  "uncntrl s i = (if c_iscntrl (char_at s i) then s[i := CHR '' ''] else s)"

primrec clean_from :: "nat \<Rightarrow> string \<Rightarrow> string" where
  "clean_from 0 s = uncntrl s 0"
| "clean_from (Suc i) s = clean_from i (uncntrl s (Suc i))"

text \<open>The loop of \<open>trim_string\<close>; the last argument is \<^verbatim>\<open>pos\<close> before the test \<^verbatim>\<open>pos--\<close>.\<close>

function trim_loop :: "char \<Rightarrow> string \<Rightarrow> nat \<Rightarrow> string" where
  "trim_loop c arg 0 = arg"
| "trim_loop c arg (Suc pos) =
     (if blank (char_at arg pos) then trim_loop c (erase1 arg pos) pos
      else if blank (char_at arg 0) then trim_loop c (erase1 arg 0) pos
      else if char_at arg 0 = c \<and> char_at arg pos = c then
        if pos \<noteq> 0 then trim_loop c (erase1 (erase1 arg pos) 0) (pos - 1)
        else trim_loop c (erase1 arg 0) pos
      else clean_from pos arg)"
  by pat_completeness auto
termination
  by (relation "measure (\<lambda>(c, arg, n). n)") auto

definition trim_string :: "char \<Rightarrow> string \<Rightarrow> string" where
  "trim_string c param = trim_loop c param (length param)"

text \<open>\<open>std::string::find_first_of\<close> for one character.\<close>

definition find_from :: "char \<Rightarrow> string \<Rightarrow> nat \<Rightarrow> nat option" where
  "find_from c s pos =
     (if pos \<le> length s \<and> c \<in> set (drop pos s)
      then Some (pos + length (takeWhile (\<lambda>d. d \<noteq> c) (drop pos s))) else None)"

lemma find_from_bounds: "find_from c s pos = Some p \<Longrightarrow> pos \<le> p \<and> p < length s \<and> s ! p = c"
proof -
  assume a: "find_from c s pos = Some p"
  let ?k = "length (takeWhile (\<lambda>d. d \<noteq> c) (drop pos s))"
  have p: "pos \<le> length s" "c \<in> set (drop pos s)" "p = pos + ?k"
    using a by (auto simp: find_from_def split: if_splits)
  have "?k < length (drop pos s)"
    using p(2) by (metis (mono_tags, lifting) length_takeWhile_le not_less_iff_gr_or_eq order_le_less
        takeWhile_eq_all_conv takeWhile_eq_take take_all_iff)
  moreover have "drop pos s ! ?k = c" using nth_length_takeWhile [OF calculation] by simp
  ultimately show ?thesis using p by simp
qed

lemma find_from_fresh: "c \<notin> set a \<Longrightarrow> find_from c (a @ c # b) 0 = Some (length a)" "c \<notin> set a \<Longrightarrow> find_from c a 0 = None"
proof -
  have "takeWhile (\<lambda>d. d \<noteq> c) (a @ c # b) = a" if "c \<notin> set a" using that by (induction a) auto
  then show "c \<notin> set a \<Longrightarrow> find_from c (a @ c # b) 0 = Some (length a)" "c \<notin> set a \<Longrightarrow> find_from c a 0 = None"
    by (auto simp: find_from_def)
qed

function esc_loop :: "string \<Rightarrow> nat \<Rightarrow> string" where
  "esc_loop param pos =
     (case find_from (CHR 0x5C) param pos of
        None \<Rightarrow> param
      | Some p \<Rightarrow> esc_loop (erase1 param p) (Suc p))"
  by pat_completeness auto
termination
  by (relation "measure (\<lambda>(param, pos). length param - pos)")
    (auto simp: erase1_def dest!: find_from_bounds)

declare esc_loop.simps [simp del]

definition parse_esc :: "string \<Rightarrow> nat \<Rightarrow> string" where
  "parse_esc arg offset = esc_loop arg offset"

text \<open>An argument vector is the list of its arguments.\<close>

fun parse_argv_loop :: "bool \<Rightarrow> string list \<Rightarrow> string \<Rightarrow> string" where
  "parse_argv_loop quote_args [] params = params"
| "parse_argv_loop quote_args (a # argv) params =
     (let arg = trim_string (CHR '' '') a in
      if arg \<noteq> [] then
        let params = (if params \<noteq> [] then params @ '' '' else params);
            arg = (if quote_args \<and> (\<exists>p \<in> set_option (find_from (CHR '' '') arg 0). p > 0)
                   then [CHR 0x27] @ arg @ [CHR 0x27] else arg)
        in parse_argv_loop quote_args argv (params @ arg)
      else parse_argv_loop quote_args argv params)"

definition parse_argv :: "string list \<Rightarrow> bool \<Rightarrow> string" where
  "parse_argv argv quote_args = parse_argv_loop quote_args argv []"

text \<open>Dumps.  \<open>buf\<close> holds the bytes the pointer addresses; reading past it is undefined.\<close>

definition c_char :: "8 word \<Rightarrow> char" where
  "c_char w = (if unat w < 32 \<or> unat w \<ge> 127 then CHR ''.'' else char_of (unat w))"

fun hex_loop :: "8 word list \<Rightarrow> nat \<Rightarrow> nat \<Rightarrow> nat \<Rightarrow> string \<Rightarrow> string \<Rightarrow> (string \<times> string) outcome" where
  "hex_loop p l j 0 ss sc = Returns (ss, sc)"
| "hex_loop p l j (Suc n) ss sc =
     (let ss = (if j mod 4 = 0 then ss @ '' '' else ss) in
      if l > 0 then
        (case p of
           [] \<Rightarrow> Undefined
         | sx # p' \<Rightarrow>
             let sc = (if j \<noteq> 0 \<and> j mod 8 = 0 then sc @ '' '' else sc) in
             hex_loop p' (l - 1) (Suc j) n (ss @ print_02X (unat sx))
               (sc @ [if sx AND 0x80 \<noteq> 0 then CHR ''.'' else c_char (sx AND 0x7F)]))
      else hex_loop p l (Suc j) n (ss @ ''  '') sc)"

definition hex_dump_data :: "8 word list \<Rightarrow> nat \<Rightarrow> nat \<Rightarrow> string outcome" where
  "hex_dump_data buf len width =
     (if len \<noteq> 0 then
        and_then (hex_loop buf len 0 width [] []) (\<lambda>(ss, sc). Returns (ss @ '' '' @ [CHR 0x22] @ sc @ [CHR 0x22]))
      else Returns [])"

fun hex_digits :: "nat \<Rightarrow> string" where
  "hex_digits n = (if n < 16 then [hex_char n] else hex_digits (n div 16) @ [hex_char (n mod 16)])"

declare hex_digits.simps [simp del]

definition print_04X :: "nat \<Rightarrow> string" where
  "print_04X n = pad_left (CHR ''0'') 4 (hex_digits n)"

text \<open>
  \<open>hex_dump\<close>: \<open>addr\<close> is the printed form of the pointer, \<open>None\<close> the null pointer.  A
  width of 0 never makes progress; \<open>hex_lines\<close> is given the width as a positive number of
  bytes per line through the guard of its caller.
\<close>

function hex_lines :: "8 word list \<Rightarrow> nat \<Rightarrow> nat \<Rightarrow> nat \<Rightarrow> string outcome" where
  "hex_lines p len width i =
     (if len = 0 then Returns []
      else if width = 0 then Undefined
      else
        let l_len = ace_min width len in
        and_then (hex_dump_data p l_len width) (\<lambda>line.
        and_then (hex_lines (drop l_len p) (len - l_len) width (Suc i)) (\<lambda>rest.
          Returns ([CHR 0x0A] @ ''0x'' @ print_04X (i * width mod 4294967296) @ '' -'' @ line @ rest))))"
  by pat_completeness auto
termination
  by (relation "measure (\<lambda>(p, len, width, i). len)") auto

declare hex_lines.simps [simp del]

definition hex_dump :: "string \<Rightarrow> 8 word list option \<Rightarrow> nat \<Rightarrow> nat \<Rightarrow> string outcome" where
  "hex_dump addr buf len width =
     (let s = [CHR 0x0A] @ ''DAF_DUMP: Address = 0x'' @ addr @ '', Length = '' @ print_d (c_int len) in
      case buf of
        None \<Rightarrow> Returns (s @ [CHR 0x0A, CHR 0x00])
      | Some p \<Rightarrow> and_then (hex_lines p len width 0) (\<lambda>t. Returns (s @ t @ [CHR 0x0A, CHR 0x00])))"

fun bit_lines :: "8 word list \<Rightarrow> nat \<Rightarrow> nat \<Rightarrow> nat \<Rightarrow> string outcome" where
  "bit_lines p width i 0 = Returns []"
| "bit_lines p width i (Suc n) =
     (let s = (if i \<noteq> 0 \<and> i mod width \<noteq> 0 then (if i mod 8 = 0 then '' '' else [])
               else [CHR 0x0A] @ ''0x'' @ print_04X (i div 8 mod 4294967296) @ '' - '')
      in if i div 8 < length p then
           and_then (bit_lines p width (Suc i) n) (\<lambda>rest.
             Returns (s @ (if p ! (i div 8) AND ([0x80, 0x40, 0x20, 0x10, 0x08, 0x04, 0x02, 0x01] ! (i mod 8)) \<noteq> 0
                           then ''1'' else ''0'') @ rest))
         else Undefined)"

definition bit_dump :: "nat \<Rightarrow> string \<Rightarrow> 8 word list option \<Rightarrow> nat \<Rightarrow> string outcome" where
  "bit_dump hex_dump_width addr buf bits =
     (let s = [CHR 0x0A] @ ''DAF_BitDump: Address = 0x'' @ addr @ '', Length = '' @ print_d (c_int bits) @ '' bits'' in
      case buf of
        None \<Rightarrow> Returns (s @ [CHR 0x0A, CHR 0x00])
      | Some p \<Rightarrow>
          if c_int bits > 0 then
            let width = ace_max 8 (hex_dump_width div 4 * 8) in
            and_then (bit_lines p width 0 bits) (\<lambda>t. Returns (s @ t @ [CHR 0x0A, CHR 0x00]))
          else Returns (s @ [CHR 0x0A, CHR 0x00]))"

text \<open>Error texts, with the error numbers of Linux.\<close>

definition errno_names :: "(int \<times> string) list" where
  "errno_names =
     [(1, ''EPERM''), (2, ''ENOENT''), (3, ''ESRCH''), (4, ''EINTR''), (5, ''EIO''), (6, ''ENXIO''),
      (7, ''E2BIG''), (8, ''ENOEXEC''), (9, ''EBADF''), (10, ''ECHILD''), (11, ''EAGAIN''),
      (12, ''ENOMEM''), (13, ''EACCES''), (14, ''EFAULT''), (16, ''EBUSY''), (17, ''EEXIST''),
      (18, ''EXDEV''), (19, ''ENODEV''), (20, ''ENOTDIR''), (21, ''EISDIR''), (23, ''ENFILE''),
      (24, ''EMFILE''), (25, ''ENOTTY''), (27, ''EFBIG''), (28, ''ENOSPC''), (29, ''ESPIPE''),
      (30, ''EROFS''), (31, ''EMLINK''), (32, ''EPIPE''), (33, ''EDOM''), (35, ''EDEADLK''),
      (36, ''ENAMETOOLONG''), (37, ''ENOLCK''), (38, ''ENOSYS''), (39, ''ENOTEMPTY''),
      (22, ''EINVAL''), (34, ''ERANGE''), (84, ''EILSEQ''), (98, ''EADDRINUSE''),
      (99, ''EADDRNOTAVAIL''), (97, ''EAFNOSUPPORT''), (114, ''EALREADY''), (74, ''EBADMSG''),
      (125, ''ECANCELED''), (103, ''ECONNABORTED''), (111, ''ECONNREFUSED''), (104, ''ECONNRESET''),
      (89, ''EDESTADDRREQ''), (113, ''EHOSTUNREACH''), (43, ''EIDRM''), (115, ''EINPROGRESS''),
      (106, ''EISCONN''), (40, ''ELOOP''), (90, ''EMSGSIZE''), (100, ''ENETDOWN''),
      (102, ''ENETRESET''), (101, ''ENETUNREACH''), (105, ''ENOBUFS''), (61, ''ENODATA''),
      (67, ''ENOLINK''), (42, ''ENOMSG''), (92, ''ENOPROTOOPT''), (63, ''ENOSR''), (60, ''ENOSTR''),
      (107, ''ENOTCONN''), (131, ''ENOTRECOVERABLE''), (88, ''ENOTSOCK''), (95, ''ENOTSUP''),
      (75, ''EOVERFLOW''), (130, ''EOWNERDEAD''), (71, ''EPROTO''), (93, ''EPROTONOSUPPORT''),
      (91, ''EPROTOTYPE''), (62, ''ETIME''), (110, ''ETIMEDOUT''), (26, ''ETXTBSY'')]"

definition get_errno_text :: "int \<Rightarrow> string option" where
  "get_errno_text error =
     (if error = 0 then None
      else case map_of errno_names error of Some t \<Rightarrow> Some t | None \<Rightarrow> Some ''Unknown'')"

definition last_error_text :: "int \<Rightarrow> string" where
  "last_error_text error =
     (if error \<noteq> 0 then
        case get_errno_text error of
          Some t \<Rightarrow> ''[Error='' @ print_d error @ '' ('' @ t @ '')]''
        | None \<Rightarrow> []
      else [])"

text \<open>Elapsed time of a 64-bit tick counter; \<open>scale\<close> is the ticks per microsecond.\<close>

definition elapsed_hrtime :: "64 word \<Rightarrow> 64 word \<Rightarrow> 64 word" where
  "elapsed_hrtime start stop = (if stop > start then stop - start else NOT start + 1 + stop)"

definition elapsed_hrtime_usecs :: "64 word \<Rightarrow> 64 word \<Rightarrow> 64 word \<Rightarrow> 64 word" where
  "elapsed_hrtime_usecs scale start stop = elapsed_hrtime start stop div scale"

definition elapsed_hrtime_msecs :: "64 word \<Rightarrow> 64 word \<Rightarrow> 64 word \<Rightarrow> 64 word" where
  "elapsed_hrtime_msecs scale start stop = elapsed_hrtime_usecs scale start stop div 1000"

definition elapsed_hrtime_nsecs :: "64 word \<Rightarrow> 64 word \<Rightarrow> 64 word \<Rightarrow> 64 word" where
  "elapsed_hrtime_nsecs scale start stop = drop_bit 10 (elapsed_hrtime start stop * (1024000 div scale))"

section \<open>Trimming\<close>

definition uncntrl_char :: "char \<Rightarrow> char" where
  "uncntrl_char x = (if c_iscntrl x then CHR '' '' else x)"

definition trimmed :: "char \<Rightarrow> string \<Rightarrow> bool" where
  "trimmed c s \<longleftrightarrow> s = [] \<or> \<not> blank (hd s) \<and> \<not> blank (last s) \<and> \<not> (hd s = c \<and> last s = c)"

lemma not_blank_uncntrl: "\<not> blank x \<Longrightarrow> uncntrl_char x = x"
  by (simp add: blank_def uncntrl_char_def)

lemma uncntrl_char_idem [simp]: "uncntrl_char (uncntrl_char x) = uncntrl_char x"
  by (simp add: uncntrl_char_def c_iscntrl_def c_code_def)

lemma clean_from_eq:
  "k < length s \<Longrightarrow> clean_from k s = map uncntrl_char (take (Suc k) s) @ drop (Suc k) s"
proof (induction k arbitrary: s)
  case 0
  then show ?case by (cases s) (auto simp: uncntrl_def uncntrl_char_def char_at_def)
next
  case (Suc k)
  let ?s = "uncntrl s (Suc k)"
  have u: "?s = take (Suc k) s @ [uncntrl_char (s ! Suc k)] @ drop (Suc (Suc k)) s"
    using Suc.prems by (auto simp: uncntrl_def uncntrl_char_def char_at_def upd_conv_take_nth_drop id_take_nth_drop [symmetric])
  have "clean_from (Suc k) s = map uncntrl_char (take (Suc k) ?s) @ drop (Suc k) ?s"
    using Suc.IH [of ?s] Suc.prems by (simp add: uncntrl_def)
  also have "\<dots> = map uncntrl_char (take (Suc k) s) @ [uncntrl_char (s ! Suc k)] @ drop (Suc (Suc k)) s"
    using Suc.prems by (simp add: u)
  finally show ?case using Suc.prems by (simp add: take_Suc_conv_app_nth)
qed

lemma trimmed_map: "trimmed c s \<Longrightarrow> trimmed c (map uncntrl_char s)"
  by (cases "s = []") (auto simp: trimmed_def hd_map last_map not_blank_uncntrl)

text \<open>What one pass of the loop removes, over the character list of the argument.\<close>

lemma trim_loop_step:
  assumes "arg \<noteq> []"
  shows "trim_loop c arg (length arg) =
    (if blank (last arg) then trim_loop c (butlast arg) (length (butlast arg))
     else if blank (hd arg) then trim_loop c (tl arg) (length (tl arg))
     else if hd arg = c \<and> last arg = c then trim_loop c (tl (butlast arg)) (length (tl (butlast arg)))
     else map uncntrl_char arg)"
proof -
  obtain n where n: "length arg = Suc n" using assms by (cases arg) auto
  have l: "char_at arg n = last arg" "char_at arg 0 = hd arg"
    using n assms by (simp_all add: char_at_def last_conv_nth hd_conv_nth)
  have e: "erase1 arg n = butlast arg" "erase1 arg 0 = tl arg" "length (butlast arg) = n" "length (tl arg) = n"
    using n by (simp_all add: erase1_def butlast_conv_take drop_Suc)
  have b: "erase1 (butlast arg) 0 = tl (butlast arg)" by (simp add: erase1_def drop_Suc)
  have "n = 0 \<Longrightarrow> tl arg = tl (butlast arg)" using n by (cases arg) auto
  moreover have "clean_from n arg = map uncntrl_char arg" using n by (simp add: clean_from_eq)
  moreover have "length (tl (butlast arg)) = n - 1" using n by simp
  ultimately show ?thesis
    unfolding n trim_loop.simps l e b by (cases "n = 0") auto
qed

lemma trim_loop_core:
  "\<exists>pre core post. arg = pre @ core @ post \<and> trim_loop c arg (length arg) = map uncntrl_char core \<and>
     trimmed c core \<and> (\<forall>x \<in> set pre \<union> set post. blank x \<or> x = c)"
proof (induction "length arg" arbitrary: arg rule: less_induct)
  case less
  show ?case
  proof (cases "arg = []")
    case True
    then show ?thesis by (auto simp: trimmed_def)
  next
    case False
    have parts: "arg = butlast arg @ [last arg]" "arg = hd arg # tl arg" using False by simp_all
    consider "blank (last arg)" | "\<not> blank (last arg)" "blank (hd arg)"
      | "\<not> blank (last arg)" "\<not> blank (hd arg)" "hd arg = c" "last arg = c"
      | "\<not> blank (last arg)" "\<not> blank (hd arg)" "\<not> (hd arg = c \<and> last arg = c)" by blast
    then show ?thesis
    proof cases
      case 1
      obtain pre core post where "butlast arg = pre @ core @ post"
          "trim_loop c (butlast arg) (length (butlast arg)) = map uncntrl_char core" "trimmed c core"
          "\<forall>x \<in> set pre \<union> set post. blank x \<or> x = c"
        using less [of "butlast arg"] False by (metis diff_less length_butlast length_greater_0_conv zero_less_one)
      with 1 False parts(1) show ?thesis
        by (intro exI [of _ pre] exI [of _ core] exI [of _ "post @ [last arg]"]) (auto simp: trim_loop_step)
    next
      case 2
      obtain pre core post where "tl arg = pre @ core @ post"
          "trim_loop c (tl arg) (length (tl arg)) = map uncntrl_char core" "trimmed c core"
          "\<forall>x \<in> set pre \<union> set post. blank x \<or> x = c"
        using less [of "tl arg"] False by (metis diff_less length_tl length_greater_0_conv zero_less_one)
      with 2 False parts(2) show ?thesis
        by (intro exI [of _ "hd arg # pre"] exI [of _ core] exI [of _ post]) (auto simp: trim_loop_step)
    next
      case 3
      obtain pre core post where d: "tl (butlast arg) = pre @ core @ post"
          "trim_loop c (tl (butlast arg)) (length (tl (butlast arg))) = map uncntrl_char core" "trimmed c core"
          "\<forall>x \<in> set pre \<union> set post. blank x \<or> x = c"
        using less [of "tl (butlast arg)"] False
        by (metis diff_less length_butlast length_tl length_greater_0_conv less_imp_diff_less zero_less_one)
      have t: "trim_loop c arg (length arg) = map uncntrl_char core"
        using 3 False d(2) by (simp add: trim_loop_step)
      show ?thesis
      proof (cases "butlast arg = []")
        case True
        then have "core = []" "arg = [c]" using d(1) parts(1) 3 by auto
        then show ?thesis using t by (intro exI [of _ "[c]"] exI [of _ "[]"]) (auto simp: trimmed_def)
      next
        case butlast: False
        then have "hd (butlast arg) = c" using parts 3(3) by (metis hd_append2)
        then have "arg = (c # pre) @ core @ (post @ [c])"
          using butlast d(1) parts(1) 3(4) by (metis append.assoc append_Cons list.collapse)
        then show ?thesis using t d(3,4)
          by (intro exI [of _ "c # pre"] exI [of _ core] exI [of _ "post @ [c]"]) auto
      qed
    next
      case 4
      then show ?thesis
        using False by (intro exI [of _ "[]"] exI [of _ arg]) (auto simp: trim_loop_step trimmed_def)
    qed
  qed
qed

lemma trim_string_core:
  obtains pre core post where "s = pre @ core @ post" "trim_string c s = map uncntrl_char core" "trimmed c core"
    "\<forall>x \<in> set pre \<union> set post. blank x \<or> x = c"
  using trim_loop_core [of s c] by (auto simp: trim_string_def)

lemma trim_string_trimmed: "trimmed c (trim_string c s)" "\<forall>x \<in> set (trim_string c s). \<not> c_iscntrl x"
proof -
  obtain pre core post where "trim_string c s = map uncntrl_char core" "trimmed c core"
    using trim_string_core [of s c] by blast
  then show "trimmed c (trim_string c s)" "\<forall>x \<in> set (trim_string c s). \<not> c_iscntrl x"
    by (auto simp: trimmed_map uncntrl_char_def c_iscntrl_def c_code_def)
qed

lemma trim_string_fixed:
  assumes "trimmed c s" "\<forall>x \<in> set s. \<not> c_iscntrl x"
  shows "trim_string c s = s"
proof (cases "s = []")
  case True
  then show ?thesis by (simp add: trim_string_def)
next
  case False
  have "map uncntrl_char s = s" using assms(2) by (intro map_idI) (simp add: uncntrl_char_def)
  with False assms(1) show ?thesis by (auto simp: trim_string_def trim_loop_step trimmed_def)
qed

section \<open>Unescaping\<close>

fun unesc :: "string \<Rightarrow> string" where
  "unesc [] = []"
| "unesc (x # xs) =
     (if x = CHR 0x5C then (case xs of [] \<Rightarrow> [] | y # ys \<Rightarrow> y # unesc ys) else x # unesc xs)"

definition esc :: "string \<Rightarrow> string" where
  "esc s = concat (map (\<lambda>x. if x = CHR 0x5C then [x, x] else [x]) s)"

lemma unesc_esc: "unesc (esc s) = s"
  by (induction s) (auto simp: esc_def)

lemma unesc_none: "CHR 0x5C \<notin> set s \<Longrightarrow> unesc s = s"
  by (induction s) auto

lemma unesc_skip: "CHR 0x5C \<notin> set t \<Longrightarrow> unesc (t @ s) = t @ unesc s"
  by (induction t) auto

lemma esc_loop_eq: "pos \<le> length param \<Longrightarrow> esc_loop param pos = take pos param @ unesc (drop pos param)"
proof (induction param pos rule: esc_loop.induct)
  case (1 param pos)
  show ?case
  proof (cases "find_from (CHR 0x5C) param pos")
    case None
    then have "CHR 0x5C \<notin> set (drop pos param)" using 1(2) by (auto simp: find_from_def split: if_splits)
    with None show ?thesis by (simp add: esc_loop.simps [of param pos] unesc_none)
  next
    case (Some p)
    note b = find_from_bounds [OF Some]
    define t where "t = takeWhile (\<lambda>d. d \<noteq> CHR 0x5C) (drop pos param)"
    have p: "p = pos + length t" using Some by (auto simp: find_from_def t_def split: if_splits)
    have t: "CHR 0x5C \<notin> set t" by (auto simp: t_def dest: set_takeWhileD)
    have d: "drop pos param = t @ CHR 0x5C # drop (Suc p) param"
      using b p by (metis Cons_nth_drop_Suc append_eq_conv_conj drop_drop t_def takeWhile_eq_take add.commute
          append_take_drop_id)
    have e: "take pos param @ t = take p param"
      by (metis append_eq_conv_conj d p take_add)
    let ?q = "erase1 param p"
    have q: "?q = take p param @ drop (Suc p) param" by (simp add: erase1_def)
    have step: "esc_loop param pos = esc_loop ?q (Suc p)" using Some by (simp add: esc_loop.simps [of param pos])
    show ?thesis
    proof (cases "drop (Suc p) param")
      case Nil
      then have "length ?q = p" using b by (simp add: q)
      then have "find_from (CHR 0x5C) ?q (Suc p) = None" by (simp add: find_from_def)
      then have "esc_loop ?q (Suc p) = ?q" by (simp add: esc_loop.simps [of ?q])
      with Nil step d t e show ?thesis by (simp add: q unesc_skip)
    next
      case (Cons y ys)
      have "Suc p \<le> length ?q" using Cons b by (simp add: q)
      then have "esc_loop ?q (Suc p) = take (Suc p) ?q @ unesc (drop (Suc p) ?q)" using 1(1) Some by blast
      moreover have "take (Suc p) ?q = take p param @ [y]" "drop (Suc p) ?q = ys" using b Cons by (simp_all add: q)
      ultimately show ?thesis using step d t e Cons by (simp add: unesc_skip)
    qed
  qed
qed

section \<open>Argument vectors\<close>

definition quote_arg :: "bool \<Rightarrow> string \<Rightarrow> string" where
  "quote_arg q a = (if q \<and> CHR '' '' \<in> set a then [CHR 0x27] @ a @ [CHR 0x27] else a)"

fun join :: "string list \<Rightarrow> string" where
  "join [] = []"
| "join [a] = a"
| "join (a # b # as) = a @ '' '' @ join (b # as)"

lemma find_space_trimmed:
  assumes "trimmed c a"
  shows "(\<exists>p \<in> set_option (find_from (CHR '' '') a 0). p > 0) \<longleftrightarrow> CHR '' '' \<in> set a"
proof (cases a)
  case Nil
  then show ?thesis by (simp add: find_from_def)
next
  case (Cons x xs)
  then have "x \<noteq> CHR '' ''" using assms by (auto simp: trimmed_def blank_def c_isspace_def c_code_def)
  with Cons show ?thesis by (auto simp: find_from_def)
qed

lemma join_Cons: "as \<noteq> [] \<Longrightarrow> join (a # as) = a @ '' '' @ join as"
  by (cases as) auto

lemma join_nonempty: "as \<noteq> [] \<Longrightarrow> \<forall>a \<in> set as. a \<noteq> [] \<Longrightarrow> join as \<noteq> []"
  by (cases as rule: join.cases) auto

lemma parse_argv_loop_eq:
  "parse_argv_loop q argv params =
     (let as = map (quote_arg q) (filter (\<lambda>a. a \<noteq> []) (map (trim_string (CHR '' '')) argv))
      in if params = [] then join as else if as = [] then params else params @ '' '' @ join as)"
proof (induction argv arbitrary: params)
  case Nil
  then show ?case by simp
next
  case (Cons a argv)
  have q: "(if q \<and> (\<exists>p \<in> set_option (find_from (CHR '' '') (trim_string (CHR '' '') a) 0). p > 0)
      then [CHR 0x27] @ trim_string (CHR '' '') a @ [CHR 0x27] else trim_string (CHR '' '') a)
      = quote_arg q (trim_string (CHR '' '') a)"
    using find_space_trimmed [OF trim_string_trimmed(1), of "CHR '' ''" a] by (simp add: quote_arg_def)
  have ne: "trim_string (CHR '' '') a \<noteq> [] \<Longrightarrow> quote_arg q (trim_string (CHR '' '') a) \<noteq> []"
    by (simp add: quote_arg_def)
  show ?case
    unfolding parse_argv_loop.simps Let_def q Cons.IH using ne by (auto simp: join_Cons Let_def)
qed

section \<open>Dumps and texts\<close>

lemma hex_loop_layout:
  assumes "l \<le> length p"
  shows "\<exists>hs cs. hex_loop p l j n ss sc = Returns (ss @ hs, sc @ cs) \<and>
    length hs + (j + 3) div 4 = 2 * n + (j + n + 3) div 4"
  using assms
proof (induction n arbitrary: p l j ss sc)
  case 0
  then show ?case by simp
next
  case (Suc n)
  have four: "(if j mod 4 = 0 then 1 else 0) + (j + 3) div 4 = (Suc j + 3) div 4" by presburger
  show ?case
  proof (cases "l = 0")
    case True
    obtain hs cs where "hex_loop p 0 (Suc j) n ((if j mod 4 = 0 then ss @ '' '' else ss) @ ''  '') sc =
        Returns (((if j mod 4 = 0 then ss @ '' '' else ss) @ ''  '') @ hs, sc @ cs)"
        "length hs + (Suc j + 3) div 4 = 2 * n + (Suc j + n + 3) div 4"
      using Suc.IH [of 0 p "Suc j" "(if j mod 4 = 0 then ss @ '' '' else ss) @ ''  ''" sc] by auto
    with True four show ?thesis
      by (intro exI [of _ "(if j mod 4 = 0 then '' '' else []) @ ''  '' @ hs"] exI [of _ cs]) (auto simp: Let_def)
  next
    case False
    then obtain sx p' where p: "p = sx # p'" using Suc.prems by (cases p) auto
    have lp: "l - 1 \<le> length p'" using Suc.prems p by auto
    let ?ss = "(if j mod 4 = 0 then ss @ '' '' else ss) @ print_02X (unat sx)"
    let ?c = "if sx AND 0x80 \<noteq> 0 then CHR ''.'' else c_char (sx AND 0x7F)"
    let ?sc = "(if j \<noteq> 0 \<and> j mod 8 = 0 then sc @ '' '' else sc) @ [?c]"
    have step: "hex_loop p l j (Suc n) ss sc = hex_loop p' (l - 1) (Suc j) n ?ss ?sc"
      using False p by (simp add: Let_def)
    obtain hs cs where h: "hex_loop p' (l - 1) (Suc j) n ?ss ?sc = Returns (?ss @ hs, ?sc @ cs)"
        "length hs + (Suc j + 3) div 4 = 2 * n + (Suc j + n + 3) div 4"
      using Suc.IH [of "l - 1" p' "Suc j" ?ss ?sc] lp by blast
    let ?hs = "(if j mod 4 = 0 then '' '' else []) @ print_02X (unat sx) @ hs"
    let ?cs = "(if j \<noteq> 0 \<and> j mod 8 = 0 then '' '' else []) @ [?c] @ cs"
    have "?ss @ hs = ss @ ?hs" "?sc @ cs = sc @ ?cs" by simp_all
    moreover have "length ?hs + (j + 3) div 4 = 2 * Suc n + (j + Suc n + 3) div 4"
      using h(2) four by (simp add: print_02X_def split: if_splits)
    ultimately show ?thesis using step h(1) by metis
  qed
qed

lemma errno_names_distinct: "distinct (map fst errno_names)" "distinct (map snd errno_names)"
    "''Unknown'' \<notin> set (map snd errno_names)"
  by code_simp+

lemma errno_names_short: "\<forall>e \<in> set errno_names. length (snd e) \<le> 15"
  by code_simp

lemma print_d_int_length:
  assumes "- 2147483648 \<le> e" "e \<le> INT_MAX"
  shows "length (print_d e) \<le> 11"
proof -
  have "nat (- e) < 10 ^ 10" "nat e < 10 ^ 10" using assms by (simp_all add: INT_MAX_def nat_less_iff)
  then have "length (dec_digits (nat (- e))) \<le> 10" "length (dec_digits (nat e)) \<le> 10"
    by (simp_all only: length_dec_digits zero_less_numeral)
  then show ?thesis by (simp add: print_d_def)
qed

section \<open>Properties\<close>

text \<open>
  \<open>trim_string\<close> removes from both ends only blanks (white space or control
  characters) and quotes that stand at both ends at once, replaces the control characters
  left inside by spaces, leaves neither a blank end nor a balanced pair of quotes, and
  changes nothing when applied again.
\<close>

theorem trim_string_correct:
  "trimmed c (trim_string c s) \<and> (\<forall>x \<in> set (trim_string c s). \<not> c_iscntrl x) \<and>
   trim_string c (trim_string c s) = trim_string c s \<and>
   (\<exists>pre core post. s = pre @ core @ post \<and> trim_string c s = map uncntrl_char core \<and>
      (\<forall>x \<in> set pre \<union> set post. blank x \<or> x = c))"
  using trim_string_trimmed [of c s] trim_string_fixed [OF trim_string_trimmed, of c s]
    trim_string_core [of s c] by metis

theorem trim_string_correct_witness:
  "trim_string (CHR 0x27) '' (a'' = ''(a'' \<and>
   trim_string (CHR 0x27) (trim_string (CHR 0x27) '' (a'') = trim_string (CHR 0x27) '' (a''"
proof -
  have "trim_string (CHR 0x27) '' (a'' = ''(a''" by code_simp
  then show ?thesis using trim_string_correct [of "CHR 0x27" "'' (a''"] by simp
qed

text \<open>
  \<open>parse_esc\<close> drops one level of backslash escapes after the offset: each
  backslash is removed and the character after it kept, so doubling the backslashes of any
  string is undone, and text without backslashes is unchanged.
\<close>

theorem parse_esc_round_trip:
  "parse_esc (t @ esc s) (length t) = t @ s \<and> (CHR 0x5C \<notin> set s \<longrightarrow> parse_esc (t @ s) (length t) = t @ s)"
  by (simp add: parse_esc_def esc_loop_eq unesc_esc unesc_none)

theorem parse_esc_round_trip_witness:
  "parse_esc (''ab'' @ [CHR 0x5C, CHR 0x5C, CHR ''x'']) 2 = [CHR ''a'', CHR ''b'', CHR 0x5C, CHR ''x''] \<and>
   parse_esc ''abxy'' 2 = ''abxy''"
  using parse_esc_round_trip [of "''ab''" "[CHR 0x5C, CHR ''x'']"] parse_esc_round_trip [of "''ab''" "''xy''"]
  by (simp add: esc_def numeral_2_eq_2)

text \<open>
  \<open>parse_argv\<close> joins the trimmed, non-empty arguments with single spaces; with
  quoting on, exactly those arguments that contain a space are put in single quotes.
\<close>

theorem parse_argv_joins:
  "parse_argv argv q =
     join (map (quote_arg q) (filter (\<lambda>a. a \<noteq> []) (map (trim_string (CHR '' '')) argv)))"
  by (simp add: parse_argv_def parse_argv_loop_eq Let_def)

text \<open>
  Every line of \<open>hex_dump_data\<close> has its text column at the same place: for a
  given width the part before the opening quote has one fixed length, however few bytes
  the line holds, and no byte outside the buffer is read.
\<close>

theorem hex_dump_data_aligned:
  assumes "0 < len" "len \<le> length buf"
  shows "\<exists>h t. hex_dump_data buf len width = Returns (h @ [CHR 0x22] @ t) \<and>
    length h = 2 * width + (width + 3) div 4 + 1"
proof -
  obtain hs cs where h: "hex_loop buf len 0 width [] [] = Returns (hs, cs)" "length hs = 2 * width + (width + 3) div 4"
    using hex_loop_layout [OF assms(2), of 0 width "[]" "[]"] by auto
  then show ?thesis
    using assms(1) by (intro exI [of _ "hs @ '' ''"] exI [of _ "cs @ [CHR 0x22]"]) (simp add: hex_dump_data_def)
qed

theorem hex_dump_data_aligned_witness:
  "\<exists>h t. hex_dump_data [0x41, 0x42, 0x0A] 3 16 = Returns (h @ [CHR 0x22] @ t) \<and> length h = 37"
  using hex_dump_data_aligned [of 3 "[0x41, 0x42, 0x0A]" 16] by simp

text \<open>
  Each known error number has its own name, and the text of \<open>last_error_text\<close>
  fits its 64-byte buffer for every 32-bit error number.
\<close>

theorem error_text_safe:
  assumes "- 2147483648 \<le> e" "e \<le> INT_MAX"
  shows "length (last_error_text e) < 64 \<and>
    (get_errno_text e = get_errno_text e' \<and> get_errno_text e \<noteq> Some ''Unknown'' \<longrightarrow> e = e')"
proof -
  have short: "length t \<le> 15" if "get_errno_text e = Some t" for t
    using that errno_names_short by (auto simp: get_errno_text_def split: if_splits option.splits dest!: map_of_SomeD)
  have "length (last_error_text e) < 64"
    using print_d_int_length [OF assms] short
    by (auto simp: last_error_text_def split: option.splits)
  moreover have "e = e'" if eq: "get_errno_text e = get_errno_text e'" "get_errno_text e \<noteq> Some ''Unknown''"
  proof (cases "e = 0")
    case True
    then show ?thesis using eq by (auto simp: get_errno_text_def split: if_splits option.splits)
  next
    case False
    then obtain t where t: "map_of errno_names e = Some t" "map_of errno_names e' = Some t"
      using eq by (auto simp: get_errno_text_def split: if_splits option.splits)
    then have "(e, t) \<in> set errno_names" "(e', t) \<in> set errno_names" by (auto dest: map_of_SomeD)
    then show ?thesis using errno_names_distinct(2) by (metis (no_types) eq_snd_iff inj_on_def distinct_map fst_conv)
  qed
  ultimately show ?thesis by blast
qed

theorem error_text_safe_witness:
  "length (last_error_text 131) < 64 \<and> last_error_text 131 = ''[Error=131 (ENOTRECOVERABLE)]''"
proof -
  have "last_error_text 131 = ''[Error=131 (ENOTRECOVERABLE)]''" by code_simp
  then show ?thesis using error_text_safe [of 131] by (simp add: INT_MAX_def)
qed

text \<open>
  \<open>elapsed_hrtime\<close> is the modular difference of the two counter values in
  every case, so it is right across one wrap-around of the 64-bit counter; equal stamps
  give zero although the test in the code is strict.
\<close>

theorem elapsed_hrtime_modular:
  "elapsed_hrtime start stop = stop - start \<and> elapsed_hrtime start (start + d) = d"
  by (simp add: elapsed_hrtime_def minus_eq_not_plus_1 [symmetric])

end
