(* ===== verification/Date_Time.thy ===== *)
theory Date_Time
  imports Exceptions C_Text
begin

text \<open>
  \<^verbatim>\<open>DAF::Date_Time\<close> (\<^verbatim>\<open>daf/DateTime.h\<close>, \<^verbatim>\<open>daf/DateTime.cpp\<close>): calendar dates
  with a time of day, their validation, conversion to and from Julian day numbers, day
  arithmetic, ordering and text forms.

  The fields are those of \<^verbatim>\<open>ACE_Date_Time\<close>, eight \<^verbatim>\<open>long\<close>s.  \<open>gmtime\<close> is a
  parameter (the broken-down time, or none).  Integers are mathematical; the only place
  where an argument of the caller can leave the range of \<^verbatim>\<open>long\<close> is the day count of
  \<open>JUGDate\<close>, whose guard \<open>in_long\<close> makes the overflow \<open>Undefined\<close>.
\<close>

section \<open>Model\<close>

record date_time =
  day :: int
  month :: int
  year :: int
  hour :: int
  minute :: int
  second :: int
  microsec :: int
  weekday :: int

record tm =
  tm_mday :: int
  tm_mon :: int
  tm_year :: int
  tm_hour :: int
  tm_min :: int
  tm_sec :: int

definition daysInCalanderMonth :: "int list" where
  "daysInCalanderMonth = [0, 31, 28, 31, 30, 31, 30, 31, 31, 30, 31, 30, 31]"

definition firstDayOfEachMonth :: "int list" where
  "firstDayOfEachMonth = [0, 1, 32, 60, 91, 121, 152, 182, 213, 244, 274, 305, 335]"

text \<open>The casts to the two enumerations go through a 32-bit unsigned value.\<close>

definition assertWeekDayRange :: "int \<Rightarrow> bool" where
  "assertWeekDayRange d = (d = ace_range 0 6 (d mod 4294967296))"

definition assertDayRange :: "int \<Rightarrow> bool" where
  "assertDayRange d = (d = ace_range 1 31 d)"

definition assertMonthRange :: "int \<Rightarrow> bool" where
  "assertMonthRange m = (m = ace_range 1 12 (m mod 4294967296))"

definition assertYearRange :: "int \<Rightarrow> bool" where
  "assertYearRange y = (y = ace_range 1 3000 y)"

definition assertHourRange :: "int \<Rightarrow> bool" where
  "assertHourRange h = (h = ace_range 0 23 h)"

definition assertMinuteRange :: "int \<Rightarrow> bool" where
  "assertMinuteRange m = (m = ace_range 0 59 m)"

definition assertSecondRange :: "int \<Rightarrow> bool" where
  "assertSecondRange s = (s = ace_range 0 59 s)"

definition assertMicrosecRange :: "int \<Rightarrow> bool" where
  "assertMicrosecRange m = (m = ace_range 0 999999 m)"

definition isLeapYear :: "int \<Rightarrow> bool" where
  "isLeapYear y =
     (if c_mod y 4 \<noteq> 0 then False else if c_mod y 400 \<noteq> 0 then c_mod y 100 \<noteq> 0 else True)"

definition daysInYear :: "int \<Rightarrow> int" where
  "daysInYear y = (if isLeapYear y then 366 else 365)"

definition daysInMonth :: "int \<Rightarrow> int \<Rightarrow> int outcome" where
  "daysInMonth yr mon =
     (if assertMonthRange mon then
        if assertYearRange yr then
          let dy = daysInCalanderMonth ! nat mon
          in Returns (if mon = 2 \<and> isLeapYear yr then dy + 1 else dy)
        else Throws IllegalArgumentException
      else Throws IllegalArgumentException)"

definition isDayWithinMonth :: "int \<Rightarrow> int \<Rightarrow> int \<Rightarrow> bool outcome" where
  "isDayWithinMonth d m y =
     (if assertDayRange d
      then and_then (daysInMonth y m) (\<lambda>dy. Returns (if dy > 0 then d \<le> dy else False))
      else Returns False)"

definition assertDateRange :: "date_time \<Rightarrow> bool outcome" where
  "assertDateRange dt =
     and_then (isDayWithinMonth (day dt) (month dt) (year dt)) (\<lambda>ok.
       Returns (if ok then
         if assertHourRange (hour dt) then
           if assertMinuteRange (minute dt) then
             if assertSecondRange (second dt) then
               if assertMicrosecRange (microsec dt) then True else False
             else False
           else False
         else False
       else False))"

definition monthNAME :: "int \<Rightarrow> string" where
  "monthNAME m =
     (if assertMonthRange m
      then ['''', ''January'', ''February'', ''March'', ''April'', ''May'', ''June'', ''July'',
            ''August'', ''September'', ''October'', ''November'', ''December''] ! nat m
      else '''')"

definition monthDTGNAME :: "int \<Rightarrow> string" where
  "monthDTGNAME m =
     (if assertMonthRange m
      then ['''', ''JAN'', ''FEB'', ''MAR'', ''APR'', ''MAY'', ''JUN'', ''JUL'', ''AUG'',
            ''SEP'', ''OCT'', ''NOV'', ''DEC''] ! nat m
      else '''')"

definition weekdayNAME :: "int \<Rightarrow> string" where
  "weekdayNAME d =
     (if assertWeekDayRange d
      then [''Sunday'', ''Monday'', ''Tuesday'', ''Wednesday'', ''Thursday'', ''Friday'', ''Saturday''] ! nat d
      else '''')"

definition dayACRONIUM :: "int \<Rightarrow> string" where
  "dayACRONIUM d =
     (if assertDayRange d
      then [''th'', ''st'', ''nd'', ''rd'', ''th'', ''th'', ''th'', ''th'', ''th'', ''th'']
             ! nat (if d < 11 \<or> d > 13 then c_mod d 10 else 0)
      else '''')"

definition JUGDay :: "int \<Rightarrow> int \<Rightarrow> int \<Rightarrow> int" where
  "JUGDay d m y =
     (let (ma, y') = (if m > 2 then (m - 3, y) else (m + 9, y - 1));
          ca = c_div y' 100;
          ya = y' - ca * 100
      in d + c_div (ca * 146097) 4 + c_div (ya * 1461) 4 + c_div (ma * 153 + 2) 5 + 1721119)"

definition WEEKDay :: "int \<Rightarrow> int" where
  "WEEKDay d = c_mod (c_mod \<bar>d + 1\<bar> 7 + 7) 7"

definition WEEKDay_dmy :: "int \<Rightarrow> int \<Rightarrow> int \<Rightarrow> int" where
  "WEEKDay_dmy d m y = WEEKDay (JUGDay d m y)"

definition Date_Time_of :: "date_time \<Rightarrow> date_time outcome" where
  "Date_Time_of dt =
     and_then (assertDateRange dt) (\<lambda>ok.
       if ok then Returns (dt\<lparr>weekday := WEEKDay_dmy (day dt) (month dt) (year dt)\<rparr>)
       else Throws DateTimeException)"

definition Date_Time_new :: "int \<Rightarrow> int \<Rightarrow> int \<Rightarrow> int \<Rightarrow> int \<Rightarrow> int \<Rightarrow> int \<Rightarrow> date_time outcome" where
  "Date_Time_new d m y hh mm sec usec =
     Date_Time_of \<lparr>day = d, month = m, year = y, hour = hh, minute = mm, second = sec,
                   microsec = usec, weekday = 0\<rparr>"

definition Date_Time_tm :: "tm \<Rightarrow> int \<Rightarrow> date_time outcome" where
  "Date_Time_tm s usec =
     Date_Time_new (tm_mday s) (tm_mon s + 1) (tm_year s + 1900) (tm_hour s) (tm_min s) (tm_sec s) usec"

definition Date_Time_tv :: "(int \<Rightarrow> tm option) \<Rightarrow> int \<Rightarrow> date_time outcome" where
  "Date_Time_tv gmtime tv =
     (case gmtime (c_div tv 1000000) of
        Some s \<Rightarrow> Date_Time_tm s (c_mod tv 1000000)
      | None \<Rightarrow> Throws DateTimeException)"

definition GMTime :: "(int \<Rightarrow> tm option) \<Rightarrow> int \<times> int \<Rightarrow> date_time outcome" where
  "GMTime gmtime tv =
     (case gmtime (fst tv) of Some s \<Rightarrow> Date_Time_tm s (snd tv) | None \<Rightarrow> Undefined)"

definition in_long :: "int \<Rightarrow> bool" where
  "in_long i = (- 9223372036854775808 \<le> i \<and> i < 9223372036854775808)"

definition JUGDate_ymd :: "int \<Rightarrow> int \<times> int \<times> int" where
  "JUGDate_ymd jj =
     (let j = jj - 1721119;
          y = c_div (j * 4 - 1) 146097;
          j = (j * 4 - 1) - y * 146097;
          d = c_div j 4;
          j = c_div (d * 4 + 3) 1461;
          d = (d * 4 + 3) - j * 1461;
          d = c_div (d + 4) 4;
          m = c_div (d * 5 - 3) 153;
          d = (d * 5 - 3) - m * 153;
          y = 100 * y + j;
          d = c_div (d + 5) 5
      in if m < 10 then (y, m + 3, d) else (y + 1, m - 9, d))"

definition JUGDate :: "int \<Rightarrow> int \<Rightarrow> int \<Rightarrow> int \<Rightarrow> int \<Rightarrow> date_time outcome" where
  "JUGDate jj hh mm ss us =
     (if in_long jj \<and> in_long (jj - 1721119) \<and> in_long ((jj - 1721119) * 4 - 1)
      then case JUGDate_ymd jj of (y, m, d) \<Rightarrow> Date_Time_new d m y hh mm ss us
      else Undefined)"

definition julianDay :: "date_time \<Rightarrow> int" where
  "julianDay dt = JUGDay (day dt) (month dt) (year dt) - JUGDay 31 12 (year dt - 1)"

definition firstDayOfMonth :: "date_time \<Rightarrow> int \<Rightarrow> int outcome" where
  "firstDayOfMonth dt mon =
     (if assertMonthRange mon then
        let dy = firstDayOfEachMonth ! nat mon
        in Returns (if mon > 2 \<and> isLeapYear (year dt) then dy + 1 else dy)
      else Throws IllegalArgumentException)"

text \<open>The conversion operator to a time value, in microseconds, and \<open>msecs\<close>.\<close>

definition to_time_value :: "date_time \<Rightarrow> int" where
  "to_time_value dt =
     (let jd = JUGDay (day dt) (month dt) (year dt) - 2440588;
          ds = 86400 * jd; hs = 3600 * hour dt; ms = 60 * minute dt
      in 1000000 * (ds + hs + ms + second dt) + microsec dt)"

definition msecs :: "date_time \<Rightarrow> int" where
  "msecs dt =
     (let t = to_time_value dt in c_div t 1000000 * 1000 + c_div (c_mod t 1000000) 1000)"

definition dt_assign :: "date_time \<Rightarrow> date_time \<Rightarrow> date_time outcome" where
  "dt_assign self dt =
     and_then (assertDateRange dt) (\<lambda>ok.
       if ok then
         Returns (self\<lparr>day := day dt, month := month dt, year := year dt, hour := hour dt,
                       minute := minute dt, second := second dt, microsec := microsec dt,
                       weekday := WEEKDay_dmy (day dt) (month dt) (year dt)\<rparr>)
       else Throws IllegalArgumentException)"

definition dt_add :: "date_time \<Rightarrow> int \<Rightarrow> date_time outcome" where
  "dt_add dt days =
     and_then (JUGDate (JUGDay (day dt) (month dt) (year dt) + days)
                 (hour dt) (minute dt) (second dt) (microsec dt)) (dt_assign dt)"

definition dt_sub :: "date_time \<Rightarrow> int \<Rightarrow> date_time outcome" where
  "dt_sub dt days =
     and_then (JUGDate (JUGDay (day dt) (month dt) (year dt) - days)
                 (hour dt) (minute dt) (second dt) (microsec dt)) (dt_assign dt)"

definition cmp_long :: "int \<Rightarrow> int \<Rightarrow> int" where
  "cmp_long a b = (if a < b then - 1 else if a > b then 1 else 0)"

definition compare_field :: "date_time \<Rightarrow> date_time \<Rightarrow> nat \<Rightarrow> int" where
  "compare_field a b idx =
     [cmp_long (year a) (year b), cmp_long (month a) (month b), cmp_long (day a) (day b),
      cmp_long (hour a) (hour b), cmp_long (minute a) (minute b), cmp_long (second a) (second b),
      cmp_long (microsec a) (microsec b)] ! idx"

function compare_loop :: "date_time \<Rightarrow> date_time \<Rightarrow> nat \<Rightarrow> int" where
  "compare_loop a b idx =
     (if idx < 7 then
        let rtn = compare_field a b idx in if rtn = 0 then compare_loop a b (Suc idx) else rtn
      else 0)"
  by pat_completeness auto
termination
  by (relation "measure (\<lambda>(a, b, idx). 7 - idx)") auto

declare compare_loop.simps [simp del]

definition compare_to :: "date_time \<Rightarrow> date_time \<Rightarrow> int" where
  "compare_to a b = compare_loop a b 0"

definition dt_next :: "date_time \<Rightarrow> int \<Rightarrow> date_time outcome" where
  "dt_next dt d =
     (let jDay = JUGDay (day dt) (month dt) (year dt) in
      if assertWeekDayRange d
      then JUGDate (jDay + c_mod (6 + d - WEEKDay jDay) 7 + 1) (hour dt) (minute dt) (second dt) (microsec dt)
      else Throws IllegalArgumentException)"

definition dt_prev :: "date_time \<Rightarrow> int \<Rightarrow> date_time outcome" where
  "dt_prev dt d =
     (let jDay = JUGDay (day dt) (month dt) (year dt) in
      if assertWeekDayRange d
      then JUGDate (jDay - c_mod (6 + WEEKDay jDay - d) 7 - 1) (hour dt) (minute dt) (second dt) (microsec dt)
      else Throws IllegalArgumentException)"

definition toDateString :: "date_time \<Rightarrow> bool \<Rightarrow> string outcome" where
  "toDateString dt verbose =
     and_then (assertDateRange dt) (\<lambda>ok.
       if ok then
         Returns (if verbose then
             weekdayNAME (weekday dt) @ '', '' @ print_d (day dt) @ dayACRONIUM (day dt) @ '' '' @
             monthNAME (month dt) @ '' '' @ print_0d 4 (year dt) @ '' '' @
             print_d (if c_mod (hour dt) 12 \<noteq> 0 then c_mod (hour dt) 12 else 12) @ '':'' @
             print_0d 2 (minute dt) @ '':'' @ print_0d 2 (second dt) @
             (if hour dt \<ge> 12 then ''PM'' else ''AM'')
           else
             print_0d 4 (year dt) @ ''-'' @ print_0d 2 (month dt) @ ''-'' @ print_0d 2 (day dt) @ '' '' @
             print_0d 2 (hour dt) @ '':'' @ print_0d 2 (minute dt) @ '':'' @ print_0d 2 (second dt))
       else Throws IllegalArgumentException)"

definition toDTGString :: "date_time \<Rightarrow> string outcome" where
  "toDTGString dt =
     and_then (assertDateRange dt) (\<lambda>ok.
       if ok then
         Returns (print_0d 2 (day dt) @ print_0d 2 (hour dt) @ print_0d 2 (minute dt) @ ''Z '' @
                  monthDTGNAME (month dt) @ '' '' @ print_0d 2 (c_mod (year dt) 100))
       else Throws IllegalArgumentException)"

text \<open>
  The constructor from a string.  Fewer than three conversions leave \<^verbatim>\<open>m\<close> or \<^verbatim>\<open>d\<close>
  uninitialised; the last conversion has no width, so it can leave the range of
  \<^verbatim>\<open>int\<close>.  Both are \<open>Undefined\<close>.
\<close>

definition date_time_format :: "scan_item list" where
  "date_time_format =
     [Conv 4, Lit (CHR ''-''), Conv 2, Lit (CHR ''-''), Conv 2, Blank, Conv 2, Lit (CHR '':''), Conv 2,
      Lit (CHR '':''), Conv 2, Lit (CHR ''.''), Conv 0]"

definition Date_Time_parse :: "string \<Rightarrow> date_time outcome" where
  "Date_Time_parse s =
     (let v = scan date_time_format s;
          arg = (\<lambda>i. if i < length v then v ! i else 0)
      in if length s > 0 \<and> length v > 0 then
           if length v < 3 \<or> \<bar>arg 6\<bar> > INT_MAX then Undefined
           else Date_Time_new (arg 2) (arg 1) (arg 0) (arg 3) (arg 4) (arg 5) (arg 6 * 1000)
         else Throws DateTimeException)"

section \<open>Validity\<close>

definition leap :: "int \<Rightarrow> bool" where
  "leap y \<longleftrightarrow> y mod 4 = 0 \<and> (y mod 100 \<noteq> 0 \<or> y mod 400 = 0)"

definition month_days :: "int \<Rightarrow> int \<Rightarrow> int" where
  "month_days y m = (if m = 2 then if leap y then 29 else 28 else if m \<in> {4, 6, 9, 11} then 30 else 31)"

text \<open>A date of the proleptic Gregorian calendar within the supported years.\<close>

definition valid_date :: "int \<Rightarrow> int \<Rightarrow> int \<Rightarrow> bool" where
  "valid_date d m y \<longleftrightarrow> 1 \<le> m \<and> m \<le> 12 \<and> 1 \<le> y \<and> y \<le> 3000 \<and> 1 \<le> d \<and> d \<le> month_days y m"

definition valid_time :: "date_time \<Rightarrow> bool" where
  "valid_time dt \<longleftrightarrow> 0 \<le> hour dt \<and> hour dt \<le> 23 \<and> 0 \<le> minute dt \<and> minute dt \<le> 59 \<and>
     0 \<le> second dt \<and> second dt \<le> 59 \<and> 0 \<le> microsec dt \<and> microsec dt \<le> 999999"

definition valid_dt :: "date_time \<Rightarrow> bool" where
  "valid_dt dt \<longleftrightarrow> valid_date (day dt) (month dt) (year dt) \<and> valid_time dt"

lemma enum_range_iff:
  fixes d lo hi :: int
  assumes "0 \<le> lo" "lo \<le> hi" "hi < 4294967296"
  shows "d = ace_range lo hi (d mod 4294967296) \<longleftrightarrow> lo \<le> d \<and> d \<le> hi"
proof
  assume "d = ace_range lo hi (d mod 4294967296)"
  then show "lo \<le> d \<and> d \<le> hi" using ace_range_bounds [OF assms(2)] by metis
next
  assume "lo \<le> d \<and> d \<le> hi"
  then show "d = ace_range lo hi (d mod 4294967296)"
    using assms by (simp add: ace_range_eq_iff_sym)
qed

lemma range_tests [simp]:
  "assertWeekDayRange d \<longleftrightarrow> 0 \<le> d \<and> d \<le> 6"
  "assertMonthRange d \<longleftrightarrow> 1 \<le> d \<and> d \<le> 12"
  "assertDayRange d \<longleftrightarrow> 1 \<le> d \<and> d \<le> 31"
  "assertYearRange d \<longleftrightarrow> 1 \<le> d \<and> d \<le> 3000"
  "assertHourRange d \<longleftrightarrow> 0 \<le> d \<and> d \<le> 23"
  "assertMinuteRange d \<longleftrightarrow> 0 \<le> d \<and> d \<le> 59"
  "assertSecondRange d \<longleftrightarrow> 0 \<le> d \<and> d \<le> 59"
  "assertMicrosecRange d \<longleftrightarrow> 0 \<le> d \<and> d \<le> 999999"
  by (simp_all add: assertWeekDayRange_def assertMonthRange_def assertDayRange_def
      assertYearRange_def assertHourRange_def assertMinuteRange_def assertSecondRange_def
      assertMicrosecRange_def ace_range_eq_iff_sym enum_range_iff)

lemma isLeapYear_leap: "0 \<le> y \<Longrightarrow> isLeapYear y = leap y"
proof -
  assume y: "0 \<le> y"
  have "y mod 400 = 0 \<Longrightarrow> y mod 4 = 0"
    using mod_mod_cancel [of 4 400 y] by simp
  then show ?thesis using y by (auto simp: isLeapYear_def leap_def c_mod_pos)
qed

lemma month_cases:
  "1 \<le> m \<Longrightarrow> m \<le> (12::int) \<Longrightarrow> m \<in> {1, 2, 3, 4, 5, 6, 7, 8, 9, 10, 11, 12}"
  by simp presburger

lemma daysInMonth_eq:
  "daysInMonth y m =
     (if 1 \<le> m \<and> m \<le> 12 \<and> 1 \<le> y \<and> y \<le> 3000 then Returns (month_days y m) else Throws IllegalArgumentException)"
proof (cases "1 \<le> m \<and> m \<le> 12")
  case True
  then show ?thesis
    using month_cases [of m]
    by (auto simp: daysInMonth_def month_days_def daysInCalanderMonth_def Let_def isLeapYear_leap)
qed (auto simp: daysInMonth_def)

lemma month_days_bounds: "28 \<le> month_days y m" "month_days y m \<le> 31"
  by (auto simp: month_days_def)

lemma isDayWithinMonth_eq:
  "isDayWithinMonth d m y =
     (if 1 \<le> d \<and> d \<le> 31 then
        if 1 \<le> m \<and> m \<le> 12 \<and> 1 \<le> y \<and> y \<le> 3000 then Returns (d \<le> month_days y m)
        else Throws IllegalArgumentException
      else Returns False)"
  using month_days_bounds [of y m] by (auto simp: isDayWithinMonth_def daysInMonth_eq)

lemma assertDateRange_True: "assertDateRange dt = Returns True \<longleftrightarrow> valid_dt dt"
  using month_days_bounds [of "year dt" "month dt"]
  by (auto simp: assertDateRange_def isDayWithinMonth_eq valid_dt_def valid_date_def valid_time_def)

lemma assertDateRange_cases:
  "assertDateRange dt =
     (if valid_dt dt then Returns True
      else if 1 \<le> day dt \<and> day dt \<le> 31 \<and>
              \<not> (1 \<le> month dt \<and> month dt \<le> 12 \<and> 1 \<le> year dt \<and> year dt \<le> 3000)
      then Throws IllegalArgumentException
      else Returns False)"
  using month_days_bounds [of "year dt" "month dt"]
  by (auto simp: assertDateRange_def isDayWithinMonth_eq valid_dt_def valid_date_def valid_time_def)

lemma Date_Time_of_ok:
  "Date_Time_of dt = Returns r \<longleftrightarrow>
     valid_dt dt \<and> r = dt\<lparr>weekday := WEEKDay_dmy (day dt) (month dt) (year dt)\<rparr>"
  by (auto simp: Date_Time_of_def assertDateRange_cases)

section \<open>The calendar algorithm\<close>

text \<open>
  Both conversions work with a year that starts on the first of March: \<open>march_year\<close> and
  \<open>march_month\<close> (0 = March, 11 = February), and the day of that year, counted from 1.
\<close>

definition march_year :: "int \<Rightarrow> int \<Rightarrow> int" where
  "march_year m y = (if m > 2 then y else y - 1)"

definition march_month :: "int \<Rightarrow> int" where
  "march_month m = (if m > 2 then m - 3 else m + 9)"

definition march_day :: "int \<Rightarrow> int \<Rightarrow> int" where
  "march_day d m = d + (153 * march_month m + 2) div 5"

definition day_number :: "int \<Rightarrow> int \<Rightarrow> int" where
  "day_number my md = 146097 * (my div 100) div 4 + 1461 * (my mod 100) div 4 + md"

text \<open>The dates for which the algorithm is exact: March of year 0 onwards.\<close>

definition gregorian :: "int \<Rightarrow> int \<Rightarrow> int \<Rightarrow> bool" where
  "gregorian d m y \<longleftrightarrow> 1 \<le> m \<and> m \<le> 12 \<and> 1 \<le> d \<and> d \<le> month_days y m \<and> 0 \<le> march_year m y"

lemma valid_gregorian: "valid_date d m y \<Longrightarrow> gregorian d m y"
  by (auto simp: valid_date_def gregorian_def march_year_def)

lemma JUGDay_eq:
  assumes "1 \<le> m" "0 \<le> march_year m y"
  shows "JUGDay d m y = day_number (march_year m y) (march_day d m) + 1721119"
proof -
  let ?y = "march_year m y" and ?m = "march_month m"
  have nn: "0 \<le> ?y" "0 \<le> ?m" using assms by (auto simp: march_month_def)
  have "JUGDay d m y = d + c_div (c_div ?y 100 * 146097) 4
      + c_div ((?y - c_div ?y 100 * 100) * 1461) 4 + c_div (?m * 153 + 2) 5 + 1721119"
    by (simp add: JUGDay_def Let_def march_year_def march_month_def)
  also have "\<dots> = day_number ?y (march_day d m) + 1721119"
    using nn by (simp only: c_div_pos zero_less_numeral minus_div_mult_eq_mod)
      (simp add: c_div_pos day_number_def march_day_def mult.commute)
  finally show ?thesis .
qed

lemma div_by_4:
  fixes c :: int
  shows "4 * (146097 * c div 4) = 146097 * c - c mod 4" "4 * (1461 * c div 4) = 1461 * c - c mod 4"
proof -
  have "146097 * c div 4 = 36524 * c + c div 4" "1461 * c div 4 = 365 * c + c div 4" by linarith+
  then show "4 * (146097 * c div 4) = 146097 * c - c mod 4" "4 * (1461 * c div 4) = 1461 * c - c mod 4"
    by (simp_all add: algebra_simps minus_mult_div_eq_mod [symmetric])
qed

lemma century_leap:
  fixes a c :: int
  assumes "0 \<le> a" "a \<le> 99"
  shows "leap (100 * c + a + 1) \<longleftrightarrow> a mod 4 = 3 \<and> (a = 99 \<longrightarrow> c mod 4 = 3)"
proof -
  define x where "x = 100 * c + a + 1"
  have "x = a + 1 + 4 * (25 * c)" by (simp add: x_def)
  then have "x mod 4 = (a + 1) mod 4" by (simp only: mod_mult_self2)
  moreover have "(a + 1) mod 4 = 0 \<longleftrightarrow> a mod 4 = 3" by presburger
  ultimately have e4: "x mod 4 = 0 \<longleftrightarrow> a mod 4 = 3" by simp
  have "x = a + 1 + 100 * c" by (simp add: x_def)
  then have "x mod 100 = (a + 1) mod 100" by (simp only: mod_mult_self2)
  then have e100: "x mod 100 = 0 \<longleftrightarrow> a = 99" using assms by (cases "a = 99") auto
  have "x mod 400 = 100 * ((c + 1) mod 4)" if "a = 99"
    using that mult_mod_right [of 100 "c + 1" 4] by (simp add: x_def algebra_simps)
  moreover have "(c + 1) mod 4 = 0 \<longleftrightarrow> c mod 4 = 3" by presburger
  ultimately have e400: "x mod 400 = 0 \<longleftrightarrow> c mod 4 = 3" if "a = 99" using that by simp
  have "a = 99 \<Longrightarrow> a mod 4 = 3" by simp
  then show ?thesis unfolding leap_def x_def [symmetric] e4 e100 using e400 by (cases "a = 99") simp_all
qed

text \<open>The century, the year in the century and the day of the year, recovered from the day number.\<close>

lemma recover_year:
  fixes c a D :: int
  assumes "0 \<le> a" "a \<le> 99" "1 \<le> D" "D \<le> 366" "D = 366 \<Longrightarrow> leap (100 * c + a + 1)"
  defines "N \<equiv> 146097 * c div 4 + 1461 * a div 4 + D"
  shows "(N * 4 - 1) div 146097 = c"
    and "(N * 4 - 1 - c * 146097) div 4 = 1461 * a div 4 + D - 1"
    and "((1461 * a div 4 + D - 1) * 4 + 3) div 1461 = a"
    and "((1461 * a div 4 + D - 1) * 4 + 3 - a * 1461 + 4) div 4 = D"
proof -
  define r s where "r = c mod 4" and "s = a mod 4"
  have rs: "0 \<le> r" "r \<le> 3" "0 \<le> s" "s \<le> 3" by (auto simp: r_def s_def)
  have q: "4 * (146097 * c div 4) = 146097 * c - r" "4 * (1461 * a div 4) = 1461 * a - s"
    using div_by_4 by (simp_all add: r_def s_def)
  have N: "N * 4 - 1 = 146097 * c + (1461 * a - s - r + 4 * D - 1)"
    using q by (simp add: N_def)
  have last: "D \<le> 365 \<or> (s = 3 \<and> (a = 99 \<longrightarrow> r = 3))"
    using assms(4,5) century_leap [OF assms(1,2), of c] by (cases "D = 366") (auto simp: r_def s_def)
  have s99: "a = 99 \<Longrightarrow> s = 3" "a = 0 \<Longrightarrow> s = 0" by (auto simp: s_def)
  have lo: "0 \<le> 1461 * a - s - r + 4 * D - 1"
    using rs assms(1,3) s99(2) by (cases "a = 0") auto
  have hi: "1461 * a - s - r + 4 * D - 1 < 146097"
    using rs assms(2,4) s99(1) last by (cases "a = 99") auto
  show "(N * 4 - 1) div 146097 = c"
    using int_div_pos_eq [OF N lo hi] .
  have eq2: "N * 4 - 1 - c * 146097 = 4 * (1461 * a div 4 + D - 1) + (3 - r)"
    using N q(2) by simp
  show "(N * 4 - 1 - c * 146097) div 4 = 1461 * a div 4 + D - 1"
    by (rule int_div_pos_eq [OF eq2]) (use rs in auto)
  have eq3: "(1461 * a div 4 + D - 1) * 4 + 3 = 1461 * a + (4 * D - 1 - s)" using q(2) by simp
  show "((1461 * a div 4 + D - 1) * 4 + 3) div 1461 = a"
    by (rule int_div_pos_eq [OF eq3]) (use rs assms(3,4) last in auto)
  have eq4: "(1461 * a div 4 + D - 1) * 4 + 3 - a * 1461 + 4 = 4 * D + (3 - s)" using q(2) by simp
  show "((1461 * a div 4 + D - 1) * 4 + 3 - a * 1461 + 4) div 4 = D"
    by (rule int_div_pos_eq [OF eq4]) (use rs in auto)
qed

lemma march_month_cases: "0 \<le> k \<Longrightarrow> k \<le> (11::int) \<Longrightarrow> k \<in> {0, 1, 2, 3, 4, 5, 6, 7, 8, 9, 10, 11}"
  by simp presburger

lemma recover_month:
  fixes k d :: int
  assumes "0 \<le> k" "k \<le> 11" "1 \<le> d" "d \<le> 31" "k \<in> {1, 3, 6, 8} \<Longrightarrow> d \<le> 30" "k = 11 \<Longrightarrow> d \<le> 29"
  defines "D \<equiv> d + (153 * k + 2) div 5"
  shows "(D * 5 - 3) div 153 = k" and "(D * 5 - 3 - k * 153 + 5) div 5 = d"
proof -
  define r where "r = (153 * k + 2) mod 5"
  have r: "0 \<le> r" "r \<le> 4" by (auto simp: r_def)
  have q: "5 * ((153 * k + 2) div 5) = 153 * k + 2 - r"
    by (simp add: r_def minus_mult_div_eq_mod [symmetric])
  have eq1: "D * 5 - 3 = 153 * k + (5 * d - 1 - r)" using q by (simp add: D_def)
  have "d \<le> 30 \<or> 2 \<le> r"
    using march_month_cases [OF assms(1,2)] assms(4,5,6) by (auto simp: r_def)
  then have hi: "5 * d - 1 - r < 153" using assms(4) r by auto
  show "(D * 5 - 3) div 153 = k"
    by (rule int_div_pos_eq [OF eq1]) (use hi r assms(3) in auto)
  have eq2: "D * 5 - 3 - k * 153 + 5 = 5 * d + (4 - r)" using eq1 by simp
  show "(D * 5 - 3 - k * 153 + 5) div 5 = d"
    by (rule int_div_pos_eq [OF eq2]) (use r in auto)
qed

lemma gregorian_march:
  assumes "gregorian d m y"
  shows "0 \<le> march_month m" "march_month m \<le> 11" "1 \<le> d" "d \<le> 31"
    "march_month m \<in> {1, 3, 6, 8} \<Longrightarrow> d \<le> 30" "march_month m = 11 \<Longrightarrow> d \<le> 29"
    "1 \<le> march_day d m" "march_day d m \<le> 366" "march_day d m = 366 \<Longrightarrow> leap (march_year m y + 1)"
    "0 \<le> march_year m y"
proof -
  have m: "m \<in> {1, 2, 3, 4, 5, 6, 7, 8, 9, 10, 11, 12}"
    using assms month_cases [of m] by (simp add: gregorian_def)
  have v: "1 \<le> d" "d \<le> month_days y m" "0 \<le> march_year m y"
    using assms by (simp_all add: gregorian_def)
  show "0 \<le> march_month m" "march_month m \<le> 11" "0 \<le> march_year m y"
    using m v(3) by (auto simp: march_month_def)
  show "1 \<le> d" by (rule v(1))
  show "d \<le> 31" using v(2) month_days_bounds(2) [of y m] by simp
  show "march_month m \<in> {1, 3, 6, 8} \<Longrightarrow> d \<le> 30" "march_month m = 11 \<Longrightarrow> d \<le> 29"
    using m v(2) by (auto simp: march_month_def month_days_def split: if_splits)
  have md: "1 \<le> march_day d m \<and> march_day d m \<le> 366 \<and> (march_day d m = 366 \<longrightarrow> m = 2 \<and> leap y)"
    using m v(1,2) unfolding march_day_def march_month_def month_days_def insert_iff empty_iff
    by (elim disjE) (simp_all split: if_splits)
  then show "1 \<le> march_day d m" "march_day d m \<le> 366" by simp_all
  show "march_day d m = 366 \<Longrightarrow> leap (march_year m y + 1)"
    using md by (auto simp: march_year_def)
qed

lemma year_split:
  fixes y :: int
  assumes "0 \<le> y"
  shows "0 \<le> y mod 100" "y mod 100 \<le> 99" "100 * (y div 100) + y mod 100 = y" "0 \<le> y div 100"
  using assms by (auto simp: pos_imp_zdiv_nonneg_iff)

text \<open>The Gregorian date is recovered from its Julian day number.\<close>

lemma JUGDate_ymd_JUGDay:
  assumes "gregorian d m y"
  shows "JUGDate_ymd (JUGDay d m y) = (y, m, d)"
proof -
  let ?my = "march_year m y" and ?D = "march_day d m" and ?k = "march_month m"
  let ?c = "?my div 100" and ?a = "?my mod 100"
  note v = gregorian_march [OF assms]
  note ys = year_split [OF v(10)]
  have jug: "JUGDay d m y = day_number ?my ?D + 1721119"
    using assms by (intro JUGDay_eq) (auto simp: gregorian_def)
  have leap: "leap (100 * ?c + ?a + 1)" if "?D = 366" using v(9) that ys(3) by simp
  note ry = recover_year [OF ys(1,2) v(7,8) leap]
  note rm = recover_month [OF v(1-4) v(5) v(6)]
  have D: "?D = d + (153 * ?k + 2) div 5" by (simp add: march_day_def)
  note rm1 = rm(1) [folded D] and rm2 = rm(2) [folded D]
  let ?j = "day_number ?my ?D"
  have j: "?j = 146097 * ?c div 4 + 1461 * ?a div 4 + ?D" by (simp add: day_number_def)
  have nn: "0 \<le> 146097 * ?c div 4" "0 \<le> 1461 * ?a div 4"
    using ys(1,4) by (subst pos_imp_zdiv_nonneg_iff, simp_all)+
  have pos: "1 \<le> ?j" using nn v(7) by (simp only: j)
  note ry1 = ry(1) [folded j] and ry2 = ry(2) [folded j]
  have s1: "c_div (?j * 4 - 1) 146097 = ?c" 
    using pos by (intro c_div_eqI ry1) auto
  have s2: "c_div (?j * 4 - 1 - ?c * 146097) 4 = 1461 * ?a div 4 + ?D - 1"
  proof -
    have "0 \<le> ?j * 4 - 1 - ?c * 146097"
      using ry1 by (metis minus_div_mult_eq_mod pos_mod_sign zero_less_numeral)
    then show ?thesis by (intro c_div_eqI ry2) auto
  qed
  let ?d = "1461 * ?a div 4 + ?D - 1"
  have dp: "0 \<le> ?d" using nn(2) v(7) by linarith
  have s3: "c_div (?d * 4 + 3) 1461 = ?a" 
    using dp by (intro c_div_eqI ry(3)) auto
  have s4: "c_div (?d * 4 + 3 - ?a * 1461 + 4) 4 = ?D"
  proof -
    have "0 \<le> ?d * 4 + 3 - ?a * 1461"
      using ry(3) by (metis minus_div_mult_eq_mod pos_mod_sign zero_less_numeral)
    then show ?thesis by (intro c_div_eqI ry(4)) auto
  qed
  have s5: "c_div (?D * 5 - 3) 153 = ?k" 
    using v(7) by (intro c_div_eqI rm1) auto
  have s6: "c_div (?D * 5 - 3 - ?k * 153 + 5) 5 = d"
  proof -
    have "0 \<le> ?D * 5 - 3 - ?k * 153"
      using rm1 by (metis minus_div_mult_eq_mod pos_mod_sign zero_less_numeral)
    then show ?thesis by (intro c_div_eqI rm2) auto
  qed
  have "JUGDate_ymd (JUGDay d m y)
      = (if ?k < 10 then (100 * ?c + ?a, ?k + 3, d) else (100 * ?c + ?a + 1, ?k - 9, d))"
    unfolding JUGDate_ymd_def Let_def jug add_diff_cancel_right' s1 s2 s3 s4 s5 s6 by simp
  also have "\<dots> = (y, m, d)"
    using ys(3) assms month_cases [of m]
    by (auto simp: march_year_def march_month_def gregorian_def split: if_splits)
  finally show ?thesis .
qed

lemma recover_day_number:
  fixes j :: int
  assumes "1 \<le> j"
  defines "c \<equiv> (j * 4 - 1) div 146097"
  defines "e \<equiv> (j * 4 - 1 - c * 146097) div 4"
  defines "a \<equiv> (e * 4 + 3) div 1461"
  defines "D \<equiv> (e * 4 + 3 - a * 1461 + 4) div 4"
  shows "0 \<le> c" "0 \<le> j * 4 - 1 - c * 146097" "0 \<le> e" "0 \<le> a" "a \<le> 99" "0 \<le> e * 4 + 3 - a * 1461"
    "1 \<le> D" "D \<le> 366" "D = 366 \<Longrightarrow> leap (100 * c + a + 1)"
    "146097 * c div 4 + 1461 * a div 4 + D = j"
proof -
  define s where "s = j * 4 - 1 - c * 146097"
  define t where "t = e * 4 + 3 - a * 1461"
  have s: "0 \<le> s" "s < 146097"
    by (simp_all add: s_def c_def minus_div_mult_eq_mod)
  have t: "0 \<le> t" "t < 1461"
    by (simp_all add: t_def a_def minus_div_mult_eq_mod)
  show c0: "0 \<le> c" using assms(1) by (simp add: c_def pos_imp_zdiv_nonneg_iff)
  have e_s: "e = s div 4" by (simp add: e_def s_def)
  have D_t: "D = (t + 4) div 4" by (simp add: D_def t_def)
  show e0: "0 \<le> e" using s(1) by (simp add: e_s pos_imp_zdiv_nonneg_iff)
  show "0 \<le> j * 4 - 1 - c * 146097" using s(1) by (simp add: s_def)
  show a0: "0 \<le> a" using e0 by (simp add: a_def pos_imp_zdiv_nonneg_iff)
  have e_le: "e \<le> 36524" using s(2) by (simp add: e_s)
  then have "e * 4 + 3 < 146100" by simp
  then show a99: "a \<le> 99" using t(1) by (simp add: t_def)
  show "0 \<le> e * 4 + 3 - a * 1461" using t(1) by (simp add: t_def)
  show "1 \<le> D" "D \<le> 366" using t by (simp_all add: D_t)
  define r r' where "r = c mod 4" and "r' = a mod 4"
  have q: "4 * (146097 * c div 4) = 146097 * c - r" "4 * (1461 * a div 4) = 1461 * a - r'"
    using div_by_4 by (simp_all add: r_def r'_def)
  have rr: "0 \<le> r" "r \<le> 3" "0 \<le> r'" "r' \<le> 3" by (auto simp: r_def r'_def)
  have s4: "s = 4 * (j - 1 - 146097 * c div 4) + (3 - r)"
    using q(1) by (simp add: s_def)
  have e_eq: "e = j - 1 - 146097 * c div 4"
    unfolding e_s by (rule int_div_pos_eq [OF s4]) (use rr in auto)
  have t4: "t + 4 = 4 * (e + 1 - 1461 * a div 4) + (3 - r')"
    using q(2) by (simp add: t_def)
  have D_eq: "D = e + 1 - 1461 * a div 4"
    unfolding D_t by (rule int_div_pos_eq [OF t4]) (use rr in auto)
  show "146097 * c div 4 + 1461 * a div 4 + D = j" using D_eq e_eq by simp
  show "leap (100 * c + a + 1)" if "D = 366"
  proof -
    have "t + 4 = 4 * 366 + (3 - r')" using t4 D_eq that by simp
    then have r': "r' = 3" "t = 1460" using t rr by auto
    have "r = 3" if "a = 99"
    proof -
      have "e = 36524" using r'(2) that by (simp add: t_def)
      then show ?thesis using s4 e_eq s(2) rr by simp
    qed
    then show ?thesis using century_leap [OF a0 a99] r'(1) by (simp add: r_def r'_def)
  qed
qed

lemma recover_month_day:
  fixes D :: int
  assumes "1 \<le> D" "D \<le> 366"
  defines "k \<equiv> (D * 5 - 3) div 153"
  defines "d \<equiv> (D * 5 - 3 - k * 153 + 5) div 5"
  shows "0 \<le> k" "k \<le> 11" "0 \<le> D * 5 - 3 - k * 153" "1 \<le> d" "d \<le> 31" "k \<in> {1, 3, 6, 8} \<Longrightarrow> d \<le> 30"
    "k = 11 \<Longrightarrow> d \<le> 29" "k = 11 \<Longrightarrow> d = 29 \<Longrightarrow> D = 366" "d + (153 * k + 2) div 5 = D"
proof -
  define v where "v = D * 5 - 3 - k * 153"
  have v: "0 \<le> v" "v < 153" by (simp_all add: v_def k_def minus_div_mult_eq_mod)
  show k0: "0 \<le> k" using assms(1) by (simp add: k_def pos_imp_zdiv_nonneg_iff)
  show k11: "k \<le> 11" using v(1) assms(2) by (simp add: v_def)
  show "0 \<le> D * 5 - 3 - k * 153" using v(1) by (simp add: v_def)
  have d_v: "d = (v + 5) div 5" by (simp add: d_def v_def)
  show d1: "1 \<le> d" "d \<le> 31" using v by (simp_all add: d_v)
  define r where "r = (153 * k + 2) mod 5"
  have r: "0 \<le> r" "r \<le> 4" by (auto simp: r_def)
  have q: "5 * ((153 * k + 2) div 5) = 153 * k + 2 - r"
    by (simp add: r_def minus_mult_div_eq_mod [symmetric])
  have v5: "v + 5 = 5 * (D - (153 * k + 2) div 5) + (4 - r)" using q by (simp add: v_def)
  have d_eq: "d = D - (153 * k + 2) div 5"
    unfolding d_v by (rule int_div_pos_eq [OF v5]) (use r in auto)
  then show D_eq: "d + (153 * k + 2) div 5 = D" by simp
  show "d \<le> 30" if "k \<in> {1, 3, 6, 8}"
  proof -
    have "r \<le> 1" using that by (auto simp: r_def)
    moreover have "v + 5 = 5 * d + (4 - r)" using v5 d_eq by simp
    ultimately show ?thesis using v(2) by linarith
  qed
  show "d \<le> 29" "d = 29 \<Longrightarrow> D = 366" if "k = 11"
    using D_eq assms(2) that by simp_all
qed

lemma JUGDate_ymd_gregorian:
  assumes "1721120 \<le> jj" "JUGDate_ymd jj = (y, m, d)"
  shows "gregorian d m y" "JUGDay d m y = jj"
proof -
  define j where "j = jj - 1721119"
  have j1: "1 \<le> j" using assms(1) by (simp add: j_def)
  define c where "c = (j * 4 - 1) div 146097"
  define e where "e = (j * 4 - 1 - c * 146097) div 4"
  define a where "a = (e * 4 + 3) div 1461"
  define D where "D = (e * 4 + 3 - a * 1461 + 4) div 4"
  define k where "k = (D * 5 - 3) div 153"
  note ry = recover_day_number [OF j1, folded c_def, folded e_def, folded a_def, folded D_def]
  note rm = recover_month_day [OF ry(7,8), folded k_def]
  define d' where "d' = (D * 5 - 3 - k * 153 + 5) div 5"
  note rm' = rm [folded d'_def]
  have s1: "c_div (j * 4 - 1) 146097 = c"
    by (rule c_div_eqI [OF _ _ c_def [symmetric]]) (use j1 in auto)
  have s2: "c_div (j * 4 - 1 - c * 146097) 4 = e"
    by (rule c_div_eqI [OF _ _ e_def [symmetric]]) (use ry(2) in auto)
  have s3: "c_div (e * 4 + 3) 1461 = a"
    by (rule c_div_eqI [OF _ _ a_def [symmetric]]) (use ry(3) in auto)
  have s4: "c_div (e * 4 + 3 - a * 1461 + 4) 4 = D"
    by (rule c_div_eqI [OF _ _ D_def [symmetric]]) (use ry(6) in auto)
  have s5: "c_div (D * 5 - 3) 153 = k"
    by (rule c_div_eqI [OF _ _ k_def [symmetric]]) (use ry(7) in auto)
  have s6: "c_div (D * 5 - 3 - k * 153 + 5) 5 = d'"
    by (rule c_div_eqI [OF _ _ d'_def [symmetric]]) (use rm'(3) in auto)
  have eq: "JUGDate_ymd jj = (if k < 10 then (100 * c + a, k + 3, d') else (100 * c + a + 1, k - 9, d'))"
    unfolding JUGDate_ymd_def Let_def j_def [symmetric] s1 s2 s3 s4 s5 s6 by simp
  have my: "march_year m y = 100 * c + a" and mk: "march_month m = k" and dd: "d = d'"
    and m: "1 \<le> m" "m \<le> 12" "m = 2 \<longleftrightarrow> k = 11" "m \<in> {4, 6, 9, 11} \<longleftrightarrow> k \<in> {1, 3, 6, 8}"
    using assms(2) eq rm'(1,2) by (auto simp: march_year_def march_month_def split: if_splits)
  have y2: "m = 2 \<Longrightarrow> y = 100 * c + a + 1" using my by (simp add: march_year_def)
  have D: "march_day d m = D" using rm'(9) mk dd by (simp add: march_day_def)
  show greg: "gregorian d m y"
    using m rm'(4-8) dd my y2 ry(1,4,9)
    by (auto simp: gregorian_def month_days_def)
  have "day_number (march_year m y) (march_day d m) = j"
    using my D ry(4,5,10) by (simp add: day_number_def)
  then show "JUGDay d m y = jj"
    using JUGDay_eq [of m y d] greg by (simp add: gregorian_def j_def)
qed

section \<open>Order, weekdays and the day of the year\<close>

lemma lex_of_months:
  fixes y m d y' m' d' :: int
  assumes "1 \<le> m" "m \<le> 12" "1 \<le> m'" "m' \<le> 12" "12 * y + m \<le> 12 * y' + m'"
    "12 * y + m = 12 * y' + m' \<Longrightarrow> d \<le> d'"
  shows "y < y' \<or> y = y' \<and> (m < m' \<or> m = m' \<and> d \<le> d')"
  using assms by (cases y y' rule: linorder_cases; cases m m' rule: linorder_cases) auto

lemma march_months: "12 * march_year m y + march_month m = 12 * y + m - 3"
  by (simp add: march_year_def march_month_def)

lemma JUGDay_lex:
  assumes "gregorian d m y" "gregorian d' m' y'" "JUGDay d m y \<le> JUGDay d' m' y'"
  shows "y < y' \<or> y = y' \<and> (m < m' \<or> m = m' \<and> d \<le> d')"
proof -
  let ?c = "march_year m y div 100" and ?a = "march_year m y mod 100"
  let ?c' = "march_year m' y' div 100" and ?a' = "march_year m' y' mod 100"
  let ?D = "march_day d m" and ?D' = "march_day d' m'"
  note v = gregorian_march [OF assms(1)] and v' = gregorian_march [OF assms(2)]
  note ys = year_split [OF v(10)] and ys' = year_split [OF v'(10)]
  define N where "N = 146097 * ?c div 4 + 1461 * ?a div 4 + ?D"
  define N' where "N' = 146097 * ?c' div 4 + 1461 * ?a' div 4 + ?D'"
  have "leap (100 * ?c + ?a + 1)" if "?D = 366" using v(9) that ys(3) by simp
  note ry = recover_year [OF ys(1,2) v(7,8) this, folded N_def]
  have "leap (100 * ?c' + ?a' + 1)" if "?D' = 366" using v'(9) that ys'(3) by simp
  note ry' = recover_year [OF ys'(1,2) v'(7,8) this, folded N'_def]
  note rm = recover_month [OF v(1-4) v(5) v(6), folded march_day_def]
  note rm' = recover_month [OF v'(1-4) v'(5) v'(6), folded march_day_def]
  have "JUGDay d m y = N + 1721119" "JUGDay d' m' y' = N' + 1721119"
    unfolding N_def N'_def day_number_def [symmetric]
    by (rule JUGDay_eq; use assms(1,2) in \<open>simp add: gregorian_def\<close>)+
  then have N: "N \<le> N'" using assms(3) by simp
  then have "(N * 4 - 1) div 146097 \<le> (N' * 4 - 1) div 146097" by (intro zdiv_mono1) auto
  then have c: "?c \<le> ?c'" by (simp only: ry(1) ry'(1))
  have e: "1461 * ?a div 4 + ?D \<le> 1461 * ?a' div 4 + ?D'" if "?c = ?c'"
    using N that by (simp only: N_def N'_def)
  have a: "?a \<le> ?a'" if "?c = ?c'"
  proof -
    have "((1461 * ?a div 4 + ?D - 1) * 4 + 3) div 1461 \<le> ((1461 * ?a' div 4 + ?D' - 1) * 4 + 3) div 1461"
      using e [OF that] by (intro zdiv_mono1) auto
    then show ?thesis by (simp only: ry(3) ry'(3))
  qed
  have k: "march_month m \<le> march_month m'" if "?c = ?c'" "?a = ?a'"
  proof -
    have "(?D * 5 - 3) div 153 \<le> (?D' * 5 - 3) div 153"
      using e [OF that(1)] that(2) by (intro zdiv_mono1) auto
    then show ?thesis by (simp only: rm(1) rm'(1))
  qed
  have dd: "d \<le> d'" if "?c = ?c'" "?a = ?a'" "march_month m = march_month m'"
    using e [OF that(1)] that(2,3) by (simp add: march_day_def)
  show ?thesis
  proof (cases "march_year m y = march_year m' y'")
    case True
    then have ca: "?c = ?c'" "?a = ?a'" by simp_all
    show ?thesis
      using k [OF ca] dd [OF ca] True march_months [of m y] march_months [of m' y'] assms(1,2)
      by (intro lex_of_months) (auto simp: gregorian_def)
  next
    case False
    have "march_year m y < march_year m' y'"
    proof (cases "?c = ?c'")
      case eq: True
      show ?thesis using a [OF eq] eq ys(3) ys'(3) False by linarith
    next
      case ne: False
      show ?thesis using c ne ys(2,3) ys'(1,3) by linarith
    qed
    then show ?thesis
      using march_months [of m y] march_months [of m' y'] v(1,2) v'(1,2) assms(1,2)
      by (intro lex_of_months) (auto simp: gregorian_def)
  qed
qed

lemma JUGDay_inj:
  "gregorian d m y \<Longrightarrow> gregorian d' m' y' \<Longrightarrow> JUGDay d m y = JUGDay d' m' y' \<Longrightarrow> (d, m, y) = (d', m', y')"
  using JUGDay_lex [of d m y d' m' y'] JUGDay_lex [of d' m' y' d m y] by auto

lemma supported_range: "JUGDay 1 1 1 = 1721426" "JUGDay 31 12 3000 = 2817152"
  by code_simp+

lemma valid_date_iff:
  assumes "gregorian d m y"
  shows "valid_date d m y \<longleftrightarrow> JUGDay 1 1 1 \<le> JUGDay d m y \<and> JUGDay d m y \<le> JUGDay 31 12 3000"
proof
  have ends: "gregorian 1 1 1" "gregorian 31 12 3000"
    by (simp_all add: gregorian_def month_days_def march_year_def)
  show "JUGDay 1 1 1 \<le> JUGDay d m y \<and> JUGDay d m y \<le> JUGDay 31 12 3000" if "valid_date d m y"
  proof -
    have b: "d \<le> 31" "1 \<le> d" "1 \<le> m" "m \<le> 12" "1 \<le> y" "y \<le> 3000"
      using that month_days_bounds(2) [of y m] by (auto simp: valid_date_def)
    have "JUGDay 1 1 1 \<le> JUGDay d m y"
    proof (rule ccontr)
      assume less: "\<not> JUGDay 1 1 1 \<le> JUGDay d m y"
      with JUGDay_lex [OF assms ends(1)] b have "d = 1" "m = 1" "y = 1" by auto
      with less show False by simp
    qed
    moreover have "JUGDay d m y \<le> JUGDay 31 12 3000"
    proof (rule ccontr)
      assume less: "\<not> JUGDay d m y \<le> JUGDay 31 12 3000"
      with JUGDay_lex [OF ends(2) assms] b have "d = 31" "m = 12" "y = 3000" by auto
      with less show False by simp
    qed
    ultimately show ?thesis by blast
  qed
  show "valid_date d m y" if "JUGDay 1 1 1 \<le> JUGDay d m y \<and> JUGDay d m y \<le> JUGDay 31 12 3000"
    using JUGDay_lex [OF ends(1) assms] JUGDay_lex [OF assms ends(2)] that assms
    by (auto simp: gregorian_def valid_date_def)
qed

lemma JUGDay_bounds: "valid_date d m y \<Longrightarrow> 1721426 \<le> JUGDay d m y \<and> JUGDay d m y \<le> 2817152"
  using valid_date_iff [OF valid_gregorian] by (simp add: supported_range)

lemma WEEKDay_eq: "0 \<le> j \<Longrightarrow> WEEKDay j = (j + 1) mod 7"
  by (simp add: WEEKDay_def c_mod_pos)

lemma day_number_step:
  fixes my :: int
  shows "day_number (my + 1) D - day_number my D = (if leap (my + 1) then 366 else 365)"
proof -
  obtain c a where my: "my = 100 * c + a" and a: "0 \<le> a" "a \<le> 99" and ca: "my div 100 = c" "my mod 100 = a"
    by (rule that [of "my div 100" "my mod 100"]) (auto simp: mult.commute)
  have q1: "4 * (146097 * (c + 1) div 4) = 146097 * (c + 1) - (c + 1) mod 4"
    and q2: "4 * (1461 * (a + 1) div 4) = 1461 * (a + 1) - (a + 1) mod 4"
    and q3: "4 * (146097 * c div 4) = 146097 * c - c mod 4"
    and q4: "4 * (1461 * a div 4) = 1461 * a - a mod 4" by (rule div_by_4)+
  have m4: "(x + 1) mod 4 = (if x mod 4 = 3 then 0 else x mod 4 + 1)" for x :: int by presburger
  have lp: "leap (my + 1) \<longleftrightarrow> a mod 4 = 3 \<and> (a = 99 \<longrightarrow> c mod 4 = 3)"
    unfolding my by (rule century_leap [OF a])
  show ?thesis
  proof (cases "a = 99")
    case True
    then have eq: "my + 1 = 100 * (c + 1) + 0" using my by simp
    have "(my + 1) div 100 = c + 1" by (rule int_div_pos_eq [OF eq]) auto
    moreover have "(my + 1) mod 100 = 0" by (rule int_mod_pos_eq [OF eq]) auto
    moreover define X Y where "X = 146097 * (c + 1) div 4" and "Y = 146097 * c div 4"
    ultimately have "day_number (my + 1) D - day_number my D = X - Y - 36159"
      using True by (simp add: day_number_def ca)
    moreover have "4 * X = 146097 * (c + 1) - (c + 1) mod 4" "4 * Y = 146097 * c - c mod 4"
      using q1 q3 by (simp_all only: X_def Y_def)
    ultimately show ?thesis using m4 [of c] True lp by auto
  next
    case False
    have eq: "my + 1 = 100 * c + (a + 1)" using my by simp
    have "(my + 1) div 100 = c" by (rule int_div_pos_eq [OF eq]) (use a False in auto)
    moreover have "(my + 1) mod 100 = a + 1" by (rule int_mod_pos_eq [OF eq]) (use a False in auto)
    moreover define X Y where "X = 1461 * (a + 1) div 4" and "Y = 1461 * a div 4"
    ultimately have "day_number (my + 1) D - day_number my D = X - Y"
      by (simp only: day_number_def ca)
    moreover have "4 * X = 1461 * (a + 1) - (a + 1) mod 4" "4 * Y = 1461 * a - a mod 4"
      using q2 q4 by (simp_all only: X_def Y_def)
    ultimately show ?thesis using m4 [of a] False lp by auto
  qed
qed

lemma julianDay_eq:
  assumes "valid_date (day dt) (month dt) (year dt)"
  shows "firstDayOfMonth dt (month dt) = Returns (julianDay dt - day dt + 1)"
proof -
  let ?d = "day dt" and ?m = "month dt" and ?y = "year dt"
  have v: "1 \<le> ?m" "?m \<le> 12" "1 \<le> ?y" using assms by (auto simp: valid_date_def)
  have j0: "JUGDay 31 12 (?y - 1) = day_number (?y - 1) 306 + 1721119"
    using v JUGDay_eq [of 12 "?y - 1" 31] by (simp add: march_year_def march_day_def march_month_def)
  have j1: "JUGDay ?d ?m ?y = day_number (march_year ?m ?y) (march_day ?d ?m) + 1721119"
    using v by (intro JUGDay_eq) (auto simp: march_year_def)
  have lin: "day_number x D = day_number x 306 + (D - 306)" for x D by (simp add: day_number_def)
  have step: "day_number ?y 306 - day_number (?y - 1) 306 = (if leap ?y then 366 else 365)"
    using day_number_step [of "?y - 1" 306] by simp
  have "julianDay dt = (if ?m > 2 then (if leap ?y then 366 else 365) else 0) + march_day ?d ?m - 306"
    using step unfolding julianDay_def j0 j1
    by (subst lin) (simp add: march_year_def)
  then show ?thesis
    using month_cases [OF v(1,2)] v(3)
    by (auto simp: firstDayOfMonth_def Let_def firstDayOfEachMonth_def march_day_def march_month_def
        isLeapYear_leap)
qed

section \<open>Operations\<close>

definition day_of :: "date_time \<Rightarrow> int" where
  "day_of dt = JUGDay (day dt) (month dt) (year dt)"

definition time_of :: "date_time \<Rightarrow> int \<times> int \<times> int \<times> int" where
  "time_of dt = (hour dt, minute dt, second dt, microsec dt)"

lemma JUGDate_ok:
  assumes "valid_time t" "1721426 \<le> jj" "jj \<le> 2817152"
  shows "\<exists>r. JUGDate jj (hour t) (minute t) (second t) (microsec t) = Returns r \<and> valid_dt r \<and>
           day_of r = jj \<and> time_of r = time_of t \<and> weekday r = WEEKDay jj"
proof -
  obtain y m d where ymd: "JUGDate_ymd jj = (y, m, d)" by (cases "JUGDate_ymd jj") auto
  have g: "gregorian d m y" "JUGDay d m y = jj" using JUGDate_ymd_gregorian [OF _ ymd] assms(2) by auto
  have v: "valid_date d m y" using valid_date_iff [OF g(1)] g(2) assms(2,3) by (simp add: supported_range)
  define r where "r = \<lparr>day = d, month = m, year = y, hour = hour t, minute = minute t,
      second = second t, microsec = microsec t, weekday = WEEKDay jj\<rparr>"
  have "valid_dt r" using v assms(1) by (simp add: valid_dt_def valid_time_def r_def)
  moreover have "Date_Time_new d m y (hour t) (minute t) (second t) (microsec t) = Returns r"
    using v assms(1) g(2)
    by (simp add: Date_Time_new_def Date_Time_of_ok valid_dt_def valid_time_def r_def WEEKDay_dmy_def)
  then have "JUGDate jj (hour t) (minute t) (second t) (microsec t) = Returns r"
    using assms(2,3) ymd by (simp add: JUGDate_def in_long_def)
  ultimately show ?thesis using g(2) by (auto simp: day_of_def time_of_def r_def)
qed

lemma JUGDate_late:
  assumes "2817152 < jj" "jj < 2000000000000000000"
  shows "JUGDate jj hh mm ss us = Throws IllegalArgumentException"
proof -
  obtain y m d where ymd: "JUGDate_ymd jj = (y, m, d)" by (cases "JUGDate_ymd jj") auto
  have g: "gregorian d m y" "JUGDay d m y = jj" using JUGDate_ymd_gregorian [OF _ ymd] assms(1) by auto
  have "\<not> valid_date d m y" using JUGDay_bounds [of d m y] g(2) assms(1) by auto
  with g(1) month_days_bounds(2) [of y m] have d: "1 \<le> d" "d \<le> 31" "\<not> (1 \<le> y \<and> y \<le> 3000)"
    by (auto simp: gregorian_def valid_date_def)
  then have "Date_Time_new d m y hh mm ss us = Throws IllegalArgumentException"
    by (auto simp: Date_Time_new_def Date_Time_of_def assertDateRange_cases valid_dt_def valid_date_def)
  then show ?thesis using assms ymd by (simp add: JUGDate_def in_long_def)
qed

lemma dt_assign_valid:
  "valid_dt r \<Longrightarrow> weekday r = WEEKDay (day_of r) \<Longrightarrow> dt_assign dt r = Returns r"
  by (simp add: dt_assign_def assertDateRange_cases day_of_def WEEKDay_dmy_def)

lemma valid_dt_day_of: "valid_dt dt \<Longrightarrow> 1721426 \<le> day_of dt \<and> day_of dt \<le> 2817152"
  using JUGDay_bounds by (simp add: valid_dt_def day_of_def)

lemma dt_add_ok:
  assumes "valid_dt dt" "1721426 \<le> day_of dt + n" "day_of dt + n \<le> 2817152"
  shows "\<exists>r. dt_add dt n = Returns r \<and> valid_dt r \<and> day_of r = day_of dt + n \<and>
           time_of r = time_of dt \<and> weekday r = WEEKDay (day_of r)"
proof -
  obtain r where "JUGDate (day_of dt + n) (hour dt) (minute dt) (second dt) (microsec dt) = Returns r"
      "valid_dt r" "day_of r = day_of dt + n" "time_of r = time_of dt" "weekday r = WEEKDay (day_of r)"
    using JUGDate_ok [of dt "day_of dt + n"] assms by (auto simp: valid_dt_def)
  then show ?thesis
    using dt_assign_valid [of r dt] by (simp add: dt_add_def day_of_def [symmetric])
qed

lemma dt_sub_eq_add: "dt_sub dt n = dt_add dt (- n)"
  by (simp add: dt_sub_def dt_add_def)

lemma day_time_inj:
  assumes "valid_dt a" "valid_dt b" "day_of a = day_of b" "time_of a = time_of b" "weekday a = weekday b"
  shows "a = b"
proof -
  have "(day a, month a, year a) = (day b, month b, year b)"
    using assms(1-3) by (intro JUGDay_inj valid_gregorian) (auto simp: valid_dt_def day_of_def)
  with assms(4,5) show ?thesis by (simp add: time_of_def)
qed

lemma compare_to_eq:
  "compare_to a b =
     (if year a \<noteq> year b then cmp_long (year a) (year b)
      else if month a \<noteq> month b then cmp_long (month a) (month b)
      else if day a \<noteq> day b then cmp_long (day a) (day b)
      else if hour a \<noteq> hour b then cmp_long (hour a) (hour b)
      else if minute a \<noteq> minute b then cmp_long (minute a) (minute b)
      else if second a \<noteq> second b then cmp_long (second a) (second b)
      else cmp_long (microsec a) (microsec b))"
proof -
  have z: "cmp_long x y = 0 \<longleftrightarrow> x = y" for x y by (simp add: cmp_long_def)
  have field: "compare_loop a b idx = (if compare_field a b idx = 0 then compare_loop a b (Suc idx)
      else compare_field a b idx)" if "idx < 7" for idx
    using that by (subst compare_loop.simps) (simp add: Let_def)
  have last: "compare_loop a b 7 = 0" by (subst compare_loop.simps) simp
  have l6: "compare_loop a b 6 = cmp_long (microsec a) (microsec b)"
    using field [of 6] last by (simp add: compare_field_def z)
  have l5: "compare_loop a b 5 = (if second a \<noteq> second b then cmp_long (second a) (second b)
      else compare_loop a b 6)" using field [of 5] by (simp add: compare_field_def z)
  have l4: "compare_loop a b 4 = (if minute a \<noteq> minute b then cmp_long (minute a) (minute b)
      else compare_loop a b 5)" using field [of 4] by (simp add: compare_field_def z)
  have l3: "compare_loop a b 3 = (if hour a \<noteq> hour b then cmp_long (hour a) (hour b)
      else compare_loop a b 4)" using field [of 3] by (simp add: compare_field_def z)
  have l2: "compare_loop a b 2 = (if day a \<noteq> day b then cmp_long (day a) (day b)
      else compare_loop a b 3)" using field [of 2] by (simp add: compare_field_def z)
  have l1: "compare_loop a b 1 = (if month a \<noteq> month b then cmp_long (month a) (month b)
      else compare_loop a b 2)" using field [of 1] by (simp add: compare_field_def z numeral_2_eq_2)
  have l0: "compare_loop a b 0 = (if year a \<noteq> year b then cmp_long (year a) (year b)
      else compare_loop a b 1)" using field [of 0] by (simp add: compare_field_def z)
  show ?thesis unfolding compare_to_def l0 l1 l2 l3 l4 l5 l6 by (rule refl)
qed

definition micro_of_day :: "date_time \<Rightarrow> int" where
  "micro_of_day dt = 1000000 * (3600 * hour dt + 60 * minute dt + second dt) + microsec dt"

lemma micro_of_day_bounds: "valid_time dt \<Longrightarrow> 0 \<le> micro_of_day dt \<and> micro_of_day dt < 86400000000"
  by (simp add: valid_time_def micro_of_day_def)

lemma to_time_value_eq: "to_time_value dt = 86400000000 * (day_of dt - 2440588) + micro_of_day dt"
  by (simp add: to_time_value_def day_of_def micro_of_day_def Let_def)

lemma compare_time:
  assumes "valid_time a" "valid_time b" "day a = day b" "month a = month b" "year a = year b"
  shows "compare_to a b = sgn (micro_of_day a - micro_of_day b)"
proof -
  have hh: "hour a < hour b \<Longrightarrow> micro_of_day a < micro_of_day b"
      "hour b < hour a \<Longrightarrow> micro_of_day b < micro_of_day a"
    using assms(1,2) by (simp_all add: valid_time_def micro_of_day_def)
  have mm: "minute a < minute b \<Longrightarrow> micro_of_day a < micro_of_day b"
      "minute b < minute a \<Longrightarrow> micro_of_day b < micro_of_day a" if "hour a = hour b"
    using assms(1,2) that by (simp_all add: valid_time_def micro_of_day_def)
  have ss: "second a < second b \<Longrightarrow> micro_of_day a < micro_of_day b"
      "second b < second a \<Longrightarrow> micro_of_day b < micro_of_day a"
    if "hour a = hour b" "minute a = minute b"
    using assms(1,2) that by (simp_all add: valid_time_def micro_of_day_def)
  have eq: "compare_to a b = (if hour a \<noteq> hour b then cmp_long (hour a) (hour b)
      else if minute a \<noteq> minute b then cmp_long (minute a) (minute b)
      else if second a \<noteq> second b then cmp_long (second a) (second b)
      else cmp_long (microsec a) (microsec b))"
    using assms(3-5) by (simp add: compare_to_eq)
  consider "hour a \<noteq> hour b" | "hour a = hour b" "minute a \<noteq> minute b"
    | "hour a = hour b" "minute a = minute b" "second a \<noteq> second b"
    | "hour a = hour b" "minute a = minute b" "second a = second b" by blast
  then show ?thesis
  proof cases
    case 1
    then show ?thesis using hh by (cases "hour a < hour b") (auto simp: eq cmp_long_def sgn_if)
  next
    case 2
    then show ?thesis using mm by (cases "minute a < minute b") (auto simp: eq cmp_long_def sgn_if)
  next
    case 3
    then show ?thesis using ss by (cases "second a < second b") (auto simp: eq cmp_long_def sgn_if)
  next
    case 4
    then show ?thesis by (simp add: eq cmp_long_def sgn_if micro_of_day_def)
  qed
qed

lemma sgn_day_micro:
  fixes x y u v :: int
  assumes "0 \<le> u" "u < k" "0 \<le> v" "v < k" "x < y"
  shows "k * x + u < k * y + v"
proof -
  have "k * x + k \<le> k * y" using assms mult_left_mono [of "x + 1" y k] by (simp add: distrib_left)
  with assms show ?thesis by linarith
qed

lemma compare_days:
  assumes "valid_dt a" "valid_dt b" "day_of a < day_of b"
  shows "compare_to a b = - 1" "compare_to b a = 1"
proof -
  have "gregorian (day a) (month a) (year a)" "gregorian (day b) (month b) (year b)"
    using assms(1,2) by (auto simp: valid_dt_def intro: valid_gregorian)
  then have "year a < year b \<or> year a = year b \<and> (month a < month b \<or> month a = month b \<and> day a < day b)"
    using JUGDay_lex [of "day a" "month a" "year a" "day b" "month b" "year b"] assms(3)
    by (auto simp: day_of_def order_le_less)
  then show "compare_to a b = - 1" "compare_to b a = 1"
    by (elim disjE conjE; simp add: compare_to_eq cmp_long_def)+
qed

lemma compare_to_sgn:
  assumes "valid_dt a" "valid_dt b"
  shows "compare_to a b = sgn (to_time_value a - to_time_value b)"
proof (cases "day_of a" "day_of b" rule: linorder_cases)
  case equal
  then have "(day a, month a, year a) = (day b, month b, year b)"
    using assms by (intro JUGDay_inj valid_gregorian) (auto simp: valid_dt_def day_of_def)
  then show ?thesis
    using compare_time [of a b] assms equal by (simp add: valid_dt_def to_time_value_eq)
next
  case less
  then have "to_time_value a < to_time_value b"
    using sgn_day_micro [of "micro_of_day a" 86400000000 "micro_of_day b"] assms
      micro_of_day_bounds [of a] micro_of_day_bounds [of b]
    by (simp add: to_time_value_eq valid_dt_def)
  then show ?thesis using compare_days(1) [OF assms less] by (simp add: sgn_if)
next
  case greater
  then have "to_time_value b < to_time_value a"
    using sgn_day_micro [of "micro_of_day b" 86400000000 "micro_of_day a"] assms
      micro_of_day_bounds [of a] micro_of_day_bounds [of b]
    by (simp add: to_time_value_eq valid_dt_def)
  then show ?thesis using compare_days(2) [OF assms(2,1) greater] by (simp add: sgn_if)
qed

section \<open>Text\<close>

lemma print_0d_not_blank:
  assumes "0 < w" "0 \<le> i" "i < 10 ^ w"
  shows "dropWhile c_isspace (print_0d w i @ r) = print_0d w i @ r"
proof (cases "print_0d w i")
  case Nil
  then show ?thesis using print_0d_props(1) [OF assms] assms(1) by simp
next
  case (Cons c cs)
  then show ?thesis using print_0d_props(2) [OF assms] digit_not_space [of c] by simp
qed

lemma print_d_length: "0 \<le> i \<Longrightarrow> i < 100 \<Longrightarrow> length (print_d i) \<le> 2"
  using length_dec_digits [of 2 "nat i"] by (simp add: print_d_def)

lemma name_lengths:
  "length (weekdayNAME w) \<le> 9" "length (monthNAME m) \<le> 9" "length (monthDTGNAME m) \<le> 3" "length (dayACRONIUM d) \<le> 2"
proof -
  have "w \<in> {0, 1, 2, 3, 4, 5, 6}" if "0 \<le> w" "w \<le> 6" using that by simp presburger
  then show "length (weekdayNAME w) \<le> 9" by (auto simp: weekdayNAME_def)
  show "length (monthNAME m) \<le> 9" "length (monthDTGNAME m) \<le> 3"
    using month_cases [of m] by (auto simp: monthNAME_def monthDTGNAME_def)
  define names where "names = [''th'', ''st'', ''nd'', ''rd'', ''th'', ''th'', ''th'', ''th'', ''th'', ''th'']"
  define k where "k = nat (if d < 11 \<or> d > 13 then c_mod d 10 else 0)"
  have "d mod 10 < 10" by simp
  then have "k < length names" if "1 \<le> d"
    using that by (auto simp: names_def k_def c_mod_pos nat_less_iff)
  moreover have "\<forall>s \<in> set names. length s = 2" by (simp add: names_def)
  ultimately have "1 \<le> d \<Longrightarrow> length (names ! k) = 2" by simp
  then show "length (dayACRONIUM d) \<le> 2"
    by (simp only: dayACRONIUM_def range_tests names_def k_def) simp
qed

lemma toDateString_default:
  "valid_dt dt \<Longrightarrow> toDateString dt False =
     Returns (print_0d 4 (year dt) @ ''-'' @ print_0d 2 (month dt) @ ''-'' @ print_0d 2 (day dt) @ '' '' @
       print_0d 2 (hour dt) @ '':'' @ print_0d 2 (minute dt) @ '':'' @ print_0d 2 (second dt) @ [])"
  by (simp add: toDateString_def assertDateRange_cases)

lemma valid_dt_bounds:
  assumes "valid_dt dt"
  shows "0 \<le> year dt \<and> year dt < 10 ^ 4" "0 \<le> month dt \<and> month dt < 10 ^ 2" "0 \<le> day dt \<and> day dt < 10 ^ 2"
    "0 \<le> hour dt \<and> hour dt < 10 ^ 2" "0 \<le> minute dt \<and> minute dt < 10 ^ 2" "0 \<le> second dt \<and> second dt < 10 ^ 2"
  using assms month_days_bounds(2) [of "year dt" "month dt"]
  by (auto simp: valid_dt_def valid_date_def valid_time_def)

lemma scan_date_string:
  assumes "valid_dt dt" "toDateString dt False = Returns s"
  shows "scan date_time_format s = [year dt, month dt, day dt, hour dt, minute dt, second dt]"
  using assms valid_dt_bounds [OF assms(1)] scan_print_0d [of 2 "second dt" "[]"]
  by (auto simp: toDateString_default date_time_format_def scan_print_0d print_0d_not_blank c_isspace_def
      c_code_def)

lemma parse_date_string:
  assumes "valid_dt dt" "toDateString dt False = Returns s"
  shows "Date_Time_parse s = Returns (dt\<lparr>microsec := 0, weekday := WEEKDay (day_of dt)\<rparr>)"
proof -
  have len: "length (print_0d 4 (year dt)) = 4" using valid_dt_bounds(1) [OF assms(1)] by (simp add: print_0d_props)
  have "valid_dt \<lparr>day = day dt, month = month dt, year = year dt, hour = hour dt, minute = minute dt,
      second = second dt, microsec = 0, weekday = 0\<rparr>"
    using assms(1) by (simp add: valid_dt_def valid_time_def)
  then show "Date_Time_parse s = Returns (dt\<lparr>microsec := 0, weekday := WEEKDay (day_of dt)\<rparr>)"
    using scan_date_string [OF assms] assms(2) toDateString_default [OF assms(1)] len
    by (auto simp: Date_Time_parse_def Date_Time_new_def Date_Time_of_ok Let_def day_of_def WEEKDay_dmy_def
        INT_MAX_def)
qed

section \<open>Properties\<close>

text \<open>
  Claim C36.  \<open>JUGDay\<close> and \<open>JUGDate\<close> are inverse on the supported calendar: the day
  number of a valid date leads back to that date, and every day number from the first of
  January of year 1 to the last of December 3000 is the number of the valid date
  \<open>JUGDate\<close> computes for it.
\<close>

theorem calendar_round_trip:
  "(valid_date d m y \<longrightarrow> JUGDate_ymd (JUGDay d m y) = (y, m, d)) \<and>
   (JUGDay 1 1 1 \<le> jj \<and> jj \<le> JUGDay 31 12 3000 \<longrightarrow>
     (\<exists>d m y. JUGDate_ymd jj = (y, m, d) \<and> valid_date d m y \<and> JUGDay d m y = jj))"
proof -
  have "\<exists>d m y. JUGDate_ymd jj = (y, m, d) \<and> valid_date d m y \<and> JUGDay d m y = jj"
    if "JUGDay 1 1 1 \<le> jj" "jj \<le> JUGDay 31 12 3000"
  proof -
    obtain y m d where ymd: "JUGDate_ymd jj = (y, m, d)" by (cases "JUGDate_ymd jj") auto
    have "gregorian d m y" "JUGDay d m y = jj"
      using JUGDate_ymd_gregorian [OF _ ymd] that(1) by (auto simp: supported_range)
    then show ?thesis using valid_date_iff [of d m y] that ymd by auto
  qed
  then show ?thesis using JUGDate_ymd_JUGDay [OF valid_gregorian] by blast
qed

theorem calendar_round_trip_witness:
  "JUGDate_ymd (JUGDay 29 2 2000) = (2000, 2, 29) \<and>
   (\<exists>d m y. JUGDate_ymd 2451545 = (y, m, d) \<and> valid_date d m y \<and> JUGDay d m y = 2451545)"
  using calendar_round_trip [of 29 2 2000 2451545]
  by (simp add: valid_date_def month_days_def leap_def supported_range)

text \<open>
  Claim C37.  \<^verbatim>\<open>operator +=\<close> and \<^verbatim>\<open>operator -=\<close> move a valid date by exactly the given
  number of days, keep the time of day, refresh the weekday and undo each other as long
  as the result stays within the years 1 to 3000; beyond the year 3000 they throw
  \<open>IllegalArgumentException\<close>.
\<close>

theorem date_arithmetic:
  assumes "valid_dt dt" "weekday dt = WEEKDay (day_of dt)"
  shows "(1721426 \<le> day_of dt + n \<and> day_of dt + n \<le> 2817152 \<longrightarrow>
           (\<exists>r. dt_add dt n = Returns r \<and> valid_dt r \<and> day_of r = day_of dt + n \<and>
              time_of r = time_of dt \<and> weekday r = (day_of dt + n + 1) mod 7 \<and> dt_sub r n = Returns dt)) \<and>
         (2817152 < day_of dt + n \<and> n < 1000000000000000000 \<longrightarrow>
           dt_add dt n = Throws IllegalArgumentException)"
proof (intro conjI impI)
  assume n: "1721426 \<le> day_of dt + n \<and> day_of dt + n \<le> 2817152"
  then obtain r where r: "dt_add dt n = Returns r" "valid_dt r" "day_of r = day_of dt + n"
      "time_of r = time_of dt" "weekday r = WEEKDay (day_of r)"
    using dt_add_ok [OF assms(1)] by blast
  obtain q where q: "dt_add r (- n) = Returns q" "valid_dt q" "day_of q = day_of dt"
      "time_of q = time_of dt" "weekday q = WEEKDay (day_of dt)"
    using dt_add_ok [OF r(2), of "- n"] valid_dt_day_of [OF assms(1)] r(3,4) by auto
  have "q = dt" using day_time_inj [OF q(2) assms(1)] q(3-5) assms(2) by simp
  then show "\<exists>r. dt_add dt n = Returns r \<and> valid_dt r \<and> day_of r = day_of dt + n \<and>
      time_of r = time_of dt \<and> weekday r = (day_of dt + n + 1) mod 7 \<and> dt_sub r n = Returns dt"
    using r q(1) n by (auto simp: dt_sub_eq_add WEEKDay_eq)
next
  assume n: "2817152 < day_of dt + n \<and> n < 1000000000000000000"
  then show "dt_add dt n = Throws IllegalArgumentException"
    using JUGDate_late [of "day_of dt + n"] valid_dt_day_of [OF assms(1)]
    by (simp add: dt_add_def day_of_def [symmetric])
qed

definition sample_dt :: date_time where
  "sample_dt = \<lparr>day = 8, month = 10, year = 2015, hour = 13, minute = 15, second = 35,
                microsec = 0, weekday = 4\<rparr>"

lemma sample_dt_valid: "valid_dt sample_dt" "weekday sample_dt = WEEKDay (day_of sample_dt)"
  "day_of sample_dt = 2457304"
  by code_simp+

theorem date_arithmetic_witness:
  "\<exists>r. dt_add sample_dt 1000 = Returns r \<and> day_of r = 2458304 \<and> dt_sub r 1000 = Returns sample_dt"
  using date_arithmetic [OF sample_dt_valid(1,2), of 1000] sample_dt_valid(3) by auto

text \<open>
  Claim C38.  \<^verbatim>\<open>compare_to\<close>, which walks the fields from the year down to the
  microsecond, orders valid dates exactly as their time values: its result is the sign of
  the difference.
\<close>

theorem compare_to_is_time_order:
  assumes "valid_dt a" "valid_dt b"
  shows "compare_to a b = sgn (to_time_value a - to_time_value b)"
  using assms by (rule compare_to_sgn)

theorem compare_to_is_time_order_witness:
  "compare_to sample_dt (sample_dt\<lparr>month := 9, hour := 23\<rparr>) = 1"
proof -
  have "valid_dt (sample_dt\<lparr>month := 9, hour := 23\<rparr>)"
    "to_time_value sample_dt - to_time_value (sample_dt\<lparr>month := 9, hour := 23\<rparr>) > 0"
    by code_simp+
  then show ?thesis
    using compare_to_is_time_order [OF sample_dt_valid(1), of "sample_dt\<lparr>month := 9, hour := 23\<rparr>"]
    by simp
qed

lemma weekday_reach:
  fixes j d :: int
  assumes "0 \<le> d" "d \<le> 6"
  shows "(j + ((6 + d - (j + 1) mod 7) mod 7 + 1) + 1) mod 7 = d"
    "(j - ((6 + (j + 1) mod 7 - d) mod 7 + 1) + 1) mod 7 = d"
proof -
  define w where "w = (j + 1) mod 7"
  have "(j + ((6 + d - w) mod 7 + 1) + 1) mod 7 = (j + 2 + (6 + d - w) mod 7) mod 7" by (simp add: ac_simps)
  also have "\<dots> = (j + d + 8 - w) mod 7" by (simp only: mod_add_right_eq) (simp add: algebra_simps)
  also have "\<dots> = (j + d + 8 - (j + 1)) mod 7" unfolding w_def by (rule mod_diff_right_eq)
  finally show "(j + ((6 + d - (j + 1) mod 7) mod 7 + 1) + 1) mod 7 = d"
    using assms by (simp add: w_def)
  have "(j - ((6 + w - d) mod 7 + 1) + 1) mod 7 = (j - (6 + w - d) mod 7) mod 7" by simp
  also have "\<dots> = (j + d - 6 - w) mod 7" by (simp only: mod_diff_right_eq) (simp add: algebra_simps)
  also have "\<dots> = (j + d - 6 - (j + 1)) mod 7" unfolding w_def by (rule mod_diff_right_eq)
  finally show "(j - ((6 + (j + 1) mod 7 - d) mod 7 + 1) + 1) mod 7 = d"
    using assms by (simp add: w_def)
qed

lemma JUGDay_WEEKDay_bounds: "valid_dt dt \<Longrightarrow> 0 \<le> WEEKDay (day_of dt) \<and> WEEKDay (day_of dt) \<le> 6"
  using valid_dt_day_of [of dt] by (simp add: WEEKDay_eq)

text \<open>
  \<^verbatim>\<open>next(d)\<close> and \<^verbatim>\<open>prev(d)\<close> return the nearest later and earlier date
  that falls on weekday \<^verbatim>\<open>d\<close>: one to seven days away, on that weekday, at the same time
  of day; any other argument is rejected.
\<close>

theorem next_prev_weekday:
  assumes "valid_dt dt" "1721426 \<le> day_of dt - 7" "day_of dt + 7 \<le> 2817152"
  shows "(0 \<le> d \<and> d \<le> 6 \<longrightarrow>
      (\<exists>r k. dt_next dt d = Returns r \<and> 1 \<le> k \<and> k \<le> 7 \<and> day_of r = day_of dt + k \<and>
         weekday r = d \<and> time_of r = time_of dt \<and> valid_dt r) \<and>
      (\<exists>r k. dt_prev dt d = Returns r \<and> 1 \<le> k \<and> k \<le> 7 \<and> day_of r = day_of dt - k \<and>
         weekday r = d \<and> time_of r = time_of dt \<and> valid_dt r)) \<and>
    (\<not> (0 \<le> d \<and> d \<le> 6) \<longrightarrow>
      dt_next dt d = Throws IllegalArgumentException \<and> dt_prev dt d = Throws IllegalArgumentException)"
proof (intro conjI impI)
  define j w where "j = day_of dt" and "w = WEEKDay j"
  define k where "k = (6 + d - w) mod 7 + 1"
  define l where "l = (6 + w - d) mod 7 + 1"
  have w: "w = (j + 1) mod 7" "0 \<le> w" "w \<le> 6"
    using valid_dt_day_of [OF assms(1)] JUGDay_WEEKDay_bounds [OF assms(1)] by (simp_all add: w_def j_def WEEKDay_eq)
  have kl: "1 \<le> k" "k \<le> 7" "1 \<le> l" "l \<le> 7" by (simp_all add: k_def l_def)
  have vt: "valid_time dt" using assms(1) by (simp add: valid_dt_def)
  assume d: "0 \<le> d \<and> d \<le> 6"
  have cm: "c_mod (6 + d - w) 7 = (6 + d - w) mod 7" "c_mod (6 + w - d) 7 = (6 + w - d) mod 7"
    using d w(2,3) by (simp_all add: c_mod_pos)
  obtain r where r: "JUGDate (j + k) (hour dt) (minute dt) (second dt) (microsec dt) = Returns r" "valid_dt r"
      "day_of r = j + k" "time_of r = time_of dt" "weekday r = WEEKDay (j + k)"
    using JUGDate_ok [OF vt, of "j + k"] assms kl by (auto simp: j_def)
  have "dt_next dt d = Returns r"
    using d r(1) by (simp add: dt_next_def day_of_def [symmetric] j_def [symmetric] w_def [symmetric] k_def
        cm add.assoc)
  moreover have "weekday r = d"
    using weekday_reach(1) [of d j] d r(5) w(1) kl assms(2) by (simp add: k_def WEEKDay_eq j_def)
  ultimately show "\<exists>r k. dt_next dt d = Returns r \<and> 1 \<le> k \<and> k \<le> 7 \<and> day_of r = day_of dt + k \<and>
      weekday r = d \<and> time_of r = time_of dt \<and> valid_dt r"
    using r kl by (auto simp: j_def)
  obtain q where q: "JUGDate (j - l) (hour dt) (minute dt) (second dt) (microsec dt) = Returns q" "valid_dt q"
      "day_of q = j - l" "time_of q = time_of dt" "weekday q = WEEKDay (j - l)"
    using JUGDate_ok [OF vt, of "j - l"] assms kl by (auto simp: j_def)
  have "dt_prev dt d = Returns q"
    using d q(1) by (simp add: dt_prev_def day_of_def [symmetric] j_def [symmetric] w_def [symmetric] l_def
        cm diff_diff_eq)
  moreover have "weekday q = d"
    using weekday_reach(2) [of d j] d q(5) w(1) kl assms(2) by (simp add: l_def WEEKDay_eq j_def)
  ultimately show "\<exists>r k. dt_prev dt d = Returns r \<and> 1 \<le> k \<and> k \<le> 7 \<and> day_of r = day_of dt - k \<and>
      weekday r = d \<and> time_of r = time_of dt \<and> valid_dt r"
    using q kl by (auto simp: j_def)
qed (auto simp: dt_next_def dt_prev_def Let_def)

theorem next_prev_weekday_witness:
  "\<exists>r k. dt_next sample_dt 4 = Returns r \<and> 1 \<le> k \<and> k \<le> 7 \<and> day_of r = 2457304 + k \<and> weekday r = 4"
  using next_prev_weekday [OF sample_dt_valid(1), of 4] by (auto simp: sample_dt_valid(3))

text \<open>
  The table of first days and the Julian day numbers agree: for a valid date
  the day of the year computed by \<^verbatim>\<open>julianDay\<close> is the table entry of its month plus the
  day of the month less one, and a year has \<^verbatim>\<open>daysInYear\<close> days.
\<close>

theorem julian_day_of_year:
  assumes "valid_dt dt"
  shows "firstDayOfMonth dt (month dt) = Returns (julianDay dt - day dt + 1) \<and>
    julianDay (dt\<lparr>day := 31, month := 12\<rparr>) = daysInYear (year dt)"
proof -
  let ?e = "dt\<lparr>day := 31, month := 12\<rparr>"
  have v: "valid_date (day dt) (month dt) (year dt)" "1 \<le> year dt"
    using assms by (auto simp: valid_dt_def valid_date_def)
  then have "valid_date (day ?e) (month ?e) (year ?e)"
    by (simp add: valid_date_def month_days_def)
  from julianDay_eq [OF this] have "julianDay ?e = daysInYear (year dt)"
    by (auto simp: firstDayOfMonth_def Let_def firstDayOfEachMonth_def daysInYear_def split: if_splits)
  with julianDay_eq [OF v(1)] show ?thesis by simp
qed

theorem julian_day_of_year_witness:
  "firstDayOfMonth sample_dt 10 = Returns (julianDay sample_dt - 8 + 1)"
  using julian_day_of_year [OF sample_dt_valid(1)] by (simp add: sample_dt_def)

text \<open>
  Text round trip: the default string of a valid date is parsed back by the
  string constructor to the same date and time (microseconds are dropped, the weekday is
  recomputed), and neither text form overruns the 64-byte buffer it is printed into.
\<close>

theorem date_text_round_trip:
  assumes "valid_dt dt"
  shows "\<exists>s v g. toDateString dt False = Returns s \<and> toDateString dt True = Returns v \<and>
    toDTGString dt = Returns g \<and> length s < 64 \<and> length v < 64 \<and> length g < 64 \<and>
    Date_Time_parse s = Returns (dt\<lparr>microsec := 0, weekday := WEEKDay (day_of dt)\<rparr>)"
proof -
  obtain s where s: "toDateString dt False = Returns s" using toDateString_default [OF assms] by blast
  note b = valid_dt_bounds [OF assms]
  have len: "length (print_0d 4 (year dt)) = 4" "length (print_0d 2 (month dt)) = 2" "length (print_0d 2 (day dt)) = 2"
    "length (print_0d 2 (hour dt)) = 2" "length (print_0d 2 (minute dt)) = 2" "length (print_0d 2 (second dt)) = 2"
    using b by (simp_all add: print_0d_props)
  then have ls: "length s < 64" using s toDateString_default [OF assms] by auto
  have "c_mod (year dt) 100 < 100 \<and> 0 \<le> c_mod (year dt) 100" using b(1) by (simp add: c_mod_pos)
  then have ly: "length (print_0d 2 (c_mod (year dt) 100)) = 2" by (simp add: print_0d_props)
  have hr: "0 \<le> c_mod (hour dt) 12 \<and> c_mod (hour dt) 12 < 100"
  proof -
    have "hour dt mod 12 < 12" by simp
    then show ?thesis using b(4) by (simp add: c_mod_pos)
  qed
  have "length (print_d (day dt)) \<le> 2"
    "length (print_d (if c_mod (hour dt) 12 \<noteq> 0 then c_mod (hour dt) 12 else 12)) \<le> 2"
    using b(3) hr by (auto intro!: print_d_length)
  then obtain v where v: "toDateString dt True = Returns v" "length v < 64"
    using assms len name_lengths(1) [of "weekday dt"] name_lengths(2) [of "month dt"] name_lengths(4) [of "day dt"]
    by (simp add: toDateString_def assertDateRange_cases)
  obtain g where g: "toDTGString dt = Returns g" "length g < 64"
    using assms len ly name_lengths(3) [of "month dt"]
    by (simp add: toDTGString_def assertDateRange_cases)
  have "Date_Time_parse s = Returns (dt\<lparr>microsec := 0, weekday := WEEKDay (day_of dt)\<rparr>)"
    by (rule parse_date_string [OF assms s])
  with s v g ls show ?thesis by blast
qed

theorem date_text_round_trip_witness:
  "toDateString sample_dt False = Returns ''2015-10-08 13:15:35'' \<and>
   Date_Time_parse ''2015-10-08 13:15:35'' = Returns sample_dt"
proof -
  have "toDateString sample_dt False = Returns ''2015-10-08 13:15:35''" by code_simp
  moreover have "sample_dt\<lparr>microsec := 0, weekday := WEEKDay (day_of sample_dt)\<rparr> = sample_dt" by code_simp
  ultimately show ?thesis using date_text_round_trip [OF sample_dt_valid(1)] by auto
qed

end
