(* ===== verification/Properties.thy ===== *)
theory Properties
  imports DAF_Text Date_Time "HOL-Library.List_Lexorder"
begin

text \<open>
  The property repository: \<^verbatim>\<open>DAF::ARGV\<close> (\<^verbatim>\<open>daf/ARGV.h\<close>, \<^verbatim>\<open>daf/ARGV.cpp\<close>),
  \<^verbatim>\<open>format_args\<close> of \<^verbatim>\<open>daf/DAF.cpp\<close>, the configuration file reader of
  \<^verbatim>\<open>daf/Configurator.cpp\<close> and \<^verbatim>\<open>daf/PropertyManager.h\<close>/\<^verbatim>\<open>.cpp\<close>, for the process-wide
  repository that \<^verbatim>\<open>format_args\<close> consults.

  The property map is an association list ordered by key, as \<^verbatim>\<open>std::map\<close> iterates.
  What the code takes from its surroundings is the record \<open>host\<close>: ACE's tokeniser, the
  environment, the clock, the host name, the file system.  \<^verbatim>\<open>get_property\<close> and
  \<^verbatim>\<open>format_args\<close> call each other without a bound, so both run on fuel: \<open>None\<close> means the
  fuel was too small, and more fuel never changes a result.
\<close>

section \<open>Surroundings\<close>

record host =
  tokenize :: "bool \<Rightarrow> string \<Rightarrow> string list"
  requote :: "bool \<Rightarrow> (string \<times> bool) list \<Rightarrow> string list"
  add_ok :: "string \<Rightarrow> bool"
  getenv :: "string \<Rightarrow> string option"
  gethostname :: string
  thread_ID :: nat
  process_ID :: nat
  gmtime :: "int \<Rightarrow> tm option"
  localtime :: "int \<Rightarrow> tm option"
  gettimeofday :: "int \<times> int"
  read_file :: "string \<Rightarrow> string list option"

section \<open>The map\<close>

type_synonym props = "(string \<times> string) list"

definition key_code :: "string \<Rightarrow> nat list" where
  "key_code k = map c_code k"

fun put :: "string \<Rightarrow> 'v \<Rightarrow> (string \<times> 'v) list \<Rightarrow> (string \<times> 'v) list" where
  "put k v [] = [(k, v)]"
| "put k v ((k', v') # ps) =
     (if k = k' then (k, v) # ps
      else if key_code k < key_code k' then (k, v) # (k', v') # ps
      else (k', v') # put k v ps)"

definition del :: "string \<Rightarrow> props \<Rightarrow> props" where
  "del k ps = filter (\<lambda>p. fst p \<noteq> k) ps"

definition load_property :: "string \<Rightarrow> string \<Rightarrow> props \<Rightarrow> props \<times> int" where
  "load_property key val ps =
     (if val \<noteq> [] \<or> map_of ps key = None then (put key val ps, 0) else (ps, - 1))"

section \<open>\<open>DAF::ARGV\<close>\<close>

record argv =
  substitute_env_args :: bool
  args_list :: "string list"
  vec_args :: "string list"

definition ARGV_new :: "bool \<Rightarrow> argv" where
  "ARGV_new subst = \<lparr>substitute_env_args = subst, args_list = [], vec_args = []\<rparr>"

fun push_argv :: "host \<Rightarrow> argv \<Rightarrow> string list \<Rightarrow> argv \<times> int" where
  "push_argv h a [] = (a, 0)"
| "push_argv h a (t # ts) =
     (let s = trim_string (CHR '' '') t; a1 = a\<lparr>args_list := args_list a @ [s]\<rparr> in
      if add_ok h s then push_argv h (a1\<lparr>vec_args := vec_args a1 @ [s]\<rparr>) ts else (a1, - 1))"

definition ARGV_add :: "host \<Rightarrow> argv \<Rightarrow> string \<Rightarrow> bool \<Rightarrow> argv \<times> int" where
  "ARGV_add h a arg quote_args =
     (if add_ok h arg then push_argv h a (requote h (substitute_env_args a) [(arg, quote_args)])
      else (a, - 1))"

definition ARGV_vector :: "host \<Rightarrow> argv \<Rightarrow> string list" where
  "ARGV_vector h a = requote h (substitute_env_args a) (map (\<lambda>s. (s, True)) (vec_args a))"

definition ARGV_argc :: "host \<Rightarrow> argv \<Rightarrow> nat" where
  "ARGV_argc h a = length (ARGV_vector h a)"

definition ARGV_of_string :: "host \<Rightarrow> string \<Rightarrow> bool \<Rightarrow> argv \<times> int" where
  "ARGV_of_string h s subst = push_argv h (ARGV_new subst) (tokenize h subst s)"

definition parse_args :: "host \<Rightarrow> string \<Rightarrow> bool \<Rightarrow> bool \<Rightarrow> string" where
  "parse_args h arg subst quote_args = parse_argv (tokenize h subst arg) quote_args"

section \<open>Formatting and lookup\<close>

text \<open>Replacing the two characters at \<open>p0\<close> (and \<open>extra\<close> more) by the expansion.\<close>

definition splice :: "string \<Rightarrow> nat \<Rightarrow> nat \<Rightarrow> string \<Rightarrow> string" where
  "splice arg p0 extra txt = take p0 arg @ txt @ drop (p0 + 2 + extra) arg"

definition date_text :: "host \<Rightarrow> char \<Rightarrow> string outcome option" where
  "date_text h c =
     (if c = CHR ''g'' then Some (and_then (GMTime (gmtime h) (gettimeofday h)) (\<lambda>d. toDateString d False))
      else if c = CHR ''G'' then Some (and_then (GMTime (gmtime h) (gettimeofday h)) (\<lambda>d. toDateString d True))
      else if c = CHR ''l'' then Some (and_then (GMTime (localtime h) (gettimeofday h)) (\<lambda>d. toDateString d False))
      else if c = CHR ''L'' then Some (and_then (GMTime (localtime h) (gettimeofday h)) (\<lambda>d. toDateString d True))
      else None)"

definition time_text :: "host \<Rightarrow> char \<Rightarrow> string outcome option" where
  "time_text h c =
     (if c = CHR ''u''
      then Some (and_then (GMTime (gmtime h) (gettimeofday h)) (\<lambda>d. Returns (print_d (msecs d))))
      else None)"

type_synonym 'a run_result = "(props \<times> 'a outcome) option"

text \<open>
  The four mutually recursive functions, each over the functions it calls: the loop of
  \<open>get_property\<close>, the outer loop of \<open>format_args\<close> over the tokens, and its inner loop over
  the percent signs of one token.
\<close>

definition get_body ::
  "(props \<Rightarrow> string \<Rightarrow> bool \<Rightarrow> string run_result) \<Rightarrow> (props \<Rightarrow> string \<Rightarrow> bool \<Rightarrow> bool \<Rightarrow> string run_result)
     \<Rightarrow> host \<Rightarrow> props \<Rightarrow> string \<Rightarrow> bool \<Rightarrow> string run_result"
where
  "get_body again format h ps ident use_env =
     (let key = trim_string (CHR '' '') ident in
      if key \<noteq> [] then
        case map_of ps key of
          Some val \<Rightarrow> format ps val use_env True
        | None \<Rightarrow>
            if use_env then
              case getenv h key of
                Some e \<Rightarrow>
                  if e \<noteq> [] then
                    case load_property key (trim_string (CHR '' '') e) ps of
                      (ps', rc) \<Rightarrow>
                        if rc = 0 then again ps' key False
                        else Some (ps', Throws NotFoundException)
                  else Some (ps, Throws NotFoundException)
              | None \<Rightarrow> Some (ps, Throws NotFoundException)
            else Some (ps, Throws NotFoundException)
      else Some (ps, Throws IllegalPropertyException))"

definition tokens_body ::
  "(props \<Rightarrow> string list \<Rightarrow> argv \<Rightarrow> bool \<Rightarrow> string run_result) \<Rightarrow> (props \<Rightarrow> string \<Rightarrow> nat \<Rightarrow> string run_result)
     \<Rightarrow> host \<Rightarrow> props \<Rightarrow> string list \<Rightarrow> argv \<Rightarrow> bool \<Rightarrow> string run_result"
where
  "tokens_body again expand_arg h ps toks params quote_args =
     (case toks of
        [] \<Rightarrow> Some (ps, Returns (parse_argv (ARGV_vector h params) quote_args))
      | t # ts \<Rightarrow>
          (case expand_arg ps t 0 of
             None \<Rightarrow> None
           | Some (ps', Returns arg) \<Rightarrow>
               again ps' ts (if arg \<noteq> [] then fst (ARGV_add h params arg True) else params) quote_args
           | Some (ps', Throws e) \<Rightarrow> Some (ps', Throws e)
           | Some (ps', Undefined) \<Rightarrow> Some (ps', Undefined)))"

definition expand_property ::
  "(props \<Rightarrow> string \<Rightarrow> nat \<Rightarrow> string run_result) \<Rightarrow> (props \<Rightarrow> string \<Rightarrow> bool \<Rightarrow> string run_result)
     \<Rightarrow> props \<Rightarrow> string \<Rightarrow> nat \<Rightarrow> string run_result"
where
  "expand_property again lookup ps arg p0 =
     (let pos = p0 + 2 in
      case (if char_at arg pos = CHR ''{'' then find_from (CHR ''}'') arg pos else None) of
        None \<Rightarrow> again ps (splice arg p0 0 []) p0
      | Some l \<Rightarrow>
          let plen = l - 1 - pos; prop = trim_string (CHR '' '') (take plen (drop (pos + 1) arg)) in
          case lookup ps prop True of
            None \<Rightarrow> None
          | Some (ps', Returns v) \<Rightarrow> again ps' (splice arg p0 (plen + 2) (trim_string (CHR 0x27) v)) p0
          | Some (ps', Throws e) \<Rightarrow>
              if catches (Daf IllegalArgumentException) e
              then again ps' (splice arg p0 0 []) p0
              else Some (ps', Throws e)
          | Some (ps', Undefined) \<Rightarrow> Some (ps', Undefined))"

definition expand_clock ::
  "(props \<Rightarrow> string \<Rightarrow> nat \<Rightarrow> string run_result) \<Rightarrow> (char \<Rightarrow> string outcome option)
     \<Rightarrow> props \<Rightarrow> string \<Rightarrow> nat \<Rightarrow> string run_result"
where
  "expand_clock again txt ps arg p0 =
     (case (if p0 + 2 < length arg then txt (arg ! (p0 + 2)) else None) of
        None \<Rightarrow> again ps (splice arg p0 0 []) p0
      | Some (Returns v) \<Rightarrow> again ps (splice arg p0 1 v) p0
      | Some (Throws e) \<Rightarrow> Some (ps, Throws e)
      | Some Undefined \<Rightarrow> Some (ps, Undefined))"

definition expand_body ::
  "(props \<Rightarrow> string \<Rightarrow> nat \<Rightarrow> string run_result) \<Rightarrow> (props \<Rightarrow> string \<Rightarrow> bool \<Rightarrow> string run_result)
     \<Rightarrow> host \<Rightarrow> props \<Rightarrow> string \<Rightarrow> nat \<Rightarrow> string run_result"
where
  "expand_body again lookup h ps arg pos =
     (case find_from (CHR ''%'') arg pos of
        None \<Rightarrow> Some (ps, Returns arg)
      | Some p0 \<Rightarrow>
          let c = char_at arg (p0 + 1) in
          if c = CHR ''%'' then again ps (erase1 arg (p0 + 1)) (p0 + 1)
          else if c = CHR ''H'' then again ps (splice arg p0 0 (gethostname h)) p0
          else if c = CHR ''t'' then again ps (splice arg p0 0 (dec_digits (thread_ID h mod 4294967296))) p0
          else if c = CHR ''P'' then again ps (splice arg p0 0 (dec_digits (process_ID h mod 4294967296))) p0
          else if c = CHR ''p'' then expand_property again lookup ps arg p0
          else if c = CHR ''D'' then expand_clock again (date_text h) ps arg p0
          else if c = CHR ''T'' then expand_clock again (time_text h) ps arg p0
          else again ps arg (p0 + 2))"

text \<open>The recursion itself: the functions at fuel \<open>n + 1\<close> call those at fuel \<open>n\<close>.\<close>

record routines =
  get_fn :: "props \<Rightarrow> string \<Rightarrow> bool \<Rightarrow> string run_result"
  format_fn :: "props \<Rightarrow> string \<Rightarrow> bool \<Rightarrow> bool \<Rightarrow> string run_result"
  tokens_fn :: "props \<Rightarrow> string list \<Rightarrow> argv \<Rightarrow> bool \<Rightarrow> string run_result"
  expand_fn :: "props \<Rightarrow> string \<Rightarrow> nat \<Rightarrow> string run_result"

primrec routines_at :: "nat \<Rightarrow> host \<Rightarrow> routines" where
  "routines_at 0 h =
     \<lparr>get_fn = (\<lambda>ps ident use_env. None), format_fn = (\<lambda>ps txt subst quote_args. None),
      tokens_fn = (\<lambda>ps toks params quote_args. None), expand_fn = (\<lambda>ps arg pos. None)\<rparr>"
| "routines_at (Suc n) h =
     (let r = routines_at n h in
      \<lparr>get_fn = get_body (get_fn r) (format_fn r) h,
       format_fn = (\<lambda>ps txt subst quote_args. tokens_fn r ps (tokenize h subst txt) (ARGV_new subst) quote_args),
       tokens_fn = tokens_body (tokens_fn r) (expand_fn r) h,
       expand_fn = expand_body (expand_fn r) (get_fn r) h\<rparr>)"

definition get_property :: "nat \<Rightarrow> host \<Rightarrow> props \<Rightarrow> string \<Rightarrow> bool \<Rightarrow> string run_result" where
  "get_property n h = get_fn (routines_at n h)"

definition format_args :: "nat \<Rightarrow> host \<Rightarrow> props \<Rightarrow> string \<Rightarrow> bool \<Rightarrow> bool \<Rightarrow> string run_result" where
  "format_args n h = format_fn (routines_at n h)"

definition format_tokens :: "nat \<Rightarrow> host \<Rightarrow> props \<Rightarrow> string list \<Rightarrow> argv \<Rightarrow> bool \<Rightarrow> string run_result" where
  "format_tokens n h = tokens_fn (routines_at n h)"

definition expand :: "nat \<Rightarrow> host \<Rightarrow> props \<Rightarrow> string \<Rightarrow> nat \<Rightarrow> string run_result" where
  "expand n h = expand_fn (routines_at n h)"

lemma routines_0 [simp]:
  "get_property 0 h ps ident use_env = None" "format_args 0 h ps txt subst quote_args = None"
  "format_tokens 0 h ps toks params quote_args = None" "expand 0 h ps arg pos = None"
  by (simp_all add: get_property_def format_args_def format_tokens_def expand_def)

lemma routines_Suc:
  "get_property (Suc n) h = get_body (get_property n h) (format_args n h) h"
  "format_args (Suc n) h ps txt subst quote_args =
     format_tokens n h ps (tokenize h subst txt) (ARGV_new subst) quote_args"
  "format_tokens (Suc n) h = tokens_body (format_tokens n h) (expand n h) h"
  "expand (Suc n) h = expand_body (expand n h) (get_property n h) h"
  by (simp_all add: get_property_def format_args_def format_tokens_def expand_def Let_def)

text \<open>The lookup with a default value, and the numeric conversions of the header.\<close>

definition get_property_default ::
  "nat \<Rightarrow> host \<Rightarrow> props \<Rightarrow> string \<Rightarrow> string \<Rightarrow> bool \<Rightarrow> string run_result" where
  "get_property_default n h ps ident default_val use_env =
     (case get_property n h ps ident use_env of
        None \<Rightarrow> None
      | Some (ps', Returns v) \<Rightarrow>
          if v \<noteq> [] then Some (ps', Returns v) else format_args n h ps' default_val True True
      | Some (ps', Throws e) \<Rightarrow>
          if catches (Daf IllegalArgumentException) e then format_args n h ps' default_val True True
          else Some (ps', Throws e)
      | Some (ps', Undefined) \<Rightarrow> Some (ps', Undefined))"

definition lower :: "char \<Rightarrow> nat" where
  "lower c = (if 65 \<le> c_code c \<and> c_code c \<le> 90 then c_code c + 32 else c_code c)"

definition bool_of_text :: "string \<Rightarrow> bool" where
  "bool_of_text v =
     (if map lower (take 4 v) = map lower ''true'' then True
      else case scan_d 0 v of Some (i, _) \<Rightarrow> i \<noteq> 0 | None \<Rightarrow> False)"

definition get_numeric_property ::
  "(string \<Rightarrow> 'a) \<Rightarrow> nat \<Rightarrow> host \<Rightarrow> props \<Rightarrow> string \<Rightarrow> bool \<Rightarrow> 'a run_result" where
  "get_numeric_property convert n h ps ident use_env =
     (case get_property n h ps ident use_env of
        None \<Rightarrow> None
      | Some (ps', r) \<Rightarrow> Some (ps', and_then r (\<lambda>v. Returns (convert v))))"

definition get_numeric_property_default ::
  "(string \<Rightarrow> 'a) \<Rightarrow> nat \<Rightarrow> host \<Rightarrow> props \<Rightarrow> string \<Rightarrow> 'a \<Rightarrow> bool \<Rightarrow> 'a run_result" where
  "get_numeric_property_default convert n h ps ident default_val use_env =
     (case get_numeric_property convert n h ps ident use_env of
        None \<Rightarrow> None
      | Some (ps', Throws e) \<Rightarrow>
          if catches (Daf IllegalArgumentException) e then Some (ps', Returns default_val)
          else Some (ps', Throws e)
      | Some r \<Rightarrow> Some r)"

definition set_property :: "props \<Rightarrow> string \<Rightarrow> string \<Rightarrow> props \<times> int outcome" where
  "set_property ps ident value =
     (let key = trim_string (CHR '' '') ident in
      if key \<noteq> [] then
        case load_property key (trim_string (CHR '' '') value) ps of (ps', rc) \<Rightarrow> (ps', Returns rc)
      else (ps, Throws IllegalPropertyException))"

definition del_property :: "props \<Rightarrow> string \<Rightarrow> props \<times> unit outcome" where
  "del_property ps ident =
     (let key = trim_string (CHR '' '') ident in
      if key \<noteq> [] then (del key ps, Returns ()) else (ps, Throws IllegalPropertyException))"

text \<open>
  The listing walks the map by iterator while the lookups it makes may add entries, so the
  next entry is the one with the least key above the current one in the present map.
\<close>

fun next_entry :: "string option \<Rightarrow> props \<Rightarrow> (string \<times> string) option" where
  "next_entry cur [] = None"
| "next_entry cur (p # ps) =
     (case cur of
        None \<Rightarrow> Some p
      | Some k \<Rightarrow> if key_code k < key_code (fst p) then Some p else next_entry cur ps)"

fun list_loop :: "nat \<Rightarrow> host \<Rightarrow> props \<Rightarrow> string option \<Rightarrow> (props \<times> props) option" where
  "list_loop 0 h ps cur = None"
| "list_loop (Suc n) h ps cur =
     (case next_entry cur ps of
        None \<Rightarrow> Some (ps, [])
      | Some (k, v) \<Rightarrow>
          (case format_args n h ps v True True of
             None \<Rightarrow> None
           | Some (ps', r) \<Rightarrow>
               (case list_loop n h ps' (Some k) of
                  None \<Rightarrow> None
                | Some (ps'', vs) \<Rightarrow> Some (ps'', (case r of Returns t \<Rightarrow> (k, t) # vs | _ \<Rightarrow> vs)))))"

definition list_properties :: "nat \<Rightarrow> host \<Rightarrow> props \<Rightarrow> (props \<times> props) option" where
  "list_properties n h ps =
     (case list_loop n h ps None of
        None \<Rightarrow> None
      | Some (ps', vs) \<Rightarrow> Some (ps', sort_key (\<lambda>p. map lower (fst p)) vs))"

section \<open>The configuration reader\<close>

text \<open>
  The sections of a file with their entries, in the order of the map the loader keeps, and
  the name of the section the reader is in.
\<close>

type_synonym sections = "(string \<times> props) list"

record loader =
  sects :: sections
  current :: "string option"

definition config_entry :: "host \<Rightarrow> loader \<Rightarrow> string \<Rightarrow> loader outcome" where
  "config_entry h l cfgLine =
     (case current l of
        None \<Rightarrow> Throws InitializationException
      | Some sec \<Rightarrow>
          and_then
            (case find_from (CHR ''='') cfgLine 0 of
               None \<Rightarrow> Returns (cfgLine, [])
             | Some pos \<Rightarrow>
                 if pos > 0
                 then Returns (trim_string (CHR '' '') (take pos cfgLine), parse_args h (drop (Suc pos) cfgLine) False True)
                 else Throws InitializationException)
            (\<lambda>(cfgKey, cfgArg).
               if cfgKey = [] \<or> (\<exists>p \<in> set_option (find_from (CHR '' '') cfgKey 0). p > 0)
               then Throws InitializationException
               else Returns (l\<lparr>sects :=
                 put sec (the (map_of (sects l) sec) @ [(cfgKey, cfgArg)]) (sects l)\<rparr>)))"

definition config_section :: "loader \<Rightarrow> string \<Rightarrow> loader outcome" where
  "config_section l section =
     (if section \<noteq> [] then
        case map_of (sects l) section of
          None \<Rightarrow> Returns (l\<lparr>sects := put section [] (sects l), current := Some section\<rparr>)
        | Some _ \<Rightarrow> Returns (l\<lparr>current := Some section\<rparr>)
      else Throws InitializationException)"

definition config_line :: "nat \<Rightarrow> host \<Rightarrow> props \<Rightarrow> loader \<Rightarrow> string \<Rightarrow> loader run_result" where
  "config_line n h ps l readLine =
     (let cfgLine = trim_string (CHR '' '') (takeWhile (\<lambda>c. c \<noteq> CHR ''#'') readLine) in
      if cfgLine = [] then Some (ps, Returns l)
      else if hd cfgLine = CHR ''['' then
        (case find_from (CHR '']'') cfgLine 1 of
           Some q \<Rightarrow>
             if q \<ge> 2 then
               case format_args n h ps (take (q - 1) (drop 1 cfgLine)) True False of
                 None \<Rightarrow> None
               | Some (ps', r) \<Rightarrow> Some (ps', and_then r (config_section l))
             else Some (ps, Throws InitializationException)
         | None \<Rightarrow> Some (ps, Throws InitializationException))
      else Some (ps, config_entry h l cfgLine))"

fun config_lines :: "nat \<Rightarrow> host \<Rightarrow> props \<Rightarrow> loader \<Rightarrow> string list \<Rightarrow> loader run_result" where
  "config_lines n h ps l [] = Some (ps, Returns l)"
| "config_lines n h ps l (x # xs) =
     (case config_line n h ps l x of
        None \<Rightarrow> None
      | Some (ps', Returns l') \<Rightarrow> config_lines n h ps' l' xs
      | Some (ps', Throws e) \<Rightarrow> Some (ps', Throws e)
      | Some (ps', Undefined) \<Rightarrow> Some (ps', Undefined))"

definition ConfiguratorFileLoader :: "nat \<Rightarrow> host \<Rightarrow> props \<Rightarrow> string \<Rightarrow> loader run_result" where
  "ConfiguratorFileLoader n h ps filename =
     (case read_file h filename of
        None \<Rightarrow> Some (ps, Throws NotFoundException)
      | Some xs \<Rightarrow> config_lines n h ps \<lparr>sects = [], current = None\<rparr> xs)"

fun load_entries :: "host \<Rightarrow> props \<Rightarrow> props \<Rightarrow> props" where
  "load_entries h ps [] = ps"
| "load_entries h ps ((k, v) # es) = load_entries h (fst (load_property k (parse_args h v False True) ps)) es"

fun load_sections :: "host \<Rightarrow> props \<Rightarrow> sections \<Rightarrow> string list \<Rightarrow> props" where
  "load_sections h ps conf [] = ps"
| "load_sections h ps conf (s # ss) =
     (case map_of conf s of
        Some es \<Rightarrow> load_sections h (load_entries h ps es) (filter (\<lambda>p. fst p \<noteq> s) conf) ss
      | None \<Rightarrow> load_sections h ps conf ss)"

definition load_file_sections :: "nat \<Rightarrow> host \<Rightarrow> props \<Rightarrow> string \<Rightarrow> string list \<Rightarrow> int run_result" where
  "load_file_sections n h ps filename ss =
     (case ConfiguratorFileLoader n h ps filename of
        None \<Rightarrow> None
      | Some (ps', Returns l) \<Rightarrow> Some (load_sections h ps' (sects l) ss, Returns 0)
      | Some (ps', Throws e) \<Rightarrow> Some (ps', Throws e)
      | Some (ps', Undefined) \<Rightarrow> Some (ps', Undefined))"

text \<open>
  The splitting loop of both list makers: \<^verbatim>\<open>do ... while (pos++ > 0)\<close> from \<open>pos\<close>, where
  "not found" makes the position negative.
\<close>

function split_loop :: "char \<Rightarrow> string \<Rightarrow> nat \<Rightarrow> string list" where
  "split_loop d arg pos =
     (let e_pos = find_from d arg pos;
          item = trim_string (CHR '' '')
            (case e_pos of None \<Rightarrow> drop pos arg | Some e \<Rightarrow> take (e - pos) (drop pos arg));
          items = (if item \<noteq> [] then [item] else [])
      in case e_pos of
           None \<Rightarrow> items
         | Some e \<Rightarrow> if e > 0 then items @ split_loop d arg (Suc e) else items)"
  by pat_completeness auto
termination
  by (relation "measure (\<lambda>(d, arg, pos). length arg - pos)") (auto dest!: find_from_bounds [OF sym])

declare split_loop.simps [simp del]

definition make_config_profiles :: "host \<Rightarrow> string \<Rightarrow> string list" where
  "make_config_profiles h profile_arg =
     concat (map (\<lambda>arg. if arg \<noteq> [] then split_loop (CHR '';'') arg 0 else []) (tokenize h True profile_arg))"

definition make_config_sections :: "host \<Rightarrow> string \<Rightarrow> string list \<Rightarrow> string list" where
  "make_config_sections h section_arg ss =
     ss @ concat (map (\<lambda>arg. if arg \<noteq> [] then split_loop (CHR '','') arg 0 else []) (tokenize h True section_arg))"

definition profile_file :: "string \<Rightarrow> string \<times> string" where
  "profile_file it =
     (let (filename, section_args) =
        (case find_from (CHR '':'') it 0 of
           Some pos \<Rightarrow> if pos > 0 then (trim_string (CHR '' '') (take pos it), drop (Suc pos) it) else (it, [])
         | None \<Rightarrow> (it, []))
      in (if \<exists>p \<in> set_option (find_from (CHR '' '') filename 0). p > 0
          then [CHR 0x27] @ filename @ [CHR 0x27] else filename, section_args))"

definition default_sections :: "host \<Rightarrow> string list" where
  "default_sections h = ''common'' # (if gethostname h \<noteq> [] then [''host:'' @ gethostname h] else [])"

record config_repo =
  repo :: props
  load_count :: nat

fun load_profiles :: "nat \<Rightarrow> host \<Rightarrow> config_repo \<Rightarrow> string list \<Rightarrow> (config_repo \<times> int outcome) option" where
  "load_profiles n h c [] = Some (c, Returns 0)"
| "load_profiles n h c (it # its) =
     (case profile_file it of (filename, section_args) \<Rightarrow>
        let ss = make_config_sections h section_args (default_sections h) in
        if ss \<noteq> [] then
          case load_file_sections n h (repo c) filename ss of
            None \<Rightarrow> None
          | Some (ps, Returns rc) \<Rightarrow>
              if rc = 0 then load_profiles n h (c\<lparr>repo := ps, load_count := Suc (load_count c)\<rparr>) its
              else Some (c\<lparr>repo := ps\<rparr>, Returns (- 1))
          | Some (ps, Throws e) \<Rightarrow>
              if catches (Daf NotFoundException) e then load_profiles n h (c\<lparr>repo := ps\<rparr>) its
              else Some (c\<lparr>repo := ps\<rparr>, Returns (- 1))
          | Some (ps, Undefined) \<Rightarrow> Some (c\<lparr>repo := ps\<rparr>, Undefined)
        else Some (c, Returns (- 1)))"

definition load_file_profile :: "nat \<Rightarrow> host \<Rightarrow> config_repo \<Rightarrow> string \<Rightarrow> (config_repo \<times> int outcome) option" where
  "load_file_profile n h c profile_arg =
     (let profiles = make_config_profiles h profile_arg in
      if profiles \<noteq> [] then load_profiles n h c profiles else Some (c, Returns (- 1)))"

text \<open>
  \<open>load\<close>: \<open>params\<close> are the parameters that follow the switch on the command line, as the
  argument shifter delivers them.
\<close>

fun load_params :: "nat \<Rightarrow> host \<Rightarrow> config_repo \<Rightarrow> string list \<Rightarrow> bool \<Rightarrow> (config_repo \<times> bool outcome) option" where
  "load_params n h c [] load_prop = Some (c, Returns load_prop)"
| "load_params n h c (p # ps) load_prop =
     (case load_file_profile n h c (trim_string (CHR '' '') p) of
        None \<Rightarrow> None
      | Some (c', Returns rc) \<Rightarrow> load_params n h c' ps (if rc = 0 then False else load_prop)
      | Some (c', Throws e) \<Rightarrow> Some (c', Throws e)
      | Some (c', Undefined) \<Rightarrow> Some (c', Undefined))"

definition Configurator_load ::
  "nat \<Rightarrow> host \<Rightarrow> config_repo \<Rightarrow> string \<Rightarrow> string list \<Rightarrow> bool \<Rightarrow> (config_repo \<times> int outcome) option" where
  "Configurator_load n h c config_switch params use_env =
     (if config_switch \<noteq> [] then
        case load_params n h c params True of
          None \<Rightarrow> None
        | Some (c', Returns load_prop) \<Rightarrow>
            if load_prop then
              case get_property n h (repo c') (trim_string (CHR '' '') config_switch) use_env of
                None \<Rightarrow> None
              | Some (ps, Returns v) \<Rightarrow>
                  (case load_file_profile n h (c'\<lparr>repo := ps\<rparr>) v of
                     None \<Rightarrow> None
                   | Some (c'', Throws e) \<Rightarrow>
                       if catches (Daf NotFoundException) e then Some (c'', Returns 0) else Some (c'', Throws e)
                   | Some (c'', Undefined) \<Rightarrow> Some (c'', Undefined)
                   | Some (c'', Returns _) \<Rightarrow> Some (c'', Returns 0))
              | Some (ps, Throws e) \<Rightarrow>
                  if catches (Daf NotFoundException) e then Some (c'\<lparr>repo := ps\<rparr>, Returns 0)
                  else Some (c'\<lparr>repo := ps\<rparr>, Throws e)
              | Some (ps, Undefined) \<Rightarrow> Some (c'\<lparr>repo := ps\<rparr>, Undefined)
            else Some (c', Returns 0)
        | Some (c', Throws e) \<Rightarrow> Some (c', Throws e)
        | Some (c', Undefined) \<Rightarrow> Some (c', Undefined)
      else Some (c, Returns (- 1)))"

definition PropertySingleton_new :: "nat \<Rightarrow> host \<Rightarrow> bool \<Rightarrow> config_repo option" where
  "PropertySingleton_new n h preload =
     (let c = \<lparr>repo = [], load_count = 0\<rparr> in
      if preload then
        case getenv h ''DAFProperties'' of
          Some properties \<Rightarrow> map_option fst (load_file_profile n h c properties)
        | None \<Rightarrow> Some c
      else Some c)"

section \<open>Map laws\<close>

definition ordered_keys :: "(string \<times> 'v) list \<Rightarrow> bool" where
  "ordered_keys m \<longleftrightarrow> sorted_wrt (<) (map (key_code \<circ> fst) m)"

text \<open>An insertion into an ordered association list, as both maps of the reader use it.\<close>

locale ordered_insert =
  fixes ins :: "string \<Rightarrow> 'v \<Rightarrow> (string \<times> 'v) list \<Rightarrow> (string \<times> 'v) list"
  assumes ins_lookup: "map_of (ins k v m) = (map_of m)(k \<mapsto> v)"
    and ins_ordered: "ordered_keys m \<Longrightarrow> ordered_keys (ins k v m)"
begin

lemma lookup_same: "map_of (ins k v m) k = Some v"
  by (simp add: ins_lookup)

lemma lookup_other: "k' \<noteq> k \<Longrightarrow> map_of (ins k v m) k' = map_of m k'"
  by (simp add: ins_lookup)

lemma lookup_fold: "map_of (fold (\<lambda>(k, v). ins k v) es m) = map_of m ++ map_of (rev es)"
  by (induction es arbitrary: m) (auto simp: ins_lookup map_add_def fun_eq_iff split: option.splits)

lemma fold_ordered: "ordered_keys m \<Longrightarrow> ordered_keys (fold (\<lambda>(k, v). ins k v) es m)"
  by (induction es arbitrary: m) (auto simp: ins_ordered)

end

lemma c_code_inj: "c_code a = c_code b \<longleftrightarrow> a = b"
  by (simp add: c_code_def)

lemma key_code_inj: "key_code a = key_code b \<longleftrightarrow> a = b"
  unfolding key_code_def by (intro inj_map_eq_map injI) (simp add: c_code_inj)

lemma put_keys: "set (map fst (put k v m)) = insert k (set (map fst m))"
  by (induction k v m rule: put.induct) auto

lemma ordered_keys_Cons:
  "ordered_keys (p # m) \<longleftrightarrow> (\<forall>x \<in> set (map fst m). key_code (fst p) < key_code x) \<and> ordered_keys m"
  by (auto simp: ordered_keys_def)

lemma put_ordered: "ordered_keys m \<Longrightarrow> ordered_keys (put k v m)"
proof (induction k v m rule: put.induct)
  case (1 k v)
  then show ?case by (simp add: ordered_keys_def)
next
  case (2 k v k' v' ps)
  consider "k = k'" | "k \<noteq> k'" "key_code k < key_code k'" | "k \<noteq> k'" "\<not> key_code k < key_code k'" by blast
  then show ?case
  proof cases
    case 1
    then show ?thesis using 2 by (simp add: ordered_keys_Cons)
  next
    case 2
    then show ?thesis
      using \<open>ordered_keys ((k', v') # ps)\<close> by (auto simp: ordered_keys_Cons dest: order.strict_trans)
  next
    case 3
    then have "key_code k' < key_code k" using key_code_inj by (metis linorder_neqE)
    with 2 3 show ?thesis using put_keys [of k v ps] by (auto simp: ordered_keys_Cons)
  qed
qed

interpretation ordered_map: ordered_insert put
proof unfold_locales
  show "map_of (put k v m) = (map_of m)(k \<mapsto> v)" for k v m
    by (induction k v m rule: put.induct) (auto simp: fun_eq_iff)
qed (rule put_ordered)

lemma map_of_del: "map_of (del k m) = (map_of m)(k := None)"
  by (induction m) (auto simp: del_def fun_eq_iff)

lemma load_property_lookup:
  "map_of (fst (load_property k v m)) = (if v \<noteq> [] \<or> map_of m k = None then (map_of m)(k \<mapsto> v) else map_of m)"
  by (simp add: load_property_def ordered_map.ins_lookup)

lemma load_property_ordered: "ordered_keys m \<Longrightarrow> ordered_keys (fst (load_property k v m))"
  by (simp add: load_property_def ordered_map.ins_ordered)

section \<open>Fuel\<close>

text \<open>More fuel never changes a result.\<close>

definition more_defined :: "'a option \<Rightarrow> 'a option \<Rightarrow> bool" where
  "more_defined a b \<longleftrightarrow> (a = None \<or> b = a)"

lemma more_definedI: "(\<And>x. a = Some x \<Longrightarrow> b = Some x) \<Longrightarrow> more_defined a b"
  by (cases a) (auto simp: more_defined_def)

lemma more_definedD: "more_defined a b \<Longrightarrow> a = Some x \<Longrightarrow> b = Some x"
  by (auto simp: more_defined_def)

lemma more_defined_simps [simp]: "more_defined None b" "more_defined a a"
  by (simp_all add: more_defined_def)

lemma get_body_mono:
  assumes "\<And>ps i u. more_defined (g ps i u) (g' ps i u)" "\<And>ps t s q. more_defined (f ps t s q) (f' ps t s q)"
  shows "more_defined (get_body g f h ps i u) (get_body g' f' h ps i u)"
  using assms by (auto simp: get_body_def Let_def split: option.splits prod.splits)

lemma tokens_body_mono:
  assumes "\<And>ps ts p q. more_defined (t ps ts p q) (t' ps ts p q)" "\<And>ps a p. more_defined (e ps a p) (e' ps a p)"
  shows "more_defined (tokens_body t e h ps ts p q) (tokens_body t' e' h ps ts p q)"
proof (cases ts)
  case Nil
  then show ?thesis by (simp add: tokens_body_def more_defined_def)
next
  case (Cons x xs)
  show ?thesis
  proof (cases "e ps x 0")
    case None
    then show ?thesis by (simp add: Cons tokens_body_def)
  next
    case (Some r)
    then have "e' ps x 0 = Some r" by (rule more_definedD [OF assms(2)])
    with Some assms(1) show ?thesis
      by (auto simp: Cons tokens_body_def split: prod.splits outcome.splits)
  qed
qed

lemma expand_property_mono:
  assumes "\<And>ps a p. more_defined (e ps a p) (e' ps a p)" "\<And>ps i u. more_defined (g ps i u) (g' ps i u)"
  shows "more_defined (expand_property e g ps a p) (expand_property e' g' ps a p)"
proof (cases "if char_at a (p + 2) = CHR ''{'' then find_from (CHR ''}'') a (p + 2) else None")
  case None
  show ?thesis using assms(1) by (simp only: expand_property_def Let_def None option.case)
next
  case (Some l)
  let ?nm = "trim_string (CHR '' '') (take (l - 1 - (p + 2)) (drop (p + 2 + 1) a))"
  show ?thesis
  proof (cases "g ps ?nm True")
    case None
    then show ?thesis by (simp only: expand_property_def Let_def Some option.case more_defined_simps)
  next
    case found: (Some r)
    then have "g' ps ?nm True = Some r" by (rule more_definedD [OF assms(2)])
    then show ?thesis
      using assms(1) by (simp only: expand_property_def Let_def Some found option.case)
        (auto split: prod.splits outcome.splits)
  qed
qed

lemma expand_clock_mono:
  assumes "\<And>ps a p. more_defined (e ps a p) (e' ps a p)"
  shows "more_defined (expand_clock e t ps a p) (expand_clock e' t ps a p)"
  using assms by (auto simp: expand_clock_def split: option.splits outcome.splits)

lemma expand_body_mono:
  assumes "\<And>ps a p. more_defined (e ps a p) (e' ps a p)" "\<And>ps i u. more_defined (g ps i u) (g' ps i u)"
  shows "more_defined (expand_body e g h ps a p) (expand_body e' g' h ps a p)"
  using assms expand_property_mono [OF assms] expand_clock_mono [OF assms(1)]
  by (auto simp: expand_body_def Let_def split: option.splits)

lemma fuel_step:
  "more_defined (get_property n h ps i u) (get_property (Suc n) h ps i u) \<and>
   more_defined (format_args n h ps t s q) (format_args (Suc n) h ps t s q) \<and>
   more_defined (format_tokens n h ps ts p q) (format_tokens (Suc n) h ps ts p q) \<and>
   more_defined (expand n h ps a k) (expand (Suc n) h ps a k)"
proof (induction n arbitrary: ps i u t s q ts p a k)
  case 0
  then show ?case by (simp add: more_defined_def)
next
  case (Suc n)
  then have g: "more_defined (get_property n h ps i u) (get_property (Suc n) h ps i u)"
    and f: "more_defined (format_args n h ps t s q) (format_args (Suc n) h ps t s q)"
    and k: "more_defined (format_tokens n h ps ts p q) (format_tokens (Suc n) h ps ts p q)"
    and e: "more_defined (expand n h ps a k) (expand (Suc n) h ps a k)" for ps i u t s q ts p a k
    by blast+
  have "more_defined (get_property (Suc n) h ps i u) (get_property (Suc (Suc n)) h ps i u)"
    unfolding routines_Suc(1) [of "Suc n"] by (subst routines_Suc(1)) (intro get_body_mono g f)
  moreover have "more_defined (format_args (Suc n) h ps t s q) (format_args (Suc (Suc n)) h ps t s q)"
    using k by (simp add: routines_Suc(2))
  moreover have "more_defined (format_tokens (Suc n) h ps ts p q) (format_tokens (Suc (Suc n)) h ps ts p q)"
    unfolding routines_Suc(3) [of "Suc n"] by (subst routines_Suc(3)) (intro tokens_body_mono k e)
  moreover have "more_defined (expand (Suc n) h ps a k) (expand (Suc (Suc n)) h ps a k)" for k
    unfolding routines_Suc(4) [of "Suc n"] by (subst routines_Suc(4)) (intro expand_body_mono e g)
  ultimately show ?case by blast
qed

lemma fuel_mono:
  assumes "m \<le> n"
  shows "get_property m h ps i u = Some r \<Longrightarrow> get_property n h ps i u = Some r"
    "format_args m h ps t s q = Some r \<Longrightarrow> format_args n h ps t s q = Some r"
    "format_tokens m h ps ts p q = Some r \<Longrightarrow> format_tokens n h ps ts p q = Some r"
    "expand m h ps a k = Some r \<Longrightarrow> expand n h ps a k = Some r"
proof -
  have "(get_property m h ps i u = Some r \<longrightarrow> get_property n h ps i u = Some r) \<and>
      (format_args m h ps t s q = Some r \<longrightarrow> format_args n h ps t s q = Some r) \<and>
      (format_tokens m h ps ts p q = Some r \<longrightarrow> format_tokens n h ps ts p q = Some r) \<and>
      (expand m h ps a k = Some r \<longrightarrow> expand n h ps a k = Some r)"
    using assms
  proof (induction rule: dec_induct)
    case base
    then show ?case by blast
  next
    case (step n)
    then show ?case
      using fuel_step [of n h ps i u t s q ts p a k] by (blast dest: more_definedD)
  qed
  then show "get_property m h ps i u = Some r \<Longrightarrow> get_property n h ps i u = Some r"
    "format_args m h ps t s q = Some r \<Longrightarrow> format_args n h ps t s q = Some r"
    "format_tokens m h ps ts p q = Some r \<Longrightarrow> format_tokens n h ps ts p q = Some r"
    "expand m h ps a k = Some r \<Longrightarrow> expand n h ps a k = Some r"
    by blast+
qed

section \<open>What lookups keep\<close>

text \<open>A lookup may add entries from the environment but never changes or drops one.\<close>

definition extends :: "props \<Rightarrow> props \<Rightarrow> bool" where
  "extends ps ps' \<longleftrightarrow> (ordered_keys ps \<longrightarrow> ordered_keys ps') \<and> map_of ps \<subseteq>\<^sub>m map_of ps'"

lemma extends_refl [simp]: "extends ps ps"
  by (simp add: extends_def)

lemma extends_trans: "extends a b \<Longrightarrow> extends b c \<Longrightarrow> extends a c"
  by (auto simp: extends_def intro: map_le_trans)

definition keeps :: "props \<Rightarrow> 'a run_result \<Rightarrow> bool" where
  "keeps ps r \<longleftrightarrow> (case r of None \<Rightarrow> True | Some (ps', _) \<Rightarrow> extends ps ps')"

lemma keeps_simps [simp]: "keeps ps None" "keeps ps (Some (ps', x)) \<longleftrightarrow> extends ps ps'"
  by (simp_all add: keeps_def)

lemma keeps_extends: "extends ps ps' \<Longrightarrow> keeps ps' r \<Longrightarrow> keeps ps r"
  by (cases r) (auto intro: extends_trans)

lemma load_new_extends: "map_of ps k = None \<Longrightarrow> extends ps (fst (load_property k v ps))"
  by (auto simp: extends_def load_property_ordered load_property_lookup map_le_def)

lemma get_body_keeps:
  assumes "\<And>ps i u. keeps ps (g ps i u)" "\<And>ps t s q. keeps ps (f ps t s q)"
  shows "keeps ps (get_body g f h ps i u)"
proof -
  have new: "extends ps ps'" if "load_property k e ps = (ps', rc)" "map_of ps k = None" for k e ps' rc
    using load_new_extends [OF that(2), of e] that(1) by simp
  show ?thesis
    using assms by (auto simp: get_body_def Let_def split: option.splits prod.splits intro: new keeps_extends)
qed

lemma tokens_body_keeps:
  assumes "\<And>ps ts p q. keeps ps (t ps ts p q)" "\<And>ps a p. keeps ps (e ps a p)"
  shows "keeps ps (tokens_body t e h ps ts p q)"
proof (cases ts)
  case Nil
  then show ?thesis by (simp add: tokens_body_def)
next
  case (Cons x xs)
  show ?thesis
    using assms(2) [of ps x 0]
    by (cases "e ps x 0")
      (auto simp: Cons tokens_body_def split: outcome.splits intro: keeps_extends [OF _ assms(1)])
qed

lemma expand_property_keeps:
  assumes "\<And>ps a p. keeps ps (e ps a p)" "\<And>ps i u. keeps ps (g ps i u)"
  shows "keeps ps (expand_property e g ps a p)"
proof (cases "if char_at a (p + 2) = CHR ''{'' then find_from (CHR ''}'') a (p + 2) else None")
  case None
  show ?thesis using assms(1) by (simp only: expand_property_def Let_def None option.case)
next
  case (Some l)
  let ?nm = "trim_string (CHR '' '') (take (l - 1 - (p + 2)) (drop (p + 2 + 1) a))"
  show ?thesis
    using assms(2) [of ps ?nm True]
    by (cases "g ps ?nm True"; simp only: expand_property_def Let_def Some option.case)
      (auto split: outcome.splits prod.splits intro: keeps_extends [OF _ assms(1)])
qed

lemma expand_body_keeps:
  assumes "\<And>ps a p. keeps ps (e ps a p)" "\<And>ps i u. keeps ps (g ps i u)"
  shows "keeps ps (expand_body e g h ps a p)"
  using assms expand_property_keeps [OF assms]
  by (auto simp: expand_body_def expand_clock_def Let_def split: option.splits outcome.splits)

lemma routines_keep:
  "keeps ps (get_property n h ps i u) \<and> keeps ps (format_args n h ps t s q) \<and>
   keeps ps (format_tokens n h ps ts p q) \<and> keeps ps (expand n h ps a k)"
proof (induction n arbitrary: ps i u t s q ts p a k)
  case 0
  then show ?case by simp
next
  case (Suc n)
  then have g: "keeps ps (get_property n h ps i u)" and f: "keeps ps (format_args n h ps t s q)"
    and k: "keeps ps (format_tokens n h ps ts p q)" and e: "keeps ps (expand n h ps a j)"
    for ps i u t s q ts p a j by blast+
  show ?case
    unfolding routines_Suc by (intro conjI get_body_keeps tokens_body_keeps expand_body_keeps g f k e)
qed

section \<open>Words without special characters\<close>

text \<open>
  A simple word holds no blank, quote, dollar, backslash, percent sign or brace.  ACE's
  tokeniser takes a simple word as one argument and gives a quoted one back unchanged.
\<close>

definition simple_char :: "char \<Rightarrow> bool" where
  "simple_char c \<longleftrightarrow> \<not> blank c \<and> c \<notin> set ''$%{};,'' \<and> c_code c \<notin> {0x22, 0x27, 0x5C}"

definition simple_word :: "string \<Rightarrow> bool" where
  "simple_word w \<longleftrightarrow> w \<noteq> [] \<and> list_all simple_char w"

definition tokenizes_words :: "host \<Rightarrow> bool" where
  "tokenizes_words h \<longleftrightarrow>
     (\<forall>b w. simple_word w \<longrightarrow> tokenize h b w = [w]) \<and>
     (\<forall>b ws. list_all simple_word ws \<longrightarrow> requote h b (map (\<lambda>w. (w, True)) ws) = ws)"

lemma simple_word_trim:
  assumes "simple_word w"
  shows "trim_string (CHR '' '') w = w" "w \<noteq> []" "CHR ''%'' \<notin> set w" "CHR '' '' \<notin> set w" "CHR ''}'' \<notin> set w"
proof -
  have c: "simple_char x" if "x \<in> set w" for x using assms that by (auto simp: simple_word_def list_all_iff)
  show ne: "w \<noteq> []" using assms by (simp add: simple_word_def)
  have sp: "blank (CHR '' '')" by (simp add: blank_def c_isspace_def c_code_def)
  show "CHR ''%'' \<notin> set w" "CHR '' '' \<notin> set w" "CHR ''}'' \<notin> set w"
    using c sp by (auto simp: simple_char_def)
  have "hd w \<in> set w" "last w \<in> set w" using ne by simp_all
  then have "trimmed (CHR '' '') w"
    using c sp by (auto simp: trimmed_def simple_char_def)
  moreover have "\<forall>x \<in> set w. \<not> c_iscntrl x" using c by (auto simp: simple_char_def blank_def)
  ultimately show "trim_string (CHR '' '') w = w" by (rule trim_string_fixed)
qed

lemma parse_argv_word: "simple_word w \<Longrightarrow> parse_argv [w] q = w"
  using simple_word_trim [of w] by (simp add: parse_argv_def parse_argv_loop_eq quote_arg_def Let_def)

lemma expand_plain: "CHR ''%'' \<notin> set arg \<Longrightarrow> expand (Suc n) h ps arg pos = Some (ps, Returns arg)"
  using in_set_dropD [of "CHR ''%''" pos arg] by (auto simp: routines_Suc expand_body_def find_from_def)


lemma requote_word: "tokenizes_words h \<Longrightarrow> simple_word w \<Longrightarrow> requote h b [(w, True)] = [w]"
  unfolding tokenizes_words_def by (drule conjunct2, drule spec [of _ b], drule spec [of _ "[w]"]) simp

lemma ARGV_add_word:
  assumes "tokenizes_words h" "simple_word w" "add_ok h w"
  shows "fst (ARGV_add h (ARGV_new s) w True) = \<lparr>substitute_env_args = s, args_list = [w], vec_args = [w]\<rparr>"
  using assms(3) simple_word_trim(1) [OF assms(2)] requote_word [OF assms(1,2)]
  by (simp add: ARGV_add_def ARGV_new_def Let_def)

lemma format_word:
  assumes "tokenizes_words h" "simple_word w" "add_ok h w"
  shows "format_args (Suc (Suc (Suc n))) h ps w s q = Some (ps, Returns w)"
proof -
  have tok: "tokenize h s w = [w]" using assms(1,2) by (simp add: tokenizes_words_def)
  have vec: "ARGV_vector h \<lparr>substitute_env_args = s, args_list = [w], vec_args = [w]\<rparr> = [w]"
    using requote_word [OF assms(1,2)] by (simp add: ARGV_vector_def)
  show ?thesis
    using simple_word_trim(2,3) [OF assms(2)] ARGV_add_word [OF assms]
    by (simp add: routines_Suc(2,3) tok tokens_body_def expand_plain vec parse_argv_word [OF assms(2)])
qed

lemma get_known_word:
  assumes "tokenizes_words h" "simple_word v" "add_ok h v" "trim_string (CHR '' '') k \<noteq> []"
    "map_of ps (trim_string (CHR '' '') k) = Some v" "4 \<le> n"
  shows "get_property n h ps k u = Some (ps, Returns v)"
proof -
  have "get_property (Suc (Suc (Suc (Suc 0)))) h ps k u = Some (ps, Returns v)"
    using assms(4,5) format_word [OF assms(1-3)] by (simp add: routines_Suc(1) get_body_def Let_def)
  then show ?thesis using fuel_mono(1) [of "Suc (Suc (Suc (Suc 0)))" n] assms(6) by simp
qed

text \<open>A value that names itself.\<close>

lemma self_reference_diverges:
  fixes k :: string
  defines "v \<equiv> ''%p{'' @ k @ ''}''"
  assumes "simple_word k" "\<And>b. tokenize h b v = [v]" "map_of ps k = Some v"
  shows "get_property n h ps k u = None"
proof (induction n arbitrary: u rule: less_induct)
  case (less n)
  note w = simple_word_trim [OF assms(2)]
  have pos: "find_from (CHR ''%'') v 0 = Some 0" by (simp add: v_def find_from_def)
  have ch: "char_at v 1 = CHR ''p''" "char_at v 2 = CHR ''{''" by (simp_all add: v_def char_at_def)
  have "takeWhile (\<lambda>d. d \<noteq> CHR ''}'') (k @ ''}'') = k"
    using w(5) by (subst takeWhile_tail) (auto simp: takeWhile_eq_all_conv)
  then have "takeWhile (\<lambda>d. d \<noteq> CHR ''}'') (drop 2 v) = CHR ''{'' # k" by (simp add: v_def)
  then have br: "find_from (CHR ''}'') v 2 = Some (3 + length k)"
    by (simp add: find_from_def v_def)
  have nm: "take (3 + length k - 1 - 2) (drop 3 v) = k" by (simp add: v_def)
  have ex: "expand m h ps v 0 = None" if "m < n" for m
  proof (cases m)
    case (Suc m')
    then have "get_property m' h ps k True = None" using less that by simp
    then show ?thesis
      unfolding Suc routines_Suc(4) expand_body_def pos option.case Let_def expand_property_def
      using ch br nm w(1) by (simp add: numeral_3_eq_3 numeral_2_eq_2)
  qed simp
  have tk: "format_tokens m h ps [v] p q = None" if "m < n" for m p q
    using that ex by (cases m) (simp_all add: routines_Suc(3) tokens_body_def)
  have fm: "format_args m h ps v s q = None" if "m < n" for m s q
    using that tk assms(3) by (cases m) (simp_all add: routines_Suc(2))
  show ?case
  proof (cases n)
    case (Suc m)
    then show ?thesis using fm assms(4) w(1,2) by (simp add: routines_Suc(1) get_body_def Let_def)
  qed simp
qed

section \<open>Lists of profiles and sections\<close>

function split_on :: "char \<Rightarrow> string \<Rightarrow> string list" where
  "split_on d s =
     (if d \<in> set s then takeWhile (\<lambda>c. c \<noteq> d) s # split_on d (tl (dropWhile (\<lambda>c. c \<noteq> d) s)) else [s])"
  by pat_completeness auto
termination
proof (relation "measure (\<lambda>(d, s). length s)")
  fix d :: char and s
  assume d: "d \<in> set s"
  then have "dropWhile (\<lambda>c. c \<noteq> d) s \<noteq> []" by (simp add: dropWhile_eq_Nil_conv)
  then have "length (tl (dropWhile (\<lambda>c. c \<noteq> d) s)) < length (dropWhile (\<lambda>c. c \<noteq> d) s)" by simp
  also have "\<dots> \<le> length s" by (rule length_dropWhile_le)
  finally show "((d, tl (dropWhile (\<lambda>c. c \<noteq> d) s)), (d, s)) \<in> measure (\<lambda>(d, s). length s)" by simp
qed simp

declare split_on.simps [simp del]

definition items :: "string list \<Rightarrow> string list" where
  "items xs = filter (\<lambda>x. x \<noteq> []) (map (trim_string (CHR '' '')) xs)"

lemma split_loop_eq:
  assumes "pos \<le> length arg" "0 < pos \<or> arg = [] \<or> hd arg \<noteq> d"
  shows "split_loop d arg pos = items (split_on d (drop pos arg))"
  using assms
proof (induction d arg pos rule: split_loop.induct)
  case (1 d arg pos)
  show ?case
  proof (cases "find_from d arg pos")
    case None
    then have "d \<notin> set (drop pos arg)" using 1(2) by (auto simp: find_from_def split: if_splits)
    with None show ?thesis by (simp add: split_loop.simps [of d arg pos] split_on.simps [of d "drop pos arg"] items_def Let_def)
  next
    case (Some e)
    note b = find_from_bounds [OF Some]
    define t where "t = takeWhile (\<lambda>c. c \<noteq> d) (drop pos arg)"
    have e: "e = pos + length t" "d \<in> set (drop pos arg)"
      using Some by (auto simp: find_from_def t_def split: if_splits)
    have e0: "0 < e"
    proof (rule ccontr)
      assume "\<not> 0 < e"
      then have "pos = 0" "e = 0" using e(1) by simp_all
      with b 1(3) show False by (cases arg) auto
    qed
    have tk: "take (e - pos) (drop pos arg) = t"
      unfolding e(1) diff_add_inverse t_def by (rule takeWhile_eq_take [symmetric])
    have "dropWhile (\<lambda>c. c \<noteq> d) (drop pos arg) = drop (length t) (drop pos arg)"
      unfolding t_def by (rule dropWhile_eq_drop)
    then have "dropWhile (\<lambda>c. c \<noteq> d) (drop pos arg) = drop e arg" by (simp add: e(1) add.commute)
    then have rest: "tl (dropWhile (\<lambda>c. c \<noteq> d) (drop pos arg)) = drop (Suc e) arg" by (simp add: tl_drop drop_Suc)
    have ih: "split_loop d arg (Suc e) = items (split_on d (drop (Suc e) arg))"
      using 1(1) [OF refl refl refl Some e0] b by simp
    show ?thesis
      using e(2) e0 tk rest ih Some
      by (simp add: split_loop.simps [of d arg pos] split_on.simps [of d "drop pos arg"] items_def Let_def t_def)
  qed
qed

lemma split_loop_leading: "trim_string (CHR '' '') [] = [] \<Longrightarrow> split_loop d (d # s) 0 = []"
  by (simp add: split_loop.simps [of d "d # s" 0] find_from_def Let_def)

section \<open>Sections\<close>

definition entry_value :: "host \<Rightarrow> string option \<Rightarrow> string \<Rightarrow> props \<Rightarrow> string option" where
  "entry_value h cur k es =
     fold (\<lambda>(k', v) cur. if k' = k \<and> (parse_args h v False True \<noteq> [] \<or> cur = None)
                         then Some (parse_args h v False True) else cur) es cur"

lemma load_entries_lookup: "map_of (load_entries h ps es) k = entry_value h (map_of ps k) k es"
  by (induction h ps es rule: load_entries.induct)
    (auto simp: entry_value_def load_property_lookup)

lemma load_entries_ordered: "ordered_keys ps \<Longrightarrow> ordered_keys (load_entries h ps es)"
  by (induction h ps es rule: load_entries.induct) (auto simp: load_property_ordered)

lemma load_sections_ordered: "ordered_keys ps \<Longrightarrow> ordered_keys (load_sections h ps conf ss)"
  by (induction h ps conf ss rule: load_sections.induct) (auto simp: load_entries_ordered split: option.splits)

lemma map_of_filter_other: "k \<noteq> s \<Longrightarrow> map_of (filter (\<lambda>p. fst p \<noteq> s) conf) k = map_of conf k"
  by (induction conf) auto

lemma load_sections_distinct:
  "distinct ss \<Longrightarrow> load_sections h ps conf ss =
     fold (\<lambda>s ps. case map_of conf s of Some es \<Rightarrow> load_entries h ps es | None \<Rightarrow> ps) ss ps"
proof (induction ss arbitrary: ps conf)
  case Nil
  then show ?case by simp
next
  case (Cons s ss)
  let ?conf = "filter (\<lambda>p. fst p \<noteq> s) conf"
  have "map_of ?conf x = map_of conf x" if "x \<in> set ss" for x
    using Cons.prems that by (intro map_of_filter_other) auto
  then have "fold (\<lambda>s ps. case map_of ?conf s of Some es \<Rightarrow> load_entries h ps es | None \<Rightarrow> ps) ss qs =
      fold (\<lambda>s ps. case map_of conf s of Some es \<Rightarrow> load_entries h ps es | None \<Rightarrow> ps) ss qs" for qs
    by (intro fold_cong) auto
  with Cons show ?case by (auto split: option.splits)
qed

text \<open>A non-empty entry of a section is not undone by later sections that do not name the key.\<close>

lemma entry_value_absent: "k \<notin> fst ` set es \<Longrightarrow> entry_value h cur k es = cur"
  by (induction es arbitrary: cur) (auto simp: entry_value_def)

lemma entry_value_last:
  assumes "es = xs @ (k, v) # ys" "k \<notin> fst ` set ys" "parse_args h v False True \<noteq> []"
  shows "entry_value h cur k es = Some (parse_args h v False True)"
  using assms(2,3) entry_value_absent [of k ys h] by (simp add: assms(1) entry_value_def)

lemma fold_sections_absent:
  assumes "\<And>s es. s \<in> set ss \<Longrightarrow> map_of conf s = Some es \<Longrightarrow> k \<notin> fst ` set es"
  shows "map_of (fold (\<lambda>s ps. case map_of conf s of Some es \<Rightarrow> load_entries h ps es | None \<Rightarrow> ps) ss ps) k = map_of ps k"
  using assms
proof (induction ss arbitrary: ps)
  case Nil
  then show ?case by simp
next
  case (Cons s ss)
  have ih: "map_of (fold (\<lambda>s ps. case map_of conf s of Some es \<Rightarrow> load_entries h ps es | None \<Rightarrow> ps) ss qs) k = map_of qs k"
    for qs using Cons.IH [of qs] Cons.prems by (meson list.set_intros(2))
  show ?case
  proof (cases "map_of conf s")
    case None
    then show ?thesis using ih by simp
  next
    case (Some es)
    then have "k \<notin> fst ` set es" using Cons.prems [of s es] by simp
    then have "map_of (load_entries h ps es) k = map_of ps k"
      by (simp add: load_entries_lookup entry_value_absent)
    then show ?thesis using ih Some by simp
  qed
qed

section \<open>Properties\<close>

text \<open>
  Reading a property never loses or alters one: whatever \<open>get_property\<close> and
  \<open>format_args\<close> do with the repository, every property it held keeps its value, and the
  map stays in key order.
\<close>

theorem lookups_keep_properties:
  assumes "get_property n h ps ident use_env = Some (ps', r)" "ordered_keys ps" "map_of ps k = Some v"
  shows "map_of ps' k = Some v \<and> ordered_keys ps'"
proof -
  have e: "extends ps ps'" using routines_keep [of ps n h ident use_env] assms(1) by simp
  have "k \<in> dom (map_of ps)" using assms(3) by blast
  with e assms(2,3) show ?thesis by (simp add: extends_def map_le_def)
qed

definition sample_host :: host where
  "sample_host =
     \<lparr>tokenize = (\<lambda>b s. if s = [] then [] else [s]), requote = (\<lambda>b xs. map fst xs), add_ok = (\<lambda>s. True),
      getenv = (\<lambda>k. if k = ''HOME'' then Some ''root'' else None), gethostname = ''node1'', thread_ID = 1,
      process_ID = 42, gmtime = (\<lambda>t. None), localtime = (\<lambda>t. None), gettimeofday = (0, 0),
      read_file = (\<lambda>f. None)\<rparr>"

lemma sample_host_words: "tokenizes_words sample_host" "add_ok sample_host w"
  by (auto simp: tokenizes_words_def sample_host_def simple_word_def comp_def)

lemma sample_words: "simple_word ''alpha''" "simple_word ''port''" "simple_word ''root''" "simple_word ''HOME''"
  by code_simp+

theorem lookups_keep_properties_witness:
  "\<exists>ps' r. get_property 9 sample_host [(''port'', ''alpha'')] ''HOME'' True = Some (ps', r) \<and>
     map_of ps' ''port'' = Some ''alpha''"
proof -
  have "get_property 9 sample_host [(''port'', ''alpha'')] ''HOME'' True \<noteq> None" by code_simp
  then have "\<exists>ps' r. get_property 9 sample_host [(''port'', ''alpha'')] ''HOME'' True = Some (ps', r)" by auto
  then show ?thesis
    using lookups_keep_properties [of 9 sample_host "[(''port'', ''alpha'')]" "''HOME''" True _ _ "''port''" "''alpha''"]
    by (auto simp: ordered_keys_def)
qed

text \<open>
  A property that was set is read back: for a value that is a simple word, with
  ACE's tokeniser keeping simple words whole, \<open>set_property\<close> reports success and
  \<open>get_property\<close> returns the value with fuel 4 or more, for the same key up to surrounding
  blanks, whatever the environment holds; deleting it makes it unknown again.
\<close>

theorem get_after_set:
  assumes "tokenizes_words h" "simple_word v" "add_ok h v" "trim_string (CHR '' '') k \<noteq> []" "4 \<le> n"
  shows "\<exists>ps'. set_property ps k v = (ps', Returns 0) \<and> get_property n h ps' k u = Some (ps', Returns v) \<and>
    (\<exists>qs. del_property ps' k = (qs, Returns ()) \<and>
       get_property n h qs k False = Some (qs, Throws NotFoundException))"
proof -
  let ?k = "trim_string (CHR '' '') k" and ?ps = "put (trim_string (CHR '' '') k) v ps"
  have "set_property ps k v = (?ps, Returns 0)"
    using assms(4) simple_word_trim(1,2) [OF assms(2)] by (simp add: set_property_def load_property_def Let_def)
  moreover have "get_property n h ?ps k u = Some (?ps, Returns v)"
    by (rule get_known_word [OF assms(1-4) ordered_map.lookup_same assms(5)])
  moreover have "get_property (Suc m) h (del ?k ?ps) k False = Some (del ?k ?ps, Throws NotFoundException)" for m
    using assms(4) by (simp add: routines_Suc(1) get_body_def Let_def map_of_del)
  then have "get_property n h (del ?k ?ps) k False = Some (del ?k ?ps, Throws NotFoundException)"
    using assms(5) by (cases n) auto
  ultimately show ?thesis using assms(4) by (auto simp: del_property_def Let_def)
qed

theorem get_after_set_witness:
  "\<exists>ps'. set_property [] '' port '' ''alpha'' = (ps', Returns 0) \<and>
     get_property 4 sample_host ps' '' port '' True = Some (ps', Returns ''alpha'')"
proof -
  have "trim_string (CHR '' '') '' port '' \<noteq> []" by code_simp
  then show ?thesis
    using get_after_set [OF sample_host_words(1) sample_words(1) sample_host_words(2), of "'' port ''" 4 "[]" True]
    by auto
qed

text \<open>
  A property missing from the map is taken from the environment once and cached:
  the lookup returns the environment value and stores it, and later lookups return it even
  when the environment has changed.
\<close>

theorem environment_value_cached:
  assumes "tokenizes_words h" "simple_word k" "simple_word e" "add_ok h e" "map_of ps k = None"
    "getenv h k = Some e" "5 \<le> n"
  shows "get_property n h ps k True = Some (put k e ps, Returns e) \<and>
    get_property n (h\<lparr>getenv := env\<rparr>) (put k e ps) k u = Some (put k e ps, Returns e)"
proof -
  obtain m where m: "n = Suc m" "4 \<le> m" using assms(7) by (cases n) auto
  note w = simple_word_trim [OF assms(2)] and we = simple_word_trim [OF assms(3)]
  have put: "map_of (put k e ps) (trim_string (CHR '' '') k) = Some e"
    using w(1) ordered_map.lookup_same by simp
  have "get_property m h (put k e ps) k False = Some (put k e ps, Returns e)"
    using get_known_word [OF assms(1,3,4) _ put m(2)] w(1,2) by simp
  then have "get_property n h ps k True = Some (put k e ps, Returns e)"
    using assms(5,6) w we by (simp add: m(1) routines_Suc(1) get_body_def Let_def load_property_def)
  moreover have "tokenizes_words (h\<lparr>getenv := env\<rparr>)" "add_ok (h\<lparr>getenv := env\<rparr>) e"
    using assms(1,4) by (simp_all add: tokenizes_words_def)
  then have "get_property n (h\<lparr>getenv := env\<rparr>) (put k e ps) k u = Some (put k e ps, Returns e)"
    using get_known_word [OF _ assms(3) _ _ put] w(1,2) assms(7) by simp
  ultimately show ?thesis by blast
qed

theorem environment_value_cached_witness:
  "get_property 5 sample_host [] ''HOME'' True = Some ([(''HOME'', ''root'')], Returns ''root'') \<and>
   get_property 5 (sample_host\<lparr>getenv := \<lambda>_. None\<rparr>) [(''HOME'', ''root'')] ''HOME'' True
     = Some ([(''HOME'', ''root'')], Returns ''root'')"
  using environment_value_cached [OF sample_host_words(1) sample_words(4,3) sample_host_words(2), of "[]" 5 "\<lambda>_. None" True]
  by (simp add: sample_host_def)

text \<open>
  Claim C39.  A property whose value refers to itself, \<^verbatim>\<open>%p{k}\<close> stored under \<^verbatim>\<open>k\<close>,
  cannot be read: \<open>get_property\<close> calls itself through \<open>format_args\<close> without end, so no
  amount of fuel yields a result.
\<close>

theorem self_reference_never_returns:
  assumes "simple_word k" "\<And>b. tokenize h b (''%p{'' @ k @ ''}'') = [''%p{'' @ k @ ''}'']"
    "map_of ps k = Some (''%p{'' @ k @ ''}'')"
  shows "\<forall>n. get_property n h ps k u = None"
  using self_reference_diverges [OF assms] by blast

theorem self_reference_never_returns_witness:
  "\<forall>n. get_property n sample_host [(''port'', ''%p{port}'')] ''port'' True = None"
  using self_reference_never_returns [OF sample_words(2), of sample_host "[(''port'', ''%p{port}'')]" True]
  by (simp add: sample_host_def)

text \<open>
  The lists of profiles and of sections are split at their separator, each item
  trimmed and empty items dropped; but when an argument starts with the separator, the
  loop condition \<^verbatim>\<open>pos++ > 0\<close> ends the loop at once and the whole argument is ignored.
\<close>

theorem config_lists_split:
  "(arg = [] \<or> hd arg \<noteq> d \<longrightarrow> split_loop d arg 0 = items (split_on d arg)) \<and> split_loop d (d # s) 0 = []"
proof -
  have "trim_string (CHR '' '') [] = []" by code_simp
  then show ?thesis using split_loop_eq [of 0 arg d] split_loop_leading by auto
qed

theorem config_lists_split_witness:
  "split_loop (CHR '','') ''a, b,,c'' 0 = [''a'', ''b'', ''c''] \<and> split_loop (CHR '','') '',a,b'' 0 = []"
proof -
  have "items (split_on (CHR '','') ''a, b,,c'') = [''a'', ''b'', ''c'']" by code_simp
  then show ?thesis
    using config_lists_split [of "''a, b,,c''" "CHR '',''" "''a,b''"] by simp
qed

text \<open>
  Precedence of sections: among distinct sections loaded in order (first
  \<^verbatim>\<open>common\<close>, then \<^verbatim>\<open>host:<name>\<close>, then those named by the user), the last section
  that names a key with a non-empty value decides the value, over earlier sections and
  over what the map held before.
\<close>

theorem section_precedence:
  assumes "distinct (before @ s # after)" "map_of conf s = Some (xs @ (k, v) # ys)" "k \<notin> fst ` set ys"
    "parse_args h v False True \<noteq> []"
    "\<And>s' es. s' \<in> set after \<Longrightarrow> map_of conf s' = Some es \<Longrightarrow> k \<notin> fst ` set es"
  shows "map_of (load_sections h ps conf (before @ s # after)) k = Some (parse_args h v False True)"
proof -
  let ?f = "\<lambda>s ps. case map_of conf s of Some es \<Rightarrow> load_entries h ps es | None \<Rightarrow> ps"
  have "map_of (fold ?f after (?f s (fold ?f before ps))) k = map_of (?f s (fold ?f before ps)) k"
    by (rule fold_sections_absent) (use assms(5) in blast)
  also have "\<dots> = Some (parse_args h v False True)"
    using assms(2) entry_value_last [OF refl assms(3,4)] by (simp add: load_entries_lookup)
  finally show ?thesis by (simp only: load_sections_distinct [OF assms(1)]) simp
qed

theorem section_precedence_witness:
  "map_of (load_sections sample_host [] [(''common'', [(''port'', ''1'')]), (''svc'', [(''port'', ''2'')])]
     [''common'', ''svc'']) ''port'' = Some ''2''"
proof -
  have "parse_args sample_host ''2'' False True = ''2''" by code_simp
  then show ?thesis
    using section_precedence [of "[''common'']" "''svc''" "[]" "[(''common'', [(''port'', ''1'')]), (''svc'', [(''port'', ''2'')])]"
        "[]" "''port''" "''2''" "[]" sample_host "[]"]
    by simp
qed

end
