(* ===== verification/Monitor.thy ===== *)
theory Monitor
  imports Exceptions
begin

text \<open>
  \<^verbatim>\<open>DAF::SYNCHCondition\<close> (\<^verbatim>\<open>daf/SYNCHCondition_T.h\<close>) and \<^verbatim>\<open>DAF::Monitor\<close>
  (\<^verbatim>\<open>daf/Monitor.h\<close>): a mutex with one condition variable that counts its waiters and can
  be interrupted.  Every synchroniser of the library is written against it.

  A system is a set of threads that run the code of one monitor object.  The code of a
  synchroniser is a function from a program point and what the thread can read to the new
  data and one action: go on, lock, unlock, wait, signal one or all.  \<open>mon_step\<close> executes
  one action of one thread, so every interleaving of the code is a sequence of events; the
  scheduler's choices (which thread runs, which sleeper a signal picks, when a timed wait
  ends, spurious wake-ups) are in the events.  \<open>wait\<close> and \<open>interrupt\<close> are split exactly
  where another thread can intervene: \<^verbatim>\<open>interrupted_\<close> is read and written without the
  mutex, and the waiter count is read without it.
\<close>

section \<open>State\<close>

type_synonym tid = nat

text \<open>How \<open>wait\<close> ends: return 0, return -1 with an error number, or throw.\<close>

datatype wres = W_ok | W_error errno | W_interrupted

datatype 'l act =
    Goto 'l
  | Lock 'l
  | Unlock 'l
  | Wait "wres \<Rightarrow> 'l"
  | Notify 'l
  | NotifyAll 'l
  | Halt

datatype 'l tstate =
    Run 'l
  | Entering "wres \<Rightarrow> 'l"
  | Sleeping "wres \<Rightarrow> 'l"
  | Waking wres "wres \<Rightarrow> 'l"
  | Interrupting
  | Removing nat
  | Broadcasting nat
  | Interrupted_rc int

record ('d, 'l) mon =
  data :: 'd
  mutex :: "tid option"
  waiters :: int
  interrupted :: bool
  asleep :: "tid list"
  notified :: "tid list"
  thr :: "tid \<Rightarrow> 'l tstate"

datatype 'l event =
    Call tid 'l
  | Step tid nat
  | Wake tid wres
  | Interrupt tid

text \<open>
  The code of a synchroniser at a program point: from a choice of the environment (a clock
  reading, the outcome of a call-back), the interrupted flag, the waiter count and the data
  to the new data and an action.
\<close>

type_synonym ('d, 'l) code = "'l \<Rightarrow> nat \<Rightarrow> bool \<Rightarrow> int \<Rightarrow> 'd \<Rightarrow> 'd \<times> 'l act"

section \<open>Operations of the condition\<close>

definition signal :: "nat \<Rightarrow> ('d, 'l) mon \<Rightarrow> ('d, 'l) mon" where
  "signal pick m =
     (if asleep m = [] then m
      else let t = asleep m ! (pick mod length (asleep m)) in
           m\<lparr>asleep := remove1 t (asleep m), notified := notified m @ [t]\<rparr>)"

definition broadcast :: "('d, 'l) mon \<Rightarrow> ('d, 'l) mon" where
  "broadcast m = m\<lparr>asleep := [], notified := notified m @ asleep m\<rparr>"

text \<open>
  \<open>wait\<close>: the test on entry; the count and the release of the mutex while the thread goes
  to sleep; the return of the condition wait with the mutex held again; the count and the
  second test on leaving.
\<close>

definition wait_test :: "tid \<Rightarrow> (wres \<Rightarrow> 'l) \<Rightarrow> ('d, 'l) mon \<Rightarrow> ('d, 'l) mon" where
  "wait_test t k m =
     (if \<not> interrupted m then m\<lparr>thr := (thr m)(t := Entering k)\<rparr>
      else m\<lparr>thr := (thr m)(t := Run (k W_interrupted))\<rparr>)"

definition wait_sleep :: "tid \<Rightarrow> (wres \<Rightarrow> 'l) \<Rightarrow> ('d, 'l) mon \<Rightarrow> ('d, 'l) mon" where
  "wait_sleep t k m =
     m\<lparr>waiters := waiters m + 1, asleep := asleep m @ [t], mutex := None,
       thr := (thr m)(t := Sleeping k)\<rparr>"

definition wait_wake :: "tid \<Rightarrow> wres \<Rightarrow> (wres \<Rightarrow> 'l) \<Rightarrow> ('d, 'l) mon \<Rightarrow> ('d, 'l) mon" where
  "wait_wake t r k m =
     m\<lparr>mutex := Some t, asleep := remove1 t (asleep m), notified := remove1 t (notified m),
       thr := (thr m)(t := Waking r k)\<rparr>"

definition wait_leave :: "tid \<Rightarrow> wres \<Rightarrow> (wres \<Rightarrow> 'l) \<Rightarrow> ('d, 'l) mon \<Rightarrow> ('d, 'l) mon" where
  "wait_leave t r k m =
     m\<lparr>waiters := waiters m - 1,
       thr := (thr m)(t := Run (k (if interrupted m then W_interrupted else r)))\<rparr>"

text \<open>\<open>interrupt\<close>: the test and the flag, then up to three rounds of broadcast.\<close>

definition interrupt_start :: "tid \<Rightarrow> ('d, 'l) mon \<Rightarrow> ('d, 'l) mon" where
  "interrupt_start t m =
     (if (if interrupted m then waiters m > 0 else True)
      then m\<lparr>interrupted := True, thr := (thr m)(t := Removing 3)\<rparr>
      else m\<lparr>thr := (thr m)(t := Interrupted_rc 0)\<rparr>)"

definition interrupt_round :: "tid \<Rightarrow> nat \<Rightarrow> ('d, 'l) mon \<Rightarrow> ('d, 'l) mon" where
  "interrupt_round t i m =
     (case i of
        0 \<Rightarrow> m\<lparr>thr := (thr m)(t := Interrupted_rc (- 1))\<rparr>
      | Suc j \<Rightarrow>
          if waiters m > 0 then m\<lparr>thr := (thr m)(t := Broadcasting j)\<rparr>
          else m\<lparr>thr := (thr m)(t := Interrupted_rc 0)\<rparr>)"

section \<open>Execution\<close>

definition run_code :: "('d, 'l) code \<Rightarrow> tid \<Rightarrow> nat \<Rightarrow> 'l \<Rightarrow> ('d, 'l) mon \<Rightarrow> ('d, 'l) mon option" where
  "run_code code t pick l m =
     (case code l pick (interrupted m) (waiters m) (data m) of
        (d, Goto l') \<Rightarrow> Some (m\<lparr>data := d, thr := (thr m)(t := Run l')\<rparr>)
      | (d, Lock l') \<Rightarrow>
          if mutex m = None then Some (m\<lparr>data := d, mutex := Some t, thr := (thr m)(t := Run l')\<rparr>) else None
      | (d, Unlock l') \<Rightarrow> Some (m\<lparr>data := d, mutex := None, thr := (thr m)(t := Run l')\<rparr>)
      | (d, Wait k) \<Rightarrow> Some (wait_test t k (m\<lparr>data := d\<rparr>))
      | (d, Notify l') \<Rightarrow> Some (signal pick (m\<lparr>data := d, thr := (thr m)(t := Run l')\<rparr>))
      | (d, NotifyAll l') \<Rightarrow> Some (broadcast (m\<lparr>data := d, thr := (thr m)(t := Run l')\<rparr>))
      | (d, Halt) \<Rightarrow> None)"

definition is_idle :: "('l \<Rightarrow> bool) \<Rightarrow> 'l tstate \<Rightarrow> bool" where
  "is_idle final s = (case s of Run l \<Rightarrow> final l | Interrupted_rc _ \<Rightarrow> True | _ \<Rightarrow> False)"

definition thread_step :: "('d, 'l) code \<Rightarrow> tid \<Rightarrow> nat \<Rightarrow> ('d, 'l) mon \<Rightarrow> ('d, 'l) mon option" where
  "thread_step code t pick m =
     (case thr m t of
        Run l \<Rightarrow> run_code code t pick l m
      | Entering k \<Rightarrow> Some (wait_sleep t k m)
      | Waking r k \<Rightarrow> Some (wait_leave t r k m)
      | Interrupting \<Rightarrow> Some (interrupt_start t m)
      | Removing i \<Rightarrow> Some (interrupt_round t i m)
      | Broadcasting i \<Rightarrow>
          if mutex m = None then Some (broadcast (m\<lparr>thr := (thr m)(t := Removing i)\<rparr>)) else None
      | Sleeping k \<Rightarrow> None
      | Interrupted_rc rc \<Rightarrow> None)"

definition mon_step ::
  "('d, 'l) code \<Rightarrow> ('l \<Rightarrow> bool) \<Rightarrow> ('l \<Rightarrow> bool) \<Rightarrow> ('d, 'l) mon \<Rightarrow> 'l event \<Rightarrow> ('d, 'l) mon option" where
  "mon_step code entry final m e =
     (case e of
        Call t l \<Rightarrow>
          if is_idle final (thr m t) \<and> entry l then Some (m\<lparr>thr := (thr m)(t := Run l)\<rparr>) else None
      | Interrupt t \<Rightarrow>
          if is_idle final (thr m t) then Some (m\<lparr>thr := (thr m)(t := Interrupting)\<rparr>) else None
      | Wake t r \<Rightarrow>
          (case thr m t of
             Sleeping k \<Rightarrow>
               if mutex m = None \<and> r \<noteq> W_interrupted then Some (wait_wake t r k m) else None
           | _ \<Rightarrow> None)
      | Step t pick \<Rightarrow> thread_step code t pick m)"

definition mon_init :: "'d \<Rightarrow> 'l \<Rightarrow> ('d, 'l) mon" where
  "mon_init d l =
     \<lparr>data = d, mutex = None, waiters = 0, interrupted = False, asleep = [], notified = [],
      thr = (\<lambda>_. Run l)\<rparr>"

lemmas mon_ops = signal_def broadcast_def wait_test_def wait_sleep_def wait_wake_def wait_leave_def
  interrupt_start_def interrupt_round_def

section \<open>The invariant of every monitor\<close>

fun in_cs :: "('l \<Rightarrow> bool) \<Rightarrow> 'l tstate \<Rightarrow> bool" where
  "in_cs holds (Run l) = holds l"
| "in_cs holds (Entering k) = True"
| "in_cs holds (Waking r k) = True"
| "in_cs holds _ = False"

fun sleeping :: "'l tstate \<Rightarrow> bool" where
  "sleeping (Sleeping k) = True"
| "sleeping _ = False"

fun waking :: "'l tstate \<Rightarrow> bool" where
  "waking (Waking r k) = True"
| "waking _ = False"

fun resumes_held :: "('l \<Rightarrow> bool) \<Rightarrow> 'l tstate \<Rightarrow> bool" where
  "resumes_held holds (Entering k) = (\<forall>r. holds (k r))"
| "resumes_held holds (Sleeping k) = (\<forall>r. holds (k r))"
| "resumes_held holds (Waking r k) = (\<forall>r. holds (k r))"
| "resumes_held holds _ = True"

text \<open>
  The mutex is held by exactly the thread that is in a critical section; the queues hold
  exactly the sleeping threads, once each; the waiter count is the number of threads
  between the increment and the decrement in \<open>wait\<close>.
\<close>

definition mon_inv :: "('l \<Rightarrow> bool) \<Rightarrow> ('d, 'l) mon \<Rightarrow> bool" where
  "mon_inv holds m \<longleftrightarrow>
     (\<forall>t. in_cs holds (thr m t) \<longleftrightarrow> mutex m = Some t) \<and>
     (\<forall>t. resumes_held holds (thr m t)) \<and>
     distinct (asleep m @ notified m) \<and>
     (\<forall>t. t \<in> set (asleep m @ notified m) \<longleftrightarrow> sleeping (thr m t)) \<and>
     waiters m = int (length (asleep m) + length (notified m)) +
       (case mutex m of None \<Rightarrow> 0 | Some t \<Rightarrow> if waking (thr m t) then 1 else 0)"

lemma mon_invD:
  assumes "mon_inv holds m"
  shows "in_cs holds (thr m t) \<longleftrightarrow> mutex m = Some t" "resumes_held holds (thr m t)"
    "distinct (asleep m @ notified m)" "t \<in> set (asleep m @ notified m) \<longleftrightarrow> sleeping (thr m t)"
    "waiters m = int (length (asleep m) + length (notified m)) +
       (case mutex m of None \<Rightarrow> 0 | Some t \<Rightarrow> if waking (thr m t) then 1 else 0)"
  using assms unfolding mon_inv_def by blast+

text \<open>Signals only move sleepers from one queue to the other.\<close>

definition same_sleepers :: "('d, 'l) mon \<Rightarrow> ('d, 'l) mon \<Rightarrow> bool" where
  "same_sleepers m m' \<longleftrightarrow>
     data m' = data m \<and> mutex m' = mutex m \<and> waiters m' = waiters m \<and> interrupted m' = interrupted m \<and>
     thr m' = thr m \<and> set (asleep m' @ notified m') = set (asleep m @ notified m) \<and>
     length (asleep m') + length (notified m') = length (asleep m) + length (notified m) \<and>
     (distinct (asleep m @ notified m) \<longrightarrow> distinct (asleep m' @ notified m'))"

lemma signal_same: "same_sleepers m (signal pick m)"
proof (cases "asleep m = []")
  case True
  then show ?thesis by (simp add: signal_def same_sleepers_def)
next
  case False
  define t where "t = asleep m ! (pick mod length (asleep m))"
  have t: "t \<in> set (asleep m)" using False by (simp add: t_def)
  have "signal pick m = m\<lparr>asleep := remove1 t (asleep m), notified := notified m @ [t]\<rparr>"
    using False by (simp add: signal_def t_def Let_def)
  moreover have "set (remove1 t (asleep m)) \<union> {t} = set (asleep m)"
    using t set_remove1_subset [of t "asleep m"] in_set_remove1 [of _ t "asleep m"] by blast
  moreover have "Suc (length (remove1 t (asleep m))) = length (asleep m)" using t by (rule remove1_length_less)
  ultimately show ?thesis using t by (auto simp: same_sleepers_def distinct_remove1)
qed

lemma broadcast_same: "same_sleepers m (broadcast m)"
  by (auto simp: same_sleepers_def broadcast_def)

lemma mon_inv_same: "mon_inv holds m \<Longrightarrow> same_sleepers m m' \<Longrightarrow> mon_inv holds m'"
  unfolding mon_inv_def same_sleepers_def by (auto split: option.splits)

text \<open>A thread moves to another state that is neither asleep nor waking, the mutex unchanged.\<close>

lemma mon_inv_move:
  assumes "mon_inv holds m" "in_cs holds s = in_cs holds (thr m t)" "resumes_held holds s"
    "\<not> sleeping s" "\<not> sleeping (thr m t)" "\<not> waking s" "\<not> waking (thr m t)"
    "mutex m' = mutex m" "waiters m' = waiters m" "asleep m' = asleep m" "notified m' = notified m"
    "thr m' = (thr m)(t := s)"
  shows "mon_inv holds m'"
  using assms unfolding mon_inv_def by (auto split: option.splits)

lemma mon_inv_lock:
  assumes "mon_inv holds m" "mutex m = None" "holds l"
    "mutex m' = Some t" "waiters m' = waiters m" "asleep m' = asleep m" "notified m' = notified m"
    "thr m' = (thr m)(t := Run l)" "\<not> sleeping (thr m t)"
  shows "mon_inv holds m'"
  using assms unfolding mon_inv_def by auto

lemma mon_inv_unlock:
  assumes "mon_inv holds m" "mutex m = Some t" "\<not> holds l" "\<not> waking (thr m t)"
    "mutex m' = None" "waiters m' = waiters m" "asleep m' = asleep m" "notified m' = notified m"
    "thr m' = (thr m)(t := Run l)" "\<not> sleeping (thr m t)"
  shows "mon_inv holds m'"
  using assms unfolding mon_inv_def by auto

lemma mon_inv_sleep:
  assumes "mon_inv holds m" "thr m t = Entering k"
  shows "mon_inv holds (wait_sleep t k m)"
proof -
  have "mutex m = Some t" using mon_invD(1) [OF assms(1), of t] assms(2) by simp
  moreover have "t \<notin> set (asleep m @ notified m)" using mon_invD(4) [OF assms(1), of t] assms(2) by simp
  ultimately show ?thesis
    using assms mon_invD(2) [OF assms(1), of t] unfolding mon_inv_def wait_sleep_def by auto
qed

lemma mon_inv_wake:
  assumes "mon_inv holds m" "thr m t = Sleeping k" "mutex m = None"
  shows "mon_inv holds (wait_wake t r k m)"
proof -
  have d: "distinct (asleep m)" "distinct (notified m)" "set (asleep m) \<inter> set (notified m) = {}"
    using mon_invD(3) [OF assms(1)] by auto
  have t: "t \<in> set (asleep m) \<union> set (notified m)" using mon_invD(4) [OF assms(1), of t] assms(2) by simp
  have len: "Suc (length (remove1 t (asleep m)) + length (remove1 t (notified m))) = length (asleep m) + length (notified m)"
  proof (cases "t \<in> set (asleep m)")
    case True
    then have "remove1 t (notified m) = notified m" using d(3) by (auto intro: remove1_idem)
    then show ?thesis using remove1_length_less [OF True] by simp
  next
    case False
    then have "t \<in> set (notified m)" "remove1 t (asleep m) = asleep m" using t by (auto intro: remove1_idem)
    then show ?thesis using remove1_length_less [of t "notified m"] by simp
  qed
  have set: "x \<in> set (remove1 t (asleep m)) \<union> set (remove1 t (notified m)) \<longleftrightarrow>
      x \<noteq> t \<and> x \<in> set (asleep m) \<union> set (notified m)" for x
    using d by auto
  have "resumes_held holds (Waking r k)" using mon_invD(2) [OF assms(1), of t] assms(2) by simp
  then show ?thesis
    using assms len set mon_invD(5) [OF assms(1)] d
    unfolding mon_inv_def wait_wake_def by (auto simp: distinct_remove1)
qed

lemma mon_inv_leave:
  assumes "mon_inv holds m" "thr m t = Waking r k"
  shows "mon_inv holds (wait_leave t r k m)"
proof -
  have "mutex m = Some t" using mon_invD(1) [OF assms(1), of t] assms(2) by simp
  moreover have "holds (k r')" for r' using mon_invD(2) [OF assms(1), of t] assms(2) by simp
  ultimately show ?thesis
    using assms unfolding mon_inv_def wait_leave_def by auto
qed

lemma mon_inv_init: "\<not> holds l \<Longrightarrow> mon_inv holds (mon_init d l)"
  by (simp add: mon_inv_def mon_init_def)

section \<open>Clients\<close>

text \<open>
  What a synchroniser must keep to: it locks only when it does not hold the mutex, unlocks,
  waits and signals only when it holds it, starts and ends without it, and changes its data
  only under it.  In return the invariant holds in every reachable state.
\<close>

locale monitor_client =
  fixes code :: "('d, 'l) code"
    and entry :: "'l \<Rightarrow> bool"
    and final :: "'l \<Rightarrow> bool"
    and holds :: "'l \<Rightarrow> bool"
  assumes goto_law: "code l c i w d = (d', Goto l') \<Longrightarrow> holds l' = holds l"
    and lock_law: "code l c i w d = (d', Lock l') \<Longrightarrow> \<not> holds l \<and> holds l'"
    and unlock_law: "code l c i w d = (d', Unlock l') \<Longrightarrow> holds l \<and> \<not> holds l'"
    and wait_law: "code l c i w d = (d', Wait k) \<Longrightarrow> holds l \<and> (\<forall>r. holds (k r))"
    and notify_law: "code l c i w d = (d', Notify l') \<Longrightarrow> holds l \<and> holds l'"
    and notify_all_law: "code l c i w d = (d', NotifyAll l') \<Longrightarrow> holds l \<and> holds l'"
    and outside_law: "entry l \<or> final l \<Longrightarrow> \<not> holds l"
begin

lemma run_code_inv:
  assumes "mon_inv holds m" "thr m t = Run l" "run_code code t pick l m = Some m'"
  shows "mon_inv holds m'"
proof -
  obtain d a where c: "code l pick (interrupted m) (waiters m) (data m) = (d, a)" by fastforce
  have cs: "holds l \<longleftrightarrow> mutex m = Some t" using mon_invD(1) [OF assms(1), of t] assms(2) by simp
  show ?thesis
  proof (cases a)
    case (Goto l')
    then show ?thesis
      using assms c goto_law [of l _ _ _ _ d l'] cs
      by (intro mon_inv_move [OF assms(1), of "Run l'" t]) (auto simp: run_code_def)
  next
    case (Lock l')
    then have "mutex m = None" "m' = m\<lparr>data := d, mutex := Some t, thr := (thr m)(t := Run l')\<rparr>"
      using assms(3) c by (auto simp: run_code_def split: if_splits)
    then show ?thesis
      using Lock c lock_law assms(2) by (intro mon_inv_lock [OF assms(1), of l' m' t]) auto
  next
    case (Unlock l')
    then have "m' = m\<lparr>data := d, mutex := None, thr := (thr m)(t := Run l')\<rparr>"
      using assms(3) c by (auto simp: run_code_def)
    then show ?thesis
      using Unlock c unlock_law [of l] cs assms(2) by (intro mon_inv_unlock [OF assms(1), of t l' m']) auto
  next
    case (Wait k)
    then have "m' = wait_test t k (m\<lparr>data := d\<rparr>)" using assms(3) c by (simp add: run_code_def)
    moreover have "holds l" "\<And>r. holds (k r)" using Wait c wait_law by blast+
    ultimately show ?thesis
      using assms(2)
      by (intro mon_inv_move [OF assms(1), of "thr m' t" t]) (auto simp: wait_test_def)
  next
    case (Notify l')
    have "mon_inv holds (m\<lparr>data := d, thr := (thr m)(t := Run l')\<rparr>)"
      using Notify c notify_law [of l] assms(2)
      by (intro mon_inv_move [OF assms(1), of "Run l'" t]) auto
    then show ?thesis
      using mon_inv_same [OF _ signal_same] Notify c assms(3) by (auto simp: run_code_def)
  next
    case (NotifyAll l')
    have "mon_inv holds (m\<lparr>data := d, thr := (thr m)(t := Run l')\<rparr>)"
      using NotifyAll c notify_all_law [of l] assms(2)
      by (intro mon_inv_move [OF assms(1), of "Run l'" t]) auto
    then show ?thesis
      using mon_inv_same [OF _ broadcast_same] NotifyAll c assms(3) by (auto simp: run_code_def)
  next
    case Halt
    then show ?thesis using assms(3) c by (simp add: run_code_def)
  qed
qed

lemma thread_step_inv:
  assumes "mon_inv holds m" "thread_step code t pick m = Some m'"
  shows "mon_inv holds m'"
proof (cases "thr m t")
  case (Run l)
  then show ?thesis using run_code_inv [OF assms(1) Run] assms(2) by (simp add: thread_step_def)
next
  case (Entering k)
  then show ?thesis using mon_inv_sleep [OF assms(1)] assms(2) by (auto simp: thread_step_def)
next
  case (Waking r k)
  then show ?thesis using mon_inv_leave [OF assms(1)] assms(2) by (auto simp: thread_step_def)
next
  case Interrupting
  then show ?thesis
    using assms(2) by (intro mon_inv_move [OF assms(1), of "thr m' t" t])
      (auto simp: thread_step_def interrupt_start_def split: if_splits)
next
  case (Removing i)
  then show ?thesis
    using assms(2) by (intro mon_inv_move [OF assms(1), of "thr m' t" t])
      (auto simp: thread_step_def interrupt_round_def split: nat.splits if_splits)
next
  case (Broadcasting i)
  have "mon_inv holds (m\<lparr>thr := (thr m)(t := Removing i)\<rparr>)"
    using Broadcasting by (intro mon_inv_move [OF assms(1), of "Removing i" t]) auto
  then show ?thesis
    using mon_inv_same [OF _ broadcast_same] Broadcasting assms(2)
    by (auto simp: thread_step_def split: if_splits)
qed (use assms(2) in \<open>auto simp: thread_step_def\<close>)

lemma is_idle_outside:
  assumes "is_idle final s"
  shows "\<not> in_cs holds s \<and> \<not> sleeping s \<and> \<not> waking s"
  using assms outside_law by (cases s) (auto simp: is_idle_def)

lemma mon_step_inv: "mon_inv holds m \<Longrightarrow> mon_step code entry final m e = Some m' \<Longrightarrow> mon_inv holds m'"
proof (cases e)
  case (Call t l)
  assume a: "mon_inv holds m" "mon_step code entry final m e = Some m'"
  then show ?thesis
    using Call is_idle_outside [of "thr m t"] outside_law
    by (intro mon_inv_move [OF a(1), of "Run l" t]) (auto simp: mon_step_def split: if_splits)
next
  case (Interrupt t)
  assume a: "mon_inv holds m" "mon_step code entry final m e = Some m'"
  then show ?thesis
    using Interrupt is_idle_outside [of "thr m t"]
    by (intro mon_inv_move [OF a(1), of Interrupting t]) (auto simp: mon_step_def split: if_splits)
next
  case (Wake t r)
  assume a: "mon_inv holds m" "mon_step code entry final m e = Some m'"
  then show ?thesis
    using Wake mon_inv_wake [OF a(1)] by (auto simp: mon_step_def split: tstate.splits if_splits)
next
  case (Step t pick)
  assume a: "mon_inv holds m" "mon_step code entry final m e = Some m'"
  then show ?thesis using Step thread_step_inv [OF a(1)] by (simp add: mon_step_def)
qed

end

sublocale monitor_client \<subseteq> mon_machine: event_invariant "mon_step code entry final" "mon_inv holds"
  by unfold_locales (rule mon_step_inv)

context monitor_client
begin

lemma mon_reachable_inv:
  assumes "\<not> holds l0" "reachable (mon_step code entry final) (mon_init d0 l0) m"
  shows "mon_inv holds m"
  using mon_machine.reachable_inv mon_inv_init [of holds l0 d0] assms by blast

text \<open>Mutual exclusion, and a waiter count that is never negative and exact when no thread is inside.\<close>

lemma mon_exclusion: "mon_inv holds m \<Longrightarrow> thr m t = Run l \<Longrightarrow> thr m t' = Run l' \<Longrightarrow> holds l \<Longrightarrow> holds l' \<Longrightarrow> t = t'"
  using mon_invD(1) [of holds m t] mon_invD(1) [of holds m t'] by simp

lemma mon_waiters_nonneg: "mon_inv holds m \<Longrightarrow> 0 \<le> waiters m"
  using mon_invD(5) [of holds m] by (auto split: option.splits)

lemma mon_waiters_exact:
  "mon_inv holds m \<Longrightarrow> thr m t = Run l \<Longrightarrow> holds l \<Longrightarrow> waiters m = int (length (asleep m) + length (notified m))"
  using mon_invD(5) [of holds m] mon_invD(1) [of holds m t] by auto

end

text \<open>Where a thread is, as values that can be compared by evaluation.\<close>

fun running :: "'l tstate \<Rightarrow> 'l option" where
  "running (Run l) = Some l"
| "running _ = None"

fun interrupt_rc :: "'l tstate \<Rightarrow> int option" where
  "interrupt_rc (Interrupted_rc rc) = Some rc"
| "interrupt_rc _ = None"

lemma running_Some: "running s = Some l \<longleftrightarrow> s = Run l"
  by (cases s) auto

lemma interrupt_rc_Some: "interrupt_rc s = Some rc \<longleftrightarrow> s = Interrupted_rc rc"
  by (cases s) auto

text \<open>
  Data change only by a step of the thread that holds the mutex, so a property of the data
  that the code keeps, for any waiter count that can occur, holds in every reachable state.
\<close>

lemma step_keeps_interrupt: "interrupted m \<Longrightarrow> mon_step code entry final m e = Some m' \<Longrightarrow> interrupted m'"
  by (auto simp: mon_step_def thread_step_def run_code_def mon_ops Let_def
      split: event.splits tstate.splits act.splits prod.splits if_splits nat.splits)

text \<open>A step changes the state of no other thread.\<close>

fun event_tid :: "'l event \<Rightarrow> tid" where
  "event_tid (Call t l) = t"
| "event_tid (Step t pick) = t"
| "event_tid (Wake t r) = t"
| "event_tid (Interrupt t) = t"

lemma run_code_other: "run_code code t pick l m = Some m' \<Longrightarrow> u \<noteq> t \<Longrightarrow> thr m' u = thr m u"
proof -
  assume a: "run_code code t pick l m = Some m'" "u \<noteq> t"
  obtain d x where "code l pick (interrupted m) (waiters m) (data m) = (d, x)" by fastforce
  then show ?thesis
    using a by (cases x) (auto simp: run_code_def mon_ops Let_def split: if_splits)
qed

lemma step_other:
  assumes "mon_step code entry final m e = Some m'" "u \<noteq> event_tid e"
  shows "thr m' u = thr m u"
proof (cases "\<exists>t pick l. e = Step t pick \<and> thr m t = Run l")
  case True
  then show ?thesis using assms run_code_other by (auto simp: mon_step_def thread_step_def)
next
  case False
  then show ?thesis
    using assms
    by (auto simp: mon_step_def thread_step_def mon_ops split: event.splits tstate.splits if_splits nat.splits)
qed

lemma run_other:
  assumes "run (mon_step code entry final) m es = Some m'" "u \<notin> event_tid ` set es"
  shows "thr m' u = thr m u"
  using assms
proof (induction es arbitrary: m)
  case (Cons e es)
  then obtain m1 where m1: "mon_step code entry final m e = Some m1" "run (mon_step code entry final) m1 es = Some m'"
    by (auto split: option.splits)
  then show ?case using Cons.IH [OF m1(2)] step_other [OF m1(1), of u] Cons.prems(2) by auto
qed simp

lemma run_code_data:
  assumes "run_code code t pick l m = Some m'"
  shows "data m' = fst (code l pick (interrupted m) (waiters m) (data m))"
proof -
  obtain d a where "code l pick (interrupted m) (waiters m) (data m) = (d, a)" by fastforce
  then show ?thesis
    using assms by (cases a) (auto simp: run_code_def mon_ops Let_def split: if_splits)
qed

lemma step_data:
  assumes "mon_step code entry final m e = Some m'"
  obtains "data m' = data m"
    | t l c where "thr m t = Run l" "data m' = fst (code l c (interrupted m) (waiters m) (data m))"
proof (cases "\<exists>t pick l. e = Step t pick \<and> thr m t = Run l")
  case True
  then show ?thesis using assms run_code_data that(2) by (fastforce simp: mon_step_def thread_step_def)
next
  case False
  then have "data m' = data m"
    using assms
    by (auto simp: mon_step_def thread_step_def mon_ops split: event.splits tstate.splits if_splits nat.splits)
  then show ?thesis by (rule that(1))
qed

context monitor_client
begin

lemma reachable_data:
  assumes "reachable (mon_step code entry final) (mon_init d0 l0) m" "\<not> holds l0" "P d0"
    "\<And>l c i w d. P d \<Longrightarrow> 0 \<le> w \<Longrightarrow> P (fst (code l c i w d))"
  shows "P (data m)"
proof -
  have "event_invariant (mon_step code entry final) (\<lambda>m. mon_inv holds m \<and> P (data m))"
  proof
    fix m e m'
    assume a: "mon_inv holds m \<and> P (data m)" "mon_step code entry final m e = Some m'"
    have "P (data m')" using step_data [OF a(2)] a(1) assms(4) mon_waiters_nonneg by metis
    then show "mon_inv holds m' \<and> P (data m')" using mon_step_inv [OF _ a(2)] a(1) by blast
  qed
  moreover have "mon_inv holds (mon_init d0 l0) \<and> P (data (mon_init d0 l0))"
    using mon_inv_init assms(2,3) by (simp add: mon_init_def)
  ultimately show ?thesis by (rule event_invariant.reachable_inv [OF _ _ assms(1), THEN conjunct2])
qed

end

text \<open>A client whose data are guarded by the mutex: only the thread that holds it changes them.\<close>

locale guarded_client = monitor_client +
  assumes data_law: "\<not> holds l \<Longrightarrow> fst (code l c i w d) = d"
begin

lemma data_guarded:
  assumes "mon_inv holds m" "mon_step code entry final m e = Some m'" "data m' \<noteq> data m"
  shows "\<exists>t. mutex m = Some t"
proof (rule step_data [OF assms(2)])
  fix t l c
  assume a: "thr m t = Run l" "data m' = fst (code l c (interrupted m) (waiters m) (data m))"
  then have "holds l" using assms(3) data_law by metis
  then show ?thesis using mon_invD(1) [OF assms(1), of t] a(1) by auto
qed (use assms(3) in blast)

end

text \<open>The laws in one statement, for interpretations by case analysis on the program point.\<close>

primrec act_ok :: "('l \<Rightarrow> bool) \<Rightarrow> 'l \<Rightarrow> 'l act \<Rightarrow> bool" where
  "act_ok holds l (Goto l') = (holds l' = holds l)"
| "act_ok holds l (Lock l') = (\<not> holds l \<and> holds l')"
| "act_ok holds l (Unlock l') = (holds l \<and> \<not> holds l')"
| "act_ok holds l (Wait k) = (holds l \<and> (\<forall>r. holds (k r)))"
| "act_ok holds l (Notify l') = (holds l \<and> holds l')"
| "act_ok holds l (NotifyAll l') = (holds l \<and> holds l')"
| "act_ok holds l Halt = True"

lemma monitor_clientI:
  assumes "\<And>l c i w d. act_ok holds l (snd (code l c i w d))" "\<And>l. entry l \<or> final l \<Longrightarrow> \<not> holds l"
  shows "monitor_client code entry final holds"
proof
  fix l c i w d d' l' k
  note a = assms(1) [of l c i w d]
  show "code l c i w d = (d', Goto l') \<Longrightarrow> holds l' = holds l" using a by auto
  show "code l c i w d = (d', Lock l') \<Longrightarrow> \<not> holds l \<and> holds l'" using a by auto
  show "code l c i w d = (d', Unlock l') \<Longrightarrow> holds l \<and> \<not> holds l'" using a by auto
  show "code l c i w d = (d', Wait k) \<Longrightarrow> holds l \<and> (\<forall>r. holds (k r))" using a by auto
  show "code l c i w d = (d', Notify l') \<Longrightarrow> holds l \<and> holds l'" using a by auto
  show "code l c i w d = (d', NotifyAll l') \<Longrightarrow> holds l \<and> holds l'" using a by auto
  show "entry l \<or> final l \<Longrightarrow> \<not> holds l" by (rule assms(2))
qed

lemma guarded_clientI:
  assumes "\<And>l c i w d. act_ok holds l (snd (code l c i w d)) \<and> (\<not> holds l \<longrightarrow> fst (code l c i w d) = d)"
    "\<And>l. entry l \<or> final l \<Longrightarrow> \<not> holds l"
  shows "guarded_client code entry final holds"
proof -
  have "monitor_client code entry final holds" using assms by (intro monitor_clientI) auto
  then show ?thesis using assms(1) by (simp add: guarded_client_def guarded_client_axioms_def)
qed

end
