(* ===== verification/Monitor_Rule.thy ===== *)
theory Monitor_Rule
  imports Monitor
begin

text \<open>
  A proof rule for code that runs in a \<^verbatim>\<open>DAF::Monitor\<close>.  A client annotates its program
  points: \<open>asn None\<close> must hold whenever the mutex is free, \<open>asn (Some s)\<close> while the thread
  that holds it is in state \<open>s\<close>, over the data, the interrupted flag and the numbers of
  unsignalled and signalled sleepers; \<open>loc\<close> is what every thread knows of the data, which no
  step of another thread may spoil.
  The laws are sequential: each speaks about one program point.  The locale proves once that
  they give an invariant of every interleaving, with interrupts, time-outs and spurious
  wake-ups; each synchroniser of the library is an interpretation.
\<close>

section \<open>Restricted runs\<close>

text \<open>Runs in which every condition wait ends in one of the given ways.\<close>

fun wake_in :: "(wres \<Rightarrow> bool) \<Rightarrow> 'l event \<Rightarrow> bool" where
  "wake_in allowed (Wake t r) = allowed r"
| "wake_in allowed _ = True"

definition restrict_step :: "('e \<Rightarrow> bool) \<Rightarrow> ('s \<Rightarrow> 'e \<Rightarrow> 's option) \<Rightarrow> 's \<Rightarrow> 'e \<Rightarrow> 's option" where
  "restrict_step ok step s e = (if ok e then step s e else None)"

lemma restrict_step_Some: "restrict_step ok step s e = Some s' \<longleftrightarrow> ok e \<and> step s e = Some s'"
  by (simp add: restrict_step_def)

lemma wake_in_all: "wake_in (\<lambda>_. True) e"
  by (cases e) auto

lemma restrict_step_all: "restrict_step (wake_in (\<lambda>_. True)) step = step"
  by (intro ext) (simp add: restrict_step_def wake_in_all)

text \<open>The condition variable itself never ends a wait by an interrupt, so excluding that is no restriction.\<close>

lemma restrict_step_real:
  "restrict_step (wake_in (\<lambda>r. r \<noteq> W_interrupted)) (mon_step code entry final) = mon_step code entry final"
proof (intro ext)
  fix m e
  show "restrict_step (wake_in (\<lambda>r. r \<noteq> W_interrupted)) (mon_step code entry final) m e = mon_step code entry final m e"
    by (cases e) (auto simp: restrict_step_def mon_step_def split: tstate.splits)
qed

lemma run_restrict: "run (restrict_step ok step) s es = Some s' \<Longrightarrow> run step s es = Some s'"
  by (induction es arbitrary: s) (auto simp: restrict_step_def split: option.splits if_splits)

lemma run_restricted:
  "run step s es = Some s' \<Longrightarrow> \<forall>e \<in> set es. ok e \<Longrightarrow> run (restrict_step ok step) s es = Some s'"
  by (induction es arbitrary: s) (auto simp: restrict_step_def split: option.splits)

lemma reachable_restrict: "reachable (restrict_step ok step) s s' \<Longrightarrow> reachable step s s'"
  by (auto simp: reachable_def dest: run_restrict)

section \<open>Counting threads\<close>

text \<open>
  Some code counts threads at program points outside the mutex, as a ticket taken at a gate.
  The points are \<open>tagged\<close>, \<open>tags\<close> reads the counter in the data, and the law says that each step
  moves the counter with the thread.  There may be several kinds of tags.
\<close>

primrec next_tagged :: "('l \<Rightarrow> bool) \<Rightarrow> 'l act \<Rightarrow> bool" where
  "next_tagged tagged (Goto l) = tagged l"
| "next_tagged tagged (Lock l) = tagged l"
| "next_tagged tagged (Unlock l) = tagged l"
| "next_tagged tagged (Wait k) = False"
| "next_tagged tagged (Notify l) = tagged l"
| "next_tagged tagged (NotifyAll l) = tagged l"
| "next_tagged tagged Halt = False"

lemma next_tagged_none [simp]: "next_tagged (\<lambda>_. False) x = False"
  by (cases x) auto

fun tag_state :: "('l \<Rightarrow> bool) \<Rightarrow> 'l tstate \<Rightarrow> bool" where
  "tag_state tagged (Run l) = tagged l"
| "tag_state tagged _ = False"

definition tag_set :: "('l \<Rightarrow> bool) \<Rightarrow> ('d, 'l) mon \<Rightarrow> tid set" where
  "tag_set tagged m = {t. tag_state tagged (thr m t)}"

definition tag_inv :: "('l \<Rightarrow> bool) \<Rightarrow> ('d \<Rightarrow> nat) \<Rightarrow> ('d, 'l) mon \<Rightarrow> bool" where
  "tag_inv tagged tags m \<longleftrightarrow>
     finite (tag_set tagged m) \<and> card (tag_set tagged m) = tags (data m) \<and>
     (\<forall>t. resumes_held (\<lambda>l. \<not> tagged l) (thr m t))"

lemma tag_card:
  assumes "finite (tag_set tagged m)"
  shows "card (tag_set tagged m) = card (tag_set tagged m - {t}) + of_bool (tag_state tagged (thr m t))"
proof (cases "t \<in> tag_set tagged m")
  case True
  then show ?thesis using card.remove [OF assms True] by (simp add: tag_set_def)
next
  case False
  then show ?thesis by (simp add: tag_set_def)
qed

lemma tag_inv_move:
  assumes "tag_inv tagged tags m" "thr m' = (thr m)(t := s)" "resumes_held (\<lambda>l. \<not> tagged l) s"
    "tags (data m') + of_bool (tag_state tagged (thr m t)) = tags (data m) + of_bool (tag_state tagged s)"
  shows "tag_inv tagged tags m'"
proof -
  have fin: "finite (tag_set tagged m)" and card: "card (tag_set tagged m) = tags (data m)"
    using assms(1) by (auto simp: tag_inv_def)
  have out: "tag_set tagged m' - {t} = tag_set tagged m - {t}" using assms(2) by (auto simp: tag_set_def)
  then have fin': "finite (tag_set tagged m')" using fin by (metis finite_Diff2 finite.emptyI finite_insert)
  have "card (tag_set tagged m') = tags (data m')"
    using tag_card [OF fin, of t] tag_card [OF fin', of t] assms(2,4) card out by simp
  then show ?thesis using fin' assms(1-3) by (auto simp: tag_inv_def)
qed

lemma tag_pos:
  assumes "tag_inv tagged tags m" "thr m t = Run l" "tagged l"
  shows "0 < tags (data m)"
proof -
  have "t \<in> tag_set tagged m" using assms(2,3) by (simp add: tag_set_def)
  then show ?thesis using assms(1) card_gt_0_iff [of "tag_set tagged m"] by (auto simp: tag_inv_def)
qed

lemma tag_state_none [simp]: "tag_state (\<lambda>_. False) s = False"
  by (cases s) auto

lemma resumes_held_all [simp]: "resumes_held (\<lambda>_. True) s"
  by (cases s) auto

lemma tag_inv_none: "tag_inv (\<lambda>_. False) (\<lambda>_. 0) m"
  by (simp add: tag_inv_def tag_set_def)

lemma tag_inv_same: "tag_inv tagged tags m \<Longrightarrow> thr m' = thr m \<Longrightarrow> data m' = data m \<Longrightarrow> tag_inv tagged tags m'"
  by (simp add: tag_inv_def tag_set_def)

lemma signal_fields [simp]:
  "data (signal pick m) = data m" "mutex (signal pick m) = mutex m" "waiters (signal pick m) = waiters m"
  "interrupted (signal pick m) = interrupted m" "thr (signal pick m) = thr m"
  using signal_same [of m pick] by (auto simp: same_sleepers_def)

lemma broadcast_fields [simp]: "data (broadcast m) = data m" "thr (broadcast m) = thr m"
  by (simp_all add: broadcast_def)

locale counted_client = monitor_client +
  fixes tagged :: "nat \<Rightarrow> 'l \<Rightarrow> bool"
    and tags :: "nat \<Rightarrow> 'd \<Rightarrow> nat"
  assumes tag_law: "code l c i w d = (d', x) \<Longrightarrow> x \<noteq> Halt \<Longrightarrow> (\<And>j. tagged j l \<Longrightarrow> 0 < tags j d) \<Longrightarrow>
      tags j d' + of_bool (tagged j l) = tags j d + of_bool (next_tagged (tagged j) x)"
    and wait_untagged: "code l c i w d = (d', Wait k) \<Longrightarrow> \<not> tagged j (k r)"
    and idle_untagged: "entry l \<or> final l \<Longrightarrow> \<not> tagged j l"
begin

lemma run_tags:
  assumes "\<And>j. tag_inv (tagged j) (tags j) m" "thr m t = Run l" "run_code code t pick l m = Some m'"
  shows "tag_inv (tagged j) (tags j) m'"
proof -
  obtain d x where c: "code l pick (interrupted m) (waiters m) (data m) = (d, x)" by fastforce
  have pos: "\<And>j. tagged j l \<Longrightarrow> 0 < tags j (data m)" using tag_pos [OF assms(1,2)] .
  have x: "x \<noteq> Halt" using assms(3) c by (auto simp: run_code_def)
  have tags: "tags j d + of_bool (tagged j l) = tags j (data m) + of_bool (next_tagged (tagged j) x)"
    using tag_law [OF c x pos] .
  have shape: "thr m' = (thr m)(t := thr m' t)" "data m' = d" "tag_state (tagged j) (thr m' t) = next_tagged (tagged j) x"
    "resumes_held (\<lambda>l. \<not> tagged j l) (thr m' t)"
    using assms(3) c wait_untagged
    by (cases x; auto simp: run_code_def wait_test_def split: if_splits)+
  show ?thesis using assms(2) tags shape by (intro tag_inv_move [OF assms(1) shape(1)]) simp_all
qed

lemma step_tags:
  assumes "\<And>j. tag_inv (tagged j) (tags j) m" "mon_step code entry final m e = Some m'"
  shows "tag_inv (tagged j) (tags j) m'"
proof (cases "\<exists>t pick l. e = Step t pick \<and> thr m t = Run l")
  case True
  then show ?thesis using run_tags [OF assms(1)] assms(2) by (auto simp: mon_step_def thread_step_def)
next
  case False
  define t where "t = event_tid e"
  have idle: "\<not> tag_state (tagged j) s" if "is_idle final s" for s
    using that idle_untagged by (cases s) (auto simp: is_idle_def)
  have res: "resumes_held (\<lambda>l. \<not> tagged j l) (thr m t)" using assms(1) by (simp add: tag_inv_def)
  have "thr m' = (thr m)(t := thr m' t)" using step_other [OF assms(2)] by (auto simp: t_def)
  moreover have "data m' = data m" "resumes_held (\<lambda>l. \<not> tagged j l) (thr m' t)"
    "\<not> tag_state (tagged j) (thr m t)" "\<not> tag_state (tagged j) (thr m' t)"
    using False assms(2) res idle idle_untagged
    by (auto simp: mon_step_def thread_step_def mon_ops t_def split: event.splits tstate.splits if_splits nat.splits)
  ultimately show ?thesis by (intro tag_inv_move [OF assms(1), of m' t "thr m' t"]) auto
qed

end

section \<open>The rule\<close>

type_synonym ('d, 'l) assertion = "'l tstate option \<Rightarrow> 'd \<Rightarrow> bool \<Rightarrow> nat \<Rightarrow> nat \<Rightarrow> bool"

text \<open>What an action of the thread inside must establish.\<close>

primrec act_post ::
  "('d, 'l) assertion \<Rightarrow> ('l tstate \<Rightarrow> bool) \<Rightarrow> 'd \<Rightarrow> bool \<Rightarrow> nat \<Rightarrow> nat \<Rightarrow> 'l act \<Rightarrow> bool" where
  "act_post asn loc d i a n (Goto l) = (loc (Run l) \<and> asn (Some (Run l)) d i a n)"
| "act_post asn loc d i a n (Lock l) = True"
| "act_post asn loc d i a n (Unlock l) = (loc (Run l) \<and> asn None d i a n)"
| "act_post asn loc d i a n (Wait k) =
     (if i then loc (Run (k W_interrupted)) \<and> asn (Some (Run (k W_interrupted))) d i a n
      else loc (Entering k) \<and> asn (Some (Entering k)) d i a n)"
| "act_post asn loc d i a n (Notify l) =
     (loc (Run l) \<and> (if a = 0 then asn (Some (Run l)) d i 0 n else asn (Some (Run l)) d i (a - 1) (Suc n)))"
| "act_post asn loc d i a n (NotifyAll l) = (loc (Run l) \<and> asn (Some (Run l)) d i 0 (n + a))"
| "act_post asn loc d i a n Halt = True"

text \<open>What an action of a thread outside must establish: it must not disturb the others.\<close>

primrec act_outside ::
  "('d, 'l) assertion \<Rightarrow> ('l tstate \<Rightarrow> bool) \<Rightarrow> 'd \<Rightarrow> bool \<Rightarrow> 'd \<Rightarrow> 'l act \<Rightarrow> bool" where
  "act_outside asn loc d i d' (Goto l) =
     (loc (Run l) \<and> (\<forall>h a n. asn h d i a n \<longrightarrow> asn h d' i a n))"
| "act_outside asn loc d i d' (Lock l) =
     (loc (Run l) \<and> (\<forall>a n. asn None d i a n \<longrightarrow> asn (Some (Run l)) d' i a n))"
| "act_outside asn loc d i d' (Unlock l) = True"
| "act_outside asn loc d i d' (Wait k) = True"
| "act_outside asn loc d i d' (Notify l) = True"
| "act_outside asn loc d i d' (NotifyAll l) = True"
| "act_outside asn loc d i d' Halt = True"

fun interrupting :: "'l tstate \<Rightarrow> bool" where
  "interrupting (Removing j) = True"
| "interrupting (Broadcasting j) = True"
| "interrupting _ = False"

fun plain :: "'l tstate \<Rightarrow> bool" where
  "plain Interrupting = True"
| "plain (Removing j) = True"
| "plain (Broadcasting j) = True"
| "plain (Interrupted_rc rc) = True"
| "plain _ = False"

definition annotated ::
  "('l \<Rightarrow> bool) \<Rightarrow> ('d, 'l) assertion \<Rightarrow> ('d \<Rightarrow> bool \<Rightarrow> 'l tstate \<Rightarrow> bool) \<Rightarrow> ('d, 'l) mon \<Rightarrow> bool" where
  "annotated holds asn loc m \<longleftrightarrow>
     mon_inv holds m \<and> (\<forall>t. loc (data m) (interrupted m) (thr m t)) \<and>
     (\<forall>t. interrupting (thr m t) \<longrightarrow> interrupted m) \<and>
     asn (map_option (thr m) (mutex m)) (data m) (interrupted m) (length (asleep m)) (length (notified m))"

lemma annotatedD:
  assumes "annotated holds asn loc m"
  shows "mon_inv holds m" "loc (data m) (interrupted m) (thr m t)" "interrupting (thr m t) \<Longrightarrow> interrupted m"
    "asn (map_option (thr m) (mutex m)) (data m) (interrupted m) (length (asleep m)) (length (notified m))"
  using assms unfolding annotated_def by blast+

lemma annotated_move:
  assumes "annotated holds asn loc m" "mon_inv holds m'" "loc (data m') (interrupted m) s" "thr m' = (thr m)(t := s)"
    "interrupting s \<longrightarrow> interrupted m'" "interrupted m' = interrupted m"
    "asn (map_option (thr m') (mutex m')) (data m') (interrupted m') (length (asleep m')) (length (notified m'))"
    "\<And>u. u \<noteq> t \<Longrightarrow> loc (data m') (interrupted m) (thr m u)"
  shows "annotated holds asn loc m'"
  using assms unfolding annotated_def by auto

lemma annotated_move_same:
  assumes "annotated holds asn loc m" "mon_inv holds m'" "data m' = data m" "loc (data m) (interrupted m) s"
    "thr m' = (thr m)(t := s)" "interrupting s \<longrightarrow> interrupted m'" "interrupted m' = interrupted m"
    "asn (map_option (thr m') (mutex m')) (data m') (interrupted m') (length (asleep m')) (length (notified m'))"
  shows "annotated holds asn loc m'"
  using assms unfolding annotated_def by auto

text \<open>A thread that does not hold the mutex moves: the state of the holder is unchanged.\<close>

lemma holder_unchanged:
  assumes "mutex m \<noteq> Some t"
  shows "map_option ((thr m)(t := s)) (mutex m) = map_option (thr m) (mutex m)"
  using assms by (cases "mutex m") auto

lemma signal_lengths:
  "length (asleep (signal pick m)) = length (asleep m) - 1"
  "length (notified (signal pick m)) = (if asleep m = [] then length (notified m) else Suc (length (notified m)))"
  by (auto simp: signal_def Let_def length_remove1)

locale monitor_proof = counted_client +
  fixes asn :: "('d, 'l) assertion"
    and loc :: "'d \<Rightarrow> bool \<Rightarrow> 'l tstate \<Rightarrow> bool"
    and allowed :: "wres \<Rightarrow> bool"
  assumes inside_law: "holds l \<Longrightarrow> loc d i (Run l) \<Longrightarrow> (\<And>j. tagged j l \<Longrightarrow> 0 < tags j d) \<Longrightarrow> asn (Some (Run l)) d i a n \<Longrightarrow>
      code l c i (int a + int n) d = (d', x) \<Longrightarrow> act_post asn (loc d' i) d' i a n x"
    and apart_law: "\<not> holds l \<Longrightarrow> loc d i (Run l) \<Longrightarrow> (\<And>j. tagged j l \<Longrightarrow> 0 < tags j d) \<Longrightarrow> asn h d i a n \<Longrightarrow> code l c i w d = (d', x) \<Longrightarrow>
      act_outside asn (loc d' i) d i d' x"
    and stable_law: "holds l \<Longrightarrow> loc d i (Run l) \<Longrightarrow> (\<And>j. tagged j l \<Longrightarrow> 0 < tags j d) \<Longrightarrow> asn (Some (Run l)) d i a n \<Longrightarrow>
      code l c i (int a + int n) d = (d', x) \<Longrightarrow> \<not> in_cs holds s \<Longrightarrow> (sleeping s \<Longrightarrow> 0 < a + n) \<Longrightarrow> loc d i s \<Longrightarrow> loc d' i s"
    and stable_apart_law: "\<not> holds l \<Longrightarrow> loc d i (Run l) \<Longrightarrow> (\<And>j. tagged j l \<Longrightarrow> 0 < tags j d) \<Longrightarrow> asn h d i a n \<Longrightarrow> code l c i w d = (d', x) \<Longrightarrow>
      loc d i s \<Longrightarrow> loc d' i s"
    and sleep_law: "loc d i (Entering k) \<Longrightarrow> asn (Some (Entering k)) d i a n \<Longrightarrow> loc d i (Sleeping k) \<and> asn None d i (Suc a) n"
    and wake_law: "allowed r \<Longrightarrow> loc d i (Sleeping k) \<Longrightarrow> asn None d i (Suc a) n \<or> asn None d i a (Suc n) \<Longrightarrow>
      loc d i (Waking r k) \<and> asn (Some (Waking r k)) d i a n"
    and leave_law: "loc d i (Waking r k) \<Longrightarrow> asn (Some (Waking r k)) d i a n \<Longrightarrow>
      loc d i (Run (k (if i then W_interrupted else r))) \<and> asn (Some (Run (k (if i then W_interrupted else r)))) d i a n"
    and flag_law: "asn h d False a n \<Longrightarrow> asn h d True a n" "loc d False s \<Longrightarrow> loc d True s"
    and broadcast_law: "asn None d True a n \<Longrightarrow> asn None d True 0 (n + a)"
    and loc_law: "entry l \<Longrightarrow> loc d i (Run l)" "plain s \<Longrightarrow> loc d i s"
begin

lemma run_inside_annotated:
  assumes "annotated holds asn loc m" "thr m t = Run l" "mon_inv holds m'" "run_code code t pick l m = Some m'"
    "\<And>j. tag_inv (tagged j) (tags j) m" "holds l"
  shows "annotated holds asn loc m'"
proof -
  note inv = annotatedD(1) [OF assms(1)] and A = annotatedD(4) [OF assms(1)]
  have L: "loc (data m) (interrupted m) (Run l)" using annotatedD(2) [OF assms(1), of t] assms(2) by simp
  have pos: "\<And>j. tagged j l \<Longrightarrow> 0 < tags j (data m)" using tag_pos [OF assms(5,2)] .
  obtain d x where c: "code l pick (interrupted m) (waiters m) (data m) = (d, x)" by fastforce
  have tm: "mutex m = Some t" using mon_invD(1) [OF inv, of t] assms(2,6) by simp
  let ?a = "length (asleep m)" and ?n = "length (notified m)"
  have c': "code l pick (interrupted m) (int ?a + int ?n) (data m) = (d, x)"
    using c mon_waiters_exact [OF inv assms(2,6)] by simp
  have A': "asn (Some (Run l)) (data m) (interrupted m) ?a ?n" using A tm assms(2) by simp
  have post: "act_post asn (loc d (interrupted m)) d (interrupted m) ?a ?n x"
    by (rule inside_law [OF assms(6) L pos A' c'])
  have others: "loc d (interrupted m) (thr m u)" if "u \<noteq> t" for u
  proof (rule stable_law [OF assms(6) L pos A' c'])
    show "\<not> in_cs holds (thr m u)" using mon_invD(1) [OF inv, of u] tm that by simp
    show "sleeping (thr m u) \<Longrightarrow> 0 < ?a + ?n" using mon_invD(4) [OF inv, of u] by (cases "asleep m"; cases "notified m") auto
    show "loc (data m) (interrupted m) (thr m u)" by (rule annotatedD(2) [OF assms(1)])
  qed
  show ?thesis
  proof (cases x)
    case (Lock l')
    then show ?thesis using lock_law [of l] c assms(6) by blast
  next
    case (Notify l')
    then have m': "m' = signal pick (m\<lparr>data := d, thr := (thr m)(t := Run l')\<rparr>)"
      using assms(4) c by (simp add: run_code_def)
    show ?thesis
      using post Notify tm others
      by (intro annotated_move [OF assms(1,3), of "Run l'" t]) (auto simp: m' signal_lengths)
  qed (rule annotated_move [OF assms(1,3), of "thr m' t" t];
      use post others assms(4) c tm in \<open>auto simp: run_code_def wait_test_def broadcast_def split: if_splits\<close>)+
qed

lemma run_apart_annotated:
  assumes "annotated holds asn loc m" "thr m t = Run l" "mon_inv holds m'" "run_code code t pick l m = Some m'"
    "\<And>j. tag_inv (tagged j) (tags j) m" "\<not> holds l"
  shows "annotated holds asn loc m'"
proof -
  note inv = annotatedD(1) [OF assms(1)] and A = annotatedD(4) [OF assms(1)]
  have L: "loc (data m) (interrupted m) (Run l)" using annotatedD(2) [OF assms(1), of t] assms(2) by simp
  have pos: "\<And>j. tagged j l \<Longrightarrow> 0 < tags j (data m)" using tag_pos [OF assms(5,2)] .
  obtain d x where c: "code l pick (interrupted m) (waiters m) (data m) = (d, x)" by fastforce
  have tm: "mutex m \<noteq> Some t" using mon_invD(1) [OF inv, of t] assms(2,6) by simp
  have post: "act_outside asn (loc d (interrupted m)) (data m) (interrupted m) d x"
    by (rule apart_law [OF assms(6) L pos A c])
  have others: "loc d (interrupted m) (thr m u)" for u
    by (rule stable_apart_law [OF assms(6) L pos A c annotatedD(2) [OF assms(1)]])
  show ?thesis
  proof (cases x)
    case (Goto l')
    then show ?thesis
      using post assms(4) c A holder_unchanged [OF tm] others
      by (intro annotated_move [OF assms(1,3), of "Run l'" t]) (auto simp: run_code_def)
  next
    case (Lock l')
    then show ?thesis
      using post assms(4) c A others
      by (intro annotated_move [OF assms(1,3), of "Run l'" t]) (auto simp: run_code_def split: if_splits)
  qed (use assms(6) c unlock_law wait_law notify_law notify_all_law assms(4) in \<open>auto simp: run_code_def\<close>)
qed

lemma sleep_annotated:
  assumes "annotated holds asn loc m" "thr m t = Entering k"
  shows "annotated holds asn loc (wait_sleep t k m)"
proof -
  have "mutex m = Some t" using mon_invD(1) [OF annotatedD(1) [OF assms(1)], of t] assms(2) by simp
  then show ?thesis
    using sleep_law annotatedD(2) [OF assms(1), of t] annotatedD(4) [OF assms(1)] assms(2) mon_inv_sleep [OF annotatedD(1) [OF assms(1)]]
    by (intro annotated_move_same [OF assms(1), where s = "Sleeping k" and t = t]) (auto simp: wait_sleep_def)
qed

lemma wake_annotated:
  assumes "annotated holds asn loc m" "thr m t = Sleeping k" "mutex m = None" "allowed r"
  shows "annotated holds asn loc (wait_wake t r k m)"
proof -
  note inv = annotatedD(1) [OF assms(1)]
  let ?a = "length (remove1 t (asleep m))" and ?n = "length (remove1 t (notified m))"
  have "t \<in> set (asleep m) \<union> set (notified m)" "set (asleep m) \<inter> set (notified m) = {}"
    using mon_invD(3) [OF inv] mon_invD(4) [OF inv, of t] assms(2) by auto
  then consider "length (asleep m) = Suc ?a" "length (notified m) = ?n"
    | "length (asleep m) = ?a" "length (notified m) = Suc ?n"
    using remove1_length_less [of t "asleep m"] remove1_length_less [of t "notified m"]
    by (cases "t \<in> set (asleep m)"; cases "t \<in> set (notified m)") (auto simp: remove1_idem)
  then have "asn None (data m) (interrupted m) (Suc ?a) ?n \<or> asn None (data m) (interrupted m) ?a (Suc ?n)"
    using annotatedD(4) [OF assms(1)] assms(3) by cases auto
  then have "loc (data m) (interrupted m) (Waking r k) \<and> asn (Some (Waking r k)) (data m) (interrupted m) ?a ?n"
    using wake_law [OF assms(4)] annotatedD(2) [OF assms(1), of t] assms(2) by simp
  then show ?thesis
    using mon_inv_wake [OF inv assms(2,3)]
    by (intro annotated_move_same [OF assms(1), where s = "Waking r k" and t = t]) (auto simp: wait_wake_def)
qed

lemma leave_annotated:
  assumes "annotated holds asn loc m" "thr m t = Waking r k"
  shows "annotated holds asn loc (wait_leave t r k m)"
proof -
  have "mutex m = Some t" using mon_invD(1) [OF annotatedD(1) [OF assms(1)], of t] assms(2) by simp
  then show ?thesis
    using leave_law annotatedD(2) [OF assms(1), of t] annotatedD(4) [OF assms(1)] assms(2) mon_inv_leave [OF annotatedD(1) [OF assms(1)]]
    by (intro annotated_move_same [OF assms(1), where s = "thr (wait_leave t r k m) t" and t = t]) (auto simp: wait_leave_def)
qed

lemma interrupt_annotated:
  assumes "annotated holds asn loc m" "plain (thr m t)" "mon_inv holds m'" "thread_step code t pick m = Some m'"
  shows "annotated holds asn loc m'"
proof -
  have tm: "mutex m \<noteq> Some t"
    using mon_invD(1) [OF annotatedD(1) [OF assms(1)], of t] assms(2) by (cases "thr m t") auto
  note h = holder_unchanged [OF tm] and A = annotatedD(4) [OF assms(1)]
  have up: "asn x (data m) True a n" if "asn x (data m) (interrupted m) a n" for x a n
    using that flag_law(1) by (cases "interrupted m") auto
  have loc_up: "loc (data m) True (thr m u)" for u
    using annotatedD(2) [OF assms(1), of u] flag_law(2) by (cases "interrupted m") auto
  show ?thesis
  proof (cases "thr m t")
    case Interrupting
    then show ?thesis
      using assms(1,3,4) h up [OF A] loc_up loc_law(2)
      by (auto simp: annotated_def thread_step_def interrupt_start_def split: if_splits)
  next
    case (Removing j)
    then have "interrupted m" using annotatedD(3) [OF assms(1), of t] by simp
    then show ?thesis
      using assms(4) h A Removing loc_law(2)
      by (intro annotated_move_same [OF assms(1,3), of "thr m' t" t])
        (auto simp: thread_step_def interrupt_round_def split: if_splits nat.splits)
  next
    case (Broadcasting j)
    then have "interrupted m" using annotatedD(3) [OF assms(1), of t] by simp
    then show ?thesis
      using assms(4) h A Broadcasting loc_law(2) broadcast_law
      by (intro annotated_move_same [OF assms(1,3), of "thr m' t" t])
        (auto simp: thread_step_def broadcast_def split: if_splits)
  qed (use assms(2,4) in \<open>auto simp: thread_step_def\<close>)
qed

lemma thread_annotated:
  assumes "annotated holds asn loc m" "thread_step code t pick m = Some m'" "\<And>j. tag_inv (tagged j) (tags j) m"
  shows "annotated holds asn loc m'"
proof -
  have inv: "mon_inv holds m'" using thread_step_inv [OF annotatedD(1) [OF assms(1)] assms(2)] .
  show ?thesis
  proof (cases "thr m t")
    case (Run l)
    then have "run_code code t pick l m = Some m'" using assms(2) by (simp add: thread_step_def)
    then show ?thesis
      using run_inside_annotated [OF assms(1) Run inv _ assms(3)] run_apart_annotated [OF assms(1) Run inv _ assms(3)]
      by blast
  qed (use assms(1,2) sleep_annotated [OF assms(1)] leave_annotated [OF assms(1)]
      interrupt_annotated [OF assms(1) _ inv assms(2)] in \<open>auto simp: thread_step_def\<close>)
qed

lemma step_annotated:
  assumes "annotated holds asn loc m" "wake_in allowed e" "mon_step code entry final m e = Some m'"
    "\<And>j. tag_inv (tagged j) (tags j) m"
  shows "annotated holds asn loc m'"
proof -
  note inv' = annotatedD(1) [OF assms(1)]
  have inv: "mon_inv holds m'" using mon_step_inv [OF inv' assms(3)] .
  have idle: "annotated holds asn loc m'"
    if "is_idle final (thr m t)" "loc (data m) (interrupted m) s" "\<not> interrupting s" "m' = m\<lparr>thr := (thr m)(t := s)\<rparr>" for t s
  proof -
    have "mutex m \<noteq> Some t" using mon_invD(1) [OF inv', of t] is_idle_outside [OF that(1)] by simp
    then have "map_option ((thr m)(t := s)) (mutex m) = map_option (thr m) (mutex m)" by (rule holder_unchanged)
    then show ?thesis
      using that annotatedD(4) [OF assms(1)]
      by (intro annotated_move_same [OF assms(1) inv, of s t]) auto
  qed
  show ?thesis
  proof (cases e)
    case (Call t l)
    then show ?thesis
      using assms(3) idle [of t "Run l"] loc_law(1) by (auto simp: mon_step_def split: if_splits)
  next
    case (Interrupt t)
    then show ?thesis
      using assms(3) idle [of t Interrupting] loc_law(2)
      by (auto simp: mon_step_def split: if_splits)
  next
    case (Wake t r)
    then show ?thesis
      using assms wake_annotated by (auto simp: mon_step_def split: tstate.splits if_splits)
  next
    case (Step t pick)
    then show ?thesis using thread_annotated [OF assms(1) _ assms(4)] assms(3) by (simp add: mon_step_def)
  qed
qed

end

sublocale monitor_proof \<subseteq> proof_machine: event_invariant
  "restrict_step (wake_in allowed) (mon_step code entry final)"
  "\<lambda>m. annotated holds asn loc m \<and> (\<forall>j. tag_inv (tagged j) (tags j) m)"
  by unfold_locales (auto simp: restrict_step_Some intro: step_annotated step_tags)

context monitor_proof
begin

lemma reachable_proved:
  assumes "reachable (restrict_step (wake_in allowed) (mon_step code entry final)) (mon_init d0 l0) m"
    "final l0" "loc d0 False (Run l0)" "asn None d0 False 0 0" "\<And>j. tags j d0 = 0"
  shows "annotated holds asn loc m \<and> (\<forall>j. tag_inv (tagged j) (tags j) m)"
  using assms(1)
proof (rule proof_machine.reachable_inv [rotated])
  have "\<not> holds l0" "\<And>j. \<not> tagged j l0" using outside_law idle_untagged assms(2) by blast+
  then show "annotated holds asn loc (mon_init d0 l0) \<and> (\<forall>j. tag_inv (tagged j) (tags j) (mon_init d0 l0))"
    using mon_inv_init [of holds l0 d0] assms(3-5)
    by (simp add: annotated_def mon_init_def tag_inv_def tag_set_def)
qed

lemmas reachable_annotated = reachable_proved [THEN conjunct1]
lemmas reachable_tags = reachable_proved [THEN conjunct2]

end

end
