(* ===== verification/Monitor_History.thy ===== *)
theory Monitor_History
  imports Monitor_Rule
begin

text \<open>
  What a run has asked for.  \<open>last_call t es\<close> is the operation, with its arguments, that thread
  \<open>t\<close> called last in the events \<open>es\<close>.  A synchroniser says with \<open>of_call c l\<close> which program points
  belong to the call \<open>c\<close>; if every action of the code stays within its call, then so does every
  thread in every run.  Properties can thus speak of the arguments and the results of whole calls
  instead of the program points between them.
\<close>

fun note_call :: "tid \<Rightarrow> 'l event \<Rightarrow> 'l option \<Rightarrow> 'l option" where
  "note_call t (Call u l) c = (if u = t then Some l else c)"
| "note_call t e c = c"

definition last_call :: "tid \<Rightarrow> 'l event list \<Rightarrow> 'l option" where
  "last_call t es = fold (note_call t) es None"

lemma last_call_Nil [simp]: "last_call t [] = None"
  by (simp add: last_call_def)

lemma last_call_snoc: "last_call t (es @ [e]) = note_call t e (last_call t es)"
  by (simp add: last_call_def)

text \<open>The program points at which a thread runs or will run when its wait ends.\<close>

fun at_all :: "('l \<Rightarrow> bool) \<Rightarrow> 'l tstate \<Rightarrow> bool" where
  "at_all P (Run l) = P l"
| "at_all P s = resumes_held P s"

primrec next_all :: "('l \<Rightarrow> bool) \<Rightarrow> 'l act \<Rightarrow> bool" where
  "next_all P (Goto l) = P l"
| "next_all P (Lock l) = P l"
| "next_all P (Unlock l) = P l"
| "next_all P (Wait k) = (\<forall>r. P (k r))"
| "next_all P (Notify l) = P l"
| "next_all P (NotifyAll l) = P l"
| "next_all P Halt = True"

lemma run_snoc:
  assumes "run step s (es @ [e]) = Some s'"
  obtains s1 where "run step s es = Some s1" "step s1 e = Some s'"
  using assms by (auto simp: run_append split: option.splits)

locale call_history =
  fixes code :: "('d, 'l) code"
    and entry :: "'l \<Rightarrow> bool"
    and final :: "'l \<Rightarrow> bool"
    and idle :: 'l
    and of_call :: "'l \<Rightarrow> 'l \<Rightarrow> bool"
  assumes call_law: "entry l \<Longrightarrow> of_call l l"
    and next_law: "of_call q l \<Longrightarrow> code l c i w d = (d', x) \<Longrightarrow> next_all (of_call q) x"
    and idle_law: "code idle c i w d = (d', x) \<Longrightarrow> x = Halt"
begin

definition owned :: "'l option \<Rightarrow> 'l \<Rightarrow> bool" where
  "owned q l = (case q of None \<Rightarrow> l = idle | Some c \<Rightarrow> entry c \<and> of_call c l)"

lemma owned_next: "owned q l \<Longrightarrow> code l c i w d = (d', x) \<Longrightarrow> next_all (owned q) x"
  using next_law idle_law by (cases q; cases x) (fastforce simp: owned_def)+

lemma thread_owned:
  assumes "thread_step code t pick m = Some m'" "at_all (owned q) (thr m t)"
  shows "at_all (owned q) (thr m' t)"
proof (cases "thr m t")
  case (Run l)
  obtain d x where c: "code l pick (interrupted m) (waiters m) (data m) = (d, x)" by fastforce
  have "next_all (owned q) x" using owned_next [OF _ c] assms(2) Run by simp
  then show ?thesis
    using assms(1) Run c
    by (cases x) (auto simp: thread_step_def run_code_def wait_test_def split: if_splits)
qed (use assms in \<open>auto simp: thread_step_def mon_ops split: if_splits nat.splits\<close>)

lemma step_owned:
  assumes "mon_step code entry final m e = Some m'" "at_all (owned q) (thr m t)"
  shows "at_all (owned (note_call t e q)) (thr m' t)"
proof (cases "event_tid e = t")
  case True
  show ?thesis
  proof (cases e)
    case (Step u pick)
    then show ?thesis using thread_owned assms True by (simp add: mon_step_def)
  next
    case (Call u l)
    then show ?thesis using assms True call_law by (auto simp: mon_step_def owned_def split: if_splits)
  qed (use assms True in \<open>auto simp: mon_step_def wait_wake_def split: if_splits tstate.splits\<close>)
next
  case False
  then have "note_call t e q = q" by (cases e) auto
  then show ?thesis using step_other [OF assms(1)] assms(2) False by simp
qed

lemma run_owned:
  "run (mon_step code entry final) (mon_init d0 idle) es = Some m \<Longrightarrow> at_all (owned (last_call t es)) (thr m t)"
proof (induction es arbitrary: m rule: rev_induct)
  case Nil
  then show ?case by (auto simp: mon_init_def owned_def)
next
  case (snoc e es)
  then show ?case by (auto elim!: run_snoc simp: last_call_snoc intro: step_owned)
qed

text \<open>A thread that runs at a point other than the initial one is inside its last call.\<close>

lemma called:
  assumes "run (mon_step code entry final) (mon_init d0 idle) es = Some m" "thr m t = Run l" "l \<noteq> idle"
  shows "\<exists>c. last_call t es = Some c \<and> entry c \<and> of_call c l"
  using run_owned [OF assms(1), of t] assms(2,3) by (auto simp: owned_def split: option.splits)

lemma within_call:
  assumes "run (mon_step code entry final) (mon_init d0 idle) es = Some m" "last_call t es = Some c"
  shows "at_all (of_call c) (thr m t)"
  using run_owned [OF assms(1), of t] assms(2) by (cases "thr m t") (auto simp: owned_def)

end

end
