(* ===== verification/Count_Down_Semaphore.thy ===== *)
theory Count_Down_Semaphore
  imports Monitor_History
begin

text \<open>
  \<^verbatim>\<open>DAF::CountDownSemaphore\<close> (\<^verbatim>\<open>daf/CountDownSemaphore.h\<close>, \<^verbatim>\<open>.cpp\<close>), the one-shot barrier:
  \<open>acquire\<close> blocks until the count is zero, \<open>release\<close> counts down.  \<open>start_count\<close> and
  \<open>counted\<close> are history variables: the constructor's argument and the sum of the positive
  arguments of \<open>release\<close>.
\<close>

section \<open>Model\<close>

record cds =
  count :: int
  start_count :: int
  counted :: int

definition CountDownSemaphore_new :: "int \<Rightarrow> cds" where
  "CountDownSemaphore_new n = \<lparr>count = max 0 n, start_count = n, counted = 0\<rparr>"

text \<open>The loop of \<open>release\<close> under the mutex: the new count, and whether it reached zero.\<close>

function count_loop :: "int \<Rightarrow> int \<Rightarrow> int \<times> bool" where
  "count_loop n k = (if n > 0 then (if k - 1 = 0 then (0, True) else count_loop (n - 1) (k - 1)) else (k, False))"
  by auto
termination by (relation "measure (\<lambda>(n, k). nat n)") auto

declare count_loop.simps [simp del]

datatype cds_pc =
    CD_idle
  | CD_acquire
  | CD_while
  | CD_body
  | CD_woke wres
  | CD_failed errno
  | CD_release int
  | CD_count int
  | CD_broadcast
  | CD_return int
  | CD_throw daf_exception

fun CountDown_code :: "(cds, cds_pc) code" where
  "CountDown_code CD_acquire c intr w d = (d, Lock CD_while)"
| "CountDown_code CD_while c intr w d =
     (if intr \<or> count d > 0 then (d, Goto CD_body) else (d, Unlock (CD_return 0)))"
| "CountDown_code CD_body c intr w d = (if intr then (d, Goto (CD_failed EINTR)) else (d, Wait CD_woke))"
| "CountDown_code (CD_woke W_ok) c intr w d = (d, Goto CD_while)"
| "CountDown_code (CD_woke (W_error e)) c intr w d = (d, Goto (CD_failed e))"
| "CountDown_code (CD_woke W_interrupted) c intr w d = (d, Unlock (CD_throw InterruptedException))"
| "CountDown_code (CD_failed e) c intr w d =
     (if e = EINTR then (d, Unlock (CD_throw InterruptedException))
      else if e = ETIME \<and> 0 \<ge> count d then (d, Goto CD_while)
      else (d, Unlock (CD_return (- 1))))"
| "CountDown_code (CD_release n) c intr w d = (d, Lock (CD_count n))"
| "CountDown_code (CD_count n) c intr w d =
     (let d' = d\<lparr>counted := counted d + max 0 n\<rparr> in
      if count d > 0 then
        (case count_loop n (count d) of
           (k, True) \<Rightarrow> (d'\<lparr>count := k\<rparr>, NotifyAll CD_broadcast)
         | (k, False) \<Rightarrow> (d'\<lparr>count := k\<rparr>, Unlock (CD_return 0)))
      else (d', Unlock (CD_return 0)))"
| "CountDown_code CD_broadcast c intr w d = (d, Unlock (CD_return 0))"
| "CountDown_code _ c intr w d = (d, Halt)"

fun cds_entry :: "cds_pc \<Rightarrow> bool" where
  "cds_entry CD_acquire = True"
| "cds_entry (CD_release n) = True"
| "cds_entry _ = False"

fun cds_final :: "cds_pc \<Rightarrow> bool" where
  "cds_final CD_idle = True"
| "cds_final (CD_return r) = True"
| "cds_final (CD_throw e) = True"
| "cds_final _ = False"

fun cds_holds :: "cds_pc \<Rightarrow> bool" where
  "cds_holds CD_while = True"
| "cds_holds CD_body = True"
| "cds_holds (CD_woke r) = True"
| "cds_holds (CD_failed e) = True"
| "cds_holds (CD_count n) = True"
| "cds_holds CD_broadcast = True"
| "cds_holds _ = False"

definition cds_step :: "(cds, cds_pc) mon \<Rightarrow> cds_pc event \<Rightarrow> (cds, cds_pc) mon option" where
  "cds_step = mon_step CountDown_code cds_entry cds_final"

definition cds_start :: "int \<Rightarrow> (cds, cds_pc) mon" where
  "cds_start n = mon_init (CountDownSemaphore_new n) CD_idle"

section \<open>Lemmas\<close>

text \<open>The loop stops at zero: it never takes a positive count below.\<close>

lemma count_loop_eq: "k > 0 \<Longrightarrow> count_loop n k = (if n \<ge> k then (0, True) else (k - max 0 n, False))"
proof (induction n k rule: count_loop.induct)
  case (1 n k)
  then show ?case by (subst count_loop.simps) auto
qed

interpretation count_down: guarded_client CountDown_code cds_entry cds_final cds_holds
proof (rule guarded_clientI)
  show "act_ok cds_holds l (snd (CountDown_code l c i w d)) \<and>
      (\<not> cds_holds l \<longrightarrow> fst (CountDown_code l c i w d) = d)" for l c i w d
    by (induction l c i w d rule: CountDown_code.induct) (auto simp: Let_def count_loop_eq)
  show "\<not> cds_holds l" if "cds_entry l \<or> cds_final l" for l
    using that by (cases l) auto
qed

text \<open>
  The count is what is left of the start, a thread decides to wait only while it is
  positive, and nobody is left asleep at zero.
\<close>

fun cds_asn :: "(cds, cds_pc) assertion" where
  "cds_asn h d i a n \<longleftrightarrow>
     0 \<le> counted d \<and> count d = max 0 (start_count d - counted d) \<and>
     (h = Some (Run CD_body) \<longrightarrow> i \<or> 0 < count d) \<and>
     ((\<exists>k. h = Some (Entering k)) \<longrightarrow> 0 < count d) \<and> (0 < a \<longrightarrow> 0 < count d)"

fun cds_loc :: "bool \<Rightarrow> cds_pc tstate \<Rightarrow> bool" where
  "cds_loc i (Entering k) = (k = CD_woke)"
| "cds_loc i (Sleeping k) = (k = CD_woke)"
| "cds_loc i (Waking r k) = (k = CD_woke)"
| "cds_loc i _ = True"

lemma cds_loc_flag: "cds_loc i s = cds_loc j s"
  by (cases "(i, s)" rule: cds_loc.cases) auto

interpretation count_rule:
  monitor_proof CountDown_code cds_entry cds_final cds_holds "\<lambda>_ _. False" "\<lambda>_ _. 0" cds_asn "\<lambda>_. cds_loc" "\<lambda>_. True"
proof
  fix l c i a n d d' x
  assume h: "cds_holds l" "cds_loc i (Run l)" "cds_asn (Some (Run l)) d i a n"
    and c: "CountDown_code l c i (int a + int n) d = (d', x)"
  show "act_post cds_asn (cds_loc i) d' i a n x"
  proof (cases l)
    case (CD_woke r)
    then show ?thesis using h c by (cases r) auto
  next
    case (CD_count m)
    then show ?thesis using h c by (auto simp: Let_def count_loop_eq split: if_splits)
  qed (use h c in \<open>auto split: if_splits\<close>)
next
  fix l c i w d d' x h a n
  assume "\<not> cds_holds l" "cds_loc i (Run l)" "cds_asn h d i a n" "CountDown_code l c i w d = (d', x)"
  then show "act_outside cds_asn (cds_loc i) d i d' x" by (cases l) (auto split: if_splits)
qed (auto simp: cds_loc_flag [of False _ True] elim: cds_entry.elims plain.elims)

lemma cds_reachable: "reachable cds_step (cds_start n) m \<Longrightarrow> annotated cds_holds cds_asn (\<lambda>_. cds_loc) m"
  using count_rule.reachable_annotated [of "CountDownSemaphore_new n" CD_idle m]
  by (simp add: restrict_step_all cds_step_def cds_start_def CountDownSemaphore_new_def)

lemma cds_start_count: "reachable cds_step (cds_start n) m \<Longrightarrow> start_count (data m) = n"
  unfolding cds_step_def cds_start_def
proof (erule count_down.reachable_data)
  show "start_count (fst (CountDown_code l c i w d)) = n" if "start_count d = n" for l c i w d
    using that by (induction l c i w d rule: CountDown_code.induct) (auto simp: Let_def count_loop_eq)
qed (simp_all add: CountDownSemaphore_new_def)

lemma sleeper_passes:
  assumes "thr m t = Sleeping CD_woke" "mutex m = None" "\<not> interrupted m" "count (data m) = 0"
  shows "run cds_step m [Wake t W_ok, Step t 0, Step t 0, Step t 0] =
    Some (m\<lparr>waiters := waiters m - 1, asleep := remove1 t (asleep m), notified := remove1 t (notified m),
            thr := (thr m)(t := Run (CD_return 0))\<rparr>)"
  using assms
  by (simp add: cds_step_def mon_step_def wait_wake_def thread_step_def wait_leave_def run_code_def)

text \<open>The program points of each operation.\<close>

fun cds_of :: "cds_pc \<Rightarrow> cds_pc \<Rightarrow> bool" where
  "cds_of (CD_release n) l = (l \<in> {CD_release n, CD_count n, CD_broadcast, CD_return 0})"
| "cds_of q l = (case l of CD_idle \<Rightarrow> False | CD_release n \<Rightarrow> False | CD_count n \<Rightarrow> False | CD_broadcast \<Rightarrow> False | _ \<Rightarrow> True)"

interpretation cds_history: call_history CountDown_code cds_entry cds_final CD_idle cds_of
proof
  show "cds_of l l" if "cds_entry l" for l using that by (cases l) auto
  show "next_all (cds_of q) x" if "cds_of q l" "CountDown_code l c i w d = (d', x)" for q l c i w d d' x
  proof (cases l)
    case (CD_woke r)
    then show ?thesis using that by (cases q; cases r) auto
  next
    case (CD_count n)
    then show ?thesis using that by (cases q) (auto simp: Let_def count_loop_eq split: if_splits)
  qed (use that in \<open>cases q; auto split: if_splits\<close>)+
qed simp

lemma acquire_returns:
  assumes "run cds_step (cds_start n) es = Some m" "last_call t es = Some CD_acquire" "cds_step m (Step t pick) = Some m'"
    "thr m' t = Run (CD_return r)"
  shows "count (data m) = 0 \<and> r = 0 \<or> r = - 1"
proof -
  note ok = cds_reachable [OF reachableI [OF assms(1)]]
  have q: "at_all (cds_of CD_acquire) (thr m t)"
    by (rule cds_history.within_call [OF assms(1) [unfolded cds_step_def cds_start_def] assms(2)])
  have c: "0 \<le> count (data m)" using annotatedD(4) [OF ok] by auto
  have s: "thread_step CountDown_code t pick m = Some m'" using assms(3) by (simp add: cds_step_def mon_step_def)
  show ?thesis
  proof (cases "thr m t")
    case (Run l)
    show ?thesis
    proof (cases l)
      case (CD_woke x)
      then show ?thesis
        using s Run assms(4) by (cases x) (auto simp: thread_step_def run_code_def wait_test_def)
    qed (use q c s Run assms(4) in \<open>auto simp: thread_step_def run_code_def wait_test_def split: if_splits\<close>)
  next
    case (Waking x k)
    then show ?thesis
      using annotatedD(2) [OF ok, of t] s assms(4) by (auto simp: thread_step_def wait_leave_def)
  qed (use s assms(4) in \<open>auto simp: thread_step_def mon_ops split: if_splits nat.splits\<close>)
qed

lemma cds_count_falls:
  assumes "reachable cds_step (cds_start n) m" "cds_step m e = Some m'"
  shows "count (data m') \<le> count (data m)"
proof (rule step_data [OF assms(2) [unfolded cds_step_def]])
  fix t l c
  assume d: "data m' = fst (CountDown_code l c (interrupted m) (waiters m) (data m))"
  have "0 \<le> count (data m)" using annotatedD(4) [OF cds_reachable [OF assms(1)]] by auto
  then show ?thesis
    unfolding d by (induction l c "interrupted m" "waiters m" "data m" rule: CountDown_code.induct)
      (auto simp: Let_def count_loop_eq)
qed simp

section \<open>Properties\<close>

text \<open>
  Claim C12.  In every interleaving, with time-outs, spurious wake-ups, failing waits and
  interrupts, the count of a \<open>CountDownSemaphore\<close> is the constructor's argument less the
  released amount, cut off at zero, so it never goes negative, and it never rises.  A call of
  \<open>acquire\<close>, timed or not, that returns a number returns 0 or -1, and 0 only in a step that finds the count at
  zero, by whatever path through its code.  Once it is zero nobody sleeps unsignalled, and, unless interrupted,
  every thread that is still in a wait gets out of \<open>acquire\<close> with 0 by steps of its own.
\<close>

theorem count_down_correct:
  assumes "run cds_step (cds_start n) es = Some m"
  shows "count (data m) = max 0 (n - counted (data m)) \<and>
    (\<forall>e m'. cds_step m e = Some m' \<longrightarrow> count (data m') \<le> count (data m)) \<and>
    (\<forall>t pick m' r. last_call t es = Some CD_acquire \<and> cds_step m (Step t pick) = Some m' \<and>
       thr m' t = Run (CD_return r) \<longrightarrow> count (data m) = 0 \<and> r = 0 \<or> r = - 1) \<and>
    (count (data m) = 0 \<longrightarrow> asleep m = []) \<and>
    (count (data m) = 0 \<and> \<not> interrupted m \<and> mutex m = None \<longrightarrow>
       (\<forall>t. sleeping (thr m t) \<longrightarrow>
          (\<exists>m'. run cds_step m [Wake t W_ok, Step t 0, Step t 0, Step t 0] = Some m' \<and> thr m' t = Run (CD_return 0))))"
proof -
  note re = reachableI [OF assms]
  note ok = cds_reachable [OF re] and n = cds_start_count [OF re]
  have c: "count (data m) = max 0 (n - counted (data m))" "0 < length (asleep m) \<longrightarrow> 0 < count (data m)"
    using annotatedD(4) [OF ok] n by auto
  have "\<exists>m'. run cds_step m [Wake t W_ok, Step t 0, Step t 0, Step t 0] = Some m' \<and> thr m' t = Run (CD_return 0)"
    if "count (data m) = 0" "\<not> interrupted m" "mutex m = None" "sleeping (thr m t)" for t
  proof -
    have "thr m t = Sleeping CD_woke" using annotatedD(2) [OF ok, of t] that(4) by (cases "thr m t") auto
    from sleeper_passes [OF this that(3,2,1)] show ?thesis by (intro exI conjI, assumption) simp
  qed
  then show ?thesis
    using c acquire_returns [OF assms] cds_count_falls [OF re] by (intro conjI allI impI; (elim conjE)?) auto
qed

definition cds_two_waiters :: "cds_pc event list" where
  "cds_two_waiters =
     [Call 0 CD_acquire, Step 0 0, Step 0 0, Step 0 0, Step 0 0,
      Call 1 CD_acquire, Step 1 0, Step 1 0, Step 1 0, Step 1 0,
      Call 2 (CD_release 1), Step 2 0, Step 2 0,
      Call 2 (CD_release 5), Step 2 0, Step 2 0, Step 2 0]"

theorem count_down_correct_witness:
  "\<exists>m'. run cds_step (the (run cds_step (cds_start 2) cds_two_waiters)) [Wake 1 W_ok, Step 1 0, Step 1 0, Step 1 0] = Some m' \<and>
     thr m' 1 = Run (CD_return 0)"
proof -
  let ?m = "the (run cds_step (cds_start 2) cds_two_waiters)"
  have r: "run cds_step (cds_start 2) cds_two_waiters \<noteq> None" and i: "\<not> interrupted ?m"
    and x: "mutex ?m = None" and z: "count (data ?m) = 0" and s: "sleeping (thr ?m 1)"
    by code_simp+
  have r': "run cds_step (cds_start 2) cds_two_waiters = Some ?m" using r by simp
  show ?thesis using count_down_correct [OF r'] i x z s by blast
qed

end
