(* ===== verification/Semaphore.thy ===== *)
theory Semaphore
  imports Monitor_Rule
begin

text \<open>
  \<^verbatim>\<open>DAF::Semaphore\<close> (\<^verbatim>\<open>daf/Semaphore.h\<close>, \<^verbatim>\<open>daf/Semaphore.cpp\<close>), the counting
  semaphore that prefers waiting threads, as code of a monitor, with every program point
  at which another thread can intervene.  The data are the permit count and three history
  variables that no code reads: the seed and the numbers of permits taken and given.

  A timed \<open>acquire\<close> differs only in that its wait may end with \<open>ETIME\<close>; the model lets
  every wait end so.  The mutex is always acquired in the end and a signal always
  succeeds, so \<open>LockFailureException\<close> and a failing \<open>release\<close> do not occur.
\<close>

section \<open>Model\<close>

record sem =
  permits :: int
  seed :: int
  granted :: nat
  freed :: nat

definition Semaphore_new :: "int \<Rightarrow> sem" where
  "Semaphore_new n = \<lparr>permits = n, seed = n, granted = 0, freed = 0\<rparr>"

definition take_permit :: "sem \<Rightarrow> sem" where
  "take_permit d = d\<lparr>permits := permits d - 1, granted := Suc (granted d)\<rparr>"

definition give_permit :: "sem \<Rightarrow> sem" where
  "give_permit d = d\<lparr>permits := permits d + 1, freed := Suc (freed d)\<rparr>"

datatype sem_pc =
    S_idle
  | A_test
  | A_lock
  | A_decide
  | A_woke wres
  | A_failed errno
  | R_test int
  | R_lock int
  | R_loop int
  | Returned int
  | Thrown daf_exception

fun Semaphore_code :: "(sem, sem_pc) code" where
  "Semaphore_code A_test c intr w d =
     (if intr then (d, Goto (Thrown InterruptedException)) else (d, Goto A_lock))"
| "Semaphore_code A_lock c intr w d = (d, Lock A_decide)"
| "Semaphore_code A_decide c intr w d =
     (if permits d > w then (take_permit d, Unlock (Returned 0)) else (d, Wait A_woke))"
| "Semaphore_code (A_woke W_interrupted) c intr w d = (d, Unlock (Thrown InterruptedException))"
| "Semaphore_code (A_woke (W_error e)) c intr w d = (d, Goto (A_failed e))"
| "Semaphore_code (A_woke W_ok) c intr w d =
     (if permits d > 0 then (take_permit d, Unlock (Returned 0)) else (d, Unlock A_test))"
| "Semaphore_code (A_failed e) c intr w d =
     (let err = (if intr then EINTR else e) in
      if err = EINTR then (d, Unlock A_test)
      else if err = ETIME \<and> permits d > 0 then (take_permit d, Unlock (Returned 0))
      else (d, Unlock (Returned (- 1))))"
| "Semaphore_code (R_test n) c intr w d = (if n > 0 then (d, Goto (R_lock n)) else (d, Goto (Returned 0)))"
| "Semaphore_code (R_lock n) c intr w d = (d, Lock (R_loop n))"
| "Semaphore_code (R_loop n) c intr w d =
     (if n > 0 then (give_permit d, Notify (R_loop (n - 1))) else (d, Unlock (Returned 0)))"
| "Semaphore_code _ c intr w d = (d, Halt)"

fun sem_entry :: "sem_pc \<Rightarrow> bool" where
  "sem_entry A_test = True"
| "sem_entry (R_test n) = True"
| "sem_entry _ = False"

fun sem_final :: "sem_pc \<Rightarrow> bool" where
  "sem_final S_idle = True"
| "sem_final (Returned r) = True"
| "sem_final (Thrown e) = True"
| "sem_final _ = False"

fun sem_holds :: "sem_pc \<Rightarrow> bool" where
  "sem_holds A_decide = True"
| "sem_holds (A_woke r) = True"
| "sem_holds (A_failed e) = True"
| "sem_holds (R_loop n) = True"
| "sem_holds _ = False"

definition sem_step :: "(sem, sem_pc) mon \<Rightarrow> sem_pc event \<Rightarrow> (sem, sem_pc) mon option" where
  "sem_step = mon_step Semaphore_code sem_entry sem_final"

definition sem_start :: "int \<Rightarrow> (sem, sem_pc) mon" where
  "sem_start n = mon_init (Semaphore_new n) S_idle"

interpretation semaphore: guarded_client Semaphore_code sem_entry sem_final sem_holds
proof (rule guarded_clientI)
  show "act_ok sem_holds l (snd (Semaphore_code l c i w d)) \<and>
      (\<not> sem_holds l \<longrightarrow> fst (Semaphore_code l c i w d) = d)" for l c i w d
    by (induction l c i w d rule: Semaphore_code.induct) (auto simp: Let_def)
  show "\<not> sem_holds l" if "sem_entry l \<or> sem_final l" for l
    using that by (cases l) auto
qed

section \<open>Conservation of permits\<close>

definition sem_balanced :: "sem \<Rightarrow> bool" where
  "sem_balanced d \<longleftrightarrow> permits d = seed d + int (freed d) - int (granted d) \<and> min (seed d) 0 \<le> permits d"

lemma code_balanced:
  assumes "sem_balanced d" "0 \<le> w"
  shows "sem_balanced (fst (Semaphore_code l c i w d)) \<and> seed (fst (Semaphore_code l c i w d)) = seed d"
  using assms
  by (induction l c i w d rule: Semaphore_code.induct)
    (auto simp: sem_balanced_def take_permit_def give_permit_def Let_def)

section \<open>No permit is overlooked\<close>

text \<open>
  A thread that has been signalled, or whose wait has ended, has a claim until it has looked
  at the permits.  While threads sleep there are at most as many permits as claims.
\<close>

definition wait_ends :: "wres \<Rightarrow> bool" where
  "wait_ends r \<longleftrightarrow> r = W_ok \<or> r = W_error ETIME"

fun claim :: "sem_pc tstate option \<Rightarrow> int" where
  "claim (Some (Waking r k)) = 1"
| "claim (Some (Run (A_woke r))) = 1"
| "claim (Some (Run (A_failed e))) = 1"
| "claim _ = 0"

fun sem_loc :: "bool \<Rightarrow> sem_pc tstate \<Rightarrow> bool" where
  "sem_loc i (Entering k) = (k = A_woke)"
| "sem_loc i (Sleeping k) = (k = A_woke)"
| "sem_loc i (Waking r k) = (k = A_woke \<and> wait_ends r)"
| "sem_loc i (Run (A_woke r)) = (wait_ends r \<or> r = W_interrupted)"
| "sem_loc i (Run (A_failed e)) = (e = ETIME)"
| "sem_loc i _ = True"

fun at_test :: "sem_pc tstate option \<Rightarrow> bool" where
  "at_test (Some (Entering k)) = True"
| "at_test _ = False"

fun sem_asn :: "(sem, sem_pc) assertion" where
  "sem_asn h d i a n \<longleftrightarrow> i \<or>
     h \<noteq> Some (Run (A_woke W_interrupted)) \<and>
     (at_test h \<longrightarrow> permits d \<le> int a + int n) \<and> (0 < a \<longrightarrow> permits d \<le> int n + claim h)"

lemma sem_loc_flag: "sem_loc i s = sem_loc j s"
  by (cases "(i, s)" rule: sem_loc.cases) auto

interpretation permits_rule: monitor_proof Semaphore_code sem_entry sem_final sem_holds "\<lambda>_ _. False" "\<lambda>_ _. 0" sem_asn "\<lambda>_. sem_loc" wait_ends
proof
  fix l c i a n d d' x
  assume h: "sem_holds l" "sem_loc i (Run l)" "sem_asn (Some (Run l)) d i a n"
    and c: "Semaphore_code l c i (int a + int n) d = (d', x)"
  show "act_post sem_asn (sem_loc i) d' i a n x"
  proof (cases l)
    case (A_woke r)
    then show ?thesis using h c by (cases r) (auto simp: wait_ends_def take_permit_def split: if_splits)
  next
    case (A_failed e)
    then show ?thesis using h c by (auto simp: Let_def take_permit_def split: if_splits)
  qed (use h c in \<open>auto simp: take_permit_def give_permit_def wait_ends_def split: if_splits\<close>)
next
  fix l c i w d d' x h a n
  assume "\<not> sem_holds l" "sem_loc i (Run l)" "sem_asn h d i a n" "Semaphore_code l c i w d = (d', x)"
  then show "act_outside sem_asn (sem_loc i) d i d' x" by (cases l) (auto split: if_splits)
qed (auto simp: wait_ends_def simp: sem_loc_flag [of False _ True] elim: sem_entry.elims plain.elims)

text \<open>Runs in which every condition wait ends with a signal, spuriously or at its deadline.\<close>

definition usual_step :: "(sem, sem_pc) mon \<Rightarrow> sem_pc event \<Rightarrow> (sem, sem_pc) mon option" where
  "usual_step = restrict_step (wake_in wait_ends) sem_step"

lemma usual_reachable_ok: "reachable usual_step (sem_start n) m \<Longrightarrow> annotated sem_holds sem_asn (\<lambda>_. sem_loc) m"
  unfolding usual_step_def sem_step_def sem_start_def by (rule permits_rule.reachable_annotated) auto

text \<open>A sleeper that runs while there is a permit gets it, without another wait.\<close>

lemma sleeper_acquires:
  assumes "thr m t = Sleeping A_woke" "mutex m = None" "\<not> interrupted m" "0 < permits (data m)"
  shows "run sem_step m [Wake t W_ok, Step t 0, Step t 0] =
    Some (m\<lparr>data := take_permit (data m), waiters := waiters m - 1, asleep := remove1 t (asleep m),
            notified := remove1 t (notified m), thr := (thr m)(t := Run (Returned 0))\<rparr>)"
  using assms
  by (simp add: sem_step_def mon_step_def wait_wake_def thread_step_def wait_leave_def run_code_def)

text \<open>
  Threads that will not wake a sleeper: those inside \<open>acquire\<close> or outside every call.  Without a
  \<open>release\<close>, an \<open>interrupt\<close> or an end of its own wait a sleeper stays where it is.
\<close>

fun harmless_pc :: "sem_pc \<Rightarrow> bool" where
  "harmless_pc (R_test n) = False"
| "harmless_pc (R_lock n) = False"
| "harmless_pc (R_loop n) = False"
| "harmless_pc l = True"

fun harmless :: "sem_pc tstate \<Rightarrow> bool" where
  "harmless (Run l) = harmless_pc l"
| "harmless (Interrupted_rc r) = True"
| "harmless (Entering k) = (\<forall>r. harmless_pc (k r))"
| "harmless (Sleeping k) = (\<forall>r. harmless_pc (k r))"
| "harmless (Waking r k) = (\<forall>r. harmless_pc (k r))"
| "harmless _ = False"

fun leaves_asleep :: "tid \<Rightarrow> sem_pc event \<Rightarrow> bool" where
  "leaves_asleep t (Interrupt u) = False"
| "leaves_asleep t (Call u l) = harmless_pc l"
| "leaves_asleep t (Wake u r) = (u \<noteq> t)"
| "leaves_asleep t (Step u pick) = True"

definition left_behind :: "tid \<Rightarrow> (sem, sem_pc) mon \<Rightarrow> bool" where
  "left_behind t m \<longleftrightarrow>
     interrupted m \<and> thr m t = Sleeping A_woke \<and> t \<in> set (asleep m) \<and> (\<forall>u. harmless (thr m u))"

lemma harmless_code:
  assumes "harmless_pc l" "Semaphore_code l c i w d = (d', x)"
  shows "(\<forall>l'. x \<noteq> Notify l') \<and> (\<forall>l'. x \<noteq> NotifyAll l') \<and>
    (\<forall>l'. x = Goto l' \<or> x = Lock l' \<or> x = Unlock l' \<longrightarrow> harmless_pc l') \<and> (\<forall>k r. x = Wait k \<longrightarrow> harmless_pc (k r))"
  using assms by (induction l c i w d rule: Semaphore_code.induct) (auto simp: Let_def split: if_splits)

lemma left_behind_run:
  assumes "left_behind t m" "thr m u = Run l" "run_code Semaphore_code u pick l m = Some m'"
  shows "left_behind t m'"
proof -
  have l: "harmless_pc l" and u: "u \<noteq> t" using assms(1,2) by (auto simp: left_behind_def dest: spec [of _ u])
  obtain d x where c: "Semaphore_code l pick (interrupted m) (waiters m) (data m) = (d, x)" by fastforce
  note k = harmless_code [OF l c]
  show ?thesis
    using assms(1,3) c k u by (cases x) (auto simp: left_behind_def run_code_def wait_test_def split: if_splits)
qed

lemma left_behind_step:
  assumes "left_behind t m" "leaves_asleep t e" "sem_step m e = Some m'"
  shows "left_behind t m'"
proof (cases "\<exists>u pick l. e = Step u pick \<and> thr m u = Run l")
  case True
  then show ?thesis using left_behind_run [OF assms(1)] assms(3) by (auto simp: sem_step_def mon_step_def thread_step_def)
next
  case False
  have h: "harmless (thr m (event_tid e))" using assms(1) by (simp add: left_behind_def)
  then show ?thesis
    using assms False
    by (cases e; cases "thr m (event_tid e)")
      (auto simp: sem_step_def mon_step_def thread_step_def mon_ops left_behind_def is_idle_def in_set_remove1 split: if_splits)
qed

interpretation behind: event_invariant "restrict_step (leaves_asleep t) sem_step" "left_behind t" for t
  by unfold_locales (auto simp: restrict_step_Some intro: left_behind_step)

lemma left_behind_forever:
  assumes "left_behind t m" "run sem_step m es = Some m'" "\<forall>e \<in> set es. leaves_asleep t e"
  shows "left_behind t m'"
  using behind.run_inv [OF assms(1) run_restricted [OF assms(2,3)]] .

lemma left_behind_stuck:
  assumes "left_behind t m"
  shows "sem_step m (Step t pick) = None"
    "thr m u = Run A_test \<Longrightarrow> sem_step m (Step u pick) = Some m' \<Longrightarrow> thr m' u = Run (Thrown InterruptedException)"
  using assms by (auto simp: left_behind_def sem_step_def mon_step_def thread_step_def run_code_def)

section \<open>Properties\<close>

text \<open>
  Claim C11.  Conservation of permits.  Whatever threads do with a semaphore that starts with
  \<open>n\<close> permits, in whatever interleaving, with time-outs, spurious wake-ups, failing waits and
  interrupts: the permit count is \<open>n\<close> plus the permits released minus the permits handed
  out, and a count that starts non-negative never falls below zero.
\<close>

theorem semaphore_conservation:
  assumes "reachable sem_step (sem_start n) m"
  shows "permits (data m) = n + int (freed (data m)) - int (granted (data m)) \<and> min n 0 \<le> permits (data m)"
proof -
  have "sem_balanced (data m) \<and> seed (data m) = n"
    using assms unfolding sem_step_def sem_start_def
    by (rule semaphore.reachable_data) (auto simp: code_balanced, auto simp: sem_balanced_def Semaphore_new_def)
  then show ?thesis by (auto simp: sem_balanced_def)
qed

definition sem_two_takers :: "sem_pc event list" where
  "sem_two_takers =
     [Call 0 A_test, Step 0 0, Step 0 0, Step 0 0,
      Call 1 A_test, Step 1 0, Step 1 0, Step 1 0, Step 1 0,
      Call 0 (R_test 2), Step 0 0, Step 0 0, Step 0 0, Step 0 0, Step 0 0]"

theorem semaphore_conservation_witness:
  "permits (data (the (run sem_step (sem_start 1) sem_two_takers))) = 2 \<and>
   freed (data (the (run sem_step (sem_start 1) sem_two_takers))) = 2 \<and>
   granted (data (the (run sem_step (sem_start 1) sem_two_takers))) = 1 \<and>
   min 1 0 \<le> permits (data (the (run sem_step (sem_start 1) sem_two_takers)))"
proof -
  have r: "run sem_step (sem_start 1) sem_two_takers \<noteq> None"
    and f: "freed (data (the (run sem_step (sem_start 1) sem_two_takers))) = 2"
    and g: "granted (data (the (run sem_step (sem_start 1) sem_two_takers))) = 1"
    by code_simp+
  show ?thesis using semaphore_conservation [OF reachable_run [OF r]] f g by simp
qed

text \<open>
  Claim C1.  No lost wake-up.  Take any run in which condition waits end by a signal,
  spuriously or at their deadline, and a state of it in which nobody holds the mutex, the
  semaphore is not interrupted and some thread sleeps.  Every permit is then already promised:
  there are at most as many permits as threads that have been signalled and have not yet run.
  So if there is a permit, some signalled thread exists, and three steps of it
  alone make its \<open>acquire\<close> return 0 with the permit.
\<close>

theorem semaphore_no_lost_wakeup:
  assumes "reachable usual_step (sem_start n) m" "\<not> interrupted m" "mutex m = None" "asleep m \<noteq> []"
  shows "permits (data m) \<le> int (length (notified m)) \<and>
    (0 < permits (data m) \<longrightarrow>
       (\<exists>t \<in> set (notified m). \<exists>m'. run sem_step m [Wake t W_ok, Step t 0, Step t 0] = Some m' \<and>
          thr m' t = Run (Returned 0) \<and> permits (data m') = permits (data m) - 1 \<and> mutex m' = None))"
proof -
  note ok = usual_reachable_ok [OF assms(1)]
  have le: "permits (data m) \<le> int (length (notified m))" using annotatedD(4) [OF ok] assms(2-4) by simp
  have "\<exists>t \<in> set (notified m). \<exists>m'. run sem_step m [Wake t W_ok, Step t 0, Step t 0] = Some m' \<and>
      thr m' t = Run (Returned 0) \<and> permits (data m') = permits (data m) - 1 \<and> mutex m' = None"
    if p: "0 < permits (data m)"
  proof -
    obtain t where t: "t \<in> set (notified m)" using le p by (cases "notified m") auto
    then have "sleeping (thr m t)" using mon_invD(4) [OF annotatedD(1) [OF ok], of t] by simp
    then have "thr m t = Sleeping A_woke" using annotatedD(2) [OF ok, of t] by (cases "thr m t") auto
    then have "run sem_step m [Wake t W_ok, Step t 0, Step t 0] =
        Some (m\<lparr>data := take_permit (data m), waiters := waiters m - 1, asleep := remove1 t (asleep m),
          notified := remove1 t (notified m), thr := (thr m)(t := Run (Returned 0))\<rparr>)"
      by (rule sleeper_acquires [OF _ assms(3,2) p])
    then show ?thesis by (intro bexI [OF _ t] exI conjI, assumption) (auto simp: take_permit_def assms(3))
  qed
  then show ?thesis using le by blast
qed

definition sem_sleepers :: "sem_pc event list" where
  "sem_sleepers =
     [Call 0 A_test, Step 0 0, Step 0 0, Step 0 0, Step 0 0,
      Call 1 A_test, Step 1 0, Step 1 0, Step 1 0, Step 1 0,
      Call 2 (R_test 1), Step 2 0, Step 2 0, Step 2 0, Step 2 0]"

theorem semaphore_no_lost_wakeup_witness:
  "\<exists>t m'. run sem_step (the (run usual_step (sem_start 0) sem_sleepers)) [Wake t W_ok, Step t 0, Step t 0] = Some m' \<and>
     thr m' t = Run (Returned 0) \<and> permits (data m') = 0"
proof -
  let ?m = "the (run usual_step (sem_start 0) sem_sleepers)"
  have r: "run usual_step (sem_start 0) sem_sleepers \<noteq> None" and i: "\<not> interrupted ?m"
    and x: "mutex ?m = None" and a: "asleep ?m \<noteq> []" and p: "permits (data ?m) = 1"
    by code_simp+
  show ?thesis using semaphore_no_lost_wakeup [OF reachable_run [OF r] i x a] p by auto
qed

text \<open>
  Waiters are preferred.  A thread that finds the mutex free and takes a permit
  without waiting leaves at least one permit for every thread that is already waiting,
  asleep or signalled; and no two threads are ever inside the critical sections together.
\<close>

theorem semaphore_prefers_waiters:
  assumes "reachable sem_step (sem_start n) m" "thr m t = Run A_decide"
    "sem_step m (Step t pick) = Some m'" "thr m' t = Run (Returned 0)"
  shows "int (length (asleep m') + length (notified m')) \<le> permits (data m') \<and>
    (\<forall>u l. u \<noteq> t \<longrightarrow> thr m u = Run l \<longrightarrow> \<not> sem_holds l)"
proof -
  have inv: "mon_inv sem_holds m"
    by (rule semaphore.mon_reachable_inv [OF _ assms(1) [unfolded sem_step_def sem_start_def]]) simp
  have "waiters m = int (length (asleep m) + length (notified m))"
    using semaphore.mon_waiters_exact [OF inv assms(2)] by simp
  moreover have "waiters m < permits (data m)" "m' = m\<lparr>data := take_permit (data m), mutex := None,
      thr := (thr m)(t := Run (Returned 0))\<rparr>"
    using assms(2-4)
    by (auto simp: sem_step_def mon_step_def thread_step_def run_code_def wait_test_def split: if_splits)
  moreover have "\<not> sem_holds l" if "u \<noteq> t" "thr m u = Run l" for u l
    using semaphore.mon_exclusion [OF inv assms(2) that(2)] that(1) by auto
  ultimately show ?thesis by (auto simp: take_permit_def)
qed

definition sem_newcomer :: "sem_pc event list" where
  "sem_newcomer = sem_sleepers @
     [Call 2 (R_test 5), Step 2 0, Step 2 0, Step 2 0, Step 2 0, Step 2 0, Step 2 0, Step 2 0, Step 2 0,
      Call 3 A_test, Step 3 0, Step 3 0]"

theorem semaphore_prefers_waiters_witness:
  "\<exists>m'. sem_step (the (run sem_step (sem_start 0) sem_newcomer)) (Step 3 0) = Some m' \<and>
     int (length (asleep m') + length (notified m')) \<le> permits (data m') \<and> length (notified m') = 2"
proof -
  let ?m = "the (run sem_step (sem_start 0) sem_newcomer)"
  let ?m' = "the (sem_step ?m (Step 3 0))"
  have r: "run sem_step (sem_start 0) sem_newcomer \<noteq> None" and t: "running (thr ?m 3) = Some A_decide"
    and s: "sem_step ?m (Step 3 0) \<noteq> None" and d: "running (thr ?m' 3) = Some (Returned 0)"
    and n: "length (notified ?m') = 2"
    by code_simp+
  have s': "sem_step ?m (Step 3 0) = Some ?m'" using s by simp
  show ?thesis using semaphore_prefers_waiters [OF reachable_run [OF r] t [unfolded running_Some] s' d [unfolded running_Some]] s' n by blast
qed

text \<open>
  Claim C15.  An interrupt can miss a waiter.  Whenever a thread has passed the test of the flag at the head of \<open>wait\<close>
  and is not asleep yet, while no other thread waits, releases or interrupts, an \<open>interrupt\<close> by any idle thread can return 0
  first: it sets the flag and reads the waiter count, without the mutex, before the waiter is counted.
  The waiter then goes to sleep unsignalled.  However the program goes on, with any calls of \<open>acquire\<close>, as long as nobody
  calls \<open>release\<close> or \<open>interrupt\<close> again and its own wait does not end by
  itself, it sleeps, unsignalled and without a step, while every \<open>acquire\<close> that starts meanwhile throws.
\<close>

theorem semaphore_interrupt_race:
  assumes "thr m t = Entering A_woke" "waiters m = 0" "\<not> interrupted m" "is_idle sem_final (thr m u)"
    "\<forall>v. harmless (thr m v)"
  shows "\<exists>m1. run sem_step m [Interrupt u, Step u 0, Step u 0, Step t 0] = Some m1 \<and>
    thr m1 u = Interrupted_rc 0 \<and> interrupted m1 \<and> thr m1 t = Sleeping A_woke \<and>
    (\<forall>es m2. run sem_step m1 es = Some m2 \<and> (\<forall>e \<in> set es. leaves_asleep t e) \<longrightarrow>
       thr m2 t = Sleeping A_woke \<and> t \<in> set (asleep m2) \<and> (\<forall>pick. sem_step m2 (Step t pick) = None) \<and>
       (\<forall>v pick m3. thr m2 v = Run A_test \<and> sem_step m2 (Step v pick) = Some m3 \<longrightarrow>
          thr m3 v = Run (Thrown InterruptedException)))"
proof -
  let ?m1 = "m\<lparr>interrupted := True, waiters := 1, asleep := asleep m @ [t], mutex := None,
    thr := (thr m)(u := Interrupted_rc 0, t := Sleeping A_woke)\<rparr>"
  have ut: "u \<noteq> t" using assms(1,4) by (auto simp: is_idle_def)
  have r: "run sem_step m [Interrupt u, Step u 0, Step u 0, Step t 0] = Some ?m1"
    using assms ut
    by (simp add: sem_step_def mon_step_def thread_step_def interrupt_start_def interrupt_round_def wait_sleep_def
        numeral_3_eq_3)
  have b: "left_behind t ?m1" using assms(5) by (simp add: left_behind_def)
  have f: "thr m2 t = Sleeping A_woke \<and> t \<in> set (asleep m2) \<and> (\<forall>pick. sem_step m2 (Step t pick) = None) \<and>
      (\<forall>v pick m3. thr m2 v = Run A_test \<and> sem_step m2 (Step v pick) = Some m3 \<longrightarrow>
         thr m3 v = Run (Thrown InterruptedException))"
    if "run sem_step ?m1 es = Some m2" "\<forall>e \<in> set es. leaves_asleep t e" for es m2
  proof -
    have b2: "left_behind t m2" by (rule left_behind_forever [OF b that])
    then show ?thesis using left_behind_stuck [OF b2] by (auto simp: left_behind_def)
  qed
  show ?thesis using r f ut by (intro exI [of _ ?m1]) auto
qed

definition sem_about_to_sleep :: "sem_pc event list" where
  "sem_about_to_sleep = [Call 0 A_test, Step 0 0, Step 0 0, Step 0 0]"

definition sem_latecomer :: "sem_pc event list" where
  "sem_latecomer = [Call 2 A_test, Step 2 0, Call 1 A_test, Step 1 0]"

theorem semaphore_interrupt_race_witness:
  "\<exists>m m1 m2. run sem_step (sem_start 0) sem_about_to_sleep = Some m \<and>
     run sem_step m [Interrupt 1, Step 1 0, Step 1 0, Step 0 0] = Some m1 \<and> thr m1 1 = Interrupted_rc 0 \<and>
     run sem_step m1 sem_latecomer = Some m2 \<and> 0 \<in> set (asleep m2) \<and> (\<forall>pick. sem_step m2 (Step 0 pick) = None)"
proof -
  let ?m = "(sem_start 0)\<lparr>mutex := Some 0, thr := (\<lambda>_. Run S_idle)(0 := Entering A_woke)\<rparr>"
  have r: "run sem_step (sem_start 0) sem_about_to_sleep = Some ?m"
    by (simp add: sem_about_to_sleep_def sem_step_def sem_start_def mon_init_def mon_step_def is_idle_def thread_step_def
        run_code_def wait_test_def Semaphore_new_def)
  have h: "thr ?m 0 = Entering A_woke" "waiters ?m = 0" "\<not> interrupted ?m" "is_idle sem_final (thr ?m 1)"
    "\<forall>v. harmless (thr ?m v)"
    by (simp_all add: sem_start_def mon_init_def is_idle_def)
  obtain m1 where m1: "run sem_step ?m [Interrupt 1, Step 1 0, Step 1 0, Step 0 0] = Some m1" "thr m1 1 = Interrupted_rc 0"
    and f: "\<And>es m2. run sem_step m1 es = Some m2 \<Longrightarrow> \<forall>e \<in> set es. leaves_asleep 0 e \<Longrightarrow>
      0 \<in> set (asleep m2) \<and> (\<forall>pick. sem_step m2 (Step 0 pick) = None)"
    using semaphore_interrupt_race [OF h] by blast
  have "run sem_step (the (run sem_step (the (run sem_step (sem_start 0) sem_about_to_sleep))
      [Interrupt 1, Step 1 0, Step 1 0, Step 0 0])) sem_latecomer \<noteq> None"
    by code_simp
  then have "run sem_step m1 sem_latecomer \<noteq> None" unfolding r option.sel m1(1) .
  then obtain m2 where m2: "run sem_step m1 sem_latecomer = Some m2" by blast
  show ?thesis using r m1 m2 f [OF m2] by (auto simp: sem_latecomer_def)
qed

end
