(* ===== verification/Gate.thy ===== *)
theory Gate
  imports Semaphore Monitor_History
begin

text \<open>
  A semaphore as the other synchronisers use it.  \<open>Barrier\<close>, \<open>Rendezvous\<close> and the channels keep
  private \<^verbatim>\<open>DAF::Semaphore\<close> members; their models use these through the abstract counting
  semaphore of this theory, whose \<open>acquire\<close> is one blocking step and whose \<open>release\<close> is one step.  \<open>semaphore_refines_gate\<close>
  shows that the interleaved code of \<^verbatim>\<open>Semaphore.cpp\<close> implements it.
\<close>

section \<open>Abstract semaphore\<close>

text \<open>\<open>None\<close>: the caller has to wait.\<close>

definition gate_acquire :: "int \<Rightarrow> int option" where
  "gate_acquire p = (if p > 0 then Some (p - 1) else None)"

definition gate_release :: "int \<Rightarrow> int \<Rightarrow> int" where
  "gate_release n p = (if n > 0 then p + n else p)"

lemma gate_acquire_Some: "gate_acquire p = Some q \<longleftrightarrow> 0 < p \<and> q = p - 1"
  by (auto simp: gate_acquire_def)

lemma gate_release_acquire: "0 \<le> p \<Longrightarrow> 0 < n \<Longrightarrow> gate_acquire (gate_release n p) = Some (p + n - 1)"
  by (simp add: gate_acquire_def gate_release_def)

lemma gate_release_add: "0 \<le> j \<Longrightarrow> 0 \<le> k \<Longrightarrow> gate_release j (gate_release k p) = gate_release (j + k) p"
  by (simp add: gate_release_def)

section \<open>Unsigned counters\<close>

definition size_dec :: "nat \<Rightarrow> nat" where
  "size_dec x = (if x = 0 then 18446744073709551615 else x - 1)"

lemma size_dec_pos [simp]: "0 < x \<Longrightarrow> size_dec x = x - 1"
  by (simp add: size_dec_def)

section \<open>Specification\<close>

text \<open>
  A semaphore with its callers: the permits, whether it has been interrupted, and for every thread
  which call it executes or how its last one ended.  The steps say what a caller may rely on.
  \<open>acquire\<close> takes a permit in one step and returns 0; it blocks while there is none; it may give up, with -1 and
  without a permit; it throws only after an interrupt.  \<open>release(n)\<close> adds its \<open>n\<close> permits in one step and returns 0.
  Everything else leaves the permits alone.
\<close>

datatype gate_call =
    G_idle
  | G_acquiring
  | G_releasing int
  | G_given
  | G_interrupting
  | G_returned int
  | G_interrupted int
  | G_thrown daf_exception

record gate =
  gvalue :: int
  gstopped :: bool
  caller :: "tid \<Rightarrow> gate_call"

fun gate_idle :: "gate_call \<Rightarrow> bool" where
  "gate_idle G_idle = True"
| "gate_idle (G_returned r) = True"
| "gate_idle (G_interrupted r) = True"
| "gate_idle (G_thrown e) = True"
| "gate_idle _ = False"

definition goes :: "gate \<Rightarrow> tid \<Rightarrow> gate_call \<Rightarrow> gate" where
  "goes g t c = g\<lparr>caller := (caller g)(t := c)\<rparr>"

inductive gate_step :: "gate \<Rightarrow> tid \<Rightarrow> gate \<Rightarrow> bool" where
  internal: "gate_step g t g"
| call_acquire: "gate_idle (caller g t) \<Longrightarrow> gate_step g t (goes g t G_acquiring)"
| call_release: "gate_idle (caller g t) \<Longrightarrow> gate_step g t (goes g t (G_releasing n))"
| call_interrupt: "gate_idle (caller g t) \<Longrightarrow> gate_step g t (goes g t G_interrupting)"
| acquired: "caller g t = G_acquiring \<Longrightarrow> gate_acquire (gvalue g) = Some v \<Longrightarrow>
    gate_step g t ((goes g t (G_returned 0))\<lparr>gvalue := v\<rparr>)"
| gives_up: "caller g t = G_acquiring \<Longrightarrow> gate_step g t (goes g t (G_returned (- 1)))"
| throws: "caller g t = G_acquiring \<Longrightarrow> gstopped g \<Longrightarrow> gate_step g t (goes g t (G_thrown InterruptedException))"
| gives: "caller g t = G_releasing n \<Longrightarrow> gate_step g t ((goes g t G_given)\<lparr>gvalue := gate_release n (gvalue g)\<rparr>)"
| gives_nothing: "caller g t = G_releasing n \<Longrightarrow> n \<le> 0 \<Longrightarrow> gate_step g t (goes g t (G_returned 0))"
| released: "caller g t = G_given \<Longrightarrow> gate_step g t (goes g t (G_returned 0))"
| interrupts: "caller g t = G_interrupting \<Longrightarrow> gate_step g t (g\<lparr>gstopped := True\<rparr>)"
| interrupt_ends: "caller g t = G_interrupting \<Longrightarrow> gate_step g t (goes g t (G_interrupted r))"

definition gate_start :: "int \<Rightarrow> gate" where
  "gate_start n = \<lparr>gvalue = n, gstopped = False, caller = (\<lambda>_. G_idle)\<rparr>"

section \<open>Refinement\<close>

text \<open>
  A \<open>release\<close> that has the mutex has given all its permits: those that its loop still has to add are
  pending, and nobody can look at the count before.
\<close>

fun gate_pc :: "sem_pc \<Rightarrow> gate_call" where
  "gate_pc S_idle = G_idle"
| "gate_pc (R_test n) = G_releasing n"
| "gate_pc (R_lock n) = G_releasing n"
| "gate_pc (R_loop n) = G_given"
| "gate_pc (Returned r) = G_returned r"
| "gate_pc (Thrown e) = G_thrown e"
| "gate_pc _ = G_acquiring"

fun gate_thread :: "sem_pc tstate \<Rightarrow> gate_call" where
  "gate_thread (Run l) = gate_pc l"
| "gate_thread (Interrupted_rc r) = G_interrupted r"
| "gate_thread Interrupting = G_interrupting"
| "gate_thread (Removing j) = G_interrupting"
| "gate_thread (Broadcasting j) = G_interrupting"
| "gate_thread _ = G_acquiring"

fun pending :: "sem_pc tstate option \<Rightarrow> int" where
  "pending (Some (Run (R_loop n))) = max 0 n"
| "pending _ = 0"

definition gate_view :: "(sem, sem_pc) mon \<Rightarrow> gate" where
  "gate_view m =
     \<lparr>gvalue = permits (data m) + pending (map_option (thr m) (mutex m)), gstopped = interrupted m,
      caller = (\<lambda>t. gate_thread (thr m t))\<rparr>"

lemma gate_view_sel [simp]:
  "gvalue (gate_view m) = permits (data m) + pending (map_option (thr m) (mutex m))"
  "gstopped (gate_view m) = interrupted m" "caller (gate_view m) t = gate_thread (thr m t)"
  by (simp_all add: gate_view_def)

text \<open>Where threads wait, and why they throw.\<close>

fun acquire_loc :: "bool \<Rightarrow> sem_pc tstate \<Rightarrow> bool" where
  "acquire_loc i (Entering k) = (k = A_woke)"
| "acquire_loc i (Sleeping k) = (k = A_woke)"
| "acquire_loc i (Waking r k) = (k = A_woke \<and> r \<noteq> W_interrupted)"
| "acquire_loc i (Run (A_woke r)) = (r = W_interrupted \<longrightarrow> i)"
| "acquire_loc i _ = True"

interpretation acquire_waits: monitor_proof Semaphore_code sem_entry sem_final sem_holds "\<lambda>_ _. False" "\<lambda>_ _. 0"
  "\<lambda>h d i a n. True" "\<lambda>_. acquire_loc" "\<lambda>r. r \<noteq> W_interrupted"
proof
  fix l c i a n d d' x
  assume h: "sem_holds l" "acquire_loc i (Run l)" and c: "Semaphore_code l c i (int a + int n) d = (d', x)"
  show "act_post (\<lambda>h d i a n. True) (acquire_loc i) d' i a n x"
  proof (cases l)
    case (A_woke r)
    then show ?thesis using h c by (cases r) (auto split: if_splits)
  qed (use h c in \<open>auto simp: Let_def split: if_splits\<close>)
next
  fix l c i w d d' x h a n
  assume "\<not> sem_holds l" "Semaphore_code l c i w d = (d', x)"
  then show "act_outside (\<lambda>h d i a n. True) (acquire_loc i) d i d' x" by (cases l) (auto split: if_splits)
next
  show "acquire_loc True s" if "acquire_loc False s" for s
    using that by (cases "(False, s)" rule: acquire_loc.cases) auto
qed (auto elim: sem_entry.elims plain.elims)

lemma sem_reachable_waits:
  assumes "reachable sem_step (sem_start n) m"
  shows "annotated sem_holds (\<lambda>h d i a n. True) (\<lambda>_. acquire_loc) m"
  using acquire_waits.reachable_annotated [of "Semaphore_new n" S_idle m] assms
  by (simp add: restrict_step_real sem_step_def sem_start_def)

text \<open>A step of the code as a step of the view.\<close>

lemma gate_viewI:
  assumes "thr m' = (thr m)(t := s)" "interrupted m' = interrupted m" "gate_thread s = c"
    "permits (data m') + pending (map_option (thr m') (mutex m')) = v"
  shows "gate_view m' = (goes (gate_view m) t c)\<lparr>gvalue := v\<rparr>"
  using assms by (auto simp: gate_view_def goes_def)

lemma gate_view_goes:
  assumes "thr m' = (thr m)(t := s)" "interrupted m' = interrupted m" "gate_thread s = c"
    "permits (data m') + pending (map_option (thr m') (mutex m')) = permits (data m) + pending (map_option (thr m) (mutex m))"
  shows "gate_view m' = goes (gate_view m) t c"
  using assms by (auto simp: gate_view_def goes_def)

lemma goes_same [simp]: "caller g t = c \<Longrightarrow> goes g t c = g"
  by (auto simp: goes_def)

lemma view_internal:
  assumes "thr m' = (thr m)(t := s)" "interrupted m' = interrupted m" "gate_thread s = gate_thread (thr m t)"
    "permits (data m') + pending (map_option (thr m') (mutex m')) = permits (data m) + pending (map_option (thr m) (mutex m))"
  shows "gate_step (gate_view m) t (gate_view m')"
  using gate_view_goes [OF assms(1,2,3,4)] by (simp add: gate_step.internal)

lemma acquired_view:
  assumes "mutex m = Some t" "thr m t = Run l" "gate_pc l = G_acquiring" "0 < permits (data m)"
    "m' = m\<lparr>data := take_permit (data m), mutex := None, thr := (thr m)(t := Run (Returned 0))\<rparr>"
  shows "gate_step (gate_view m) t (gate_view m')"
proof -
  have p: "pending (Some (Run l)) = 0" using assms(3) by (cases l) auto
  have "gate_view m' = (goes (gate_view m) t (G_returned 0))\<lparr>gvalue := permits (data m) - 1\<rparr>"
    using assms(5) by (intro gate_viewI [where s = "Run (Returned 0)"]) (auto simp: take_permit_def)
  then show ?thesis
    using gate_step.acquired [of "gate_view m" t "permits (data m) - 1"] assms(1-4) p by (simp add: gate_acquire_def)
qed

lemma inside_view:
  assumes "mutex m = Some t" "thr m t = Run l" "acquire_loc (interrupted m) (Run l)" "sem_holds l"
    "run_code Semaphore_code t pick l m = Some m'" "0 \<le> waiters m"
  shows "gate_step (gate_view m) t (gate_view m')"
proof -
  note took = acquired_view [OF assms(1,2)]
  have left: "gate_step (gate_view m) t (gate_view m')"
    if "m' = m\<lparr>mutex := None, thr := (thr m)(t := Run l')\<rparr>" "gate_step (gate_view m) t (goes (gate_view m) t (gate_pc l'))"
      "pending (Some (Run l)) = 0" for l'
    using that assms(1,2) gate_view_goes [of m' m t "Run l'" "gate_pc l'"] by simp
  have stays: "gate_step (gate_view m) t (gate_view m')"
    if "thr m' = (thr m)(t := s)" "interrupted m' = interrupted m" "gate_thread s = gate_pc l" "mutex m' = Some t"
      "permits (data m') + pending (Some s) = permits (data m) + pending (Some (Run l))" for s
    using that assms(1,2) by (intro view_internal [of _ _ _ s]) simp_all
  show ?thesis
  proof (cases l)
    case A_decide
    then show ?thesis
      using assms took stays [of "thr m' t"] by (auto simp: run_code_def wait_test_def split: if_splits)
  next
    case (A_woke r)
    then show ?thesis
      using assms took left gate_step.throws [of "gate_view m" t] stays [of "Run (A_failed e)" for e] 
        gate_step.internal [of "gate_view m" t]
      by (cases r) (auto simp: run_code_def split: if_splits)
  next
    case (A_failed e)
    then show ?thesis
      using assms took left gate_step.gives_up [of "gate_view m" t] gate_step.internal [of "gate_view m" t]
      by (auto simp: run_code_def Let_def split: if_splits)
  next
    case (R_loop n)
    then show ?thesis
      using assms left gate_step.released [of "gate_view m" t] stays [of "Run (R_loop (n - 1))"]
      by (auto simp: run_code_def give_permit_def split: if_splits)
  qed (use assms in auto)
qed

lemma outside_view:
  assumes "mutex m \<noteq> Some t" "thr m t = Run l" "\<not> sem_holds l" "run_code Semaphore_code t pick l m = Some m'"
  shows "gate_step (gate_view m) t (gate_view m')"
proof -
  note h = holder_unchanged [OF assms(1)]
  have left: "gate_step (gate_view m) t (gate_view m')"
    if "m' = m\<lparr>thr := (thr m)(t := Run l')\<rparr>" "gate_step (gate_view m) t (goes (gate_view m) t (gate_pc l'))" for l'
    using that h gate_view_goes [of m' m t "Run l'" "gate_pc l'"] by simp
  show ?thesis
  proof (cases l)
    case A_test
    then show ?thesis
      using assms left gate_step.throws [of "gate_view m" t] gate_step.internal [of "gate_view m" t]
      by (auto simp: run_code_def split: if_splits)
  next
    case A_lock
    then show ?thesis
      using assms by (intro view_internal [of _ _ _ "Run A_decide"]) (auto simp: run_code_def split: if_splits)
  next
    case (R_test n)
    then show ?thesis
      using assms left gate_step.gives_nothing [of "gate_view m" t n] gate_step.internal [of "gate_view m" t]
      by (auto simp: run_code_def split: if_splits)
  next
    case (R_lock n)
    then have "mutex m = None" "m' = m\<lparr>mutex := Some t, thr := (thr m)(t := Run (R_loop n))\<rparr>"
      using assms by (auto simp: run_code_def split: if_splits)
    then have "gate_view m' = (goes (gate_view m) t G_given)\<lparr>gvalue := gate_release n (gvalue (gate_view m))\<rparr>"
      by (intro gate_viewI [where s = "Run (R_loop n)"]) (auto simp: gate_release_def)
    then show ?thesis using gate_step.gives [of "gate_view m" t n] assms(2) R_lock by simp
  qed (use assms in \<open>auto simp: run_code_def\<close>)
qed

lemma interrupt_view:
  assumes "mutex m \<noteq> Some t" "plain (thr m t)" "thread_step Semaphore_code t pick m = Some m'"
    "interrupting (thr m t) \<Longrightarrow> interrupted m"
  shows "gate_step (gate_view m) t (gate_view m')"
proof -
  note h = holder_unchanged [OF assms(1)]
  have ends: "gate_step (gate_view m) t (gate_view m')"
    if "m' = m\<lparr>thr := (thr m)(t := Interrupted_rc r)\<rparr>" "gate_thread (thr m t) = G_interrupting" for r
    using that h gate_step.interrupt_ends [of "gate_view m" t r] gate_view_goes [of m' m t "Interrupted_rc r" "G_interrupted r"]
    by simp
  have stays: "gate_step (gate_view m) t (gate_view m')"
    if "thr m' = (thr m)(t := s)" "interrupted m' = interrupted m" "gate_thread s = gate_thread (thr m t)"
      "mutex m' = mutex m" "data m' = data m" for s
    using that h by (intro view_internal [of _ _ _ s]) simp_all
  show ?thesis
  proof (cases "thr m t")
    case Interrupting
    then have "gate_view (m\<lparr>interrupted := True, thr := (thr m)(t := Removing 3)\<rparr>) = (gate_view m)\<lparr>gstopped := True\<rparr>"
      using h by (auto simp: gate_view_def)
    then show ?thesis
      using assms(3) Interrupting ends gate_step.interrupts [of "gate_view m" t]
      by (auto simp: thread_step_def interrupt_start_def split: if_splits)
  next
    case (Removing j)
    then show ?thesis
      using assms(3) ends stays [of "thr m' t"]
      by (auto simp: thread_step_def interrupt_round_def split: nat.splits if_splits)
  next
    case (Broadcasting j)
    then show ?thesis
      using assms(3) stays [of "Removing j"] by (auto simp: thread_step_def broadcast_def split: if_splits)
  qed (use assms in \<open>auto simp: thread_step_def\<close>)
qed

lemma step_view:
  assumes "annotated sem_holds (\<lambda>h d i a n. True) (\<lambda>_. acquire_loc) m" "thread_step Semaphore_code t pick m = Some m'"
  shows "gate_step (gate_view m) t (gate_view m')"
proof -
  note s = assms(2) and inv = annotatedD(1) [OF assms(1)] and loc = annotatedD(2) [OF assms(1), of t]
  have x: "in_cs sem_holds (thr m t) \<longleftrightarrow> mutex m = Some t" by (rule mon_invD(1) [OF inv])
  have w: "0 \<le> waiters m" by (rule semaphore.mon_waiters_nonneg [OF inv])
  show ?thesis
  proof (cases "thr m t")
    case (Run l)
    then have "run_code Semaphore_code t pick l m = Some m'" using s by (simp add: thread_step_def)
    then show ?thesis
      using inside_view [OF _ Run _ _ _ w] outside_view [OF _ Run] x Run loc by (cases "sem_holds l") auto
  next
    case (Entering k)
    then show ?thesis
      using s x by (auto intro!: view_internal [of _ _ _ "Sleeping k"] simp: thread_step_def wait_sleep_def)
  next
    case (Waking r k)
    then show ?thesis
      using s x loc by (auto intro!: view_internal [of _ _ _ "thr m' t"] simp: thread_step_def wait_leave_def)
  qed (use s x interrupt_view [OF _ _ s annotatedD(3) [OF assms(1), of t]] in \<open>auto simp: thread_step_def\<close>)
qed

lemma semaphore_simulates:
  assumes "annotated sem_holds (\<lambda>h d i a n. True) (\<lambda>_. acquire_loc) m" "sem_step m e = Some m'"
  shows "gate_step (gate_view m) (event_tid e) (gate_view m')"
proof -
  note inv = annotatedD(1) [OF assms(1)] and loc = annotatedD(2) [OF assms(1)]
  have idle: "mutex m \<noteq> Some t \<and> gate_idle (gate_thread (thr m t))" if "is_idle sem_final (thr m t)" for t
  proof -
    have "mutex m \<noteq> Some t" using mon_invD(1) [OF inv, of t] semaphore.is_idle_outside [OF that] by simp
    moreover have "gate_idle (gate_thread (thr m t))"
      using that by (cases "thr m t") (auto simp: is_idle_def elim: sem_final.elims)
    ultimately show ?thesis ..
  qed
  have goes: "gate_view (m\<lparr>thr := (thr m)(t := s)\<rparr>) = goes (gate_view m) t (gate_thread s)"
    if "mutex m \<noteq> Some t" for t s
    using that holder_unchanged [OF that] by (intro gate_view_goes [where s = s]) simp_all
  show ?thesis
  proof (cases e)
    case (Call t l)
    then show ?thesis
      using assms(2) idle [of t] goes gate_step.call_acquire [of "gate_view m" t] gate_step.call_release [of "gate_view m" t]
      by (auto simp: sem_step_def mon_step_def elim!: sem_entry.elims split: if_splits)
  next
    case (Interrupt t)
    then show ?thesis
      using assms(2) idle [of t] goes gate_step.call_interrupt [of "gate_view m" t]
      by (auto simp: sem_step_def mon_step_def split: if_splits)
  next
    case (Wake t r)
    then obtain k where "thr m t = Sleeping k" "mutex m = None" "m' = wait_wake t r k m"
      using assms(2) by (auto simp: sem_step_def mon_step_def split: tstate.splits if_splits)
    then show ?thesis using Wake by (auto intro!: view_internal [of _ _ _ "Waking r k"] simp: wait_wake_def)
  next
    case (Step t pick)
    then show ?thesis using step_view [OF assms(1)] assms(2) by (simp add: sem_step_def mon_step_def)
  qed
qed

text \<open>Runs of the code as runs of the specification.\<close>

definition gate_runs :: "gate \<Rightarrow> gate \<Rightarrow> bool" where
  "gate_runs = (\<lambda>g g'. \<exists>t. gate_step g t g')\<^sup>*\<^sup>*"

lemma gate_view_start: "gate_view (sem_start n) = gate_start n"
  by (simp add: gate_view_def gate_start_def sem_start_def mon_init_def Semaphore_new_def)

lemma semaphore_runs: "run sem_step (sem_start n) es = Some m \<Longrightarrow> gate_runs (gate_start n) (gate_view m)"
proof (induction es arbitrary: m rule: rev_induct)
  case Nil
  then show ?case by (auto simp: gate_runs_def gate_view_start)
next
  case (snoc e es)
  from snoc.prems obtain m1 where m1: "run sem_step (sem_start n) es = Some m1" "sem_step m1 e = Some m"
    by (elim run_snoc)
  have "gate_step (gate_view m1) (event_tid e) (gate_view m)"
    by (rule semaphore_simulates [OF sem_reachable_waits [OF reachableI [OF m1(1)]] m1(2)])
  then show ?case
    unfolding gate_runs_def
    by (intro rtranclp.rtrancl_into_rtrancl [OF snoc.IH [OF m1(1), unfolded gate_runs_def]] exI)
qed

text \<open>What a caller can conclude from the steps of the specification.\<close>

inductive_cases gate_stepE: "gate_step g t g'"

lemma gate_step_effect:
  assumes "gate_step g t g'" "caller g' t \<noteq> caller g t"
  shows "(caller g t = G_acquiring \<and> caller g' t = G_returned 0 \<longrightarrow> gate_acquire (gvalue g) = Some (gvalue g')) \<and>
    (\<forall>n. caller g t = G_releasing n \<longrightarrow> gvalue g' = gate_release n (gvalue g)) \<and>
    (\<forall>u. u \<noteq> t \<longrightarrow> caller g' u = caller g u)"
  using assms by (elim gate_stepE) (auto simp: goes_def gate_release_def)

section \<open>Properties\<close>

text \<open>
  Claim C10.  \<^verbatim>\<open>Semaphore.cpp\<close> implements the counting semaphore of the specification.  The view of
  the initial state is the initial state of the specification, and every step of every thread in every reachable state,
  with time-outs, spurious wake-ups, failing waits and interrupts, is a step of
  the specification for that thread: an \<open>acquire\<close> returns 0 only in a step that takes a permit from a positive count,
  returns -1 or throws without one, and a \<open>release(n)\<close> adds exactly its \<open>n\<close> permits, in one step, before it
  returns 0.  So every run of the code is a run of the specification.
\<close>

theorem semaphore_refines_gate:
  assumes "reachable sem_step (sem_start n) m" "sem_step m e = Some m'"
  shows "gate_view (sem_start n) = gate_start n \<and> gate_step (gate_view m) (event_tid e) (gate_view m') \<and>
    gate_runs (gate_start n) (gate_view m') \<and>
    (\<forall>t. gate_thread (thr m t) = G_acquiring \<and> thr m' t = Run (Returned 0) \<longrightarrow>
       gate_acquire (gvalue (gate_view m)) = Some (gvalue (gate_view m'))) \<and>
    (\<forall>t k. gate_thread (thr m t) = G_releasing k \<and> gate_thread (thr m' t) \<noteq> G_releasing k \<longrightarrow>
       gvalue (gate_view m') = gate_release k (gvalue (gate_view m)))"
proof -
  have g: "gate_step (gate_view m) (event_tid e) (gate_view m')"
    by (rule semaphore_simulates [OF sem_reachable_waits [OF assms(1)] assms(2)])
  have o: "thr m' t = thr m t" if "t \<noteq> event_tid e" for t using step_other assms(2) that unfolding sem_step_def by blast
  have moved: "t = event_tid e" if "gate_thread (thr m' t) \<noteq> gate_thread (thr m t)" for t using o that by metis
  have r: "gate_runs (gate_start n) (gate_view m')"
    using semaphore_runs assms reachable_step [OF assms] unfolding reachable_def by blast
  have a: "gate_acquire (gvalue (gate_view m)) = Some (gvalue (gate_view m'))"
    if "gate_thread (thr m t) = G_acquiring" "thr m' t = Run (Returned 0)" for t
    using gate_step_effect [OF g] moved [of t] that by simp
  have f: "gvalue (gate_view m') = gate_release k (gvalue (gate_view m))"
    if "gate_thread (thr m t) = G_releasing k" "gate_thread (thr m' t) \<noteq> G_releasing k" for t k
    using gate_step_effect [OF g] moved [of t] that by (metis gate_view_sel(3))
  show ?thesis using gate_view_start g r a f by blast
qed

theorem semaphore_refines_gate_witness:
  "\<exists>m'. sem_step (the (run sem_step (sem_start 0) sem_newcomer)) (Step 3 0) = Some m' \<and> thr m' 3 = Run (Returned 0) \<and>
     gate_acquire (permits (data (the (run sem_step (sem_start 0) sem_newcomer)))) = Some (permits (data m'))"
proof -
  let ?m = "the (run sem_step (sem_start 0) sem_newcomer)"
  let ?m' = "the (sem_step ?m (Step 3 0))"
  have r: "run sem_step (sem_start 0) sem_newcomer \<noteq> None" and n: "sem_step ?m (Step 3 0) \<noteq> None"
    and t: "running (thr ?m 3) = Some A_decide" "running (thr ?m' 3) = Some (Returned 0)"
    and x: "mutex ?m = Some 3" "mutex ?m' = None"
    by code_simp+
  have n': "sem_step ?m (Step 3 0) = Some ?m'" using n by simp
  note t' = t [unfolded running_Some]
  have a: "gate_thread (thr ?m 3) = G_acquiring" using t'(1) by simp
  have "gate_acquire (gvalue (gate_view ?m)) = Some (gvalue (gate_view ?m'))"
    using semaphore_refines_gate [OF reachable_run [OF r] n'] a t'(2) by blast
  then show ?thesis using n' t' x by auto
qed

end
