(* ===== verification/Barrier.thy ===== *)
theory Barrier
  imports Gate
begin

text \<open>
  \<^verbatim>\<open>DAF::Barrier\<close> (\<^verbatim>\<open>daf/Barrier.h\<close>, \<^verbatim>\<open>daf/Barrier.cpp\<close>): threads meet in groups of a fixed
  size.  The operations are code of the monitor the class inherits; the private semaphore
  \<^verbatim>\<open>entryGate_\<close> is the abstract counting semaphore of \<open>Gate\<close>, so a thread in its \<open>acquire\<close>
  has no step while no permit is left.  The barrier command is code of the client: the model
  takes it as a function from the number of earlier runs to whether the run returns.  The
  choice of a step tells whether a deadline has passed.  \<open>transit\<close> (threads between the gate
  and the mutex) and \<open>runs\<close> (runs of the command) are history variables.
\<close>

section \<open>Model\<close>

record bar =
  gate :: int
  parties :: nat
  synch :: nat
  bcount :: nat
  resets :: nat
  broken :: bool
  shutdown :: bool
  triggered :: bool
  command :: "(nat \<Rightarrow> bool) option"
  transit :: nat
  runs :: nat

definition bar_init :: "nat \<Rightarrow> (nat \<Rightarrow> bool) option \<Rightarrow> bar" where
  "bar_init n cmd =
     \<lparr>gate = c_int n, parties = n, synch = 0, bcount = 0, resets = 0, broken = False,
      shutdown = False, triggered = False, command = cmd, transit = 0, runs = 0\<rparr>"

definition Barrier_new :: "nat \<Rightarrow> (nat \<Rightarrow> bool) option \<Rightarrow> bar outcome" where
  "Barrier_new n cmd = (if n = 0 then Throws InitializationException else Returns (bar_init n cmd))"

datatype bar_exn = Daf_exn daf_exception | Command_exn

datatype bar_pc =
    B_idle
  | B_barrier bool
  | B_lock bool
  | B_arrive bool
  | B_loop bool bool nat
  | B_woke bool bool nat wres
  | B_catch bar_exn
  | B_rethrow bar_exn
  | B_leave bool nat
  | B_exit bool bool bool nat
  | B_setCommand "(nat \<Rightarrow> bool) option"
  | B_set "(nat \<Rightarrow> bool) option"
  | B_waitReset
  | B_reset_enter
  | B_resetting nat
  | B_reset_wait nat
  | B_reset_woke nat wres
  | B_reset_failed
  | B_destroy
  | B_shut
  | B_drain
  | B_drain_wait
  | B_drain_woke wres
  | B_return int
  | B_result bool
  | B_done
  | B_throw bar_exn

text \<open>The last part of \<open>barrier\<close>: one thread fewer to leave, and the reset by the last one.\<close>

definition exit_reset :: "bar \<Rightarrow> bar" where
  "exit_reset d =
     (let r = size_dec (resets d) in
      if r = 0 then
        d\<lparr>resets := 0, gate := gate_release (c_int (bcount d)) (gate d), broken := False,
          triggered := False, synch := size_add (synch d) 1, bcount := 0\<rparr>
      else d\<lparr>resets := r\<rparr>)"

definition exit_result :: "bool \<Rightarrow> bool \<Rightarrow> bool \<Rightarrow> nat \<Rightarrow> bar_pc" where
  "exit_result brk shut timeout index =
     (if timeout then B_throw (Daf_exn TimeoutException)
      else if shut then B_throw (Daf_exn IllegalThreadStateException)
      else if brk then B_throw (Daf_exn BrokenBarrierException)
      else B_return (c_int index))"

fun Barrier_code :: "(bar, bar_pc) code" where
  "Barrier_code (B_barrier timed) c intr w d =
     (case gate_acquire (gate d) of
        Some g \<Rightarrow> (d\<lparr>gate := g, transit := Suc (transit d)\<rparr>, Goto (B_lock timed))
      | None \<Rightarrow> if timed \<and> c \<noteq> 0 then (d, Goto (B_throw (Daf_exn TimeoutException))) else (d, Halt))"
| "Barrier_code (B_lock timed) c intr w d = (d, Lock (B_arrive timed))"
| "Barrier_code (B_arrive timed) c intr w d =
     (let k = size_add (bcount d) 1 in
      (d\<lparr>bcount := k, resets := k, transit := transit d - 1\<rparr>, Goto (B_loop timed False (bcount d))))"
| "Barrier_code (B_loop timed timeout index) c intr w d =
     (if broken d \<or> triggered d then (d, Goto (B_leave timeout index))
      else if shutdown d then (d\<lparr>broken := True\<rparr>, Goto (B_loop timed timeout index))
      else if bcount d \<noteq> parties d then
        (if timed \<and> c \<noteq> 0 then (d\<lparr>broken := True\<rparr>, Goto (B_loop timed True index))
         else (d, Wait (B_woke timed timeout index)))
      else (case command d of
              None \<Rightarrow> (d\<lparr>triggered := True\<rparr>, Goto (B_loop timed timeout index))
            | Some f \<Rightarrow>
                if f (runs d) then (d\<lparr>triggered := True, runs := Suc (runs d)\<rparr>, Goto (B_loop timed timeout index))
                else (d\<lparr>runs := Suc (runs d)\<rparr>, Goto (B_catch Command_exn))))"
| "Barrier_code (B_woke timed timeout index r) c intr w d =
     (if r = W_interrupted then (d, Goto (B_catch (Daf_exn InterruptedException)))
      else (d, Goto (B_loop timed timeout index)))"
| "Barrier_code (B_catch e) c intr w d =
     (d\<lparr>broken := True, resets := size_dec (resets d)\<rparr>, NotifyAll (B_rethrow e))"
| "Barrier_code (B_rethrow e) c intr w d = (d, Unlock (B_throw e))"
| "Barrier_code (B_leave timeout index) c intr w d =
     (d, NotifyAll (B_exit (broken d) (shutdown d) timeout index))"
| "Barrier_code (B_exit brk shut timeout index) c intr w d =
     (exit_reset d, Unlock (exit_result brk shut timeout index))"
| "Barrier_code (B_setCommand cmd) c intr w d = (d, Lock (B_set cmd))"
| "Barrier_code (B_set cmd) c intr w d = (d\<lparr>command := cmd\<rparr>, Unlock B_done)"
| "Barrier_code B_waitReset c intr w d = (d, Lock B_reset_enter)"
| "Barrier_code B_reset_enter c intr w d = (d, Goto (B_resetting (synch d)))"
| "Barrier_code (B_resetting s) c intr w d =
     (if bcount d > 0 then
        if shutdown d then (d, Unlock (B_throw (Daf_exn IllegalThreadStateException)))
        else if synch d = s then
          (if triggered d \<or> broken d then (d, NotifyAll (B_reset_wait s)) else (d, Goto (B_reset_wait s)))
        else (d, Unlock (B_result True))
      else (d, Unlock (B_result True)))"
| "Barrier_code (B_reset_wait s) c intr w d = (d, Wait (B_reset_woke s))"
| "Barrier_code (B_reset_woke s r) c intr w d =
     (case r of
        W_ok \<Rightarrow> (d, Goto (B_resetting s))
      | W_error e \<Rightarrow> (d\<lparr>broken := True\<rparr>, NotifyAll B_reset_failed)
      | W_interrupted \<Rightarrow> (d, Unlock (B_throw (Daf_exn InterruptedException))))"
| "Barrier_code B_reset_failed c intr w d = (d, Unlock (B_result False))"
| "Barrier_code B_destroy c intr w d = (d, Lock B_shut)"
| "Barrier_code B_shut c intr w d = (d\<lparr>shutdown := True\<rparr>, Goto B_drain)"
| "Barrier_code B_drain c intr w d =
     (if bcount d > 0 then (d, NotifyAll B_drain_wait) else (d, Unlock B_done))"
| "Barrier_code B_drain_wait c intr w d = (d, Wait B_drain_woke)"
| "Barrier_code (B_drain_woke r) c intr w d =
     (case r of
        W_error e \<Rightarrow>
          if e = ETIME then
            (if broken d then (d\<lparr>gate := gate_release (c_int (bcount d)) (gate d)\<rparr>, Unlock B_done)
             else (d\<lparr>broken := True\<rparr>, Goto B_drain))
          else (d, Goto B_drain)
      | W_ok \<Rightarrow> (d, Goto B_drain)
      | W_interrupted \<Rightarrow> (d, Unlock (B_throw (Daf_exn InterruptedException))))"
| "Barrier_code _ c intr w d = (d, Halt)"

fun bar_entry :: "bar_pc \<Rightarrow> bool" where
  "bar_entry (B_barrier timed) = True"
| "bar_entry (B_setCommand cmd) = True"
| "bar_entry B_waitReset = True"
| "bar_entry B_destroy = True"
| "bar_entry _ = False"

fun bar_final :: "bar_pc \<Rightarrow> bool" where
  "bar_final B_idle = True"
| "bar_final (B_return r) = True"
| "bar_final (B_result r) = True"
| "bar_final B_done = True"
| "bar_final (B_throw e) = True"
| "bar_final _ = False"

fun bar_outside :: "bar_pc \<Rightarrow> bool" where
  "bar_outside (B_lock timed) = True"
| "bar_outside l = (bar_entry l \<or> bar_final l)"

definition bar_holds :: "bar_pc \<Rightarrow> bool" where
  "bar_holds l \<longleftrightarrow> \<not> bar_outside l"

definition bar_step :: "(bar, bar_pc) mon \<Rightarrow> bar_pc event \<Rightarrow> (bar, bar_pc) mon option" where
  "bar_step = mon_step Barrier_code bar_entry bar_final"

definition bar_start :: "nat \<Rightarrow> (nat \<Rightarrow> bool) option \<Rightarrow> (bar, bar_pc) mon" where
  "bar_start n cmd = mon_init (bar_init n cmd) B_idle"

section \<open>The monitor invariant\<close>

lemma exit_result_outside [simp]: "bar_outside (exit_result brk shut timeout index)"
  by (simp add: exit_result_def)

lemma Barrier_code_ok: "act_ok bar_holds l (snd (Barrier_code l c i w d))"
  by (induction l c i w d rule: Barrier_code.induct)
    (auto simp: bar_holds_def Let_def split: option.splits wres.splits)

interpretation barrier: monitor_client Barrier_code bar_entry bar_final bar_holds
proof (rule monitor_clientI)
  show "act_ok bar_holds l (snd (Barrier_code l c i w d))" for l c i w d by (rule Barrier_code_ok)
  show "\<not> bar_holds l" if "bar_entry l \<or> bar_final l" for l
    using that by (cases l) (auto simp: bar_holds_def)
qed

section \<open>Undisturbed groups\<close>

text \<open>Programs that use the barrier only by the untimed \<open>barrier()\<close>.\<close>

fun calm_entry :: "bar_pc \<Rightarrow> bool" where
  "calm_entry (B_barrier timed) = (\<not> timed)"
| "calm_entry _ = False"

definition calm_step :: "(bar, bar_pc) mon \<Rightarrow> bar_pc event \<Rightarrow> (bar, bar_pc) mon option" where
  "calm_step = mon_step Barrier_code calm_entry bar_final"

fun bar_tagged :: "bar_pc \<Rightarrow> bool" where
  "bar_tagged (B_lock timed) = True"
| "bar_tagged (B_arrive timed) = True"
| "bar_tagged _ = False"

fun bar_calm :: "nat \<Rightarrow> bar_pc tstate \<Rightarrow> bool" where
  "bar_calm N (Entering k) = (\<exists>j < N. k = B_woke False False j)"
| "bar_calm N (Sleeping k) = (\<exists>j < N. k = B_woke False False j)"
| "bar_calm N (Waking r k) = (r \<noteq> W_interrupted \<and> (\<exists>j < N. k = B_woke False False j))"
| "bar_calm N (Run B_idle) = True"
| "bar_calm N (Run (B_barrier t)) = (\<not> t)"
| "bar_calm N (Run (B_lock t)) = (\<not> t)"
| "bar_calm N (Run (B_arrive t)) = (\<not> t)"
| "bar_calm N (Run (B_loop t f j)) = (\<not> t \<and> \<not> f \<and> j < N)"
| "bar_calm N (Run (B_woke t f j r)) = (\<not> t \<and> \<not> f \<and> j < N \<and> r \<noteq> W_interrupted)"
| "bar_calm N (Run (B_leave f j)) = (\<not> f \<and> j < N)"
| "bar_calm N (Run (B_exit b s f j)) = (\<not> b \<and> \<not> s \<and> \<not> f \<and> j < N)"
| "bar_calm N (Run (B_return r)) = (0 \<le> r \<and> r < int N)"
| "bar_calm N (Run l) = False"
| "bar_calm N s = True"

definition bar_loc :: "nat \<Rightarrow> bool \<Rightarrow> bar_pc tstate \<Rightarrow> bool" where
  "bar_loc N i s \<longleftrightarrow> i \<or> bar_calm N s"

text \<open>Threads that have arrived and not left: the holder, besides the sleepers.\<close>

fun inside :: "bar_pc tstate option \<Rightarrow> nat" where
  "inside None = 0"
| "inside (Some (Run (B_arrive t))) = 0"
| "inside (Some s) = 1"

fun leaving :: "bar_pc tstate option \<Rightarrow> bool" where
  "leaving (Some (Run (B_leave f j))) = True"
| "leaving (Some (Run (B_exit b s f j))) = True"
| "leaving _ = False"

fun before_broadcast :: "bar_pc tstate option \<Rightarrow> bool" where
  "before_broadcast (Some (Run (B_loop t f j))) = True"
| "before_broadcast (Some (Run (B_leave f j))) = True"
| "before_broadcast _ = False"

definition bar_good :: "bar_pc tstate option \<Rightarrow> bar \<Rightarrow> nat \<Rightarrow> nat \<Rightarrow> bool" where
  "bar_good h d a n \<longleftrightarrow>
     \<not> broken d \<and> \<not> shutdown d \<and> 0 \<le> gate d \<and> resets d = a + n + inside h \<and>
     (if triggered d then bcount d = parties d \<and> gate d = 0 \<and> transit d = 0 \<and> 0 < resets d \<and>
        (0 < a \<longrightarrow> before_broadcast h) \<and> (\<forall>k. h \<noteq> Some (Entering k))
      else bcount d = resets d \<and> gate d + int (transit d) + int (bcount d) = int (parties d) \<and> \<not> leaving h \<and>
        (h = None \<or> (\<exists>k. h = Some (Entering k)) \<longrightarrow> bcount d \<noteq> parties d)) \<and>
     (command d \<noteq> None \<longrightarrow> (triggered d \<longrightarrow> 0 < runs d) \<and>
        synch d = (runs d - of_bool (triggered d)) mod 18446744073709551616)"

definition calm_command :: "(nat \<Rightarrow> bool) option \<Rightarrow> bool" where
  "calm_command cmd \<longleftrightarrow> (\<forall>f. cmd = Some f \<longrightarrow> (\<forall>k. f k))"

definition bar_asn :: "nat \<Rightarrow> (nat \<Rightarrow> bool) option \<Rightarrow> (bar, bar_pc) assertion" where
  "bar_asn N cmd h d i a n \<longleftrightarrow> i \<or>
     0 < N \<and> int N \<le> INT_MAX \<and> calm_command cmd \<and> parties d = N \<and> command d = cmd \<and> bar_good h d a n"

lemmas bar_rule_defs = bar_asn_def bar_good_def bar_loc_def

lemma good_counts:
  assumes "bar_good h d a n" "int (parties d) \<le> INT_MAX"
  shows "bcount d \<le> parties d" "bcount d < 18446744073709551615" "c_int (bcount d) = int (bcount d)"
proof -
  show le: "bcount d \<le> parties d" using assms(1) by (auto simp: bar_good_def split: if_splits)
  then show "bcount d < 18446744073709551615" using assms(2) by (simp add: INT_MAX_def)
  show "c_int (bcount d) = int (bcount d)" using le assms(2) by (intro c_int_small) simp
qed

lemma arrive_good:
  assumes "bar_good (Some (Run (B_arrive t))) d a n" "0 < transit d" "int (parties d) \<le> INT_MAX"
  shows "bcount d < parties d \<and> size_add (bcount d) 1 = Suc (bcount d) \<and>
    bar_good (Some (Run (B_loop t f (bcount d))))
      (d\<lparr>bcount := Suc (bcount d), resets := Suc (bcount d), transit := transit d - 1\<rparr>) a n"
  using assms good_counts [OF assms(1,3)] by (auto simp: bar_good_def size_add_def split: if_splits)

lemma exit_good:
  assumes "bar_good (Some (Run (B_exit b s f j))) d a n" "int (parties d) \<le> INT_MAX" "0 < parties d"
  shows "bar_good None (exit_reset d) a n \<and> parties (exit_reset d) = parties d \<and> command (exit_reset d) = command d"
proof (cases "resets d = 1")
  case True
  have "size_add (synch d) 1 = runs d mod 18446744073709551616" if "command d \<noteq> None"
  proof -
    have "0 < runs d" "synch d = (runs d - 1) mod 18446744073709551616"
      using assms(1) that by (auto simp: bar_good_def split: if_splits)
    then show ?thesis by (simp add: size_add_def mod_simps)
  qed
  then show ?thesis
    using True assms good_counts [OF assms(1,2)]
    by (auto simp: bar_good_def exit_reset_def gate_release_def split: if_splits)
next
  case False
  then show ?thesis
    using assms by (auto simp: bar_good_def exit_reset_def Let_def split: if_splits)
qed

lemma loop_good:
  assumes "bar_asn N cmd (Some (Run (B_loop t f j))) d i a n" "bar_loc N i (Run (B_loop t f j))"
    "Barrier_code (B_loop t f j) c i w d = (d', x)"
  shows "act_post (bar_asn N cmd) (bar_loc N i) d' i a n x"
proof (cases i)
  case True
  then show ?thesis by (cases x) (auto simp: bar_rule_defs)
next
  case False
  then have g: "bar_good (Some (Run (B_loop t f j))) d a n" "\<not> t" "\<not> f" "j < N" "parties d = N"
    "command d = cmd" "calm_command cmd" "0 < N" "int N \<le> INT_MAX"
    using assms(1,2) by (auto simp: bar_asn_def bar_loc_def)
  have b: "\<not> broken d" "\<not> shutdown d" using g(1) by (auto simp: bar_good_def)
  consider "triggered d" | "\<not> triggered d" "bcount d \<noteq> parties d"
    | "\<not> triggered d" "bcount d = parties d" "cmd = None"
    | g where "\<not> triggered d" "bcount d = parties d" "cmd = Some g" "g (runs d)"
    using g(7) by (cases cmd) (auto simp: calm_command_def)
  then show ?thesis
    using g b assms(3) False by cases (auto simp: bar_rule_defs)
qed

lemma interrupted_post: "act_post (bar_asn N cmd) (bar_loc N True) d True a n x"
  by (cases x) (auto simp: bar_rule_defs)

lemma inside_good:
  assumes "bar_holds l" "bar_loc N i (Run l)" "bar_tagged l \<Longrightarrow> 0 < transit d" "bar_asn N cmd (Some (Run l)) d i a n"
    "Barrier_code l c i (int a + int n) d = (d', x)"
  shows "act_post (bar_asn N cmd) (bar_loc N i) d' i a n x"
proof (cases i)
  case True
  then show ?thesis by (simp add: interrupted_post)
next
  case False
  then have calm: "bar_calm N (Run l)" and N: "0 < N" "int N \<le> INT_MAX" "parties d = N" "command d = cmd" "calm_command cmd"
    and g: "bar_good (Some (Run l)) d a n"
    using assms(2,4) by (auto simp: bar_asn_def bar_loc_def)
  show ?thesis
  proof (cases l)
    case (B_arrive t)
    then have "d' = d\<lparr>bcount := size_add (bcount d) 1, resets := size_add (bcount d) 1, transit := transit d - 1\<rparr>"
      "x = Goto (B_loop t False (bcount d))"
      using assms(5) by (auto simp: Let_def)
    then show ?thesis
      using arrive_good [of t d a n False] B_arrive assms(3) N g calm False
      by (auto simp: bar_asn_def bar_loc_def)
  next
    case (B_loop t f j)
    then show ?thesis using loop_good assms by metis
  next
    case (B_exit b s f j)
    then have "d' = exit_reset d" "x = Unlock (B_return (c_int j))" "j < N"
      using assms(5) calm by (auto simp: exit_result_def)
    moreover have "c_int j = int j" using \<open>j < N\<close> N by (intro c_int_small) simp
    ultimately show ?thesis
      using exit_good [of b s f j d a n] B_exit N g False by (auto simp: bar_asn_def bar_loc_def)
  qed (use assms calm g N False in \<open>auto simp: bar_rule_defs bar_holds_def split: if_splits\<close>)
qed

interpretation calm_barrier: monitor_client Barrier_code calm_entry bar_final bar_holds
proof (rule monitor_clientI)
  show "act_ok bar_holds l (snd (Barrier_code l c i w d))" for l c i w d by (rule Barrier_code_ok)
  show "\<not> bar_holds l" if "calm_entry l \<or> bar_final l" for l
    using that barrier.outside_law [of l] by (cases l) auto
qed

interpretation calm: monitor_proof Barrier_code calm_entry bar_final bar_holds "\<lambda>_. bar_tagged" "\<lambda>_. transit"
  "bar_asn N cmd" "\<lambda>_. bar_loc N" "\<lambda>r. r \<noteq> W_interrupted" for N cmd
proof
  fix l c i w d d' x
  assume c: "Barrier_code l c i w d = (d', x)" and x: "x \<noteq> Halt" "\<And>j::nat. bar_tagged l \<Longrightarrow> 0 < transit d"
  show "transit d' + of_bool (bar_tagged l) = transit d + of_bool (next_tagged bar_tagged x)"
    using c x
    by (induction l c i w d rule: Barrier_code.induct)
      (auto simp: Let_def exit_result_def exit_reset_def split: option.splits if_splits wres.splits)
next
  fix l c i w d d' k r
  assume "Barrier_code l c i w d = (d', Wait k)"
  then show "\<not> bar_tagged (k r)"
    by (induction l c i w d rule: Barrier_code.induct)
      (auto simp: Let_def split: option.splits if_splits wres.splits)
next
  show "\<not> bar_tagged l" if "calm_entry l \<or> bar_final l" for l
    using that by (cases l) auto
next
  fix l c i w d d' x h a n
  assume "\<not> bar_holds l" "bar_loc N i (Run l)" "\<And>j::nat. bar_tagged l \<Longrightarrow> 0 < transit d" "bar_asn N cmd h d i a n" "Barrier_code l c i w d = (d', x)"
  then show "act_outside (bar_asn N cmd) (bar_loc N i) d i d' x"
    by (cases l) (auto simp: bar_rule_defs bar_holds_def gate_acquire_def split: if_splits)
next
  fix l c i a n d d' x
  assume "bar_holds l" "bar_loc N i (Run l)" "\<And>j::nat. bar_tagged l \<Longrightarrow> 0 < transit d" "bar_asn N cmd (Some (Run l)) d i a n"
    "Barrier_code l c i (int a + int n) d = (d', x)"
  then show "act_post (bar_asn N cmd) (bar_loc N i) d' i a n x" by (rule inside_good)
qed (auto simp: bar_rule_defs split: if_splits elim!: calm_entry.elims plain.elims)

lemma calm_reachable:
  assumes "reachable calm_step (bar_start N cmd) m" "0 < N" "int N \<le> INT_MAX" "calm_command cmd"
  shows "annotated bar_holds (bar_asn N cmd) (\<lambda>_. bar_loc N) m"
proof (rule calm.reachable_annotated)
  show "reachable (restrict_step (wake_in (\<lambda>r. r \<noteq> W_interrupted)) (mon_step Barrier_code calm_entry bar_final))
      (mon_init (bar_init N cmd) B_idle) m"
    using assms(1) by (simp add: restrict_step_real calm_step_def bar_start_def)
  show "bar_asn N cmd None (bar_init N cmd) False 0 0"
    using assms(2-4) by (auto simp: bar_rule_defs bar_init_def c_int_small)
qed (auto simp: bar_loc_def bar_init_def)

text \<open>Once the barrier has tripped, a sleeper that runs gets through to its \<open>return\<close>.\<close>

lemma sleeper_leaves:
  assumes "thr m t = Sleeping (B_woke False False j)" "mutex m = None" "\<not> interrupted m"
    "triggered (data m)" "\<not> broken (data m)" "\<not> shutdown (data m)"
  shows "\<exists>m'. run calm_step m [Wake t W_ok, Step t 0, Step t 0, Step t 0, Step t 0, Step t 0] = Some m' \<and>
    thr m' t = Run (B_return (c_int j)) \<and> mutex m' = None"
  using assms
  by (simp add: calm_step_def mon_step_def wait_wake_def thread_step_def wait_leave_def run_code_def
      broadcast_def exit_result_def)

section \<open>A group that never forms again\<close>

text \<open>Programs that only enter the barrier, timed or not.\<close>

fun enter_only :: "bar_pc \<Rightarrow> bool" where
  "enter_only (B_barrier timed) = True"
| "enter_only _ = False"

definition enter_step :: "(bar, bar_pc) mon \<Rightarrow> bar_pc event \<Rightarrow> (bar, bar_pc) mon option" where
  "enter_step = mon_step Barrier_code enter_only bar_final"

fun shut_out :: "bar_pc tstate \<Rightarrow> bool" where
  "shut_out (Run l) = (bar_final l \<or> (\<exists>t. l = B_barrier t))"
| "shut_out s = plain s"

definition bar_dead :: "bar \<Rightarrow> (bar, bar_pc) mon \<Rightarrow> bool" where
  "bar_dead d m \<longleftrightarrow> data m = d \<and> gate d \<le> 0 \<and> (\<forall>t. shut_out (thr m t))"

lemma dead_step:
  assumes "bar_dead d m" "enter_step m e = Some m'"
  shows "bar_dead d m'"
proof -
  have out: "shut_out (thr m t)" and g: "gate (data m) \<le> 0" "data m = d" for t
    using assms(1) by (auto simp: bar_dead_def)
  consider t where "thr m' = (thr m)(t := thr m' t)" "data m' = d" "shut_out (thr m' t)"
  proof (cases e)
    case (Step t pick)
    show thesis
    proof (cases "thr m t")
      case (Run l)
      then have r: "run_code Barrier_code t pick l m = Some m'"
        using assms(2) Step by (simp add: enter_step_def mon_step_def thread_step_def)
      obtain b where "l = B_barrier b"
        using out [of t] Run r by (cases l) (auto simp: run_code_def)
      then show thesis
        using that [of t] r g by (auto simp: run_code_def gate_acquire_def split: if_splits)
    qed (use that [of t] out [of t] assms(2) Step g in
        \<open>auto simp: enter_step_def mon_step_def thread_step_def mon_ops split: if_splits nat.splits\<close>)
  next
    case (Call t l)
    then show thesis
      using that [of t] assms(2) g by (cases l) (auto simp: enter_step_def mon_step_def split: if_splits)
  next
    case (Wake t r)
    then show thesis
      using that [of t] assms(2) out [of t] by (auto simp: enter_step_def mon_step_def split: tstate.splits if_splits)
  next
    case (Interrupt t)
    then show thesis
      using that [of t] assms(2) g by (auto simp: enter_step_def mon_step_def split: if_splits)
  qed
  then show ?thesis
  proof cases
    case 1
    have "shut_out (thr m' u)" for u
      using 1(1,3) out [of u] by (cases "u = t") (simp, metis fun_upd_other)
    then show ?thesis using 1(2) g by (simp add: bar_dead_def)
  qed
qed

interpretation dead_machine: event_invariant enter_step "bar_dead d" for d
  by unfold_locales (rule dead_step)

text \<open>In every future of such a state an untimed \<open>barrier()\<close> has no step.\<close>

lemma dead_forever:
  assumes "bar_dead d m" "reachable enter_step m m'" "thr m' t = Run (B_barrier False)"
  shows "enter_step m' (Step t pick) = None"
  using dead_machine.reachable_inv [OF assms(1,2)] assms(3)
  by (simp add: bar_dead_def enter_step_def mon_step_def thread_step_def run_code_def gate_acquire_def)

section \<open>Properties\<close>

text \<open>
  Claim C3.  A barrier whose users call only the untimed \<open>barrier()\<close>, whose command never
  throws, and which is not interrupted, works in rounds.  No call throws and every returned
  index is below the number of parties; a thread on its way out proves that the barrier has
  tripped, that is, that all parties have arrived; the command has run exactly once per
  round; while a group gathers, the gate, the threads on their way in and the arrived ones
  add up to the number of parties; once it has tripped and the mutex is free, no sleeper is unsignalled and
  every sleeper returns its index by steps of its own.
\<close>

theorem barrier_rounds:
  assumes "0 < N" "int N \<le> INT_MAX" "calm_command cmd"
    "reachable calm_step (bar_start N cmd) m" "\<not> interrupted m"
  shows "(\<forall>t e. thr m t \<noteq> Run (B_throw e)) \<and>
    (\<forall>t r. thr m t = Run (B_return r) \<longrightarrow> 0 \<le> r \<and> r < int N) \<and>
    (\<forall>t b s f j. thr m t = Run (B_leave f j) \<or> thr m t = Run (B_exit b s f j) \<longrightarrow>
       triggered (data m) \<and> bcount (data m) = N) \<and>
    (cmd \<noteq> None \<longrightarrow> synch (data m) = (runs (data m) - of_bool (triggered (data m))) mod 18446744073709551616) \<and>
    (\<not> triggered (data m) \<longrightarrow> gate (data m) + int (transit (data m)) + int (bcount (data m)) = int N) \<and>
    (triggered (data m) \<and> mutex m = None \<longrightarrow> asleep m = [] \<and>
       (\<forall>t. sleeping (thr m t) \<longrightarrow>
          (\<exists>m' j. run calm_step m [Wake t W_ok, Step t 0, Step t 0, Step t 0, Step t 0, Step t 0] = Some m' \<and>
             j < N \<and> thr m' t = Run (B_return (c_int j)) \<and> mutex m' = None)))"
proof -
  note ok = calm_reachable [OF assms(4,1,2,3)]
  have loc: "bar_calm N (thr m t)" for t using annotatedD(2) [OF ok, of t] assms(5) by (simp add: bar_loc_def)
  have asn: "parties (data m) = N" "command (data m) = cmd"
    "bar_good (map_option (thr m) (mutex m)) (data m) (length (asleep m)) (length (notified m))"
    using annotatedD(4) [OF ok] assms(5) by (auto simp: bar_asn_def)
  have out: "triggered (data m) \<and> bcount (data m) = N"
    if "thr m t = Run (B_leave f j) \<or> thr m t = Run (B_exit b s f j)" for t b s f j
  proof -
    have "mutex m = Some t" using that mon_invD(1) [OF annotatedD(1) [OF ok], of t] by (auto simp: bar_holds_def)
    then have "leaving (map_option (thr m) (mutex m))" using that by auto
    then show ?thesis using asn by (auto simp: bar_good_def split: if_splits)
  qed
  have flags: "\<not> broken (data m)" "\<not> shutdown (data m)" using asn(3) by (auto simp: bar_good_def)
  have sleepers: "\<exists>m' j. run calm_step m [Wake t W_ok, Step t 0, Step t 0, Step t 0, Step t 0, Step t 0] = Some m' \<and>
      j < N \<and> thr m' t = Run (B_return (c_int j)) \<and> mutex m' = None"
    if s: "triggered (data m)" "mutex m = None" "sleeping (thr m t)" for t
  proof -
    obtain j where j: "j < N" "thr m t = Sleeping (B_woke False False j)"
      using loc [of t] s(3) by (cases "thr m t") auto
    from sleeper_leaves [OF j(2) s(2) assms(5) s(1) flags] j(1) show ?thesis by blast
  qed
  have "thr m t \<noteq> Run (B_throw e)" "thr m t = Run (B_return r) \<Longrightarrow> 0 \<le> r \<and> r < int N" for t e r
    using loc [of t] by auto
  moreover have "triggered (data m) \<and> mutex m = None \<longrightarrow> asleep m = []"
    "cmd \<noteq> None \<longrightarrow> synch (data m) = (runs (data m) - of_bool (triggered (data m))) mod 18446744073709551616"
    "\<not> triggered (data m) \<longrightarrow> gate (data m) + int (transit (data m)) + int (bcount (data m)) = int N"
    using asn by (auto simp: bar_good_def split: if_splits)
  ultimately show ?thesis using out sleepers by blast
qed

definition pair_meets :: "bar_pc event list" where
  "pair_meets =
     [Call 0 (B_barrier False), Step 0 0, Step 0 0, Step 0 0, Step 0 0, Step 0 0,
      Call 1 (B_barrier False), Step 1 0, Step 1 0, Step 1 0, Step 1 0, Step 1 0, Step 1 0, Step 1 0]"

theorem barrier_rounds_witness:
  "\<exists>m' j. run calm_step (the (run calm_step (bar_start 2 (Some (\<lambda>_. True))) pair_meets))
       [Wake 0 W_ok, Step 0 0, Step 0 0, Step 0 0, Step 0 0, Step 0 0] = Some m' \<and>
     j < 2 \<and> thr m' 0 = Run (B_return (c_int j)) \<and> mutex m' = None"
proof -
  let ?m = "the (run calm_step (bar_start 2 (Some (\<lambda>_. True))) pair_meets)"
  have r: "run calm_step (bar_start 2 (Some (\<lambda>_. True))) pair_meets \<noteq> None" and i: "\<not> interrupted ?m"
    and t: "triggered (data ?m)" and x: "mutex ?m = None" and s: "sleeping (thr ?m 0)"
    by code_simp+
  have h: "(0::nat) < 2" "int 2 \<le> INT_MAX" "calm_command (Some (\<lambda>_. True))"
    by (simp_all add: INT_MAX_def calm_command_def)
  show ?thesis using barrier_rounds [OF h reachable_run [OF r] i] t x s by blast
qed

text \<open>
  Claim C9.  A barrier can die.  (a) Three parties: one times out and leaves, a third thread enters before
  the second has noticed; its arrival overwrites the count of threads still to leave, nobody
  takes it to zero, and the barrier is never reset.  (b) One party whose command throws: the
  handler counts the thread out but never resets.  In both runs all threads are out of the
  barrier, the gate is empty, and in every future in which threads only enter the barrier an
  untimed \<open>barrier()\<close> never gets past the gate.
\<close>

definition late_arrival :: "bar_pc event list" where
  "late_arrival =
     [Call 0 (B_barrier True), Step 0 0, Step 0 0, Step 0 0, Step 0 0, Step 0 0,
      Call 1 (B_barrier False), Step 1 0, Step 1 0, Step 1 0, Step 1 0, Step 1 0,
      Wake 0 (W_error ETIME), Step 0 0, Step 0 0, Step 0 1, Step 0 0, Step 0 0, Step 0 0,
      Call 2 (B_barrier False), Step 2 0, Step 2 0, Step 2 0, Step 2 0, Step 2 0, Step 2 0,
      Wake 1 W_ok, Step 1 0, Step 1 0, Step 1 0, Step 1 0, Step 1 0]"

definition command_throws :: "bar_pc event list" where
  "command_throws = [Call 0 (B_barrier False), Step 0 0, Step 0 0, Step 0 0, Step 0 0, Step 0 0, Step 0 0]"

lemma dead_run:
  assumes "run enter_step (bar_start N cmd) es \<noteq> None" "m = the (run enter_step (bar_start N cmd) es)"
    "gate (data m) \<le> 0" "\<forall>t \<in> set (map event_tid es). running (thr m t) \<noteq> None \<and> bar_final (the (running (thr m t)))"
  shows "run enter_step (bar_start N cmd) es = Some m \<and> (\<forall>t. \<exists>l. thr m t = Run l \<and> bar_final l) \<and>
    (\<forall>m' t pick. reachable enter_step m m' \<and> thr m' t = Run (B_barrier False) \<longrightarrow> enter_step m' (Step t pick) = None)"
proof -
  have r: "run enter_step (bar_start N cmd) es = Some m" using assms(1,2) by simp
  have "\<exists>l. thr m t = Run l \<and> bar_final l" for t
  proof (cases "t \<in> set (map event_tid es)")
    case True
    then show ?thesis using assms(4) by (auto simp: running_Some)
  next
    case False
    then have "thr m t = thr (bar_start N cmd) t"
      using run_other [of Barrier_code enter_only bar_final] r by (simp add: enter_step_def)
    then show ?thesis by (simp add: bar_start_def mon_init_def)
  qed
  moreover from this have "bar_dead (data m) m"
    using assms(3) by (auto simp: bar_dead_def) (metis shut_out.simps(1))
  ultimately show ?thesis using r dead_forever by blast
qed

theorem barrier_dies:
  "(\<exists>m. run enter_step (bar_start 3 None) late_arrival = Some m \<and> (\<forall>t. \<exists>l. thr m t = Run l \<and> bar_final l) \<and>
      (\<forall>m' t pick. reachable enter_step m m' \<and> thr m' t = Run (B_barrier False) \<longrightarrow> enter_step m' (Step t pick) = None)) \<and>
   (\<exists>m. run enter_step (bar_start 1 (Some (\<lambda>_. False))) command_throws = Some m \<and> (\<forall>t. \<exists>l. thr m t = Run l \<and> bar_final l) \<and>
      (\<forall>m' t pick. reachable enter_step m m' \<and> thr m' t = Run (B_barrier False) \<longrightarrow> enter_step m' (Step t pick) = None))"
proof (intro conjI exI)
  let ?a = "run enter_step (bar_start 3 None) late_arrival"
  have "?a \<noteq> None" "gate (data (the ?a)) \<le> 0"
    "\<forall>t \<in> set (map event_tid late_arrival). running (thr (the ?a) t) \<noteq> None \<and> bar_final (the (running (thr (the ?a) t)))"
    by code_simp+
  from dead_run [OF this(1) refl this(2,3)] show "?a = Some (the ?a)"
    "\<forall>t. \<exists>l. thr (the ?a) t = Run l \<and> bar_final l"
    "\<forall>m' t pick. reachable enter_step (the ?a) m' \<and> thr m' t = Run (B_barrier False) \<longrightarrow> enter_step m' (Step t pick) = None"
    by blast+
  let ?b = "run enter_step (bar_start 1 (Some (\<lambda>_. False))) command_throws"
  have "?b \<noteq> None" "gate (data (the ?b)) \<le> 0"
    "\<forall>t \<in> set (map event_tid command_throws). running (thr (the ?b) t) \<noteq> None \<and> bar_final (the (running (thr (the ?b) t)))"
    by code_simp+
  from dead_run [OF this(1) refl this(2,3)] show "?b = Some (the ?b)"
    "\<forall>t. \<exists>l. thr (the ?b) t = Run l \<and> bar_final l"
    "\<forall>m' t pick. reachable enter_step (the ?b) m' \<and> thr m' t = Run (B_barrier False) \<longrightarrow> enter_step m' (Step t pick) = None"
    by blast+
qed

theorem barrier_dies_witness:
  "\<exists>m m'. run enter_step (bar_start 3 None) late_arrival = Some m \<and> enter_step m (Call 3 (B_barrier False)) = Some m' \<and>
     (\<forall>pick. enter_step m' (Step 3 pick) = None)"
proof -
  from barrier_dies [THEN conjunct1] obtain m where r: "run enter_step (bar_start 3 None) late_arrival = Some m"
    and f: "\<exists>l. thr m 3 = Run l \<and> bar_final l"
    and b: "\<And>m' t pick. reachable enter_step m m' \<Longrightarrow> thr m' t = Run (B_barrier False) \<Longrightarrow> enter_step m' (Step t pick) = None"
    by blast
  let ?m' = "m\<lparr>thr := (thr m)(3 := Run (B_barrier False))\<rparr>"
  have s: "enter_step m (Call 3 (B_barrier False)) = Some ?m'"
    using f by (auto simp: enter_step_def mon_step_def is_idle_def)
  have "reachable enter_step m ?m'" using reachable_step [of enter_step m m _ ?m'] s by blast
  then have "enter_step ?m' (Step 3 pick) = None" for pick by (rule b) simp
  then show ?thesis using r s by blast
qed

end
