(* ===== verification/Rendezvous.thy ===== *)
theory Rendezvous
  imports Gate Monitor_History
begin

text \<open>
  \<^verbatim>\<open>DAF::Rendezvous\<close> (\<^verbatim>\<open>daf/Rendezvous_T.h\<close>, \<^verbatim>\<open>daf/Rendezvous_T.cpp\<close>): the threads of a group
  each present an item and each leave with an item of the vector that the rendezvous
  function has made of them.  The code follows \<^verbatim>\<open>Barrier\<close>, with the vector \<^verbatim>\<open>slots_\<close>; it is
  parameterised over the function, which maps the vector to the new one and to whether it
  returned.  \<open>rtransit\<close> (threads between the gate and the mutex) and \<open>offered\<close> (the vector that the
  function was given in this round) are history variables; the index and the item in the
  program points of the way out are the thread's own variables.
\<close>

section \<open>Model\<close>

type_synonym 'v rdv_function = "'v list \<Rightarrow> 'v list \<times> bool"

definition RendezvousCommand :: "'v rdv_function" where
  "RendezvousCommand val = (val, True)"

definition RendezvousRotator :: "'v rdv_function" where
  "RendezvousRotator val = (case val of [] \<Rightarrow> ([], True) | x # r \<Rightarrow> (r @ [x], True))"

record 'v rdv =
  rgate :: int
  rparties :: nat
  rsynch :: nat
  rcount :: nat
  rresets :: nat
  rbroken :: bool
  rshutdown :: bool
  rtriggered :: bool
  slots :: "'v list"
  rtransit :: nat
  offered :: "'v list"

definition rdv_init :: "nat \<Rightarrow> 'v rdv" where
  "rdv_init n =
     \<lparr>rgate = c_int n, rparties = n, rsynch = 0, rcount = 0, rresets = 0, rbroken = False,
      rshutdown = False, rtriggered = False, slots = [], rtransit = 0, offered = []\<rparr>"

definition Rendezvous_new :: "nat \<Rightarrow> 'v rdv outcome" where
  "Rendezvous_new n = (if n = 0 then Throws InitializationException else Returns (rdv_init n))"

datatype rdv_exn = Rdv_exn daf_exception | Function_exn

datatype 'v rdv_pc =
    V_idle
  | V_rendezvous bool 'v
  | V_check bool 'v
  | V_lock bool 'v
  | V_arrive bool 'v
  | V_loop bool bool nat 'v
  | V_woke bool bool nat 'v wres
  | V_catch rdv_exn
  | V_rethrow rdv_exn
  | V_collect bool nat 'v
  | V_exit bool bool bool nat 'v 'v
  | V_waitReset
  | V_reset_enter
  | V_resetting nat
  | V_reset_wait nat
  | V_reset_woke nat wres
  | V_reset_failed
  | V_reset_catch rdv_exn
  | V_destroy
  | V_shut
  | V_drain
  | V_drain_wait
  | V_drain_woke wres
  | V_return 'v
  | V_result bool
  | V_done
  | V_throw rdv_exn

definition rdv_exit_reset :: "'v rdv \<Rightarrow> 'v rdv" where
  "rdv_exit_reset d =
     (let r = size_dec (rresets d) in
      if r = 0 then
        d\<lparr>rresets := 0, slots := [], rgate := gate_release (c_int (rcount d)) (rgate d), rbroken := False,
          rtriggered := False, rsynch := size_add (rsynch d) 1, rcount := 0\<rparr>
      else d\<lparr>rresets := r\<rparr>)"

definition rdv_exit_result :: "bool \<Rightarrow> bool \<Rightarrow> bool \<Rightarrow> 'v \<Rightarrow> 'v rdv_pc" where
  "rdv_exit_result brk shut timeout t_rtn =
     (if timeout then V_throw (Rdv_exn TimeoutException)
      else if shut then V_throw (Rdv_exn IllegalThreadStateException)
      else if brk then V_throw (Rdv_exn BrokenBarrierException)
      else V_return t_rtn)"

fun Rendezvous_code :: "'v rdv_function \<Rightarrow> ('v rdv, 'v rdv_pc) code" where
  "Rendezvous_code fn (V_rendezvous timed t) c intr w d =
     (case gate_acquire (rgate d) of
        Some g \<Rightarrow> (d\<lparr>rgate := g, rtransit := Suc (rtransit d)\<rparr>, Goto (V_check timed t))
      | None \<Rightarrow> if timed \<and> c \<noteq> 0 then (d, Goto (V_throw (Rdv_exn TimeoutException))) else (d, Halt))"
| "Rendezvous_code fn (V_check timed t) c intr w d =
     (if rshutdown d then (d\<lparr>rtransit := rtransit d - 1\<rparr>, Goto (V_throw (Rdv_exn IllegalThreadStateException)))
      else (d, Goto (V_lock timed t)))"
| "Rendezvous_code fn (V_lock timed t) c intr w d = (d, Lock (V_arrive timed t))"
| "Rendezvous_code fn (V_arrive timed t) c intr w d =
     (let k = size_add (rcount d) 1 in
      (d\<lparr>slots := slots d @ [t], rcount := k, rresets := k, rtransit := rtransit d - 1\<rparr>,
       Goto (V_loop timed False (rcount d) t)))"
| "Rendezvous_code fn (V_loop timed timeout index t) c intr w d =
     (if rbroken d \<or> rtriggered d then (d, Goto (V_collect timeout index t))
      else if rshutdown d then (d\<lparr>rbroken := True\<rparr>, Goto (V_loop timed timeout index t))
      else if rcount d \<noteq> rparties d then
        (if timed \<and> c \<noteq> 0 then (d\<lparr>rbroken := True\<rparr>, Goto (V_loop timed True index t))
         else (d, Wait (V_woke timed timeout index t)))
      else if snd (fn (slots d)) then
        (d\<lparr>slots := fst (fn (slots d)), offered := slots d, rtriggered := True\<rparr>, Goto (V_loop timed timeout index t))
      else (d\<lparr>slots := fst (fn (slots d))\<rparr>, Goto (V_catch Function_exn)))"
| "Rendezvous_code fn (V_woke timed timeout index t r) c intr w d =
     (if r = W_interrupted then (d, Goto (V_catch (Rdv_exn InterruptedException)))
      else (d, Goto (V_loop timed timeout index t)))"
| "Rendezvous_code fn (V_catch e) c intr w d =
     (d\<lparr>rresets := size_dec (rresets d), rcount := size_dec (rcount d), rbroken := True\<rparr>, NotifyAll (V_rethrow e))"
| "Rendezvous_code fn (V_rethrow e) c intr w d = (d, Unlock (V_throw e))"
| "Rendezvous_code fn (V_collect timeout index t) c intr w d =
     (if index \<ge> length (slots d) then (d\<lparr>rbroken := True\<rparr>, NotifyAll (V_exit True (rshutdown d) timeout index t t))
      else (d, NotifyAll (V_exit (rbroken d) (rshutdown d) timeout index t (slots d ! index))))"
| "Rendezvous_code fn (V_exit brk shut timeout index t t_rtn) c intr w d =
     (rdv_exit_reset d, Unlock (rdv_exit_result brk shut timeout t_rtn))"
| "Rendezvous_code fn V_waitReset c intr w d = (d, Lock V_reset_enter)"
| "Rendezvous_code fn V_reset_enter c intr w d = (d, Goto (V_resetting (rsynch d)))"
| "Rendezvous_code fn (V_resetting s) c intr w d =
     (if slots d \<noteq> [] then
        if rshutdown d then (d, Goto (V_reset_catch (Rdv_exn IllegalThreadStateException)))
        else if rsynch d = s then
          (if rtriggered d \<or> rbroken d then (d, NotifyAll (V_reset_wait s)) else (d, Goto (V_reset_wait s)))
        else (d, Unlock (V_result True))
      else (d, Unlock (V_result True)))"
| "Rendezvous_code fn (V_reset_wait s) c intr w d = (d, Wait (V_reset_woke s))"
| "Rendezvous_code fn (V_reset_woke s r) c intr w d =
     (case r of
        W_ok \<Rightarrow> (d, Goto (V_resetting s))
      | W_error e \<Rightarrow> (d\<lparr>rbroken := True\<rparr>, NotifyAll V_reset_failed)
      | W_interrupted \<Rightarrow> (d, Goto (V_reset_catch (Rdv_exn InterruptedException))))"
| "Rendezvous_code fn V_reset_failed c intr w d = (d, Unlock (V_result False))"
| "Rendezvous_code fn (V_reset_catch e) c intr w d = (d\<lparr>rbroken := True\<rparr>, NotifyAll (V_rethrow e))"
| "Rendezvous_code fn V_destroy c intr w d = (d, Lock V_shut)"
| "Rendezvous_code fn V_shut c intr w d =
     (d\<lparr>rshutdown := True, rgate := gate_release (int c + 1) (rgate d)\<rparr>, Goto V_drain)"
| "Rendezvous_code fn V_drain c intr w d =
     (if slots d \<noteq> [] \<and> rcount d \<noteq> 0 then (d, NotifyAll V_drain_wait) else (d, Unlock V_done))"
| "Rendezvous_code fn V_drain_wait c intr w d = (d, Wait V_drain_woke)"
| "Rendezvous_code fn (V_drain_woke r) c intr w d =
     (if r = W_interrupted then (d, Unlock (V_throw (Rdv_exn InterruptedException))) else (d, Goto V_drain))"
| "Rendezvous_code fn _ c intr w d = (d, Halt)"

fun rdv_entry :: "'v rdv_pc \<Rightarrow> bool" where
  "rdv_entry (V_rendezvous timed t) = True"
| "rdv_entry V_waitReset = True"
| "rdv_entry V_destroy = True"
| "rdv_entry _ = False"

fun rdv_final :: "'v rdv_pc \<Rightarrow> bool" where
  "rdv_final V_idle = True"
| "rdv_final (V_return t) = True"
| "rdv_final (V_result r) = True"
| "rdv_final V_done = True"
| "rdv_final (V_throw e) = True"
| "rdv_final _ = False"

fun rdv_outside :: "'v rdv_pc \<Rightarrow> bool" where
  "rdv_outside (V_check timed t) = True"
| "rdv_outside (V_lock timed t) = True"
| "rdv_outside l = (rdv_entry l \<or> rdv_final l)"

definition rdv_holds :: "'v rdv_pc \<Rightarrow> bool" where
  "rdv_holds l \<longleftrightarrow> \<not> rdv_outside l"

definition rdv_step :: "'v rdv_function \<Rightarrow> ('v rdv, 'v rdv_pc) mon \<Rightarrow> 'v rdv_pc event \<Rightarrow> ('v rdv, 'v rdv_pc) mon option" where
  "rdv_step fn = mon_step (Rendezvous_code fn) rdv_entry rdv_final"

definition rdv_start :: "nat \<Rightarrow> ('v rdv, 'v rdv_pc) mon" where
  "rdv_start n = mon_init (rdv_init n) V_idle"

section \<open>The monitor invariant\<close>

lemma rdv_exit_result_outside [simp]: "rdv_outside (rdv_exit_result brk shut timeout t)"
  by (simp add: rdv_exit_result_def)

lemma Rendezvous_code_ok: "act_ok rdv_holds l (snd (Rendezvous_code fn l c i w d))"
  by (induction fn l c i w d rule: Rendezvous_code.induct)
    (auto simp: rdv_holds_def Let_def split: option.splits wres.splits)

lemma rdv_outside_ok: "rdv_entry l \<or> rdv_final l \<Longrightarrow> \<not> rdv_holds l"
  by (cases l) (auto simp: rdv_holds_def)

interpretation rendezvous: monitor_client "Rendezvous_code fn" rdv_entry rdv_final rdv_holds for fn
  using Rendezvous_code_ok rdv_outside_ok by (intro monitor_clientI)

section \<open>Undisturbed exchanges\<close>

text \<open>Programs that use only the untimed \<open>rendezvous\<close>.\<close>

fun rdv_calm_entry :: "'v rdv_pc \<Rightarrow> bool" where
  "rdv_calm_entry (V_rendezvous timed t) = (\<not> timed)"
| "rdv_calm_entry _ = False"

definition rdv_calm_step ::
  "'v rdv_function \<Rightarrow> ('v rdv, 'v rdv_pc) mon \<Rightarrow> 'v rdv_pc event \<Rightarrow> ('v rdv, 'v rdv_pc) mon option" where
  "rdv_calm_step fn = mon_step (Rendezvous_code fn) rdv_calm_entry rdv_final"

definition calm_function :: "nat \<Rightarrow> 'v rdv_function \<Rightarrow> bool" where
  "calm_function N fn \<longleftrightarrow> (\<forall>xs. length xs = N \<longrightarrow> snd (fn xs) \<and> length (fst (fn xs)) = N)"

fun rdv_tagged :: "'v rdv_pc \<Rightarrow> bool" where
  "rdv_tagged (V_check timed t) = True"
| "rdv_tagged (V_lock timed t) = True"
| "rdv_tagged (V_arrive timed t) = True"
| "rdv_tagged _ = False"

text \<open>The item that a thread presented stays at its index, before and after the exchange.\<close>

definition presented :: "'v rdv \<Rightarrow> nat \<Rightarrow> 'v \<Rightarrow> bool" where
  "presented d j x \<longleftrightarrow>
     (let xs = (if rtriggered d then offered d else slots d) in j < length xs \<and> xs ! j = x)"

fun rdv_calm :: "'v rdv \<Rightarrow> 'v rdv_pc tstate \<Rightarrow> bool" where
  "rdv_calm d (Entering k) = (\<exists>j x. k = V_woke False False j x \<and> presented d j x)"
| "rdv_calm d (Sleeping k) = (\<exists>j x. k = V_woke False False j x \<and> presented d j x)"
| "rdv_calm d (Waking r k) = (r \<noteq> W_interrupted \<and> (\<exists>j x. k = V_woke False False j x \<and> presented d j x))"
| "rdv_calm d (Run V_idle) = True"
| "rdv_calm d (Run (V_rendezvous t x)) = (\<not> t)"
| "rdv_calm d (Run (V_check t x)) = (\<not> t)"
| "rdv_calm d (Run (V_lock t x)) = (\<not> t)"
| "rdv_calm d (Run (V_arrive t x)) = (\<not> t)"
| "rdv_calm d (Run (V_loop t f j x)) = (\<not> t \<and> \<not> f \<and> presented d j x)"
| "rdv_calm d (Run (V_woke t f j x r)) = (\<not> t \<and> \<not> f \<and> presented d j x \<and> r \<noteq> W_interrupted)"
| "rdv_calm d (Run (V_collect f j x)) = (\<not> f \<and> presented d j x)"
| "rdv_calm d (Run (V_exit b s f j x v)) = (\<not> b \<and> \<not> s \<and> \<not> f \<and> presented d j x \<and> v = slots d ! j)"
| "rdv_calm d (Run (V_return v)) = True"
| "rdv_calm d (Run l) = False"
| "rdv_calm d s = True"

definition rdv_loc :: "'v rdv \<Rightarrow> bool \<Rightarrow> 'v rdv_pc tstate \<Rightarrow> bool" where
  "rdv_loc d i s \<longleftrightarrow> i \<or> rdv_calm d s"

fun rdv_inside :: "'v rdv_pc tstate option \<Rightarrow> nat" where
  "rdv_inside None = 0"
| "rdv_inside (Some (Run (V_arrive t x))) = 0"
| "rdv_inside (Some s) = 1"

fun rdv_leaving :: "'v rdv_pc tstate option \<Rightarrow> bool" where
  "rdv_leaving (Some (Run (V_collect f j x))) = True"
| "rdv_leaving (Some (Run (V_exit b s f j x v))) = True"
| "rdv_leaving _ = False"

fun rdv_silent :: "'v rdv_pc tstate option \<Rightarrow> bool" where
  "rdv_silent (Some (Run (V_loop t f j x))) = True"
| "rdv_silent (Some (Run (V_collect f j x))) = True"
| "rdv_silent _ = False"

definition rdv_good :: "'v rdv_function \<Rightarrow> 'v rdv_pc tstate option \<Rightarrow> 'v rdv \<Rightarrow> nat \<Rightarrow> nat \<Rightarrow> bool" where
  "rdv_good fn h d a n \<longleftrightarrow>
     \<not> rbroken d \<and> \<not> rshutdown d \<and> 0 \<le> rgate d \<and> rresets d = a + n + rdv_inside h \<and> length (slots d) = rcount d \<and>
     (if rtriggered d then rcount d = rparties d \<and> rgate d = 0 \<and> rtransit d = 0 \<and> 0 < rresets d \<and>
        (0 < a \<longrightarrow> rdv_silent h) \<and> (\<forall>k. h \<noteq> Some (Entering k)) \<and>
        length (offered d) = rparties d \<and> slots d = fst (fn (offered d))
      else rcount d = rresets d \<and> rgate d + int (rtransit d) + int (rcount d) = int (rparties d) \<and> \<not> rdv_leaving h \<and>
        (h = None \<or> (\<exists>k. h = Some (Entering k)) \<longrightarrow> rcount d \<noteq> rparties d))"

definition rdv_asn :: "nat \<Rightarrow> 'v rdv_function \<Rightarrow> ('v rdv, 'v rdv_pc) assertion" where
  "rdv_asn N fn h d i a n \<longleftrightarrow> i \<or>
     0 < N \<and> int N \<le> INT_MAX \<and> calm_function N fn \<and> rparties d = N \<and> rdv_good fn h d a n"

lemmas rdv_rule_defs = rdv_asn_def rdv_good_def rdv_loc_def

lemma rdv_good_counts:
  assumes "rdv_good fn h d a n" "int (rparties d) \<le> INT_MAX"
  shows "rcount d \<le> rparties d" "rcount d < 18446744073709551615" "c_int (rcount d) = int (rcount d)"
proof -
  show le: "rcount d \<le> rparties d" using assms(1) by (auto simp: rdv_good_def split: if_splits)
  then show "rcount d < 18446744073709551615" using assms(2) by (simp add: INT_MAX_def)
  show "c_int (rcount d) = int (rcount d)" using le assms(2) by (intro c_int_small) simp
qed

lemma rdv_arrive_good:
  assumes "rdv_good fn (Some (Run (V_arrive t x))) d a n" "0 < rtransit d" "int (rparties d) \<le> INT_MAX"
    "d' = d\<lparr>slots := slots d @ [x], rcount := Suc (rcount d), rresets := Suc (rcount d), rtransit := rtransit d - 1\<rparr>"
  shows "size_add (rcount d) 1 = Suc (rcount d) \<and> rdv_good fn (Some (Run (V_loop t f (rcount d) x))) d' a n \<and>
    presented d' (rcount d) x"
  using assms rdv_good_counts [OF assms(1,3)]
  by (auto simp: rdv_good_def presented_def size_add_def nth_append split: if_splits)

lemma rdv_exit_good:
  assumes "rdv_good fn (Some (Run (V_exit b s f j x v))) d a n" "int (rparties d) \<le> INT_MAX" "0 < rparties d"
  shows "rdv_good fn None (rdv_exit_reset d) a n \<and> rparties (rdv_exit_reset d) = rparties d"
  using assms rdv_good_counts [OF assms(1,2)]
  by (cases "rresets d = 1") (auto simp: rdv_good_def rdv_exit_reset_def gate_release_def Let_def split: if_splits)

lemma rdv_interrupted_post: "act_post (rdv_asn N fn) (rdv_loc d True) d' True a n x"
  by (cases x) (auto simp: rdv_rule_defs)

lemma rdv_loop_good:
  assumes "rdv_good fn (Some (Run (V_loop t f j y))) d a n" "rdv_calm d (Run (V_loop t f j y))" "rparties d = N"
    "calm_function N fn" "0 < N" "int N \<le> INT_MAX" "Rendezvous_code fn (V_loop t f j y) c False w d = (d', x)"
  shows "act_post (rdv_asn N fn) (rdv_loc d' False) d' False a n x"
proof -
  have b: "\<not> rbroken d" "\<not> rshutdown d" using assms(1) by (auto simp: rdv_good_def)
  have len: "length (slots d) = rcount d" using assms(1) by (simp add: rdv_good_def)
  consider "rtriggered d" | "\<not> rtriggered d" "rcount d \<noteq> rparties d"
    | "\<not> rtriggered d" "rcount d = rparties d" "snd (fn (slots d))" "length (fst (fn (slots d))) = N"
    using assms(3,4) len by (auto simp: calm_function_def)
  then show ?thesis
    using assms b by cases (auto simp: rdv_rule_defs presented_def)
qed

lemma rdv_inside_good:
  assumes "rdv_holds l" "rdv_loc d i (Run l)" "rdv_tagged l \<Longrightarrow> 0 < rtransit d" "rdv_asn N fn (Some (Run l)) d i a n"
    "Rendezvous_code fn l c i (int a + int n) d = (d', x)"
  shows "act_post (rdv_asn N fn) (rdv_loc d' i) d' i a n x"
proof (cases i)
  case True
  then show ?thesis by (simp add: rdv_interrupted_post)
next
  case False
  then have calm: "rdv_calm d (Run l)" and N: "0 < N" "int N \<le> INT_MAX" "rparties d = N" "calm_function N fn"
    and g: "rdv_good fn (Some (Run l)) d a n"
    using assms(2,4) by (auto simp: rdv_asn_def rdv_loc_def)
  show ?thesis
  proof (cases l)
    case (V_arrive t y)
    then have "d' = d\<lparr>slots := slots d @ [y], rcount := size_add (rcount d) 1, rresets := size_add (rcount d) 1,
        rtransit := rtransit d - 1\<rparr>" "x = Goto (V_loop t False (rcount d) y)"
      using assms(5) by (auto simp: Let_def)
    then show ?thesis
      using rdv_arrive_good [of fn t y d a n _ False] V_arrive assms(3) N g calm False
      by (auto simp: rdv_asn_def rdv_loc_def)
  next
    case (V_loop t f j y)
    then show ?thesis using rdv_loop_good [of fn t f j y d a n N] g calm N assms(5) False by metis
  next
    case (V_exit b s f j y v)
    then have "d' = rdv_exit_reset d" "x = Unlock (V_return v)"
      using assms(5) calm by (auto simp: rdv_exit_result_def)
    then show ?thesis
      using rdv_exit_good [of fn b s f j y v d a n] V_exit N g False by (auto simp: rdv_asn_def rdv_loc_def)
  next
    case (V_collect f j y)
    then have "rtriggered d" "j < length (slots d)"
      using g calm N by (auto simp: rdv_good_def presented_def Let_def split: if_splits)
    then show ?thesis using assms(5) V_collect calm g N False by (auto simp: rdv_rule_defs split: if_splits)
  qed (use assms calm g N False in \<open>auto simp: rdv_rule_defs rdv_holds_def split: if_splits\<close>)
qed

lemma presented_stable:
  assumes "rdv_good fn (Some (Run l)) d a n" "Rendezvous_code fn l c i w d = (d', x)" "rdv_calm d (Run l)"
    "calm_function (rparties d) fn" "0 < a + n" "presented d j y"
  shows "presented d' j y"
proof (cases l)
  case (V_exit b s f k z v)
  then show ?thesis
    using assms by (auto simp: rdv_good_def rdv_exit_reset_def presented_def Let_def split: if_splits)
next
  case (V_loop t f k z)
  have "length (slots d) = rcount d" using assms(1) by (simp add: rdv_good_def)
  moreover from this have "rcount d = rparties d \<Longrightarrow> snd (fn (slots d))" using assms(4) by (simp add: calm_function_def)
  ultimately show ?thesis
    using assms V_loop by (auto simp: rdv_good_def presented_def Let_def split: if_splits)
qed (use assms in \<open>auto simp: rdv_good_def presented_def Let_def nth_append gate_acquire_def split: if_splits wres.splits\<close>)

lemma rdv_calm_outside: "\<not> in_cs rdv_holds s \<Longrightarrow> \<not> sleeping s \<Longrightarrow> rdv_calm d s = rdv_calm d' s"
proof (cases s)
  case (Run l)
  assume "\<not> in_cs rdv_holds s"
  then show ?thesis using Run by (cases l) (auto simp: rdv_holds_def)
qed auto

lemma rdv_stable:
  assumes "rdv_asn N fn (Some (Run l)) d i a n" "Rendezvous_code fn l c i w d = (d', x)" "rdv_loc d i (Run l)"
    "\<not> in_cs rdv_holds s" "sleeping s \<Longrightarrow> 0 < a + n" "rdv_loc d i s"
  shows "rdv_loc d' i s"
proof (cases "i \<or> \<not> sleeping s")
  case True
  then show ?thesis
  proof
    assume "\<not> sleeping s"
    then show ?thesis using assms(4,6) rdv_calm_outside [of s d d'] by (simp add: rdv_loc_def)
  qed (simp add: rdv_loc_def)
next
  case False
  then obtain k where "s = Sleeping k" by (cases s) auto
  then show ?thesis
    using False assms presented_stable [of fn l d a n c i w d' x] by (auto simp: rdv_loc_def rdv_asn_def)
qed

lemma rdv_tag_law:
  assumes "Rendezvous_code fn l c i w d = (d', x)" "x \<noteq> Halt" "rdv_tagged l \<Longrightarrow> 0 < rtransit d"
  shows "rtransit d' + of_bool (rdv_tagged l) = rtransit d + of_bool (next_tagged rdv_tagged x)"
  using assms
  by (induction fn l c i w d rule: Rendezvous_code.induct)
    (auto simp: Let_def rdv_exit_result_def rdv_exit_reset_def split: option.splits if_splits wres.splits)

lemma rdv_wait_untagged: "Rendezvous_code fn l c i w d = (d', Wait k) \<Longrightarrow> \<not> rdv_tagged (k r)"
  by (induction fn l c i w d rule: Rendezvous_code.induct)
    (auto simp: Let_def split: option.splits if_splits wres.splits)

interpretation rdv_client: monitor_client "Rendezvous_code fn" rdv_calm_entry rdv_final rdv_holds for fn
proof (rule monitor_clientI)
  show "act_ok rdv_holds l (snd (Rendezvous_code fn l c i w d))" for l c i w d by (rule Rendezvous_code_ok)
  show "\<not> rdv_holds l" if "rdv_calm_entry l \<or> rdv_final l" for l
    using that rdv_outside_ok [of l] by (cases l) auto
qed

interpretation exchange: monitor_proof "Rendezvous_code fn" rdv_calm_entry rdv_final rdv_holds "\<lambda>_. rdv_tagged" "\<lambda>_. rtransit"
  "rdv_asn N fn" rdv_loc "\<lambda>r. r \<noteq> W_interrupted" for N fn
proof
  fix l c i w d d' x
  assume "Rendezvous_code fn l c i w d = (d', x)" "x \<noteq> Halt" "\<And>j::nat. rdv_tagged l \<Longrightarrow> 0 < rtransit d"
  then show "rtransit d' + of_bool (rdv_tagged l) = rtransit d + of_bool (next_tagged rdv_tagged x)"
    by (rule rdv_tag_law)
next
  fix l c i w d d' k r
  assume "Rendezvous_code fn l c i w d = (d', Wait k)"
  then show "\<not> rdv_tagged (k r)" by (rule rdv_wait_untagged)
next
  show "\<not> rdv_tagged l" if "rdv_calm_entry l \<or> rdv_final l" for l :: "'a rdv_pc"
    using that by (cases l) auto
next
  fix l d i h a' n c w d' x
  assume a: "\<not> rdv_holds l" "rdv_loc d i (Run l)" "\<And>j::nat. rdv_tagged l \<Longrightarrow> 0 < rtransit d" "rdv_asn N fn h d i a' n" "Rendezvous_code fn l c i w d = (d', x)"
  show "act_outside (rdv_asn N fn) (rdv_loc d' i) d i d' x"
    using a by (cases l) (auto simp: rdv_rule_defs rdv_holds_def gate_acquire_def split: if_splits)
  show "rdv_loc d' i s" if "rdv_loc d i s" for s
  proof -
    have "slots d' = slots d" "offered d' = offered d" "rtriggered d' = rtriggered d"
      using a by (cases l; auto simp: rdv_holds_def gate_acquire_def split: if_splits)+
    then have "presented d' = presented d" by (intro ext) (simp add: presented_def)
    moreover from this have "rdv_calm d' s = rdv_calm d s"
      using \<open>slots d' = slots d\<close> by (cases "(d, s)" rule: rdv_calm.cases) auto
    ultimately show ?thesis using that by (simp add: rdv_loc_def)
  qed
next
  fix l d i a n c d' x s
  assume a: "rdv_holds l" "rdv_loc d i (Run l)" "\<And>j::nat. rdv_tagged l \<Longrightarrow> 0 < rtransit d" "rdv_asn N fn (Some (Run l)) d i a n"
    "Rendezvous_code fn l c i (int a + int n) d = (d', x)"
  show "act_post (rdv_asn N fn) (rdv_loc d' i) d' i a n x" using a by (rule rdv_inside_good)
  show "rdv_loc d' i s" if "\<not> in_cs rdv_holds s" "sleeping s \<Longrightarrow> 0 < a + n" "rdv_loc d i s"
    using rdv_stable [OF a(4,5,2) that] .
qed (auto simp: rdv_rule_defs split: if_splits elim!: rdv_calm_entry.elims plain.elims)

lemma exchange_proved:
  assumes "reachable (rdv_calm_step fn) (rdv_start N) m" "0 < N" "int N \<le> INT_MAX" "calm_function N fn"
  shows "annotated rdv_holds (rdv_asn N fn) rdv_loc m \<and> (\<forall>j::nat. tag_inv rdv_tagged rtransit m)"
proof (rule exchange.reachable_proved)
  show "reachable (restrict_step (wake_in (\<lambda>r. r \<noteq> W_interrupted)) (mon_step (Rendezvous_code fn) rdv_calm_entry rdv_final))
      (mon_init (rdv_init N) V_idle) m"
    using assms(1) by (simp add: restrict_step_real rdv_calm_step_def rdv_start_def)
  show "rdv_asn N fn None (rdv_init N) False 0 0"
    using assms(2-4) by (auto simp: rdv_rule_defs rdv_init_def c_int_small)
qed (auto simp: rdv_loc_def rdv_init_def)

lemmas exchange_reachable = exchange_proved [THEN conjunct1]

lemma exchange_calm:
  assumes "reachable (rdv_calm_step fn) (rdv_start N) m" "0 < N" "int N \<le> INT_MAX" "calm_function N fn" "\<not> interrupted m"
  shows "rdv_calm (data m) (thr m t)"
  using annotatedD(2) [OF exchange_reachable [OF assms(1-4)], of t] assms(5) by (simp add: rdv_loc_def)

text \<open>The arrival index of a thread inside; no two threads have the same one.\<close>

fun pc_index :: "'v rdv_pc \<Rightarrow> nat option" where
  "pc_index (V_loop t f j x) = Some j"
| "pc_index (V_woke t f j x r) = Some j"
| "pc_index (V_collect f j x) = Some j"
| "pc_index (V_exit b s f j x v) = Some j"
| "pc_index l = None"

fun rdv_index :: "'v rdv_pc tstate \<Rightarrow> nat option" where
  "rdv_index (Run l) = pc_index l"
| "rdv_index (Entering k) = pc_index (k W_ok)"
| "rdv_index (Sleeping k) = pc_index (k W_ok)"
| "rdv_index (Waking r k) = pc_index (k W_ok)"
| "rdv_index s = None"

definition indices_differ :: "('v rdv, 'v rdv_pc) mon \<Rightarrow> bool" where
  "indices_differ m \<longleftrightarrow> (\<forall>t u j. t \<noteq> u \<and> rdv_index (thr m t) = Some j \<longrightarrow> rdv_index (thr m u) \<noteq> Some j)"

lemma index_presented: "rdv_calm d s \<Longrightarrow> rdv_index s = Some j \<Longrightarrow> \<exists>x. presented d j x"
  by (cases "(d, s)" rule: rdv_calm.cases) auto

lemma step_index:
  assumes "rdv_calm (data m) (thr m t)" "\<not> interrupted m" "rdv_calm_step fn m e = Some m'" "t = event_tid e"
    "rdv_index (thr m' t) = Some j"
  shows "rdv_index (thr m t) = Some j \<or> (\<exists>b x. thr m t = Run (V_arrive b x) \<and> j = rcount (data m))"
proof (cases "\<exists>pick l. e = Step t pick \<and> thr m t = Run l")
  case True
  then obtain pick l where l: "e = Step t pick" "thr m t = Run l" by blast
  then have "run_code (Rendezvous_code fn) t pick l m = Some m'"
    using assms(3) by (simp add: rdv_calm_step_def mon_step_def thread_step_def)
  with l(2) show ?thesis
    using assms(1,2,5)
    by (cases l) (auto simp: run_code_def wait_test_def rdv_exit_result_def Let_def split: if_splits option.splits)
next
  case False
  then show ?thesis
    using assms
    by (auto simp: rdv_calm_step_def mon_step_def thread_step_def mon_ops elim!: rdv_calm_entry.elims
        split: event.splits tstate.splits if_splits nat.splits)
qed

lemma arrive_index:
  assumes "reachable (rdv_calm_step fn) (rdv_start N) m" "0 < N" "int N \<le> INT_MAX" "calm_function N fn" "\<not> interrupted m"
    "thr m t = Run (V_arrive b x)" "rdv_index (thr m u) = Some j"
  shows "j < rcount (data m)"
proof -
  note ok = exchange_proved [OF assms(1-4)]
  have "mutex m = Some t" using assms(6) mon_invD(1) [OF annotatedD(1) [OF conjunct1 [OF ok]], of t] by (auto simp: rdv_holds_def)
  then have g: "rdv_good fn (Some (Run (V_arrive b x))) (data m) (length (asleep m)) (length (notified m))"
    using annotatedD(4) [OF conjunct1 [OF ok]] assms(5,6) by (auto simp: rdv_asn_def)
  have "0 < rtransit (data m)" using tag_pos [of rdv_tagged rtransit m, OF _ assms(6)] ok by simp
  then show ?thesis
    using g index_presented [OF exchange_calm [OF assms(1-5)] assms(7)] by (auto simp: rdv_good_def presented_def split: if_splits)
qed

lemma indices_step:
  assumes "reachable (rdv_calm_step fn) (rdv_start N) m" "0 < N" "int N \<le> INT_MAX" "calm_function N fn" "\<not> interrupted m"
    "rdv_calm_step fn m e = Some m'" "indices_differ m"
  shows "indices_differ m'"
proof -
  let ?t = "event_tid e"
  have o: "thr m' u = thr m u" if "u \<noteq> ?t" for u using step_other assms(6) that unfolding rdv_calm_step_def by blast
  have d: "rdv_index (thr m u) \<noteq> Some j" if "rdv_index (thr m' ?t) = Some j" "u \<noteq> ?t" for u j
    using step_index [OF exchange_calm [OF assms(1-5)] assms(5,6) refl that(1)]
  proof
    assume "rdv_index (thr m ?t) = Some j"
    then show ?thesis using assms(7) that(2) unfolding indices_differ_def by metis
  next
    assume "\<exists>b x. thr m ?t = Run (V_arrive b x) \<and> j = rcount (data m)"
    then show ?thesis using arrive_index [OF assms(1-5)] by blast
  qed
  show ?thesis
    unfolding indices_differ_def
  proof (intro allI impI, elim conjE)
    fix t u j
    assume "t \<noteq> u" "rdv_index (thr m' t) = Some j"
    then show "rdv_index (thr m' u) \<noteq> Some j"
      using d [of j] o assms(7) unfolding indices_differ_def by (cases "t = ?t"; cases "u = ?t") metis+
  qed
qed

lemma indices_reachable:
  assumes "0 < N" "int N \<le> INT_MAX" "calm_function N fn"
  shows "run (rdv_calm_step fn) (rdv_start N) es = Some m \<Longrightarrow> \<not> interrupted m \<Longrightarrow> indices_differ m"
proof (induction es arbitrary: m rule: rev_induct)
  case Nil
  then show ?case by (auto simp: indices_differ_def rdv_start_def mon_init_def)
next
  case (snoc e es)
  from snoc.prems(1) obtain m1 where m1: "run (rdv_calm_step fn) (rdv_start N) es = Some m1" "rdv_calm_step fn m1 e = Some m"
    by (elim run_snoc)
  have "\<not> interrupted m1" using step_keeps_interrupt snoc.prems(2) m1(2) unfolding rdv_calm_step_def by blast
  then show ?case using indices_step [OF reachableI [OF m1(1)] assms _ m1(2)] snoc.IH [OF m1(1)] by blast
qed

text \<open>The program points of \<open>rendezvous\<close>, which carry its arguments.\<close>

fun rdv_of :: "'v rdv_pc \<Rightarrow> 'v rdv_pc \<Rightarrow> bool" where
  "rdv_of (V_rendezvous b x) l =
     (case l of
        V_rendezvous c y \<Rightarrow> c = b \<and> y = x
      | V_check c y \<Rightarrow> c = b \<and> y = x
      | V_lock c y \<Rightarrow> c = b \<and> y = x
      | V_arrive c y \<Rightarrow> c = b \<and> y = x
      | V_loop c f j y \<Rightarrow> c = b \<and> y = x
      | V_woke c f j y r \<Rightarrow> c = b \<and> y = x
      | V_collect f j y \<Rightarrow> y = x
      | V_exit br s f j y v \<Rightarrow> y = x
      | V_catch e \<Rightarrow> True
      | V_rethrow e \<Rightarrow> True
      | V_return v \<Rightarrow> True
      | V_throw e \<Rightarrow> True
      | _ \<Rightarrow> False)"
| "rdv_of q l = True"

interpretation rdv_history: call_history "Rendezvous_code fn" rdv_calm_entry rdv_final V_idle rdv_of for fn
proof
  show "rdv_of l l" if "rdv_calm_entry l" for l :: "'a rdv_pc" using that by (cases l) auto
  fix q l :: "'a rdv_pc" and c i w d d' x
  assume h: "rdv_of q l" "Rendezvous_code fn l c i w d = (d', x)"
  show "next_all (rdv_of q) x"
  proof (cases "\<exists>b x. q = V_rendezvous b x")
    case True
    then show ?thesis
      using h by (elim exE; cases l) (auto simp: Let_def rdv_exit_result_def split: if_splits option.splits)
  next
    case False
    then have "rdv_of q = (\<lambda>_. True)" by (cases q) auto
    then show ?thesis by (cases x) auto
  qed
qed simp

text \<open>What a thread on its way out carries.\<close>

lemma exchange_exit:
  assumes "0 < N" "int N \<le> INT_MAX" "calm_function N fn" "reachable (rdv_calm_step fn) (rdv_start N) m"
    "\<not> interrupted m" "thr m t = Run (V_exit b s f j x v)"
  shows "\<not> b \<and> \<not> s \<and> \<not> f \<and> j < N \<and> length (offered (data m)) = N \<and> offered (data m) ! j = x \<and>
    v = fst (fn (offered (data m))) ! j"
proof -
  note ok = exchange_reachable [OF assms(4,1,2,3)]
  note loc = exchange_calm [OF assms(4,1,2,3,5), of t]
  have asn: "rparties (data m) = N"
    "rdv_good fn (map_option (thr m) (mutex m)) (data m) (length (asleep m)) (length (notified m))"
    using annotatedD(4) [OF ok] assms(5) by (auto simp: rdv_asn_def)
  have "mutex m = Some t" using assms(6) mon_invD(1) [OF annotatedD(1) [OF ok], of t] by (auto simp: rdv_holds_def)
  then have "rdv_leaving (map_option (thr m) (mutex m))" using assms(6) by auto
  then show ?thesis using asn loc assms(6) by (auto simp: rdv_good_def presented_def Let_def split: if_splits)
qed

text \<open>Only the step that ends the way out returns a value.\<close>

lemma exchange_return:
  assumes "0 < N" "int N \<le> INT_MAX" "calm_function N fn" "reachable (rdv_calm_step fn) (rdv_start N) m"
    "\<not> interrupted m" "rdv_calm_step fn m (Step t pick) = Some m'" "thr m' t = Run (V_return v)"
  obtains b s f j x where "thr m t = Run (V_exit b s f j x v)"
proof -
  note ok = exchange_reachable [OF assms(4,1,2,3)]
  note loc = exchange_calm [OF assms(4,1,2,3,5), of t]
  have n: "thread_step (Rendezvous_code fn) t pick m = Some m'"
    using assms(6) by (simp add: rdv_calm_step_def mon_step_def)
  show ?thesis
  proof (cases "thr m t")
    case (Run l)
    then show ?thesis
      using n assms(7) loc that
      by (cases l) (auto simp: thread_step_def run_code_def wait_test_def rdv_exit_result_def Let_def
          split: if_splits option.splits)
  qed (use n assms(5,7) loc in \<open>auto simp: thread_step_def mon_ops split: if_splits nat.splits\<close>)
qed

lemma rotator_next:
  "j < N \<Longrightarrow> length xs = N \<Longrightarrow> fst (RendezvousRotator xs) ! j = xs ! ((j + 1) mod N)"
  by (cases xs) (auto simp: RendezvousRotator_def nth_append nth_Cons mod_Suc split: nat.splits)

section \<open>Properties\<close>

text \<open>
  Claim C2.  The exchange.  Let \<open>N\<close> parties use only the untimed \<open>rendezvous\<close> with a function
  that returns and keeps the length of the vector.  In every run without an
  interrupt no call throws, and a call \<open>rendezvous(x)\<close> returns, in its last step, element \<open>j\<close> of the
  vector that the function made of the \<open>N\<close> items presented in this round, where \<open>j\<close>, the thread's arrival index, is
  the place of \<open>x\<close> among them; threads that are inside together have different indices, so that every element
  goes to one of them.  With
  the rotator that is the item of the next party, cyclically.
\<close>

theorem rendezvous_exchange:
  assumes "0 < N" "int N \<le> INT_MAX" "calm_function N fn" "run (rdv_calm_step fn) (rdv_start N) es = Some m"
    "\<not> interrupted m"
  shows "(\<forall>t e. thr m t \<noteq> Run (V_throw e)) \<and> indices_differ m \<and>
    (\<forall>t pick m' v. rdv_calm_step fn m (Step t pick) = Some m' \<and> thr m' t = Run (V_return v) \<longrightarrow>
       (\<exists>j x. thr m t = Run (V_exit False False False j x v) \<and> last_call t es = Some (V_rendezvous False x) \<and>
          j < N \<and> length (offered (data m)) = N \<and> offered (data m) ! j = x \<and> v = fst (fn (offered (data m))) ! j \<and>
          (fn = RendezvousRotator \<longrightarrow> v = offered (data m) ! ((j + 1) mod N))))"
proof -
  note re = reachableI [OF assms(4)]
  have nothrow: "thr m t \<noteq> Run (V_throw e)" for t e
    using exchange_calm [OF re assms(1-3,5), of t] by auto
  have "\<exists>j x. thr m t = Run (V_exit False False False j x v) \<and> last_call t es = Some (V_rendezvous False x) \<and>
      j < N \<and> length (offered (data m)) = N \<and> offered (data m) ! j = x \<and> v = fst (fn (offered (data m))) ! j \<and>
      (fn = RendezvousRotator \<longrightarrow> v = offered (data m) ! ((j + 1) mod N))"
    if n: "rdv_calm_step fn m (Step t pick) = Some m'" "thr m' t = Run (V_return v)" for t pick m' v
  proof -
    obtain b s f j x where e: "thr m t = Run (V_exit b s f j x v)" by (rule exchange_return [OF assms(1-3) re assms(5) n])
    note k = exchange_exit [OF assms(1-3) re assms(5) e]
    obtain q where "last_call t es = Some q" "rdv_calm_entry q" "rdv_of q (V_exit b s f j x v)"
      using rdv_history.called [OF assms(4) [unfolded rdv_calm_step_def rdv_start_def] e] by auto
    then have "last_call t es = Some (V_rendezvous False x)" by (cases q) auto
    then show ?thesis using e k rotator_next [of j N "offered (data m)"] by auto
  qed
  then show ?thesis using nothrow indices_reachable [OF assms(1-3) assms(4,5)] by blast
qed

definition two_meet :: "nat rdv_pc event list" where
  "two_meet =
     [Call 0 (V_rendezvous False 10), Step 0 0, Step 0 0, Step 0 0, Step 0 0, Step 0 0, Step 0 0,
      Call 1 (V_rendezvous False 20), Step 1 0, Step 1 0, Step 1 0, Step 1 0, Step 1 0, Step 1 0, Step 1 0]"

theorem rendezvous_exchange_witness:
  "\<exists>m m'. run (rdv_calm_step RendezvousRotator) (rdv_start 2) two_meet = Some m \<and>
     rdv_calm_step RendezvousRotator m (Step 1 0) = Some m' \<and> thr m' 1 = Run (V_return 10) \<and>
     (\<exists>j. j < 2 \<and> offered (data m) ! j = 20 \<and> offered (data m) ! ((j + 1) mod 2) = 10)"
proof -
  let ?f = "RendezvousRotator :: nat rdv_function"
  let ?m = "the (run (rdv_calm_step ?f) (rdv_start 2) two_meet)"
  let ?m' = "the (rdv_calm_step ?f ?m (Step 1 0))"
  have r: "run (rdv_calm_step ?f) (rdv_start 2) two_meet \<noteq> None" and i: "\<not> interrupted ?m"
    and n: "rdv_calm_step ?f ?m (Step 1 0) \<noteq> None" and c: "last_call 1 two_meet = Some (V_rendezvous False 20)"
    and t: "running (thr ?m' 1) = Some (V_return 10)"
    by code_simp+
  have h: "(0::nat) < 2" "int 2 \<le> INT_MAX" "calm_function 2 ?f"
    by (auto simp: INT_MAX_def calm_function_def RendezvousRotator_def split: list.splits)
  have r': "run (rdv_calm_step ?f) (rdv_start 2) two_meet = Some ?m" and n': "rdv_calm_step ?f ?m (Step 1 0) = Some ?m'"
    using r n by simp_all
  note t' = t [unfolded running_Some]
  have "\<exists>j. j < 2 \<and> offered (data ?m) ! j = 20 \<and> offered (data ?m) ! ((j + 1) mod 2) = 10"
    using rendezvous_exchange [OF h r' i, THEN conjunct2, THEN conjunct2, rule_format, OF conjI [OF n' t']] c by auto
  then show ?thesis using r' n' t' by blast
qed

end
