(* ===== verification/Channels.thy ===== *)
theory Channels
  imports Gate "HOL-Library.Multiset"
begin

text \<open>
  The bounded channels: \<^verbatim>\<open>DAF::Channel\<close> (\<^verbatim>\<open>daf/Channel_T.h\<close>), \<^verbatim>\<open>SemaphoreControlledChannel\<close>
  and its two containers, \<^verbatim>\<open>SemaphoreControlledQueue\<close> (a \<^verbatim>\<open>std::list\<close>) and
  \<^verbatim>\<open>SemaphoreControlledPriorityChannel\<close> (a \<^verbatim>\<open>std::priority_queue\<close>).  \<open>put\<close> and \<open>take\<close> are written against the
  virtual \<open>insert\<close> and \<open>extract\<close>, so the code is parameterised over them; \<open>channel_store\<close> is
  the contract of a container.  The guards are counting semaphores (\<open>Gate\<close>) with an
  interrupted flag.  \<open>interrupt\<close> is \<^verbatim>\<open>Monitor::interrupt\<close> (the event of the monitor) followed by
  the interrupts of the two guards.  Allocation of a node and copying an item may throw (choice of the step);
  the default constructor of an item, which \<open>take\<close> calls with its permit and
  outside the \<^verbatim>\<open>try\<close>, does not.  The priority queue is the list of
  its items in the order in which it gives them out, equal ones in the order of insertion.

  History variables: the items inserted and extracted so far, and the numbers of threads that
  hold a permit and have not inserted (\<open>p1\<close>), have inserted and not announced (\<open>p2\<close>), hold an
  item's permit and have not extracted (\<open>t1\<close>), have extracted and not made room (\<open>t2\<close>).
\<close>

section \<open>Model\<close>

record ('v, 's) chan =
  putGuard :: int
  takeGuard :: int
  putStop :: bool
  takeStop :: bool
  store :: 's
  sent :: "'v list"
  received :: "'v list"
  p1 :: nat
  p2 :: nat
  t1 :: nat
  t2 :: nat

definition chan_init :: "'s \<Rightarrow> nat \<Rightarrow> ('v, 's) chan" where
  "chan_init s n =
     \<lparr>putGuard = c_int n, takeGuard = 0, putStop = False, takeStop = False, store = s,
      sent = [], received = [], p1 = 0, p2 = 0, t1 = 0, t2 = 0\<rparr>"

definition chan_capacity :: "('v, 's) chan \<Rightarrow> int" where
  "chan_capacity d = putGuard d + takeGuard d"

definition chan_size :: "('v, 's) chan \<Rightarrow> int" where
  "chan_size d = takeGuard d"

definition chan_empty :: "('v, 's) chan \<Rightarrow> bool" where
  "chan_empty d \<longleftrightarrow> chan_size d = 0"

datatype chan_exn = Chan_exn daf_exception | Item_exn

text \<open>
  The flag of the taking points says whether the call comes from \<open>clear\<close>, which polls until
  something is thrown.
\<close>

datatype 'v chan_pc =
    C_idle
  | C_put bool 'v
  | C_put_guard bool 'v
  | C_insert_lock 'v
  | C_insert 'v
  | C_announce
  | C_put_undo
  | C_take bool bool
  | C_take_guard bool bool
  | C_extract_lock bool
  | C_extract bool
  | C_make_room bool 'v
  | C_take_undo bool
  | C_interrupt
  | C_interrupt_take
  | C_undefined
  | C_return int
  | C_value 'v
  | C_done
  | C_throw chan_exn

definition take_throw :: "bool \<Rightarrow> chan_exn \<Rightarrow> 'v chan_pc" where
  "take_throw clr e = (if clr then C_done else C_throw e)"

fun Channel_code :: "('v \<Rightarrow> 's \<Rightarrow> 's) \<Rightarrow> ('s \<Rightarrow> ('v \<times> 's) option) \<Rightarrow> (('v, 's) chan, 'v chan_pc) code" where
  "Channel_code ins ext (C_put timed v) c intr w d =
     (if intr then (d, Goto (C_throw (Chan_exn InterruptedException))) else (d, Goto (C_put_guard timed v)))"
| "Channel_code ins ext (C_put_guard timed v) c intr w d =
     (if putStop d then (d, Goto (C_throw (Chan_exn InterruptedException)))
      else case gate_acquire (putGuard d) of
        Some g \<Rightarrow> (d\<lparr>putGuard := g, p1 := Suc (p1 d)\<rparr>, Goto (C_insert_lock v))
      | None \<Rightarrow> if timed \<and> c \<noteq> 0 then (d, Goto (C_return (- 1))) else (d, Halt))"
| "Channel_code ins ext (C_insert_lock v) c intr w d = (d, Lock (C_insert v))"
| "Channel_code ins ext (C_insert v) c intr w d =
     (if c = 0 then
        (d\<lparr>store := ins v (store d), sent := sent d @ [v], p1 := p1 d - 1, p2 := Suc (p2 d)\<rparr>, Unlock C_announce)
      else (d, Unlock C_put_undo))"
| "Channel_code ins ext C_announce c intr w d =
     (d\<lparr>takeGuard := gate_release 1 (takeGuard d), p2 := p2 d - 1\<rparr>, Goto (C_return 0))"
| "Channel_code ins ext C_put_undo c intr w d =
     (d\<lparr>putGuard := gate_release 1 (putGuard d), p1 := p1 d - 1\<rparr>, Goto (C_throw Item_exn))"
| "Channel_code ins ext (C_take timed clr) c intr w d =
     (if intr then (d, Goto (take_throw clr (Chan_exn InterruptedException))) else (d, Goto (C_take_guard timed clr)))"
| "Channel_code ins ext (C_take_guard timed clr) c intr w d =
     (if takeStop d then (d, Goto (take_throw clr (Chan_exn InterruptedException)))
      else case gate_acquire (takeGuard d) of
        Some g \<Rightarrow> (d\<lparr>takeGuard := g, t1 := Suc (t1 d)\<rparr>, Goto (C_extract_lock clr))
      | None \<Rightarrow> if timed \<and> c \<noteq> 0 then (d, Goto (take_throw clr (Chan_exn TimeoutException))) else (d, Halt))"
| "Channel_code ins ext (C_extract_lock clr) c intr w d = (d, Lock (C_extract clr))"
| "Channel_code ins ext (C_extract clr) c intr w d =
     (case ext (store d) of
        None \<Rightarrow> (d\<lparr>t1 := t1 d - 1\<rparr>, Unlock C_undefined)
      | Some (v, s) \<Rightarrow>
          if c = 0 then
            (d\<lparr>store := s, received := received d @ [v], t1 := t1 d - 1, t2 := Suc (t2 d)\<rparr>, Unlock (C_make_room clr v))
          else (d, Unlock (C_take_undo clr)))"
| "Channel_code ins ext (C_make_room clr v) c intr w d =
     (d\<lparr>putGuard := gate_release 1 (putGuard d), t2 := t2 d - 1\<rparr>, Goto (if clr then C_take True True else C_value v))"
| "Channel_code ins ext (C_take_undo clr) c intr w d =
     (d\<lparr>takeGuard := gate_release 1 (takeGuard d), t1 := t1 d - 1\<rparr>, Goto (take_throw clr Item_exn))"
| "Channel_code ins ext C_interrupt c intr w d = (d\<lparr>putStop := True\<rparr>, Goto C_interrupt_take)"
| "Channel_code ins ext C_interrupt_take c intr w d = (d\<lparr>takeStop := True\<rparr>, Goto (C_return 0))"
| "Channel_code ins ext _ c intr w d = (d, Halt)"

fun chan_entry :: "'v chan_pc \<Rightarrow> bool" where
  "chan_entry (C_put timed v) = True"
| "chan_entry (C_take timed clr) = True"
| "chan_entry C_interrupt = True"
| "chan_entry _ = False"

fun chan_final :: "'v chan_pc \<Rightarrow> bool" where
  "chan_final C_idle = True"
| "chan_final (C_return r) = True"
| "chan_final (C_value v) = True"
| "chan_final C_done = True"
| "chan_final (C_throw e) = True"
| "chan_final _ = False"

fun chan_holds :: "'v chan_pc \<Rightarrow> bool" where
  "chan_holds (C_insert v) = True"
| "chan_holds (C_extract clr) = True"
| "chan_holds _ = False"

text \<open>The containers.\<close>

definition queue_insert :: "'v \<Rightarrow> 'v list \<Rightarrow> 'v list" where
  "queue_insert v s = s @ [v]"

definition queue_extract :: "'v list \<Rightarrow> ('v \<times> 'v list) option" where
  "queue_extract s = (case s of [] \<Rightarrow> None | v # r \<Rightarrow> Some (v, r))"

text \<open>A priority queue keeps a top element that is not less than any other.\<close>

fun priority_insert :: "('v \<Rightarrow> 'v \<Rightarrow> bool) \<Rightarrow> 'v \<Rightarrow> 'v list \<Rightarrow> 'v list" where
  "priority_insert lt v [] = [v]"
| "priority_insert lt v (x # s) = (if lt x v then v # x # s else x # priority_insert lt v s)"

definition queue_step :: "(('v, 'v list) chan, 'v chan_pc) mon \<Rightarrow> 'v chan_pc event \<Rightarrow> (('v, 'v list) chan, 'v chan_pc) mon option" where
  "queue_step = mon_step (Channel_code queue_insert queue_extract) chan_entry chan_final"

definition priority_step ::
  "('v \<Rightarrow> 'v \<Rightarrow> bool) \<Rightarrow> (('v, 'v list) chan, 'v chan_pc) mon \<Rightarrow> 'v chan_pc event \<Rightarrow> (('v, 'v list) chan, 'v chan_pc) mon option" where
  "priority_step lt = mon_step (Channel_code (priority_insert lt) queue_extract) chan_entry chan_final"

definition chan_start :: "nat \<Rightarrow> (('v, 'v list) chan, 'v chan_pc) mon" where
  "chan_start n = mon_init (chan_init [] n) C_idle"

section \<open>The contract of a container\<close>

fun chan_tagged :: "nat \<Rightarrow> 'v chan_pc \<Rightarrow> bool" where
  "chan_tagged j (C_insert_lock v) = (j = 0)"
| "chan_tagged j (C_insert v) = (j = 0)"
| "chan_tagged j C_put_undo = (j = 0)"
| "chan_tagged j C_announce = (j = 1)"
| "chan_tagged j (C_extract_lock clr) = (j = 2)"
| "chan_tagged j (C_extract clr) = (j = 2)"
| "chan_tagged j (C_take_undo clr) = (j = 2)"
| "chan_tagged j (C_make_room clr v) = (j = 3)"
| "chan_tagged j _ = False"

definition chan_tags :: "nat \<Rightarrow> ('v, 's) chan \<Rightarrow> nat" where
  "chan_tags j d = (if j = 0 then p1 d else if j = 1 then p2 d else if j = 2 then t1 d else if j = 3 then t2 d else 0)"

fun defined :: "'v chan_pc tstate \<Rightarrow> bool" where
  "defined (Run C_undefined) = False"
| "defined (Entering k) = False"
| "defined (Sleeping k) = False"
| "defined (Waking r k) = False"
| "defined _ = True"

lemma take_throw_simps [simp]:
  "chan_holds (take_throw clr e) = False" "chan_final (take_throw clr e)" "chan_tagged j (take_throw clr e) = False"
  "defined (Run (take_throw clr e))"
  by (simp_all add: take_throw_def)

lemma Channel_code_ok: "act_ok chan_holds l (snd (Channel_code ins ext l c i w d))"
  by (induction ins ext l c i w d rule: Channel_code.induct) (auto split: option.splits)

interpretation channel: monitor_client "Channel_code ins ext" chan_entry chan_final chan_holds for ins ext
proof (rule monitor_clientI)
  show "act_ok chan_holds l (snd (Channel_code ins ext l c i w d))" for l c i w d by (rule Channel_code_ok)
  show "\<not> chan_holds l" if "chan_entry l \<or> chan_final l" for l :: "'a chan_pc" using that by (cases l) auto
qed

text \<open>
  Every item in the container is announced, about to be announced, or claimed by a taker;
  room, claims on room, items and room about to be given back make up the capacity; what was
  inserted has been extracted or is still there.
\<close>

definition chan_good :: "('s \<Rightarrow> 'v multiset) \<Rightarrow> int \<Rightarrow> ('v, 's) chan \<Rightarrow> bool" where
  "chan_good items cap d \<longleftrightarrow>
     0 \<le> putGuard d \<and> 0 \<le> takeGuard d \<and>
     int (size (items (store d))) = takeGuard d + int (p2 d) + int (t1 d) \<and>
     putGuard d + int (p1 d) + int (size (items (store d))) + int (t2 d) = cap \<and>
     mset (sent d) = mset (received d) + items (store d)"

locale channel_store =
  fixes ins :: "'v \<Rightarrow> 's \<Rightarrow> 's"
    and ext :: "'s \<Rightarrow> ('v \<times> 's) option"
    and items :: "'s \<Rightarrow> 'v multiset"
  assumes items_ins: "items (ins v s) = add_mset v (items s)"
    and items_ext: "ext s = Some (v, s') \<Longrightarrow> items s = add_mset v (items s')"
    and ext_None: "ext s = None \<Longrightarrow> items s = {#}"
begin

lemma code_good:
  assumes "chan_good items cap d" "\<And>j. chan_tagged j l \<Longrightarrow> 0 < chan_tags j d" "Channel_code ins ext l c i w d = (d', x)"
  shows "chan_good items cap d' \<and> (l \<noteq> C_undefined \<longrightarrow> x \<noteq> Unlock C_undefined)"
proof (cases l)
  case (C_extract clr)
  then have "0 < t1 d" using assms(2) [of 2] by (simp add: chan_tags_def)
  then have "items (store d) \<noteq> {#}" using assms(1) by (auto simp: chan_good_def)
  then obtain v s where e: "ext (store d) = Some (v, s)" using ext_None by (cases "ext (store d)") auto
  show ?thesis
    using e items_ext [OF e] assms C_extract \<open>0 < t1 d\<close> by (auto simp: chan_good_def split: if_splits)
next
  case (C_insert v)
  then show ?thesis
    using assms assms(2) [of 0] by (auto simp: chan_good_def chan_tags_def items_ins split: if_splits)
next
  case C_announce
  then show ?thesis
    using assms assms(2) [of 1] by (auto simp: chan_good_def chan_tags_def gate_release_def)
next
  case C_put_undo
  then show ?thesis
    using assms assms(2) [of 0] by (auto simp: chan_good_def chan_tags_def gate_release_def)
next
  case (C_take_undo clr)
  then show ?thesis
    using assms assms(2) [of 2] by (auto simp: chan_good_def chan_tags_def gate_release_def)
next
  case (C_make_room clr v)
  then show ?thesis
    using assms assms(2) [of 3] by (auto simp: chan_good_def chan_tags_def gate_release_def)
qed (use assms in \<open>auto simp: chan_good_def gate_acquire_def split: if_splits\<close>)

end
lemma chan_tag_law:
  assumes "Channel_code ins ext l c i w d = (d', x)" "x \<noteq> Halt" "\<And>j. chan_tagged j l \<Longrightarrow> 0 < chan_tags j d"
  shows "chan_tags j d' + of_bool (chan_tagged j l) = chan_tags j d + of_bool (next_tagged (chan_tagged j) x)"
proof -
  have pos: "chan_tagged j l \<longrightarrow> 0 < chan_tags j d" using assms(3) by blast
  consider "j = 0" | "j = 1" | "j = 2" | "j = 3" | "3 < j" by linarith
  then show ?thesis
    using assms(1,2) pos
    by cases (cases l; simp add: chan_tags_def split: if_splits option.splits prod.splits; auto)+
qed

sublocale channel_store \<subseteq> store_proof: monitor_proof "Channel_code ins ext" chan_entry chan_final chan_holds
  chan_tagged chan_tags "\<lambda>h d i a n. chan_good items cap d" "\<lambda>d i. defined" "\<lambda>_. True" for cap
proof
  fix l c i w d d' x j
  assume "Channel_code ins ext l c i w d = (d', x)" "x \<noteq> Halt" "\<And>j. chan_tagged j l \<Longrightarrow> 0 < chan_tags j d"
  then show "chan_tags j d' + of_bool (chan_tagged j l) = chan_tags j d + of_bool (next_tagged (chan_tagged j) x)"
    by (rule chan_tag_law)
next
  fix l c i w d d' k r j
  assume "Channel_code ins ext l c i w d = (d', Wait k)"
  then show "\<not> chan_tagged j (k r)"
    by (induction ins ext l c i w d rule: Channel_code.induct) (auto split: if_splits option.splits)
next
  show "\<not> chan_tagged j l" if "chan_entry l \<or> chan_final l" for j and l :: "'a chan_pc"
    using that by (cases l) auto
next
  fix l d i a n c d' x
  assume a: "chan_holds l" "defined (Run l)" "\<And>j. chan_tagged j l \<Longrightarrow> 0 < chan_tags j d" "chan_good items cap d"
    "Channel_code ins ext l c i (int a + int n) d = (d', x)"
  then have "chan_good items cap d' \<and> x \<noteq> Unlock C_undefined" using code_good [OF a(4,3,5)] by (cases l) auto
  then show "act_post (\<lambda>h d i a n. chan_good items cap d) defined d' i a n x"
    using a(1,5) by (cases l) (auto split: if_splits option.splits)
next
  fix l d i h a n c w d' x
  assume a: "\<not> chan_holds l" "defined (Run l)" "\<And>j. chan_tagged j l \<Longrightarrow> 0 < chan_tags j d" "chan_good items cap d"
    "Channel_code ins ext l c i w d = (d', x)"
  then have "chan_good items cap d'" using code_good [OF a(4,3,5)] by blast
  then show "act_outside (\<lambda>h d i a n. chan_good items cap d) defined d i d' x"
    using a(1,2,5) by (cases l) (auto split: if_splits option.splits)
qed (auto elim!: chan_entry.elims plain.elims)

context channel_store
begin

lemma store_reachable:
  assumes "reachable (mon_step (Channel_code ins ext) chan_entry chan_final) (mon_init (chan_init s0 n) C_idle) m"
    "items s0 = {#}" "int n \<le> INT_MAX"
  shows "chan_good items (int n) (data m)" "defined (thr m t)" "tag_inv (chan_tagged j) (chan_tags j) m"
proof -
  have r: "reachable (restrict_step (wake_in (\<lambda>_. True)) (mon_step (Channel_code ins ext) chan_entry chan_final))
      (mon_init (chan_init s0 n) C_idle) m"
    using assms(1) by (simp add: restrict_step_all)
  have i: "chan_good items (int n) (chan_init s0 n)" "\<And>j. chan_tags j (chan_init s0 n) = 0"
    using assms(2,3) by (auto simp: chan_good_def chan_init_def c_int_small chan_tags_def)
  have p: "annotated chan_holds (\<lambda>h d i a n'. chan_good items (int n) d) (\<lambda>d i. defined) m \<and>
      (\<forall>j. tag_inv (chan_tagged j) (chan_tags j) m)"
    by (rule store_proof.reachable_proved [OF r]) (use i in auto)
  then show "chan_good items (int n) (data m)" "defined (thr m t)" "tag_inv (chan_tagged j) (chan_tags j) m"
    by (auto simp: annotated_def)
qed

end

interpretation queue_store: channel_store queue_insert queue_extract mset
  by unfold_locales (auto simp: queue_insert_def queue_extract_def split: list.splits)

lemma mset_priority_insert: "mset (priority_insert lt v s) = add_mset v (mset s)"
  by (induction s) auto

interpretation priority_store: channel_store "priority_insert lt" queue_extract mset for lt
  by unfold_locales (auto simp: mset_priority_insert queue_extract_def split: list.splits)

lemma queue_order: "reachable queue_step (chan_start n) m \<Longrightarrow> sent (data m) = received (data m) @ store (data m)"
  unfolding queue_step_def chan_start_def
proof (erule channel.reachable_data)
  fix l c i w and d :: "('a, 'a list) chan"
  assume "sent d = received d @ store d"
  then show "sent (fst (Channel_code queue_insert queue_extract l c i w d)) =
      received (fst (Channel_code queue_insert queue_extract l c i w d)) @
      store (fst (Channel_code queue_insert queue_extract l c i w d))"
    by (cases l) (auto simp: queue_insert_def queue_extract_def split: option.splits list.splits)
qed (simp_all add: chan_init_def)

lemma idle_untagged_all:
  assumes "tag_inv (chan_tagged j) (chan_tags j) m" "\<And>t. is_idle chan_final (thr m t)"
  shows "chan_tags j (data m) = 0"
proof -
  have "\<not> tag_state (chan_tagged j) (thr m t)" for t
    using assms(2) [of t] channel.is_idle_outside [of "thr m t"]
    by (cases "thr m t") (auto simp: is_idle_def elim!: chan_final.elims)
  then have "tag_set (chan_tagged j) m = {}" by (auto simp: tag_set_def)
  then show ?thesis using assms(1) by (simp add: tag_inv_def)
qed

lemma sorted_priority_insert:
  assumes "\<And>x y. lt x y \<Longrightarrow> \<not> lt y x" "\<And>x y z. \<not> lt x y \<Longrightarrow> \<not> lt y z \<Longrightarrow> \<not> lt x z"
    "sorted_wrt (\<lambda>x y. \<not> lt x y) s"
  shows "sorted_wrt (\<lambda>x y. \<not> lt x y) (priority_insert lt v s)"
  using assms(3)
proof (induction s)
  case (Cons x s)
  show ?case
  proof (cases "lt x v")
    case True
    have "\<not> lt v x" using True by (rule assms(1))
    then have "\<not> lt v y" if "y \<in> set s" for y using assms(2) [of v x y] Cons.prems that by simp
    then show ?thesis using True \<open>\<not> lt v x\<close> Cons.prems by simp
  next
    case False
    have "set (priority_insert lt v s) = insert v (set s)"
      using mset_priority_insert [of lt v s] by (metis set_mset_add_mset_insert set_mset_mset)
    then show ?thesis using False Cons by simp
  qed
qed simp

lemma priority_sorted:
  assumes "\<And>x y. lt x y \<Longrightarrow> \<not> lt y x" "\<And>x y z. \<not> lt x y \<Longrightarrow> \<not> lt y z \<Longrightarrow> \<not> lt x z"
    "reachable (priority_step lt) (chan_start n) m"
  shows "sorted_wrt (\<lambda>x y. \<not> lt x y) (store (data m))"
  using assms(3) unfolding priority_step_def chan_start_def
proof (rule channel.reachable_data)
  fix l c i w and d :: "('a, 'a list) chan"
  assume s: "sorted_wrt (\<lambda>x y. \<not> lt x y) (store d)"
  then show "sorted_wrt (\<lambda>x y. \<not> lt x y) (store (fst (Channel_code (priority_insert lt) queue_extract l c i w d)))"
    using sorted_priority_insert [OF assms(1,2) s]
    by (cases l) (auto simp: queue_extract_def split: option.splits list.splits)
qed (simp_all add: chan_init_def)

section \<open>Properties\<close>

text \<open>
  Claim C4.  The bounded queue.  In every interleaving of \<open>put\<close>, \<open>offer\<close>, \<open>take\<close>, \<open>poll\<close>, \<open>clear\<close>
  and \<open>interrupt\<close>, with time-outs and failing insertions, the items extracted so far followed
  by the stored ones are exactly the inserted ones in order: nothing is lost, duplicated or
  overtaken.  The queue never holds more than its capacity, is never empty when a taker
  extracts, and when no call is in progress \<open>size\<close> is its length and \<open>capacity\<close> is the constructor's argument.
\<close>

theorem queue_fifo_bounded:
  assumes "int n \<le> INT_MAX" "reachable queue_step (chan_start n) m"
  shows "sent (data m) = received (data m) @ store (data m) \<and> length (store (data m)) \<le> n \<and>
    (\<forall>t. thr m t \<noteq> Run C_undefined) \<and>
    (\<forall>t clr. thr m t = Run (C_extract clr) \<longrightarrow> store (data m) \<noteq> []) \<and>
    ((\<forall>t. is_idle chan_final (thr m t)) \<longrightarrow>
       chan_size (data m) = int (length (store (data m))) \<and> chan_capacity (data m) = int n)"
proof -
  note r = assms(2) [unfolded queue_step_def chan_start_def]
  note g = queue_store.store_reachable [OF r _ assms(1), simplified]
  have good: "chan_good mset (int n) (data m)" by (rule g(1))
  have ub: "thr m t \<noteq> Run C_undefined" for t using g(2) [of t] by auto
  have ex: "store (data m) \<noteq> []" if "thr m t = Run (C_extract clr)" for t clr
    using tag_pos [OF g(3) [of 2] that] good by (auto simp: chan_tags_def chan_good_def)
  have idle: "chan_size (data m) = int (length (store (data m))) \<and> chan_capacity (data m) = int n"
    if "\<forall>t. is_idle chan_final (thr m t)"
    using idle_untagged_all [OF g(3), of 0] idle_untagged_all [OF g(3), of 1] idle_untagged_all [OF g(3), of 2]
      idle_untagged_all [OF g(3), of 3] that good
    by (simp add: chan_tags_def chan_good_def chan_size_def chan_capacity_def)
  have "length (store (data m)) \<le> n" using good by (simp add: chan_good_def)
  then show ?thesis using queue_order [OF assms(2)] ub ex idle by blast
qed

definition chan_traffic :: "nat chan_pc event list" where
  "chan_traffic =
     [Call 0 (C_put False 7), Step 0 0, Step 0 0, Step 0 0, Step 0 0, Step 0 0,
      Call 1 (C_put True 8), Step 1 0, Step 1 0, Step 1 0, Step 1 0, Step 1 0,
      Call 2 (C_take False False), Step 2 0, Step 2 0, Step 2 0]"

theorem queue_fifo_bounded_witness:
  "[7, 8] = received (data (the (run queue_step (chan_start 2) chan_traffic))) @
     store (data (the (run queue_step (chan_start 2) chan_traffic)))"
proof -
  have r: "run queue_step (chan_start 2) chan_traffic \<noteq> None"
    and s: "sent (data (the (run queue_step (chan_start 2) chan_traffic))) = [7, 8]"
    by code_simp+
  have h: "int 2 \<le> INT_MAX" by (simp add: INT_MAX_def)
  show ?thesis using queue_fifo_bounded [OF h reachable_run [OF r]] s by metis
qed

text \<open>
  Claim C5.  The priority channel.  If the comparison is a strict weak order, as
  \<^verbatim>\<open>std::priority_queue\<close> requires, an extraction takes an item of the channel that no other
  item in it exceeds; it never meets an empty queue and takes exactly one item out.
\<close>

theorem priority_takes_greatest:
  assumes "\<And>x y. lt x y \<Longrightarrow> \<not> lt y x" "\<And>x y z. \<not> lt x y \<Longrightarrow> \<not> lt y z \<Longrightarrow> \<not> lt x z" "int n \<le> INT_MAX"
    "reachable (priority_step lt) (chan_start n) m" "thr m t = Run (C_extract clr)"
  shows "\<exists>m' v. priority_step lt m (Step t 0) = Some m' \<and> thr m' t = Run (C_make_room clr v) \<and>
    mset (store (data m)) = add_mset v (mset (store (data m'))) \<and> received (data m') = received (data m) @ [v] \<and>
    (\<forall>x \<in> set (store (data m')). \<not> lt v x)"
proof -
  note r = assms(4) [unfolded priority_step_def chan_start_def]
  note g = priority_store.store_reachable [OF r _ assms(3), simplified]
  have "store (data m) \<noteq> []"
    using tag_pos [OF g(3) [of 2] assms(5)] g(1) by (auto simp: chan_tags_def chan_good_def)
  then obtain v s where s: "store (data m) = v # s" by (cases "store (data m)") auto
  moreover have "\<forall>x \<in> set s. \<not> lt v x" using priority_sorted [OF assms(1,2,4)] s by simp
  ultimately show ?thesis
    using assms(5) by (simp add: priority_step_def mon_step_def thread_step_def run_code_def queue_extract_def)
qed

theorem priority_takes_greatest_witness:
  "\<exists>m' v. priority_step (<) (the (run (priority_step (<)) (chan_start 2) chan_traffic)) (Step 2 0) = Some m' \<and>
     received (data m') = [v] \<and> (\<forall>x \<in> set (store (data m')). \<not> v < x)"
proof -
  let ?m = "the (run (priority_step (<)) (chan_start 2) chan_traffic)"
  have r: "run (priority_step (<)) (chan_start 2) chan_traffic \<noteq> None"
    and t: "running (thr ?m 2) = Some (C_extract False)" and e: "received (data ?m) = []"
    by code_simp+
  have h: "int 2 \<le> INT_MAX" by (simp add: INT_MAX_def)
  have "\<exists>m' v. priority_step (<) ?m (Step 2 0) = Some m' \<and> thr m' 2 = Run (C_make_room False v) \<and>
      mset (store (data ?m)) = add_mset v (mset (store (data m'))) \<and> received (data m') = received (data ?m) @ [v] \<and>
      (\<forall>x \<in> set (store (data m')). \<not> v < x)"
    by (rule priority_takes_greatest [OF _ _ h reachable_run [OF r] t [unfolded running_Some]]) auto
  then show ?thesis using e by auto
qed

end
