(* ===== verification/Future_Result.thy ===== *)
theory Future_Result
  imports Monitor_History
begin

text \<open>
  \<^verbatim>\<open>DAF::FutureResult\<close> (\<^verbatim>\<open>daf/FutureResult_T.h\<close>, \<^verbatim>\<open>.cpp\<close>): a value that is set once it has been
  computed, and that \<open>get\<close> waits for.  Code of the monitor the class inherits; the choice of
  a step tells whether a deadline has passed.  Running the functor is code of the client: the entry
  point of a runnable carries its outcome.  \<^verbatim>\<open>value_\<close> starts as an arbitrary default.
\<close>

section \<open>Model\<close>

record 'v fut =
  ready :: bool
  ferror :: bool
  fwaiters :: nat
  fvalue :: 'v

definition FutureResult_new :: "'v \<Rightarrow> 'v fut" where
  "FutureResult_new dflt = \<lparr>ready = False, ferror = False, fwaiters = 0, fvalue = dflt\<rparr>"

definition isReady :: "'v fut \<Rightarrow> bool" where
  "isReady d \<longleftrightarrow> ferror d \<or> ready d"

definition isError :: "'v fut \<Rightarrow> bool" where
  "isError d \<longleftrightarrow> ferror d"

datatype 'v fut_pc =
    F_idle
  | F_get bool
  | F_enter bool
  | F_loop bool bool
  | F_woke bool bool wres
  | F_peek
  | F_peeking
  | F_reset
  | F_resetting
  | F_setValue 'v int
  | F_setting 'v int
  | F_setError int
  | F_failing int
  | F_unlock int
  | F_run "'v option"
  | F_destroy
  | F_drain
  | F_draining
  | F_drain_wait
  | F_drain_woke wres
  | F_return int
  | F_value 'v
  | F_throw daf_exception

text \<open>
  The setters carry the value that the call returns: nothing for \<open>setValue\<close> and \<open>setError\<close>
  themselves, and the result of \<open>run\<close> when a functor calls them.  \<open>setError\<close> assigns \<open>T()\<close>,
  the parameter \<open>dflt\<close> of the code.
\<close>

fun Future_code :: "'v \<Rightarrow> ('v fut, 'v fut_pc) code" where
  "Future_code dflt (F_get timed) c intr w d = (d, Lock (F_enter timed))"
| "Future_code dflt (F_enter timed) c intr w d = (d\<lparr>fwaiters := Suc (fwaiters d)\<rparr>, Goto (F_loop timed False))"
| "Future_code dflt (F_loop timed timeout) c intr w d =
     (if ferror d \<or> timeout then
        (d\<lparr>fwaiters := fwaiters d - 1\<rparr>,
         Unlock (F_throw (if timeout then TimeoutException else InvocationTargetException)))
      else if ready d then (d\<lparr>fwaiters := fwaiters d - 1\<rparr>, Unlock (F_value (fvalue d)))
      else if timed \<and> c \<noteq> 0 then (d, Goto (F_loop timed True))
      else (d, Wait (F_woke timed timeout)))"
| "Future_code dflt (F_woke timed timeout r) c intr w d =
     (if r = W_interrupted then
        (d\<lparr>fwaiters := fwaiters d - 1, ferror := True\<rparr>, Unlock (F_throw InterruptedException))
      else (d, Goto (F_loop timed timeout)))"
| "Future_code dflt F_peek c intr w d = (d, Lock F_peeking)"
| "Future_code dflt F_peeking c intr w d = (d, Unlock (F_value (fvalue d)))"
| "Future_code dflt F_reset c intr w d = (d, Lock F_resetting)"
| "Future_code dflt F_resetting c intr w d = (d\<lparr>ready := False, ferror := False\<rparr>, Unlock (F_return 0))"
| "Future_code dflt (F_setValue v rc) c intr w d = (d, Lock (F_setting v rc))"
| "Future_code dflt (F_setting v rc) c intr w d = (d\<lparr>fvalue := v, ready := True\<rparr>, NotifyAll (F_unlock rc))"
| "Future_code dflt (F_setError rc) c intr w d = (d, Lock (F_failing rc))"
| "Future_code dflt (F_failing rc) c intr w d = (d\<lparr>fvalue := dflt, ferror := True\<rparr>, NotifyAll (F_unlock rc))"
| "Future_code dflt (F_unlock rc) c intr w d = (d, Unlock (F_return rc))"
| "Future_code dflt (F_run r) c intr w d =
     (case r of Some v \<Rightarrow> (d, Goto (F_setValue v 0)) | None \<Rightarrow> (d, Goto (F_setError (- 1))))"
| "Future_code dflt F_destroy c intr w d = (d, Lock F_drain)"
| "Future_code dflt F_drain c intr w d = (d\<lparr>ferror := True\<rparr>, Goto F_draining)"
| "Future_code dflt F_draining c intr w d =
     (if fwaiters d > 0 then (d, NotifyAll F_drain_wait) else (d, Unlock (F_return 0)))"
| "Future_code dflt F_drain_wait c intr w d = (d, Wait F_drain_woke)"
| "Future_code dflt (F_drain_woke r) c intr w d =
     (if r = W_interrupted then (d, Unlock (F_throw InterruptedException)) else (d, Goto F_draining))"
| "Future_code dflt _ c intr w d = (d, Halt)"

text \<open>The destructor is the one operation that must not run beside the others.\<close>

fun fut_entry :: "'v fut_pc \<Rightarrow> bool" where
  "fut_entry (F_get timed) = True"
| "fut_entry F_peek = True"
| "fut_entry F_reset = True"
| "fut_entry (F_setValue v rc) = True"
| "fut_entry (F_setError rc) = True"
| "fut_entry (F_run r) = True"
| "fut_entry _ = False"

fun fut_final :: "'v fut_pc \<Rightarrow> bool" where
  "fut_final F_idle = True"
| "fut_final (F_return r) = True"
| "fut_final (F_value v) = True"
| "fut_final (F_throw e) = True"
| "fut_final _ = False"

definition fut_holds :: "'v fut_pc \<Rightarrow> bool" where
  "fut_holds l \<longleftrightarrow> \<not> (fut_entry l \<or> fut_final l \<or> l = F_destroy)"

definition fut_step :: "'v \<Rightarrow> ('v fut, 'v fut_pc) mon \<Rightarrow> 'v fut_pc event \<Rightarrow> ('v fut, 'v fut_pc) mon option" where
  "fut_step dflt = mon_step (Future_code dflt) fut_entry fut_final"

definition fut_start :: "'v \<Rightarrow> ('v fut, 'v fut_pc) mon" where
  "fut_start dflt = mon_init (FutureResult_new dflt) F_idle"

section \<open>Lemmas\<close>

interpretation future: guarded_client "Future_code dflt" fut_entry fut_final fut_holds for dflt
proof (rule guarded_clientI)
  show "act_ok fut_holds l (snd (Future_code dflt l c i w d)) \<and>
      (\<not> fut_holds l \<longrightarrow> fst (Future_code dflt l c i w d) = d)" for l c i w d
    by (cases l) (auto simp: fut_holds_def split: option.splits)
  show "\<not> fut_holds l" if "fut_entry l \<or> fut_final l" for l
    using that by (auto simp: fut_holds_def)
qed

text \<open>Threads inside \<open>get\<close>: the sleepers, and the holder at these points.\<close>

fun getting :: "'v fut_pc tstate option \<Rightarrow> nat" where
  "getting (Some (Run (F_loop timed timeout))) = 1"
| "getting (Some (Run (F_woke timed timeout r))) = 1"
| "getting (Some (Entering k)) = 1"
| "getting (Some (Waking r k)) = 1"
| "getting _ = 0"

fun fut_loc :: "'v fut_pc tstate \<Rightarrow> bool" where
  "fut_loc (Entering k) = (\<exists>timed. k = F_woke timed False)"
| "fut_loc (Sleeping k) = (\<exists>timed. k = F_woke timed False)"
| "fut_loc (Waking r k) = (r \<noteq> W_interrupted \<and> (\<exists>timed. k = F_woke timed False))"
| "fut_loc (Run F_destroy) = False"
| "fut_loc (Run F_drain) = False"
| "fut_loc (Run F_draining) = False"
| "fut_loc (Run F_drain_wait) = False"
| "fut_loc (Run (F_drain_woke r)) = False"
| "fut_loc (Run (F_woke timed timeout r)) = (\<not> timeout)"
| "fut_loc _ = True"

fun fut_asn :: "('v fut, 'v fut_pc) assertion" where
  "fut_asn h d i a n \<longleftrightarrow>
     fwaiters d = a + n + getting h \<and>
     (\<not> i \<longrightarrow> (\<forall>timed timeout. h \<noteq> Some (Run (F_woke timed timeout W_interrupted)))) \<and>
     (\<not> i \<longrightarrow> (\<exists>k. h = Some (Entering k)) \<or> 0 < a \<longrightarrow> \<not> ready d \<and> \<not> ferror d)"

interpretation future_rule: monitor_proof "Future_code dflt" fut_entry fut_final fut_holds "\<lambda>_ _. False" "\<lambda>_ _. 0"
  fut_asn "\<lambda>_ _. fut_loc" "\<lambda>r. r \<noteq> W_interrupted" for dflt
proof
  fix l c i a n d d' x
  assume h: "fut_holds l" "fut_loc (Run l)" "fut_asn (Some (Run l)) d i a n"
    and c: "Future_code dflt l c i (int a + int n) d = (d', x)"
  then show "act_post fut_asn fut_loc d' i a n x"
    by (cases l) (auto simp: fut_holds_def split: if_splits)
next
  fix l c i w d d' x h a n
  assume "\<not> fut_holds l" "fut_loc (Run l)" "fut_asn h d i a n" "Future_code dflt l c i w d = (d', x)"
  then show "act_outside fut_asn fut_loc d i d' x"
    by (cases l) (auto simp: fut_holds_def split: option.splits)
qed (auto elim!: fut_entry.elims plain.elims)

lemma fut_reachable:
  assumes "reachable (fut_step dflt) (fut_start dflt) m"
  shows "annotated fut_holds fut_asn (\<lambda>_ _. fut_loc) m"
proof (rule future_rule.reachable_annotated)
  show "reachable (restrict_step (wake_in (\<lambda>r. r \<noteq> W_interrupted)) (mon_step (Future_code dflt) fut_entry fut_final))
      (mon_init (FutureResult_new dflt) F_idle) m"
    using assms by (simp add: restrict_step_real fut_step_def fut_start_def)
qed (simp_all add: FutureResult_new_def)

text \<open>A sleeper that runs after the result is there leaves \<open>get\<close> with it.\<close>

lemma sleeper_gets:
  assumes "thr m t = Sleeping (F_woke timed False)" "mutex m = None" "\<not> interrupted m" "isReady (data m)"
  shows "\<exists>m'. run (fut_step dflt) m [Wake t W_ok, Step t 0, Step t 0, Step t 0] = Some m' \<and> mutex m' = None \<and>
    thr m' t = Run (if isError (data m) then F_throw InvocationTargetException else F_value (fvalue (data m)))"
  using assms
  by (auto simp: fut_step_def mon_step_def wait_wake_def thread_step_def wait_leave_def run_code_def isReady_def isError_def)

section \<open>What was set\<close>

text \<open>
  The value that a call sets, if it sets one.  \<open>last_set\<close> reads off a run the value of the call that
  took effect last, that is, whose thread executed the assignment under the mutex, since
  the last \<open>reset\<close>: the argument of the call, not the contents of \<^verbatim>\<open>value_\<close>.
\<close>

fun set_by :: "'v fut_pc \<Rightarrow> 'v option" where
  "set_by (F_setValue v rc) = Some v"
| "set_by (F_run r) = r"
| "set_by l = None"

fun note_set :: "'v fut_pc option \<Rightarrow> 'v fut_pc tstate \<Rightarrow> 'v option \<Rightarrow> 'v option" where
  "note_set q (Run (F_setting v rc)) c = Option.bind q set_by"
| "note_set q (Run F_resetting) c = None"
| "note_set q s c = c"

primrec last_set_rev :: "'v \<Rightarrow> 'v fut_pc event list \<Rightarrow> 'v option" where
  "last_set_rev dflt [] = None"
| "last_set_rev dflt (e # es) =
     (case (e, run (fut_step dflt) (fut_start dflt) (rev es)) of
        (Step t pick, Some m) \<Rightarrow> note_set (last_call t (rev es)) (thr m t) (last_set_rev dflt es)
      | _ \<Rightarrow> last_set_rev dflt es)"

definition last_set :: "'v \<Rightarrow> 'v fut_pc event list \<Rightarrow> 'v option" where
  "last_set dflt es = last_set_rev dflt (rev es)"

lemma last_set_snoc:
  assumes "run (fut_step dflt) (fut_start dflt) es = Some m"
  shows "last_set dflt (es @ [e]) =
    (case e of Step t pick \<Rightarrow> note_set (last_call t es) (thr m t) (last_set dflt es) | _ \<Rightarrow> last_set dflt es)"
  using assms by (cases e) (simp_all add: last_set_def)

text \<open>The program points of the operations.\<close>

fun fut_of :: "'v fut_pc \<Rightarrow> 'v fut_pc \<Rightarrow> bool" where
  "fut_of (F_get timed) l =
     (case l of
        F_get b \<Rightarrow> b = timed
      | F_enter b \<Rightarrow> b = timed
      | F_loop b f \<Rightarrow> b = timed \<and> (f \<longrightarrow> timed)
      | F_woke b f r \<Rightarrow> b = timed \<and> (f \<longrightarrow> timed)
      | F_value v \<Rightarrow> True
      | F_throw e \<Rightarrow> e = TimeoutException \<longrightarrow> timed
      | _ \<Rightarrow> False)"
| "fut_of F_peek l = (case l of F_peek \<Rightarrow> True | F_peeking \<Rightarrow> True | F_value v \<Rightarrow> True | _ \<Rightarrow> False)"
| "fut_of F_reset l = (case l of F_reset \<Rightarrow> True | F_resetting \<Rightarrow> True | F_return r \<Rightarrow> r = 0 | _ \<Rightarrow> False)"
| "fut_of q l =
     (case l of
        F_run r \<Rightarrow> q = F_run r
      | F_setValue v rc \<Rightarrow> set_by q = Some v
      | F_setting v rc \<Rightarrow> set_by q = Some v
      | F_setError rc \<Rightarrow> set_by q = None
      | F_failing rc \<Rightarrow> set_by q = None
      | F_unlock rc \<Rightarrow> True
      | F_return rc \<Rightarrow> True
      | _ \<Rightarrow> False)"

interpretation fut_history: call_history "Future_code dflt" fut_entry fut_final F_idle fut_of for dflt
proof
  show "fut_of l l" if "fut_entry l" for l :: "'a fut_pc" using that by (cases l) auto
  fix q l :: "'a fut_pc" and c i w d d' x
  assume h: "fut_of q l" "Future_code dflt l c i w d = (d', x)"
  show "next_all (fut_of q) x"
  proof (cases "fut_entry q")
    case True
    then show ?thesis using h by (cases q) (cases l; auto split: if_splits option.splits)+
  next
    case False
    then show ?thesis using h by (cases q) (cases l; auto split: if_splits option.splits)+
  qed
qed simp

lemma setting_sets:
  assumes "run (fut_step dflt) (fut_start dflt) es = Some m" "thr m t = Run (F_setting v rc)"
  shows "Option.bind (last_call t es) set_by = Some v"
proof -
  obtain q where "last_call t es = Some q" "fut_entry q" "fut_of q (F_setting v rc)"
    using fut_history.called [OF assms(1) [unfolded fut_step_def fut_start_def] assms(2)] by auto
  then show ?thesis by (cases q) auto
qed

text \<open>While a future is ready without an error it stores what was set last.\<close>

lemma step_stores:
  assumes "run (fut_step dflt) (fut_start dflt) es = Some m" "fut_step dflt m e = Some m'"
    "ready (data m) \<and> \<not> ferror (data m) \<longrightarrow> last_set dflt es = Some (fvalue (data m))"
  shows "ready (data m') \<and> \<not> ferror (data m') \<longrightarrow> last_set dflt (es @ [e]) = Some (fvalue (data m'))"
proof (cases "\<exists>t pick l. e = Step t pick \<and> thr m t = Run l")
  case True
  then obtain t pick l where e: "e = Step t pick" and l: "thr m t = Run l" by blast
  have "run_code (Future_code dflt) t pick l m = Some m'"
    using assms(2) e l by (simp add: fut_step_def mon_step_def thread_step_def)
  from run_code_data [OF this] show ?thesis
    using assms(3) setting_sets [OF assms(1)] l last_set_snoc [OF assms(1), of e] e
    by (cases l) (auto split: if_splits option.splits)
next
  case False
  then have "data m' = data m"
    using assms(2)
    by (auto simp: fut_step_def mon_step_def thread_step_def mon_ops split: event.splits tstate.splits if_splits nat.splits)
  moreover have "last_set dflt (es @ [e]) = last_set dflt es"
    using False last_set_snoc [OF assms(1), of e] by (cases e; cases "thr m (event_tid e)") auto
  ultimately show ?thesis using assms(3) by simp
qed

lemma stores_last_set:
  "run (fut_step dflt) (fut_start dflt) es = Some m \<Longrightarrow>
     ready (data m) \<and> \<not> ferror (data m) \<longrightarrow> last_set dflt es = Some (fvalue (data m))"
proof (induction es arbitrary: m rule: rev_induct)
  case Nil
  then show ?case by (auto simp: fut_start_def mon_init_def FutureResult_new_def)
next
  case (snoc e es)
  then show ?case by (elim run_snoc) (rule step_stores)
qed

lemma get_returns:
  assumes "run (fut_step dflt) (fut_start dflt) es = Some m" "last_call t es = Some (F_get timed)"
    "fut_step dflt m (Step t pick) = Some m'"
  shows "(thr m' t = Run (F_value v) \<longrightarrow> ready (data m) \<and> \<not> isError (data m) \<and> last_set dflt es = Some v) \<and>
    (thr m' t = Run (F_throw TimeoutException) \<longrightarrow> timed) \<and>
    (thr m' t = Run (F_throw InvocationTargetException) \<longrightarrow> isError (data m))"
proof -
  have q: "at_all (fut_of (F_get timed)) (thr m t)"
    by (rule fut_history.within_call [OF assms(1) [unfolded fut_step_def fut_start_def] assms(2)])
  note k = annotatedD(2) [OF fut_reachable [OF reachableI [OF assms(1)]], of t]
  have s: "thread_step (Future_code dflt) t pick m = Some m'" using assms(3) by (simp add: fut_step_def mon_step_def)
  show ?thesis
  proof (cases "thr m t")
    case (Run l)
    then show ?thesis
      using q s stores_last_set [OF assms(1)]
      by (cases l) (auto simp: thread_step_def run_code_def wait_test_def isError_def split: if_splits)
  next
    case (Waking y f)
    then show ?thesis using k s by (auto simp: thread_step_def wait_leave_def)
  qed (use s in \<open>auto simp: thread_step_def mon_ops split: if_splits nat.splits\<close>)
qed

section \<open>Properties\<close>

text \<open>
  Claim C8.  Futures deliver.  Whatever threads do with a \<open>FutureResult\<close> short of destroying it:
  the waiter count is the number of threads inside \<open>get\<close>; a call of \<open>get\<close>, with or without a
  deadline and by whatever path through its code, that returns a value returns the argument of the \<open>setValue\<close>, or the result
  of the \<open>run\<close>, that took effect last since the last \<open>reset\<close>, while no error is recorded, so it never returns
  before one did; it throws \<open>TimeoutException\<close> only if it has a deadline and \<open>InvocationTargetException\<close> only if there is an error;
  and, unless interrupted, as soon as a value or an error is there and the mutex is free, nobody sleeps
  unsignalled and every thread still waiting leaves by steps of its own with the stored value, which is the one
  set last, or with \<open>InvocationTargetException\<close> if there was an error.
\<close>

theorem future_delivers:
  assumes "run (fut_step dflt) (fut_start dflt) es = Some m"
  shows "(mutex m = None \<longrightarrow> fwaiters (data m) = length (asleep m) + length (notified m)) \<and>
    (\<forall>t timed pick m' v. last_call t es = Some (F_get timed) \<and> fut_step dflt m (Step t pick) = Some m' \<longrightarrow>
       (thr m' t = Run (F_value v) \<longrightarrow> ready (data m) \<and> \<not> isError (data m) \<and> last_set dflt es = Some v) \<and>
       (thr m' t = Run (F_throw TimeoutException) \<longrightarrow> timed) \<and>
       (thr m' t = Run (F_throw InvocationTargetException) \<longrightarrow> isError (data m))) \<and>
    (isReady (data m) \<and> \<not> isError (data m) \<longrightarrow> last_set dflt es = Some (fvalue (data m))) \<and>
    (isReady (data m) \<and> mutex m = None \<and> \<not> interrupted m \<longrightarrow> asleep m = [] \<and>
       (\<forall>t. sleeping (thr m t) \<longrightarrow>
          (\<exists>m'. run (fut_step dflt) m [Wake t W_ok, Step t 0, Step t 0, Step t 0] = Some m' \<and> mutex m' = None \<and>
             thr m' t = Run (if isError (data m) then F_throw InvocationTargetException else F_value (fvalue (data m))))))"
proof -
  note ok = fut_reachable [OF reachableI [OF assms]]
  have c: "mutex m = None \<Longrightarrow> fwaiters (data m) = length (asleep m) + length (notified m)"
    "mutex m = None \<Longrightarrow> \<not> interrupted m \<Longrightarrow> isReady (data m) \<Longrightarrow> asleep m = []"
    using annotatedD(4) [OF ok] by (auto simp: isReady_def)
  have l: "isReady (data m) \<Longrightarrow> \<not> isError (data m) \<Longrightarrow> last_set dflt es = Some (fvalue (data m))"
    using stores_last_set [OF assms] by (simp add: isReady_def isError_def)
  have s: "\<exists>m'. run (fut_step dflt) m [Wake t W_ok, Step t 0, Step t 0, Step t 0] = Some m' \<and> mutex m' = None \<and>
      thr m' t = Run (if isError (data m) then F_throw InvocationTargetException else F_value (fvalue (data m)))"
    if h: "isReady (data m)" "mutex m = None" "\<not> interrupted m" and sl: "sleeping (thr m t)" for t
  proof -
    obtain timed where "thr m t = Sleeping (F_woke timed False)"
      using annotatedD(2) [OF ok, of t] sl by (cases "thr m t") auto
    from sleeper_gets [OF this h(2,3,1)] show ?thesis .
  qed
  show ?thesis by (intro conjI allI impI; (elim conjE)?) (use c l s get_returns [OF assms] in blast)+
qed

definition fut_traffic :: "nat fut_pc event list" where
  "fut_traffic =
     [Call 0 (F_get False), Step 0 0, Step 0 0, Step 0 0, Step 0 0,
      Call 1 (F_run (Some 42)), Step 1 0, Step 1 0, Step 1 0, Step 1 0]"

theorem future_delivers_witness:
  "\<exists>m m'. run (fut_step 0) (fut_start 0) (fut_traffic @ [Wake 0 W_ok, Step 0 0, Step 0 0]) = Some m \<and>
     fut_step 0 m (Step 0 0) = Some m' \<and> thr m' 0 = Run (F_value (42::nat)) \<and>
     last_set 0 (fut_traffic @ [Wake 0 W_ok, Step 0 0, Step 0 0]) = Some 42"
proof -
  let ?es = "fut_traffic @ [Wake 0 W_ok, Step 0 0, Step 0 0]"
  let ?m = "the (run (fut_step 0) (fut_start 0) ?es)"
  let ?m' = "the (fut_step 0 ?m (Step 0 0))"
  have r: "run (fut_step 0) (fut_start 0) ?es \<noteq> None" and n: "fut_step 0 ?m (Step 0 0) \<noteq> None"
    and c: "last_call 0 ?es = Some (F_get False)" and d: "running (thr ?m' 0) = Some (F_value 42)"
    by code_simp+
  have r': "run (fut_step 0) (fut_start 0) ?es = Some ?m" and n': "fut_step 0 ?m (Step 0 0) = Some ?m'"
    using r n by simp_all
  have "last_set 0 ?es = Some 42"
    using future_delivers [OF r', THEN conjunct2, THEN conjunct1, rule_format, OF conjI [OF c n'], THEN conjunct1, rule_format,
        OF d [unfolded running_Some]] by blast
  then show ?thesis using r' n' d [unfolded running_Some] by blast
qed

end
