(* ===== verification/Synch_Value.thy ===== *)
theory Synch_Value
  imports Gate Monitor_History
begin

text \<open>
  \<^verbatim>\<open>DAF::SynchValue\<close> (\<^verbatim>\<open>daf/SynchValue_T.h\<close>, \<^verbatim>\<open>.cpp\<close>): threads wait until a variable has a given
  value; a setter stores a value, wakes the waiters and waits until each of them has looked.
  The code of the monitor uses two semaphores through \<open>Gate\<close>: \<^verbatim>\<open>setterGate_\<close> admits one
  setter, \<^verbatim>\<open>itemTaken_\<close> counts the looks.  The choice of a step tells whether a deadline has
  passed and, in the destructor, how many setters wait at the gate.
\<close>

section \<open>Model\<close>

record 'v sval =
  svalue :: 'v
  sshutdown :: bool
  swaiters :: nat
  itemTaken :: int
  setterGate :: int

definition SynchValue_new :: "'v \<Rightarrow> 'v sval" where
  "SynchValue_new v = \<lparr>svalue = v, sshutdown = False, swaiters = 0, itemTaken = 0, setterGate = 1\<rparr>"

datatype 'v sval_pc =
    SV_idle
  | S_set 'v
  | S_gate 'v
  | S_dcl 'v
  | S_lock 'v
  | S_store 'v
  | S_stored int
  | S_take int
  | S_open
  | W_value bool 'v
  | W_lock bool 'v
  | W_enter bool 'v
  | W_loop bool 'v
  | W_woke bool 'v wres
  | W_leave bool 'v
  | S_get
  | S_getting
  | S_destroy
  | S_shut
  | S_flush
  | S_drain
  | S_drain_wait
  | S_drain_woke wres
  | S_return int
  | S_value 'v
  | S_throw daf_exception

text \<open>
  \<open>W_leave\<close> carries the argument of \<open>waitValue\<close>, which is still in scope there and which the code does not read.
  \<open>S_take n\<close> is \<open>SynchWaiterSemaphore::acquire(n)\<close>, whose loop runs while \<open>n-- >= 0\<close>: it acquires \<open>n + 1\<close> times.
  The caller passes the number of waiters less one plus the left-over permits.
\<close>

fun SynchValue_code :: "('v sval, 'v sval_pc) code" where
  "SynchValue_code (S_set v) c intr w d = (if sshutdown d then (d, Goto (S_return (- 1))) else (d, Goto (S_gate v)))"
| "SynchValue_code (S_gate v) c intr w d =
     (case gate_acquire (setterGate d) of Some g \<Rightarrow> (d\<lparr>setterGate := g\<rparr>, Goto (S_dcl v)) | None \<Rightarrow> (d, Halt))"
| "SynchValue_code (S_dcl v) c intr w d =
     (if svalue d = v then (d, Goto (S_return 0))
      else if sshutdown d then (d, Goto S_open)
      else (d, Goto (S_lock v)))"
| "SynchValue_code (S_lock v) c intr w d = (d, Lock (S_store v))"
| "SynchValue_code (S_store v) c intr w d =
     (if sshutdown d then (d, Unlock (S_return (- 1)))
      else (d\<lparr>svalue := v\<rparr>, NotifyAll (S_stored (int (swaiters d) - 1 + itemTaken d))))"
| "SynchValue_code (S_stored n) c intr w d = (d, Unlock (S_take n))"
| "SynchValue_code (S_take n) c intr w d =
     (if n \<ge> 0 then
        (case gate_acquire (itemTaken d) of Some g \<Rightarrow> (d\<lparr>itemTaken := g\<rparr>, Goto (S_take (n - 1))) | None \<Rightarrow> (d, Halt))
      else (d, Goto S_open))"
| "SynchValue_code S_open c intr w d = (d\<lparr>setterGate := gate_release 1 (setterGate d)\<rparr>, Goto (S_return 0))"
| "SynchValue_code (W_value timed v) c intr w d =
     (if svalue d = v then (d, Goto (S_return 0))
      else if sshutdown d then (d, Goto (S_throw IllegalThreadStateException))
      else (d, Goto (W_lock timed v)))"
| "SynchValue_code (W_lock timed v) c intr w d = (d, Lock (W_enter timed v))"
| "SynchValue_code (W_enter timed v) c intr w d = (d\<lparr>swaiters := size_add (swaiters d) 1\<rparr>, Goto (W_loop timed v))"
| "SynchValue_code (W_loop timed v) c intr w d =
     (if svalue d = v \<or> sshutdown d then (d, Goto (W_leave False v))
      else if timed \<and> c \<noteq> 0 then (d, Goto (W_leave True v))
      else (d, Wait (W_woke timed v)))"
| "SynchValue_code (W_woke timed v r) c intr w d =
     (if r = W_interrupted then
        (d\<lparr>swaiters := size_dec (swaiters d),
           itemTaken := (if setterGate d = 0 then gate_release 1 (itemTaken d) else itemTaken d)\<rparr>,
         Unlock (S_throw InterruptedException))
      else (d\<lparr>itemTaken := gate_release 1 (itemTaken d)\<rparr>, Goto (W_loop timed v)))"
| "SynchValue_code (W_leave timeout v) c intr w d =
     (d\<lparr>swaiters := size_dec (swaiters d)\<rparr>,
      Unlock (if timeout then S_throw TimeoutException
              else if sshutdown d then S_throw IllegalThreadStateException else S_return 0))"
| "SynchValue_code S_get c intr w d = (d, Lock S_getting)"
| "SynchValue_code S_getting c intr w d = (d, Unlock (S_value (svalue d)))"
| "SynchValue_code S_destroy c intr w d = (d, Lock S_shut)"
| "SynchValue_code S_shut c intr w d =
     (d\<lparr>sshutdown := True, setterGate := gate_release (int c) (setterGate d)\<rparr>, Goto S_flush)"
| "SynchValue_code S_flush c intr w d =
     (d\<lparr>itemTaken := gate_release (c_int (swaiters d)) (itemTaken d)\<rparr>, Goto S_drain)"
| "SynchValue_code S_drain c intr w d =
     (if swaiters d > 0 then (d, NotifyAll S_drain_wait) else (d, Unlock (S_return 0)))"
| "SynchValue_code S_drain_wait c intr w d = (d, Wait S_drain_woke)"
| "SynchValue_code (S_drain_woke r) c intr w d =
     (if r = W_interrupted then (d, Unlock (S_throw InterruptedException))
      else if r = W_error ETIME then (d, Unlock (S_return 0))
      else (d, Goto S_drain))"
| "SynchValue_code _ c intr w d = (d, Halt)"

text \<open>All operations but the destructor.\<close>

fun sval_entry :: "'v sval_pc \<Rightarrow> bool" where
  "sval_entry (S_set v) = True"
| "sval_entry (W_value timed v) = True"
| "sval_entry S_get = True"
| "sval_entry _ = False"

fun sval_final :: "'v sval_pc \<Rightarrow> bool" where
  "sval_final SV_idle = True"
| "sval_final (S_return r) = True"
| "sval_final (S_value v) = True"
| "sval_final (S_throw e) = True"
| "sval_final _ = False"

fun sval_holds :: "'v sval_pc \<Rightarrow> bool" where
  "sval_holds (S_store v) = True"
| "sval_holds (S_stored n) = True"
| "sval_holds (W_enter timed v) = True"
| "sval_holds (W_loop timed v) = True"
| "sval_holds (W_woke timed v r) = True"
| "sval_holds (W_leave timeout v) = True"
| "sval_holds S_getting = True"
| "sval_holds S_shut = True"
| "sval_holds S_flush = True"
| "sval_holds S_drain = True"
| "sval_holds S_drain_wait = True"
| "sval_holds (S_drain_woke r) = True"
| "sval_holds _ = False"

definition sval_step :: "('v sval, 'v sval_pc) mon \<Rightarrow> 'v sval_pc event \<Rightarrow> ('v sval, 'v sval_pc) mon option" where
  "sval_step = mon_step SynchValue_code sval_entry sval_final"

definition sval_start :: "'v \<Rightarrow> ('v sval, 'v sval_pc) mon" where
  "sval_start v = mon_init (SynchValue_new v) SV_idle"

section \<open>Invariants\<close>

interpretation synch_value: monitor_client SynchValue_code sval_entry sval_final sval_holds
proof (rule monitor_clientI)
  show "act_ok sval_holds l (snd (SynchValue_code l c i w d))" for l c i w d
    by (cases l) (auto split: option.splits)
  show "\<not> sval_holds l" if "sval_entry l \<or> sval_final l" for l
    using that by (cases l) auto
qed

text \<open>
  A setter between the gate and its release is a ticket; without the destructor at most one
  exists, and none is left once the gate is lost.
\<close>

fun in_gate :: "'v sval_pc \<Rightarrow> bool" where
  "in_gate (S_dcl v) = True"
| "in_gate (S_lock v) = True"
| "in_gate (S_store v) = True"
| "in_gate (S_stored n) = True"
| "in_gate (S_take n) = True"
| "in_gate S_open = True"
| "in_gate _ = False"

fun quiet :: "'v sval_pc \<Rightarrow> bool" where
  "quiet S_destroy = False"
| "quiet S_shut = False"
| "quiet S_flush = False"
| "quiet S_drain = False"
| "quiet S_drain_wait = False"
| "quiet (S_drain_woke r) = False"
| "quiet l = (\<not> in_gate l)"

fun no_setter :: "'v sval_pc tstate \<Rightarrow> bool" where
  "no_setter (Run l) = quiet l"
| "no_setter (Entering k) = (\<forall>r. quiet (k r))"
| "no_setter (Sleeping k) = (\<forall>r. quiet (k r))"
| "no_setter (Waking r k) = (\<forall>r. quiet (k r))"
| "no_setter _ = True"

interpretation gate_lost: monitor_proof SynchValue_code sval_entry sval_final sval_holds "\<lambda>_ _. False" "\<lambda>_ _. 0"
  "\<lambda>h d i a n. setterGate d \<le> 0" "\<lambda>_ _. no_setter" "\<lambda>_. True"
proof
  fix l c i a n d d' x
  assume "sval_holds l" "no_setter (Run l)" "setterGate d \<le> 0" "SynchValue_code l c i (int a + int n) d = (d', x)"
  then show "act_post (\<lambda>h d i a n. setterGate d \<le> 0) no_setter d' i a n x" by (cases l) (auto split: if_splits)
next
  fix l c i w d d' x h a n
  assume "\<not> sval_holds l" "no_setter (Run l)" "setterGate d \<le> 0" "SynchValue_code l c i w d = (d', x)"
  then show "act_outside (\<lambda>h d i a n. setterGate d \<le> 0) no_setter d i d' x"
    by (cases l) (auto simp: gate_acquire_def split: if_splits)
qed (auto elim!: sval_entry.elims plain.elims)

lemma gate_lost_forever:
  assumes "annotated sval_holds (\<lambda>h d i a n. setterGate d \<le> 0) (\<lambda>_ _. no_setter) m" "reachable sval_step m m'"
    "thr m' t = Run (S_gate v)"
  shows "sval_step m' (Step t pick) = None"
proof -
  have "annotated sval_holds (\<lambda>h d i a n. setterGate d \<le> 0) (\<lambda>_ _. no_setter) m'"
    using gate_lost.proof_machine.reachable_inv [of m m'] assms(1,2) tag_inv_none [of m] by (simp add: restrict_step_all sval_step_def)
  then have "setterGate (data m') \<le> 0" using annotatedD(4) by blast
  then show ?thesis
    using assms(3) by (simp add: sval_step_def mon_step_def thread_step_def run_code_def gate_acquire_def)
qed

text \<open>
  Without the destructor the object is not shut down, and a thread that leaves \<open>waitValue\<close> before its
  deadline still sees its value: it has not let go of the mutex.
\<close>

fun is_woke :: "'v sval_pc \<Rightarrow> bool" where
  "is_woke (W_woke timed v r) = True"
| "is_woke l = False"

fun sval_loc :: "'v sval \<Rightarrow> 'v sval_pc tstate \<Rightarrow> bool" where
  "sval_loc d (Entering k) = (\<forall>r. is_woke (k r))"
| "sval_loc d (Sleeping k) = (\<forall>r. is_woke (k r))"
| "sval_loc d (Waking r k) = (\<forall>r. is_woke (k r))"
| "sval_loc d (Run S_destroy) = False"
| "sval_loc d (Run S_shut) = False"
| "sval_loc d (Run S_flush) = False"
| "sval_loc d (Run S_drain) = False"
| "sval_loc d (Run S_drain_wait) = False"
| "sval_loc d (Run (S_drain_woke r)) = False"
| "sval_loc d (Run (W_leave timeout v)) = (timeout \<or> svalue d = v)"
| "sval_loc d s = True"

lemma woke_loc: "is_woke l \<Longrightarrow> sval_loc d (Run l)"
  by (cases l) auto

lemma sval_loc_outside: "\<not> in_cs sval_holds s \<Longrightarrow> sval_loc d s = sval_loc d' s"
  by (cases "(d, s)" rule: sval_loc.cases) auto

interpretation value_seen: monitor_proof SynchValue_code sval_entry sval_final sval_holds "\<lambda>_ _. False" "\<lambda>_ _. 0"
  "\<lambda>h d i a n. \<not> sshutdown d" "\<lambda>d i. sval_loc d" "\<lambda>_. True"
proof
  fix l c i a n d d' x
  assume h: "sval_holds l" "sval_loc d (Run l)" "\<not> sshutdown d" "SynchValue_code l c i (int a + int n) d = (d', x)"
  then show "act_post (\<lambda>h d i a n. \<not> sshutdown d) (sval_loc d') d' i a n x" by (cases l) (auto split: if_splits)
  show "sval_loc d' s" if "\<not> in_cs sval_holds s" "sval_loc d s" for s
    using that sval_loc_outside by blast
next
  fix l c i w d d' x h a n
  assume h: "\<not> sval_holds l" "sval_loc d (Run l)" "\<not> sshutdown d" "SynchValue_code l c i w d = (d', x)"
  then show "act_outside (\<lambda>h d i a n. \<not> sshutdown d) (sval_loc d') d i d' x"
    by (cases l) (auto simp: gate_acquire_def split: if_splits)
  have "svalue d' = svalue d" using h by (cases l) (auto simp: gate_acquire_def split: if_splits)
  then show "sval_loc d' s" if "sval_loc d s" for s
    using that by (cases "(d, s)" rule: sval_loc.cases) auto
qed (auto simp: woke_loc elim!: sval_entry.elims plain.elims)

text \<open>The program points of a \<open>waitValue\<close>.\<close>

fun sval_of :: "'v sval_pc \<Rightarrow> 'v sval_pc \<Rightarrow> bool" where
  "sval_of (W_value timed v) l =
     (case l of
        W_value b x \<Rightarrow> b = timed \<and> x = v
      | W_lock b x \<Rightarrow> b = timed \<and> x = v
      | W_enter b x \<Rightarrow> b = timed \<and> x = v
      | W_loop b x \<Rightarrow> b = timed \<and> x = v
      | W_woke b x r \<Rightarrow> b = timed \<and> x = v
      | W_leave b x \<Rightarrow> (b \<longrightarrow> timed) \<and> x = v
      | S_return r \<Rightarrow> True
      | S_throw e \<Rightarrow> True
      | _ \<Rightarrow> False)"
| "sval_of q l = True"

interpretation value_history: call_history SynchValue_code sval_entry sval_final SV_idle sval_of
proof
  show "sval_of l l" if "sval_entry l" for l :: "'a sval_pc" using that by (cases l) auto
  fix q l :: "'a sval_pc" and c i w d d' x
  assume h: "sval_of q l" "SynchValue_code l c i w d = (d', x)"
  show "next_all (sval_of q) x"
  proof (cases "\<exists>timed v. q = W_value timed v")
    case True
    then show ?thesis using h by (elim exE; cases l) (auto split: if_splits)
  next
    case False
    then have "sval_of q = (\<lambda>_. True)" by (cases q) auto
    then show ?thesis by (cases x) auto
  qed
qed simp

lemma waitValue_returns:
  assumes "run sval_step (sval_start v0) es = Some m" "last_call t es = Some (W_value timed v)"
    "sval_step m (Step t pick) = Some m'"
  shows "(thr m' t = Run (S_return r) \<longrightarrow> r = 0 \<and> svalue (data m) = v) \<and>
    (thr m' t = Run (S_throw e) \<longrightarrow> e = InterruptedException \<or> e = TimeoutException \<and> timed)"
proof -
  have q: "at_all (sval_of (W_value timed v)) (thr m t)"
    by (rule value_history.within_call [OF assms(1) [unfolded sval_step_def sval_start_def] assms(2)])
  have ok: "annotated sval_holds (\<lambda>h d i a n. \<not> sshutdown d) (\<lambda>d i. sval_loc d) m"
    using value_seen.reachable_annotated [of "SynchValue_new v0" SV_idle m] reachableI [OF assms(1)]
    by (simp add: restrict_step_all sval_step_def sval_start_def SynchValue_new_def)
  note n = annotatedD(4) [OF ok] and k = annotatedD(2) [OF ok, of t]
  have s: "thread_step SynchValue_code t pick m = Some m'" using assms(3) by (simp add: sval_step_def mon_step_def)
  show ?thesis
  proof (cases "thr m t")
    case (Run l)
    then show ?thesis
      using q n k s by (cases l) (auto simp: thread_step_def run_code_def wait_test_def split: if_splits)
  next
    case (Waking y f)
    then have "is_woke (f (if interrupted m then W_interrupted else y))" using k by simp
    then show ?thesis using Waking s by (auto simp: thread_step_def wait_leave_def simp del: if_split)
  qed (use s in \<open>auto simp: thread_step_def mon_ops split: if_splits nat.splits\<close>)
qed

lemma same_value_keeps_gate:
  "\<exists>m. run sval_step (sval_start v0) [Call 0 (S_set v0), Step 0 0, Step 0 0, Step 0 0] = Some m \<and>
     thr m 0 = Run (S_return 0) \<and>
     (\<forall>m' t v pick. reachable sval_step m m' \<and> thr m' t = Run (S_gate v) \<longrightarrow> sval_step m' (Step t pick) = None)"
proof -
  let ?m = "(sval_start v0)\<lparr>data := (SynchValue_new v0)\<lparr>setterGate := 0\<rparr>,
    thr := (\<lambda>_. Run SV_idle)(0 := Run (S_return 0))\<rparr>"
  have r: "run sval_step (sval_start v0) [Call 0 (S_set v0), Step 0 0, Step 0 0, Step 0 0] = Some ?m"
    by (simp add: sval_step_def sval_start_def mon_init_def mon_step_def is_idle_def thread_step_def run_code_def
        SynchValue_new_def gate_acquire_def)
  have "annotated sval_holds (\<lambda>h d i a n. setterGate d \<le> 0) (\<lambda>_ _. no_setter) ?m"
    by (simp add: annotated_def mon_inv_def sval_start_def mon_init_def)
  from gate_lost_forever [OF this]
  have "\<forall>m' t v pick. reachable sval_step ?m m' \<and> thr m' t = Run (S_gate v) \<longrightarrow> sval_step m' (Step t pick) = None"
    by (intro allI impI) (elim conjE)
  with r show ?thesis by (intro exI [of _ ?m]) simp
qed

section \<open>Properties\<close>

text \<open>
  Claim C13.  In every run without the destructor, a call of \<open>waitValue\<close> for \<open>v\<close> that returns a number
  returns 0, in a step that finds the value equal to \<open>v\<close>; it throws only if it is interrupted or, given
  a deadline, with \<open>TimeoutException\<close>.  But \<open>setValue\<close> of the
  value that is already stored returns 0 with the setter's gate still held, and from then on
  no \<open>setValue\<close> ever gets through, whatever the other threads do short of destroying the object:
  its thread has no step at the gate.
\<close>

theorem set_same_value_hangs:
  "(\<forall>es m t timed v pick m' r e. run sval_step (sval_start v0) es = Some m \<and> last_call t es = Some (W_value timed v) \<and>
      sval_step m (Step t pick) = Some m' \<longrightarrow>
      (thr m' t = Run (S_return r) \<longrightarrow> r = 0 \<and> svalue (data m) = v) \<and>
      (thr m' t = Run (S_throw e) \<longrightarrow> e = InterruptedException \<or> e = TimeoutException \<and> timed)) \<and>
   (\<exists>m. run sval_step (sval_start v0) [Call 0 (S_set v0), Step 0 0, Step 0 0, Step 0 0] = Some m \<and>
      thr m 0 = Run (S_return 0) \<and>
      (\<forall>m' t v pick. reachable sval_step m m' \<and> thr m' t = Run (S_gate v) \<longrightarrow> sval_step m' (Step t pick) = None))"
  by (intro conjI [OF _ same_value_keeps_gate] allI impI, elim conjE) (rule waitValue_returns)

definition sval_meeting :: "nat sval_pc event list" where
  "sval_meeting =
     [Call 1 (W_value False 6), Step 1 0, Step 1 0, Step 1 0, Step 1 0, Step 1 0,
      Call 0 (S_set 6), Step 0 0, Step 0 0, Step 0 0, Step 0 0, Step 0 0, Step 0 0,
      Wake 1 W_ok, Step 1 0, Step 1 0, Step 1 0]"

theorem set_same_value_hangs_witness:
  "(\<exists>m m'. run sval_step (sval_start (5::nat)) sval_meeting = Some m \<and> sval_step m (Step 1 0) = Some m' \<and>
     thr m' 1 = Run (S_return 0) \<and> svalue (data m) = 6) \<and>
   (\<exists>m m'. run sval_step (sval_start (5::nat)) [Call 0 (S_set 5), Step 0 0, Step 0 0, Step 0 0] = Some m \<and>
     run sval_step m [Call 1 (S_set 6), Step 1 0] = Some m' \<and> (\<forall>pick. sval_step m' (Step 1 pick) = None))"
proof (rule conjI)
  let ?m = "the (run sval_step (sval_start (5::nat)) sval_meeting)"
  let ?m' = "the (sval_step ?m (Step 1 0))"
  have r: "run sval_step (sval_start (5::nat)) sval_meeting \<noteq> None" and n: "sval_step ?m (Step 1 0) \<noteq> None"
    and c: "last_call 1 sval_meeting = Some (W_value False 6)" and d: "running (thr ?m' 1) = Some (S_return 0)"
    by code_simp+
  have r': "run sval_step (sval_start (5::nat)) sval_meeting = Some ?m" and n': "sval_step ?m (Step 1 0) = Some ?m'"
    using r n by simp_all
  have "svalue (data ?m) = 6"
    using set_same_value_hangs [THEN conjunct1, rule_format, OF conjI [OF r' conjI [OF c n']]] d by (simp add: running_Some)
  then show "\<exists>m m'. run sval_step (sval_start (5::nat)) sval_meeting = Some m \<and> sval_step m (Step 1 0) = Some m' \<and>
      thr m' 1 = Run (S_return 0) \<and> svalue (data m) = 6"
    using r' n' d by (auto simp: running_Some)
next
  from set_same_value_hangs [of "5::nat", THEN conjunct2] obtain m where
    r: "run sval_step (sval_start (5::nat)) [Call 0 (S_set 5), Step 0 0, Step 0 0, Step 0 0] = Some m"
    and b: "\<And>m' t v pick. reachable sval_step m m' \<Longrightarrow> thr m' t = Run (S_gate v) \<Longrightarrow> sval_step m' (Step t pick) = None"
    by blast
  let ?es = "[Call 0 (S_set 5), Step 0 0, Step 0 0, Step 0 0]" and ?fs = "[Call 1 (S_set 6), Step 1 0]"
  have s: "run sval_step (the (run sval_step (sval_start (5::nat)) ?es)) ?fs \<noteq> None"
    and g: "running (thr (the (run sval_step (the (run sval_step (sval_start (5::nat)) ?es)) ?fs)) 1) = Some (S_gate 6)"
    by code_simp+
  have s': "run sval_step m ?fs \<noteq> None" and g': "thr (the (run sval_step m ?fs)) 1 = Run (S_gate 6)"
    using s g unfolding r by (simp_all add: running_Some del: run.simps)
  have "sval_step (the (run sval_step m ?fs)) (Step 1 pick) = None" for pick
    by (rule b [OF reachable_run [OF s'] g'])
  then show "\<exists>m m'. run sval_step (sval_start (5::nat)) [Call 0 (S_set 5), Step 0 0, Step 0 0, Step 0 0] = Some m \<and>
      run sval_step m [Call 1 (S_set 6), Step 1 0] = Some m' \<and> (\<forall>pick. sval_step m' (Step 1 pick) = None)"
    using r s' by (intro exI [of _ m] exI [of _ "the (run sval_step m ?fs)"]) simp
qed

end
