(* ===== verification/Ref_Count.thy ===== *)
theory Ref_Count
  imports Exceptions
begin

text \<open>
  \<^verbatim>\<open>DAF::RefCount\<close> (\<^verbatim>\<open>daf/RefCount.h\<close>, \<^verbatim>\<open>.cpp\<close>) and the smart pointers \<^verbatim>\<open>ObjectRef\<close> and \<^verbatim>\<open>ObjectRefOut\<close>
  (\<^verbatim>\<open>daf/ObjectRef_T.h\<close>, \<^verbatim>\<open>.cpp\<close>).  The state is an explicit store: the reference count of every
  object (0 before it is made and after its \<open>__remove\<close>), the pointer in every \<open>ObjectRef\<close>
  variable, and the raw pointers whose reference the client owns.  \<open>_add_ref\<close> and \<open>_remove_ref\<close> hold the
  object's lock, so each is one operation.  What an object's own \<^verbatim>\<open>__remove\<close> does beyond ending its life is code of the client's class: an
  object that itself holds references releases them there, which is a further sequence of these operations.
\<close>

section \<open>Objects\<close>

type_synonym obj = nat

text \<open>\<open>nil\<close> is \<open>None\<close>.\<close>

type_synonym ptr = "obj option"

definition add_ref :: "(obj \<Rightarrow> nat) \<Rightarrow> obj \<Rightarrow> (obj \<Rightarrow> nat) outcome" where
  "add_ref rc p = (if rc p > 0 then Returns (rc(p := Suc (rc p))) else Throws INV_OBJREF)"

definition remove_ref :: "(obj \<Rightarrow> nat) \<Rightarrow> obj \<Rightarrow> (obj \<Rightarrow> nat) outcome" where
  "remove_ref rc p = (if rc p > 0 then Returns (rc(p := rc p - 1)) else Throws INV_OBJREF)"

definition release :: "(obj \<Rightarrow> nat) \<Rightarrow> ptr \<Rightarrow> (obj \<Rightarrow> nat) outcome" where
  "release rc p = (case p of None \<Rightarrow> Returns rc | Some q \<Rightarrow> remove_ref rc q)"

definition duplicate :: "(obj \<Rightarrow> nat) \<Rightarrow> ptr \<Rightarrow> (obj \<Rightarrow> nat) outcome" where
  "duplicate rc p = (case p of None \<Rightarrow> Returns rc | Some q \<Rightarrow> add_ref rc q)"

text \<open>\<open>narrow\<close>: the cast either succeeds or gives nil, and an exception gives nil.\<close>

definition narrow :: "(obj \<Rightarrow> bool) \<Rightarrow> (obj \<Rightarrow> nat) \<Rightarrow> ptr \<Rightarrow> (obj \<Rightarrow> nat) \<times> ptr" where
  "narrow is_a rc p =
     (case p of
        None \<Rightarrow> (rc, None)
      | Some q \<Rightarrow> if is_a q then (case add_ref rc q of Returns rc' \<Rightarrow> (rc', Some q) | _ \<Rightarrow> (rc, None)) else (rc, None))"

section \<open>References\<close>

record refs =
  counts :: "obj \<Rightarrow> nat"
  fresh :: obj
  vars :: "nat \<Rightarrow> ptr option"
  owned :: "obj list"

definition refs_init :: refs where
  "refs_init = \<lparr>counts = (\<lambda>_. 0), fresh = 0, vars = (\<lambda>_. None), owned = []\<rparr>"

datatype ref_op =
    New
  | Ref_ptr nat ptr
  | Ref_obj nat obj
  | Ref_copy nat nat
  | Ref_destroy nat
  | Assign_ptr nat ptr
  | Assign_obj nat obj
  | Assign_ref nat nat
  | Ref_out nat
  | Ref_retn nat
  | Ref_narrow "obj \<Rightarrow> bool" nat
  | Out_ref nat
  | Out_assign_ptr nat ptr
  | Out_assign_ref nat nat
  | Drop obj

text \<open>The raw pointer leaves the client's hands.\<close>

definition give_up :: "ptr \<Rightarrow> obj list \<Rightarrow> obj list" where
  "give_up p os = (case p of None \<Rightarrow> os | Some q \<Rightarrow> remove1 q os)"

definition var :: "refs \<Rightarrow> nat \<Rightarrow> ptr" where
  "var s x = (case vars s x of None \<Rightarrow> None | Some p \<Rightarrow> p)"

definition set_var :: "nat \<Rightarrow> ptr \<Rightarrow> refs \<Rightarrow> refs" where
  "set_var x p s = s\<lparr>vars := (vars s)(x \<mapsto> p)\<rparr>"

fun ref_do :: "refs \<Rightarrow> ref_op \<Rightarrow> refs outcome" where
  "ref_do s New =
     Returns (s\<lparr>counts := (counts s)(fresh s := 1), fresh := Suc (fresh s), owned := fresh s # owned s\<rparr>)"
| "ref_do s (Ref_ptr x p) = Returns (set_var x p (s\<lparr>owned := give_up p (owned s)\<rparr>))"
| "ref_do s (Ref_obj x q) =
     and_then (duplicate (counts s) (Some q)) (\<lambda>rc. Returns (set_var x (Some q) (s\<lparr>counts := rc\<rparr>)))"
| "ref_do s (Ref_copy x y) =
     and_then (duplicate (counts s) (var s y)) (\<lambda>rc. Returns (set_var x (var s y) (s\<lparr>counts := rc\<rparr>)))"
| "ref_do s (Ref_destroy x) =
     and_then (release (counts s) (var s x)) (\<lambda>rc. Returns (s\<lparr>counts := rc, vars := (vars s)(x := None)\<rparr>))"
| "ref_do s (Assign_ptr x p) =
     and_then (release (counts s) (var s x))
       (\<lambda>rc. Returns (set_var x p (s\<lparr>counts := rc, owned := give_up p (owned s)\<rparr>)))"
| "ref_do s (Assign_obj x q) =
     (if var s x \<noteq> Some q then
        and_then (release (counts s) (var s x))
          (\<lambda>rc. and_then (duplicate rc (Some q)) (\<lambda>rc'. Returns (set_var x (Some q) (s\<lparr>counts := rc'\<rparr>))))
      else Returns s)"
| "ref_do s (Assign_ref x y) =
     (if x \<noteq> y then
        and_then (release (counts s) (var s x))
          (\<lambda>rc. and_then (duplicate rc (var s y)) (\<lambda>rc'. Returns (set_var x (var s y) (s\<lparr>counts := rc'\<rparr>))))
      else Returns s)"
| "ref_do s (Ref_out x) =
     and_then (release (counts s) (var s x)) (\<lambda>rc. Returns (set_var x None (s\<lparr>counts := rc\<rparr>)))"
| "ref_do s (Ref_retn x) =
     Returns (set_var x None (s\<lparr>owned := (case var s x of None \<Rightarrow> owned s | Some q \<Rightarrow> q # owned s)\<rparr>))"
| "ref_do s (Ref_narrow is_a x) =
     (let (rc, p) = narrow is_a (counts s) (var s x) in
      Returns (s\<lparr>counts := rc, owned := (case p of None \<Rightarrow> owned s | Some q \<Rightarrow> q # owned s)\<rparr>))"
| "ref_do s (Out_ref x) =
     and_then (release (counts s) (var s x)) (\<lambda>rc. Returns (set_var x None (s\<lparr>counts := rc\<rparr>)))"
| "ref_do s (Out_assign_ptr x p) = Returns (set_var x p (s\<lparr>owned := give_up p (owned s)\<rparr>))"
| "ref_do s (Out_assign_ref x y) =
     and_then (duplicate (counts s) (var s y)) (\<lambda>rc. Returns (set_var x (var s y) (s\<lparr>counts := rc\<rparr>)))"
| "ref_do s (Drop q) =
     and_then (release (counts s) (Some q)) (\<lambda>rc. Returns (s\<lparr>counts := rc, owned := remove1 q (owned s)\<rparr>))"

text \<open>
  What a client may do: construct a variable that is not in use, use one that is, hand in a raw
  pointer only if it owns a reference, name an object only while it is alive, and assign
  through an \<open>ObjectRefOut\<close>, which does not release, only to an empty variable.
\<close>

definition owns :: "refs \<Rightarrow> ptr \<Rightarrow> bool" where
  "owns s p \<longleftrightarrow> (case p of None \<Rightarrow> True | Some q \<Rightarrow> q \<in> set (owned s))"

fun ref_ok :: "refs \<Rightarrow> ref_op \<Rightarrow> bool" where
  "ref_ok s New = True"
| "ref_ok s (Ref_ptr x p) = (vars s x = None \<and> owns s p)"
| "ref_ok s (Ref_obj x q) = (vars s x = None \<and> counts s q > 0)"
| "ref_ok s (Ref_copy x y) = (vars s x = None \<and> vars s y \<noteq> None)"
| "ref_ok s (Ref_destroy x) = (vars s x \<noteq> None)"
| "ref_ok s (Assign_ptr x p) = (vars s x \<noteq> None \<and> owns s p)"
| "ref_ok s (Assign_obj x q) = (vars s x \<noteq> None \<and> counts s q > 0)"
| "ref_ok s (Assign_ref x y) = (vars s x \<noteq> None \<and> vars s y \<noteq> None)"
| "ref_ok s (Ref_out x) = (vars s x \<noteq> None)"
| "ref_ok s (Ref_retn x) = (vars s x \<noteq> None)"
| "ref_ok s (Ref_narrow is_a x) = (vars s x \<noteq> None)"
| "ref_ok s (Out_ref x) = (vars s x \<noteq> None)"
| "ref_ok s (Out_assign_ptr x p) = (vars s x = Some None \<and> owns s p)"
| "ref_ok s (Out_assign_ref x y) = (vars s x = Some None \<and> vars s y \<noteq> None)"
| "ref_ok s (Drop q) = (q \<in> set (owned s))"

definition ref_step :: "refs \<Rightarrow> ref_op \<Rightarrow> refs option" where
  "ref_step s e = (if ref_ok s e then (case ref_do s e of Returns s' \<Rightarrow> Some s' | _ \<Rightarrow> None) else None)"

text \<open>Dereferencing.\<close>

definition arrow :: "refs \<Rightarrow> nat \<Rightarrow> obj outcome" where
  "arrow s x = (case var s x of Some q \<Rightarrow> Returns q | None \<Rightarrow> Throws INV_OBJREF)"
section \<open>Exact counts\<close>

definition holders :: "refs \<Rightarrow> obj \<Rightarrow> nat set" where
  "holders s q = {x. vars s x = Some (Some q)}"

definition owners :: "refs \<Rightarrow> obj \<Rightarrow> nat" where
  "owners s q = card (holders s q) + count_list (owned s) q"

definition exact :: "refs \<Rightarrow> bool" where
  "exact s \<longleftrightarrow> finite (dom (vars s)) \<and> (\<forall>q. counts s q = owners s q) \<and> (\<forall>q \<ge> fresh s. counts s q = 0)"

lemma count_list_pos: "q \<in> set xs \<Longrightarrow> 0 < count_list xs q"
  using count_list_0_iff [of xs q] by auto

lemma count_give_up: "owns s p \<Longrightarrow> count_list (give_up p (owned s)) q + of_bool (p = Some q) = count_list (owned s) q"
  using count_list_pos [of q "owned s"] by (cases p) (auto simp: owns_def give_up_def)

lemma exactD:
  assumes "exact s"
  shows "finite (dom (vars s))" "counts s q = owners s q" "finite (holders s q)" "fresh s \<le> q \<Longrightarrow> counts s q = 0"
proof -
  show f: "finite (dom (vars s))" "counts s q = owners s q" "fresh s \<le> q \<Longrightarrow> counts s q = 0"
    using assms by (auto simp: exact_def)
  have "holders s q \<subseteq> dom (vars s)" by (auto simp: holders_def)
  then show "finite (holders s q)" using f(1) finite_subset by blast
qed

lemma var_counted: "exact s \<Longrightarrow> var s x = Some q \<Longrightarrow> 0 < counts s q"
  using exactD(2,3) [of s q] card_gt_0_iff [of "holders s q"]
  by (auto simp: owners_def holders_def var_def split: option.splits)

lemma owned_counted: "exact s \<Longrightarrow> q \<in> set (owned s) \<Longrightarrow> 0 < counts s q"
  using exactD(2) [of s q] count_list_0_iff [of "owned s" q] by (auto simp: owners_def)

text \<open>How the number of holders changes when a variable is set or destroyed.\<close>

lemma holders_upd:
  assumes "finite (holders s q)" "vars s' = (vars s)(x := p)"
  shows "card (holders s' q) + of_bool (var s x = Some q) = card (holders s q) + of_bool (p = Some (Some q))"
proof -
  have eq: "holders s' q - {x} = holders s q - {x}" using assms(2) by (auto simp: holders_def)
  have fin: "finite (holders s' q)" using assms(1) eq by (metis finite_Diff2 finite.emptyI finite_insert)
  have c: "card A = card (A - {x}) + of_bool (x \<in> A)" if "finite A" for A :: "nat set"
    using that card_Suc_Diff1 [of A x] by (cases "x \<in> A") auto
  have "x \<in> holders s' q \<longleftrightarrow> p = Some (Some q)" "x \<in> holders s q \<longleftrightarrow> var s x = Some q"
    using assms(2) by (auto simp: holders_def var_def split: option.splits)
  then show ?thesis using c [OF fin] c [OF assms(1)] eq by simp
qed

lemma release_eq:
  assumes "\<And>q. p = Some q \<Longrightarrow> 0 < rc q"
  shows "\<exists>rc'. release rc p = Returns rc' \<and> (\<forall>q. rc' q + of_bool (p = Some q) = rc q)"
  using assms by (cases p) (auto simp: release_def remove_ref_def)

lemma duplicate_eq:
  assumes "\<And>q. p = Some q \<Longrightarrow> 0 < rc q"
  shows "\<exists>rc'. duplicate rc p = Returns rc' \<and> (\<forall>q. rc' q = rc q + of_bool (p = Some q))"
  using assms by (cases p) (auto simp: duplicate_def add_ref_def)

text \<open>One rule for all operations: the counts change as the holders and the owned pointers do.\<close>

lemma exact_upd:
  assumes "exact s" "vars s' = (vars s)(x := p)" "fresh s' = fresh s"
    "\<And>q. counts s' q + of_bool (var s x = Some q) + count_list (owned s) q =
         counts s q + of_bool (p = Some (Some q)) + count_list (owned s') q"
    "\<And>q. p = Some (Some q) \<or> q \<in> set (owned s') \<Longrightarrow> q < fresh s"
  shows "exact s'"
proof -
  have "counts s' q = owners s' q" for q
    using holders_upd [OF exactD(3) [OF assms(1)] assms(2), of q] assms(4) [of q] exactD(2) [OF assms(1), of q]
    by (simp add: owners_def)
  moreover have "counts s' q = 0" if "fresh s \<le> q" for q
  proof -
    have "counts s q = 0" using exactD(4) [OF assms(1) that] .
    then have "count_list (owned s) q = 0" "var s x \<noteq> Some q"
      using exactD(2) [OF assms(1), of q] var_counted [OF assms(1), of x q] by (auto simp: owners_def)
    moreover have "p \<noteq> Some (Some q)" "count_list (owned s') q = 0"
      using assms(5) [of q] that by (auto simp: count_list_0_iff)
    ultimately show ?thesis using assms(4) [of q] \<open>counts s q = 0\<close> by simp
  qed
  moreover have "finite (dom (vars s'))" using exactD(1) [OF assms(1)] assms(2) by (simp add: dom_fun_upd)
  ultimately show ?thesis using assms(3) by (simp add: exact_def)
qed

lemma counted_fresh: "exact s \<Longrightarrow> 0 < counts s q \<Longrightarrow> q < fresh s"
  using exactD(4) [of s q] by (cases "q < fresh s") auto

lemma give_up_subset: "set (give_up p os) \<subseteq> set os"
  using set_remove1_subset [of _ os] by (cases p) (auto simp: give_up_def)

text \<open>The two steps of most operations: release what the variable holds, then set it.\<close>

lemma release_var:
  assumes "exact s"
  shows "\<exists>rc. release (counts s) (var s x) = Returns rc \<and> (\<forall>q. rc q + of_bool (var s x = Some q) = counts s q)"
  using release_eq var_counted [OF assms] by blast

lemma duplicate_alive:
  assumes "\<And>q. p = Some q \<Longrightarrow> 0 < rc q"
  obtains rc' where "duplicate rc p = Returns rc'" "\<And>q. rc' q = rc q + of_bool (p = Some q)"
  using duplicate_eq [of p rc] assms by blast

lemma exact_New: "exact s \<Longrightarrow> exact (s\<lparr>counts := (counts s)(fresh s := 1), fresh := Suc (fresh s), owned := fresh s # owned s\<rparr>)"
proof -
  assume a: "exact s"
  have "owners s (fresh s) = 0" using exactD(2,4) [OF a, of "fresh s"] by simp
  then show ?thesis using a by (auto simp: exact_def owners_def holders_def)
qed

lemma exact_construct:
  assumes "exact s" "vars s x = None \<or> vars s x = Some None"
  shows "owns s p \<Longrightarrow> exact (set_var x p (s\<lparr>owned := give_up p (owned s)\<rparr>))"
    "(\<And>q. p = Some q \<Longrightarrow> 0 < counts s q) \<Longrightarrow>
      \<exists>rc. duplicate (counts s) p = Returns rc \<and> exact (set_var x p (s\<lparr>counts := rc\<rparr>))"
proof -
  have nil: "var s x = None" using assms(2) by (auto simp: var_def)
  have f: "q \<in> set (owned s) \<Longrightarrow> q < fresh s" for q using counted_fresh owned_counted assms(1) by blast
  show "exact (set_var x p (s\<lparr>owned := give_up p (owned s)\<rparr>))" if o: "owns s p"
  proof (rule exact_upd [OF assms(1), where x = x and p = "Some p"])
    show "counts (set_var x p (s\<lparr>owned := give_up p (owned s)\<rparr>)) q + of_bool (var s x = Some q) + count_list (owned s) q =
        counts s q + of_bool (Some p = Some (Some q)) + count_list (owned (set_var x p (s\<lparr>owned := give_up p (owned s)\<rparr>))) q" for q
      using count_give_up [OF o, of q] nil by (simp add: set_var_def)
    show "q < fresh s" if "Some p = Some (Some q) \<or> q \<in> set (owned (set_var x p (s\<lparr>owned := give_up p (owned s)\<rparr>)))" for q
      using that f o give_up_subset [of p "owned s"] by (auto simp: set_var_def owns_def)
  qed (simp_all add: set_var_def)
  show "\<exists>rc. duplicate (counts s) p = Returns rc \<and> exact (set_var x p (s\<lparr>counts := rc\<rparr>))"
    if alive: "\<And>q. p = Some q \<Longrightarrow> 0 < counts s q"
  proof -
    obtain rc where rc: "duplicate (counts s) p = Returns rc" "\<And>q. rc q = counts s q + of_bool (p = Some q)"
      using duplicate_alive alive by metis
    have "exact (set_var x p (s\<lparr>counts := rc\<rparr>))"
    proof (rule exact_upd [OF assms(1), where x = x and p = "Some p"])
      show "q < fresh s" if "Some p = Some (Some q) \<or> q \<in> set (owned (set_var x p (s\<lparr>counts := rc\<rparr>)))" for q
        using that f counted_fresh [OF assms(1)] alive by (auto simp: set_var_def)
    qed (use nil rc(2) in \<open>auto simp: set_var_def\<close>)
    then show ?thesis using rc(1) by blast
  qed
qed

text \<open>Emptying a variable: release and nil, or release and destroy.\<close>

lemma exact_empty:
  assumes "exact s" "p = None \<or> p = Some None"
  shows "\<exists>rc. release (counts s) (var s x) = Returns rc \<and> exact (s\<lparr>counts := rc, vars := (vars s)(x := p)\<rparr>)"
proof -
  obtain rc where rc: "release (counts s) (var s x) = Returns rc" "\<forall>q. rc q + of_bool (var s x = Some q) = counts s q"
    using release_var [OF assms(1)] by blast
  have f: "q \<in> set (owned s) \<Longrightarrow> q < fresh s" for q using counted_fresh owned_counted assms(1) by blast
  have "exact (s\<lparr>counts := rc, vars := (vars s)(x := p)\<rparr>)"
    by (rule exact_upd [OF assms(1), where x = x and p = p]) (use rc(2) f assms(2) in auto)
  then show ?thesis using rc(1) by blast
qed

text \<open>An assignment is the emptying of the variable followed by a construction.\<close>

lemma exact_reassign:
  assumes "exact s" "vars s x \<noteq> None"
  shows "\<exists>rc. release (counts s) (var s x) = Returns rc \<and>
    (\<forall>p. owns s p \<longrightarrow> exact (set_var x p (s\<lparr>counts := rc, owned := give_up p (owned s)\<rparr>))) \<and>
    (\<forall>p. (\<forall>q. p = Some q \<longrightarrow> 0 < rc q) \<longrightarrow>
       (\<exists>rc'. duplicate rc p = Returns rc' \<and> exact (set_var x p (s\<lparr>counts := rc'\<rparr>))))"
proof -
  obtain rc where rc: "release (counts s) (var s x) = Returns rc" "exact (s\<lparr>counts := rc, vars := (vars s)(x := Some None)\<rparr>)"
    using exact_empty [OF assms(1), of "Some None" x] by blast
  define s1 where "s1 = s\<lparr>counts := rc, vars := (vars s)(x := Some None)\<rparr>"
  have s1: "exact s1" "vars s1 x = None \<or> vars s1 x = Some None" "counts s1 = rc" "\<And>p. owns s1 p = owns s p"
    using rc(2) by (auto simp: s1_def owns_def split: option.splits)
  have "set_var x p (s1\<lparr>owned := give_up p (owned s1)\<rparr>) = set_var x p (s\<lparr>counts := rc, owned := give_up p (owned s)\<rparr>)"
    "set_var x p (s1\<lparr>counts := rc'\<rparr>) = set_var x p (s\<lparr>counts := rc'\<rparr>)" for p rc'
    by (simp_all add: s1_def set_var_def)
  then show ?thesis using exact_construct [OF s1(1,2)] s1(3,4) rc(1) by metis
qed

lemma exact_retn:
  assumes "exact s" "vars s x \<noteq> None"
  shows "exact (set_var x None (s\<lparr>owned := (case var s x of None \<Rightarrow> owned s | Some q \<Rightarrow> q # owned s)\<rparr>))"
proof (rule exact_upd [OF assms(1), where x = x and p = "Some None"])
  let ?s = "set_var x None (s\<lparr>owned := (case var s x of None \<Rightarrow> owned s | Some q \<Rightarrow> q # owned s)\<rparr>)"
  show "counts ?s q + of_bool (var s x = Some q) + count_list (owned s) q =
      counts s q + of_bool (Some None = Some (Some q)) + count_list (owned ?s) q" for q
    by (auto simp: set_var_def split: option.splits)
  show "q < fresh s" if "Some None = Some (Some q) \<or> q \<in> set (owned ?s)" for q
    using that counted_fresh [OF assms(1)] owned_counted [OF assms(1)] var_counted [OF assms(1), of x]
    by (auto simp: set_var_def split: option.splits)
qed (simp_all add: set_var_def)

text \<open>Changes that touch no variable.\<close>

lemma exact_owned:
  assumes "exact s" "\<And>q. rc q + count_list (owned s) q = counts s q + count_list os q"
    "\<And>q. q \<in> set os \<Longrightarrow> q < fresh s"
  shows "exact (s\<lparr>counts := rc, owned := os\<rparr>)"
proof -
  have "rc q = card (holders s q) + count_list os q" for q
    using assms(2) [of q] exactD(2) [OF assms(1), of q] by (simp add: owners_def)
  moreover have "holders (s\<lparr>counts := rc, owned := os\<rparr>) q = holders s q" for q by (simp add: holders_def)
  moreover have "rc q = 0" if "fresh s \<le> q" for q
  proof -
    have "count_list os q = 0" using assms(3) [of q] that by (auto simp: count_list_0_iff)
    then show ?thesis using assms(2) [of q] exactD(4) [OF assms(1) that] by simp
  qed
  ultimately show ?thesis using exactD(1) [OF assms(1)] by (simp add: exact_def owners_def)
qed

lemma exact_narrow:
  assumes "exact s" "narrow is_a (counts s) (var s x) = (rc, p)"
  shows "exact (s\<lparr>counts := rc, owned := (case p of None \<Rightarrow> owned s | Some q \<Rightarrow> q # owned s)\<rparr>)"
proof (rule exact_owned [OF assms(1)])
  note alive = var_counted [OF assms(1), of x]
  show "rc q + count_list (owned s) q = counts s q + count_list (case p of None \<Rightarrow> owned s | Some q \<Rightarrow> q # owned s) q" for q
    using assms(2) alive by (auto simp: narrow_def add_ref_def split: option.splits if_splits)
  show "q < fresh s" if "q \<in> set (case p of None \<Rightarrow> owned s | Some q \<Rightarrow> q # owned s)" for q
    using that assms(2) alive counted_fresh [OF assms(1)] owned_counted [OF assms(1)]
    by (auto simp: narrow_def add_ref_def split: option.splits if_splits)
qed

lemma exact_drop:
  assumes "exact s" "q \<in> set (owned s)"
  shows "\<exists>rc. release (counts s) (Some q) = Returns rc \<and> exact (s\<lparr>counts := rc, owned := remove1 q (owned s)\<rparr>)"
proof -
  have "0 < counts s q" using owned_counted assms by blast
  moreover have "exact (s\<lparr>counts := (counts s)(q := counts s q - 1), owned := remove1 q (owned s)\<rparr>)"
  proof (rule exact_owned [OF assms(1)])
    show "((counts s)(q := counts s q - 1)) r + count_list (owned s) r = counts s r + count_list (remove1 q (owned s)) r" for r
      using \<open>0 < counts s q\<close> count_list_pos [OF assms(2)] by auto
    show "r < fresh s" if "r \<in> set (remove1 q (owned s))" for r
      using that set_remove1_subset [of q "owned s"] counted_fresh [OF assms(1)] owned_counted [OF assms(1)] by blast
  qed
  ultimately show ?thesis by (simp add: release_def remove_ref_def)
qed

lemma exact_assign:
  assumes "exact s" "vars s x \<noteq> None" "release (counts s) (var s x) = Returns rc" "\<And>q. p = Some q \<Longrightarrow> 0 < rc q"
  shows "\<exists>rc'. duplicate rc p = Returns rc' \<and> exact (set_var x p (s\<lparr>counts := rc'\<rparr>))"
proof -
  obtain rc0 where r: "release (counts s) (var s x) = Returns rc0"
    "\<And>p. (\<forall>q. p = Some q \<longrightarrow> 0 < rc0 q) \<Longrightarrow> \<exists>rc'. duplicate rc0 p = Returns rc' \<and> exact (set_var x p (s\<lparr>counts := rc'\<rparr>))"
    using exact_reassign [OF assms(1,2)] by blast
  have "rc0 = rc" using r(1) assms(3) by simp
  then show ?thesis using r(2) [of p] assms(4) by simp
qed

text \<open>After a release another holder of the same object is still counted.\<close>

lemma release_other:
  assumes "exact s" "x \<noteq> y" "var s y = Some q" "rc q + of_bool (var s x = Some q) = counts s q"
  shows "0 < rc q"
proof (cases "var s x = Some q")
  case True
  then have "{x, y} \<subseteq> holders s q" using assms(3) by (auto simp: holders_def var_def split: option.splits)
  then have "card {x, y} \<le> card (holders s q)" by (intro card_mono exactD(3) [OF assms(1)])
  then show ?thesis using assms(2,4) True exactD(2) [OF assms(1), of q] by (simp add: owners_def)
next
  case False
  then show ?thesis using assms(4) var_counted [OF assms(1,3)] by simp
qed

text \<open>Every permitted operation returns and keeps the counts exact.\<close>

lemma ref_do_exact:
  assumes "exact s" "ref_ok s e"
  shows "\<exists>s'. ref_do s e = Returns s' \<and> exact s'"
proof (cases e)
  case New
  then show ?thesis using exact_New [OF assms(1)] by simp
next
  case (Ref_ptr x p)
  then show ?thesis using exact_construct(1) [OF assms(1), of x p] assms(2) by simp
next
  case (Ref_obj x q)
  then show ?thesis using exact_construct(2) [OF assms(1), of x "Some q"] assms(2) by auto
next
  case (Ref_copy x y)
  then show ?thesis
    using exact_construct(2) [OF assms(1), of x "var s y"] var_counted [OF assms(1), of y] assms(2) by auto
next
  case (Ref_destroy x)
  then show ?thesis using exact_empty [OF assms(1), of None x] by auto
next
  case (Assign_ptr x p)
  then show ?thesis using exact_reassign [OF assms(1), of x] assms(2) by auto
next
  case (Assign_obj x q)
  obtain rc where r: "release (counts s) (var s x) = Returns rc" "\<forall>q. rc q + of_bool (var s x = Some q) = counts s q"
    using release_var [OF assms(1)] by blast
  have "0 < rc q" if "var s x \<noteq> Some q" using r(2) [rule_format, of q] assms(2) Assign_obj that by simp
  then show ?thesis
    using exact_assign [OF assms(1) _ r(1), of "Some q"] r(1) assms Assign_obj by auto
next
  case (Assign_ref x y)
  obtain rc where r: "release (counts s) (var s x) = Returns rc" "\<forall>q. rc q + of_bool (var s x = Some q) = counts s q"
    using release_var [OF assms(1)] by blast
  have "0 < rc q" if "x \<noteq> y" "var s y = Some q" for q using release_other [OF assms(1) that] r(2) by blast
  then show ?thesis
    using exact_assign [OF assms(1) _ r(1), of "var s y"] r(1) assms Assign_ref by auto
next
  case (Ref_out x)
  then show ?thesis using exact_empty [OF assms(1), of "Some None" x] by (auto simp: set_var_def)
next
  case (Ref_retn x)
  then show ?thesis using exact_retn [OF assms(1), of x] assms(2) by simp
next
  case (Ref_narrow is_a x)
  then show ?thesis using exact_narrow [OF assms(1), of is_a x] by (auto split: prod.splits)
next
  case (Out_ref x)
  then show ?thesis using exact_empty [OF assms(1), of "Some None" x] by (auto simp: set_var_def)
next
  case (Out_assign_ptr x p)
  then show ?thesis using exact_construct(1) [OF assms(1), of x p] assms(2) by simp
next
  case (Out_assign_ref x y)
  then show ?thesis
    using exact_construct(2) [OF assms(1), of x "var s y"] var_counted [OF assms(1), of y] assms(2) by auto
next
  case (Drop q)
  then show ?thesis using exact_drop [OF assms(1), of q] assms(2) by auto
qed

interpretation ref_machine: event_invariant ref_step exact
proof
  show "exact s'" if "exact s" "ref_step s e = Some s'" for s e s'
    using that ref_do_exact [of s e] by (auto simp: ref_step_def split: if_splits outcome.splits)
qed

lemma exact_init: "exact refs_init"
  by (simp add: exact_def refs_init_def owners_def holders_def)

section \<open>Properties\<close>

text \<open>
  Claim C40.  Reference counting is exact.  In any program that follows the rules of ownership,
  through any sequence of constructions, copies, assignments (also of a variable to itself or
  of two variables that share an object), destructions, \<open>out\<close>, \<open>_retn\<close> and \<open>narrow\<close>, the count of every
  object is the number of \<open>ObjectRef\<close> variables and owned raw pointers that refer to it.
  So no variable dangles, an object is removed exactly when its last owner is gone, and no
  permitted operation throws \<open>INV_OBJREF\<close> or touches a removed object.
\<close>

theorem refcount_exact:
  assumes "reachable ref_step refs_init s"
  shows "(\<forall>q. counts s q = card {x. vars s x = Some (Some q)} + count_list (owned s) q) \<and>
    (\<forall>x q. arrow s x = Returns q \<longrightarrow> 0 < counts s q) \<and>
    (\<forall>q. counts s q = 0 \<longleftrightarrow> (\<forall>x. var s x \<noteq> Some q) \<and> q \<notin> set (owned s)) \<and>
    (\<forall>e. ref_ok s e \<longrightarrow> (\<exists>s'. ref_do s e = Returns s'))"
proof -
  have ex: "exact s" using ref_machine.reachable_inv [OF exact_init assms] .
  have c: "counts s q = card {x. vars s x = Some (Some q)} + count_list (owned s) q" for q
    using exactD(2) [OF ex, of q] by (simp add: owners_def holders_def)
  have a: "0 < counts s q" if "arrow s x = Returns q" for x q
    using that var_counted [OF ex, of x q] by (auto simp: arrow_def split: option.splits)
  have "card (holders s q) = 0 \<longleftrightarrow> (\<forall>x. var s x \<noteq> Some q)" for q
    using exactD(3) [OF ex, of q] by (auto simp: holders_def var_def split: option.splits)
  then have z: "counts s q = 0 \<longleftrightarrow> (\<forall>x. var s x \<noteq> Some q) \<and> q \<notin> set (owned s)" for q
    using exactD(2) [OF ex, of q] by (simp add: owners_def count_list_0_iff)
  have "\<exists>s'. ref_do s e = Returns s'" if "ref_ok s e" for e using ref_do_exact [OF ex that] by blast
  then show ?thesis using c a z by blast
qed

theorem refcount_exact_witness:
  "\<exists>s. run ref_step refs_init [New, Ref_ptr 0 (Some 0), Ref_copy 1 0, Assign_ref 0 1, Ref_destroy 0, Ref_retn 1, Ref_destroy 1] = Some s \<and>
     counts s 0 = 1 \<and> (\<forall>e. ref_ok s e \<longrightarrow> (\<exists>s'. ref_do s e = Returns s'))"
proof -
  let ?es = "[New, Ref_ptr 0 (Some 0), Ref_copy 1 0, Assign_ref 0 1, Ref_destroy 0, Ref_retn 1, Ref_destroy 1]"
  have r: "run ref_step refs_init ?es \<noteq> None" and c: "counts (the (run ref_step refs_init ?es)) 0 = 1"
    by code_simp+
  show ?thesis
    using refcount_exact [OF reachable_run [OF r]] r c by (intro exI [of _ "the (run ref_step refs_init ?es)"]) (simp del: run.simps)
qed

end
