(* ===== verification/Synchronous_Channel.thy ===== *)
theory Synchronous_Channel
  imports Monitor
begin

text \<open>
  \<^verbatim>\<open>DAF::SynchronousChannel\<close> (\<^verbatim>\<open>daf/SynchronousChannel_T.h\<close>, \<^verbatim>\<open>.cpp\<close>): a channel without a buffer.
  A \<open>put\<close> that finds no waiting consumer queues a full node and waits until it is emptied,
  a \<open>take\<close> that finds no waiting producer queues an empty node and waits until it is filled.

  Nodes live in an explicit store; each is a monitor with its own mutex and condition.  A
  step runs one section under a mutex: the section under the channel's mutex (\<open>deque\<close> and
  \<open>enque\<close>), the section under a node's mutex up to the next \<open>wait\<close> or the end of the block with
  its handler, or the section from the return of \<open>wait\<close>.  In each of them the only other
  shared variable is the channel's \<^verbatim>\<open>interrupted_\<close>, which is read once, so a section is one step.
  \<open>deque\<close> reads node states under the channel's mutex only; a cancelled node stays
  cancelled (\<open>cancelled_stays\<close>), so the scan behaves as if done at its last read.

  A wait ends by a signal, spuriously, by a time-out or with an error, as the event says.
  No thread waits on the channel's own condition, so \<open>interrupt\<close> sets the flag and returns 0.

  History variables: a number for every call of \<open>put\<close>, its value, where that value is, the
  calls that returned 0 and those that returned -1 or threw, and what \<open>take\<close> returned.
\<close>

section \<open>Nodes\<close>

datatype node_state = CANCELLED | EMPTY | FULL

record 'a node =
  item :: 'a
  state :: node_state
  stopped :: bool
  resting :: bool
  producer :: bool
  origin :: nat

text \<open>
  \<open>SYNCHNode::state(int)\<close> wakes the thread that waits on the node (\<open>resting\<close>: asleep and not
  yet signalled).  \<open>stopped\<close> is the node's own \<^verbatim>\<open>interrupted_\<close>.  \<open>T()\<close> is the parameter \<open>blank\<close>.
\<close>

definition set_state :: "'a \<Rightarrow> node_state \<Rightarrow> 'a node \<Rightarrow> 'a node" where
  "set_state blank x nd =
     (let x' = (if stopped nd then CANCELLED else x) in
      nd\<lparr>item := (if x' = FULL then item nd else blank), state := x', resting := False\<rparr>)"

definition put_item :: "'a \<Rightarrow> 'a \<Rightarrow> 'a node \<Rightarrow> int \<times> 'a node" where
  "put_item blank v nd =
     (if state nd = EMPTY then (0, set_state blank FULL (nd\<lparr>item := v\<rparr>)) else (- 1, nd))"

definition get_item :: "'a \<Rightarrow> 'a node \<Rightarrow> 'a option \<times> 'a node" where
  "get_item blank nd =
     (if state nd = FULL then (Some (item nd), set_state blank EMPTY nd) else (None, nd))"

definition new_full :: "'a \<Rightarrow> nat \<Rightarrow> 'a node" where
  "new_full v c = \<lparr>item = v, state = FULL, stopped = False, resting = False, producer = True, origin = c\<rparr>"

definition new_empty :: "'a \<Rightarrow> 'a node" where
  "new_empty blank = \<lparr>item = blank, state = EMPTY, stopped = False, resting = False, producer = False, origin = 0\<rparr>"

fun deque :: "(nat \<Rightarrow> 'a node) \<Rightarrow> nat list \<Rightarrow> nat option \<times> nat list" where
  "deque nodes [] = (None, [])"
| "deque nodes (n # ns) = (if state (nodes n) \<noteq> CANCELLED then (Some n, ns) else deque nodes ns)"

section \<open>Sections under a node's mutex\<close>

text \<open>How a section ends: go round the outer loop, wait on the node, return, throw.\<close>

datatype 'a sect = Retry | Block | Put_done int | Take_done 'a | Throw daf_exception

text \<open>The handler \<open>catch (...)\<close> cancels the node.\<close>

definition cancel_throw :: "'a \<Rightarrow> daf_exception \<Rightarrow> 'a node \<Rightarrow> 'a node \<times> 'a sect" where
  "cancel_throw blank e nd = (set_state blank CANCELLED nd, Throw e)"

text \<open>\<open>Monitor::wait\<close> throws at once when the node's own flag is set.\<close>

definition node_wait :: "'a \<Rightarrow> 'a node \<Rightarrow> 'a node \<times> 'a sect" where
  "node_wait blank nd =
     (if stopped nd then cancel_throw blank InterruptedException nd else (nd\<lparr>resting := True\<rparr>, Block))"

definition put_loop :: "'a \<Rightarrow> bool \<Rightarrow> 'a node \<Rightarrow> 'a node \<times> 'a sect" where
  "put_loop blank intr nd =
     (if state nd = CANCELLED then (nd, Retry)
      else if intr then cancel_throw blank InterruptedException nd
      else if state nd = FULL then node_wait blank nd
      else (nd, Put_done 0))"

fun put_woken :: "'a \<Rightarrow> bool \<Rightarrow> wres \<Rightarrow> 'a node \<Rightarrow> 'a node \<times> 'a sect" where
  "put_woken blank intr W_interrupted nd = cancel_throw blank InterruptedException nd"
| "put_woken blank intr (W_error e) nd =
     (if state nd = FULL then
        if intr \<or> e = EINTR then cancel_throw blank InterruptedException nd
        else (set_state blank CANCELLED nd, Put_done (- 1))
      else if state nd = EMPTY then (nd, Put_done 0)
      else put_loop blank intr nd)"
| "put_woken blank intr W_ok nd =
     (if state nd = EMPTY then (nd, Put_done 0) else put_loop blank intr nd)"

definition put_fill :: "'a \<Rightarrow> bool \<Rightarrow> 'a \<Rightarrow> 'a node \<Rightarrow> 'a node \<times> 'a sect" where
  "put_fill blank intr v nd =
     (if intr then cancel_throw blank InterruptedException nd
      else case put_item blank v nd of
        (rc, nd') \<Rightarrow> if rc = 0 \<and> state nd' = FULL then (nd', Put_done 0) else (nd', Retry))"

definition take_loop :: "'a \<Rightarrow> bool \<Rightarrow> 'a node \<Rightarrow> 'a node \<times> 'a sect" where
  "take_loop blank intr nd =
     (if state nd = CANCELLED then (nd, Retry)
      else if intr then cancel_throw blank InterruptedException nd
      else case get_item blank nd of
        (Some v, nd') \<Rightarrow> (nd', Take_done v)
      | (None, nd') \<Rightarrow> if state nd' = CANCELLED then (nd', Retry) else node_wait blank nd')"

fun take_woken :: "'a \<Rightarrow> bool \<Rightarrow> wres \<Rightarrow> 'a node \<Rightarrow> 'a node \<times> 'a sect" where
  "take_woken blank intr W_interrupted nd = cancel_throw blank InterruptedException nd"
| "take_woken blank intr (W_error e) nd =
     (case get_item blank nd of
        (Some v, nd') \<Rightarrow> (nd', Take_done v)
      | (None, nd') \<Rightarrow>
          cancel_throw blank
            (if intr \<or> e = EINTR then InterruptedException else if e = ETIME then TimeoutException else InternalException)
            nd')"
| "take_woken blank intr W_ok nd = take_loop blank intr nd"

definition take_empty :: "'a \<Rightarrow> bool \<Rightarrow> 'a node \<Rightarrow> 'a node \<times> 'a sect" where
  "take_empty blank intr nd =
     (if intr then cancel_throw blank InterruptedException nd
      else case get_item blank nd of
        (Some v, nd') \<Rightarrow> if state nd' = EMPTY then (nd', Take_done v) else (nd', Retry)
      | (None, nd') \<Rightarrow> (nd', Retry))"

section \<open>The channel\<close>

datatype 'a syn_pc =
    S_idle
  | Put_test nat 'a
  | Put_lock nat 'a
  | Put_own nat 'a nat
  | Put_wait nat 'a nat
  | Put_other nat 'a nat
  | Put_return int
  | Take_test
  | Take_lock
  | Take_own nat
  | Take_wait nat
  | Take_other nat
  | Take_return 'a
  | S_throw daf_exception

text \<open>Where the value of a \<open>put\<close> is: still with the caller, in a node, taken, or dropped.\<close>

datatype place = Unborn | Held | At nat | Gone | Dropped

record 'a schan =
  nodes :: "nat \<Rightarrow> 'a node"
  nnodes :: nat
  waitingProducers :: "nat list"
  waitingConsumers :: "nat list"
  halted :: bool
  pcs :: "tid \<Rightarrow> 'a syn_pc"
  calls :: nat
  offered :: "nat \<Rightarrow> 'a"
  whereis :: "nat \<Rightarrow> place"
  accepted :: "nat list"
  refused :: "nat list"
  delivered :: "(nat \<times> 'a) list"

definition syn_init :: "'a \<Rightarrow> 'a schan" where
  "syn_init blank =
     \<lparr>nodes = (\<lambda>_. (new_empty blank)\<lparr>state := CANCELLED\<rparr>), nnodes = 0, waitingProducers = [], waitingConsumers = [],
      halted = False, pcs = (\<lambda>_. S_idle), calls = 0, offered = (\<lambda>_. blank), whereis = (\<lambda>_. Unborn),
      accepted = [], refused = [], delivered = []\<rparr>"

definition syn_size :: "'a schan \<Rightarrow> nat" where
  "syn_size s = length (waitingProducers s)"

definition syn_capacity :: "'a schan \<Rightarrow> nat" where
  "syn_capacity s = syn_size s + 1"

definition set_pc :: "tid \<Rightarrow> 'a syn_pc \<Rightarrow> 'a schan \<Rightarrow> 'a schan" where
  "set_pc t l s = s\<lparr>pcs := (pcs s)(t := l)\<rparr>"

definition set_node :: "nat \<Rightarrow> 'a node \<Rightarrow> 'a schan \<Rightarrow> 'a schan" where
  "set_node n nd s = s\<lparr>nodes := (nodes s)(n := nd)\<rparr>"

text \<open>History of \<open>put\<close> and \<open>take\<close>.\<close>

definition put_fails :: "nat \<Rightarrow> 'a schan \<Rightarrow> 'a schan" where
  "put_fails c s =
     s\<lparr>refused := c # refused s, whereis := (whereis s)(c := if whereis s c = Gone then Gone else Dropped)\<rparr>"

definition put_works :: "nat \<Rightarrow> 'a schan \<Rightarrow> 'a schan" where
  "put_works c s = s\<lparr>accepted := c # accepted s\<rparr>"

definition move_item :: "nat \<Rightarrow> place \<Rightarrow> 'a schan \<Rightarrow> 'a schan" where
  "move_item c w s = s\<lparr>whereis := (whereis s)(c := w)\<rparr>"

definition take_works :: "nat \<Rightarrow> 'a \<Rightarrow> 'a schan \<Rightarrow> 'a schan" where
  "take_works c v s = move_item c Gone (s\<lparr>delivered := delivered s @ [(c, v)]\<rparr>)"

text \<open>The end of a section of \<open>put\<close> on its own node, and on the node of a consumer.\<close>

definition put_leave :: "tid \<Rightarrow> nat \<Rightarrow> 'a \<Rightarrow> nat \<Rightarrow> 'a schan \<Rightarrow> 'a node \<times> 'a sect \<Rightarrow> 'a schan" where
  "put_leave t c v n s r =
     (let s' = set_node n (fst r) s in
      case snd r of
        Retry \<Rightarrow> set_pc t (Put_test c v) s'
      | Block \<Rightarrow> set_pc t (Put_wait c v n) s'
      | Put_done rc \<Rightarrow> set_pc t (Put_return rc) (if rc = 0 then put_works c s' else put_fails c s')
      | Take_done _ \<Rightarrow> s'
      | Throw e \<Rightarrow> set_pc t (S_throw e) (put_fails c s'))"

definition fill_leave :: "tid \<Rightarrow> nat \<Rightarrow> 'a \<Rightarrow> nat \<Rightarrow> 'a schan \<Rightarrow> 'a node \<times> 'a sect \<Rightarrow> 'a schan" where
  "fill_leave t c v n s r =
     (case snd r of
        Put_done rc \<Rightarrow>
          set_pc t (Put_return rc) (move_item c (At n) (put_works c (set_node n ((fst r)\<lparr>origin := c\<rparr>) s)))
      | Throw e \<Rightarrow> set_pc t (S_throw e) (put_fails c (set_node n (fst r) s))
      | _ \<Rightarrow> set_pc t (Put_test c v) (set_node n (fst r) s))"

text \<open>
  The same for \<open>take\<close>.  When the handler cancels a full node, the value is lost if the node
  was the consumer's own, and stays with the caller of \<open>put\<close> otherwise.
\<close>

definition take_leave :: "tid \<Rightarrow> bool \<Rightarrow> nat \<Rightarrow> 'a schan \<Rightarrow> 'a node \<times> 'a sect \<Rightarrow> 'a schan" where
  "take_leave t own n s r =
     (let c = origin (nodes s n); s' = set_node n (fst r) s in
      case snd r of
        Retry \<Rightarrow> set_pc t Take_test s'
      | Block \<Rightarrow> set_pc t (Take_wait n) s'
      | Take_done v \<Rightarrow> set_pc t (Take_return v) (take_works c v s')
      | Put_done _ \<Rightarrow> s'
      | Throw e \<Rightarrow>
          set_pc t (S_throw e)
            (if state (nodes s n) = FULL then move_item c (if own then Dropped else Held) s' else s'))"

text \<open>One section of the thread \<open>t\<close>.\<close>

fun syn_go :: "'a \<Rightarrow> tid \<Rightarrow> 'a schan \<Rightarrow> 'a syn_pc \<Rightarrow> 'a schan option" where
  "syn_go blank t s (Put_test c v) =
     Some (if halted s then set_pc t (S_throw InterruptedException) (put_fails c s) else set_pc t (Put_lock c v) s)"
| "syn_go blank t s (Put_lock c v) =
     (case deque (nodes s) (waitingConsumers s) of
        (Some n, ns) \<Rightarrow> Some (set_pc t (Put_other c v n) (s\<lparr>waitingConsumers := ns\<rparr>))
      | (None, ns) \<Rightarrow>
          Some (set_pc t (Put_own c v (nnodes s))
            (move_item c (At (nnodes s)) (set_node (nnodes s) (new_full v c)
              (s\<lparr>waitingConsumers := ns, waitingProducers := waitingProducers s @ [nnodes s], nnodes := Suc (nnodes s)\<rparr>)))))"
| "syn_go blank t s (Put_own c v n) = Some (put_leave t c v n s (put_loop blank (halted s) (nodes s n)))"
| "syn_go blank t s (Put_other c v n) = Some (fill_leave t c v n s (put_fill blank (halted s) v (nodes s n)))"
| "syn_go blank t s Take_test =
     Some (if halted s then set_pc t (S_throw InterruptedException) s else set_pc t Take_lock s)"
| "syn_go blank t s Take_lock =
     (case deque (nodes s) (waitingProducers s) of
        (Some n, ns) \<Rightarrow> Some (set_pc t (Take_other n) (s\<lparr>waitingProducers := ns\<rparr>))
      | (None, ns) \<Rightarrow>
          Some (set_pc t (Take_own (nnodes s))
            (set_node (nnodes s) (new_empty blank)
              (s\<lparr>waitingProducers := ns, waitingConsumers := waitingConsumers s @ [nnodes s], nnodes := Suc (nnodes s)\<rparr>))))"
| "syn_go blank t s (Take_own n) = Some (take_leave t True n s (take_loop blank (halted s) (nodes s n)))"
| "syn_go blank t s (Take_other n) = Some (take_leave t False n s (take_empty blank (halted s) (nodes s n)))"
| "syn_go blank t s _ = None"

text \<open>The section from the return of \<open>wait\<close>; \<open>wait\<close> throws when the node's own flag is set.\<close>

fun syn_wake :: "'a \<Rightarrow> tid \<Rightarrow> wres \<Rightarrow> 'a schan \<Rightarrow> 'a syn_pc \<Rightarrow> 'a schan option" where
  "syn_wake blank t r s (Put_wait c v n) =
     (let nd = (nodes s n)\<lparr>resting := False\<rparr> in
      Some (put_leave t c v n s (put_woken blank (halted s) (if stopped nd then W_interrupted else r) nd)))"
| "syn_wake blank t r s (Take_wait n) =
     (let nd = (nodes s n)\<lparr>resting := False\<rparr> in
      Some (take_leave t True n s (take_woken blank (halted s) (if stopped nd then W_interrupted else r) nd)))"
| "syn_wake blank t r s _ = None"

fun syn_idle :: "'a syn_pc \<Rightarrow> bool" where
  "syn_idle S_idle = True"
| "syn_idle (Put_return rc) = True"
| "syn_idle (Take_return v) = True"
| "syn_idle (S_throw e) = True"
| "syn_idle _ = False"

datatype 'a syn_event = Put tid 'a | Take tid | Go tid | Woken tid wres | Halt_all

definition syn_step :: "'a \<Rightarrow> 'a schan \<Rightarrow> 'a syn_event \<Rightarrow> 'a schan option" where
  "syn_step blank s e =
     (case e of
        Put t v \<Rightarrow>
          if syn_idle (pcs s t) then
            Some (set_pc t (Put_test (calls s) v)
              (s\<lparr>calls := Suc (calls s), offered := (offered s)(calls s := v), whereis := (whereis s)(calls s := Held)\<rparr>))
          else None
      | Take t \<Rightarrow> if syn_idle (pcs s t) then Some (set_pc t Take_test s) else None
      | Go t \<Rightarrow> syn_go blank t s (pcs s t)
      | Woken t r \<Rightarrow> if r \<noteq> W_interrupted then syn_wake blank t r s (pcs s t) else None
      | Halt_all \<Rightarrow> Some (s\<lparr>halted := True\<rparr>))"

section \<open>The invariant\<close>

fun own_of :: "'a syn_pc \<Rightarrow> nat option" where
  "own_of (Put_own c v n) = Some n"
| "own_of (Put_wait c v n) = Some n"
| "own_of (Take_own n) = Some n"
| "own_of (Take_wait n) = Some n"
| "own_of _ = None"

fun other_of :: "'a syn_pc \<Rightarrow> nat option" where
  "other_of (Put_other c v n) = Some n"
| "other_of (Take_other n) = Some n"
| "other_of _ = None"

fun call_of :: "'a syn_pc \<Rightarrow> nat option" where
  "call_of (Put_test c v) = Some c"
| "call_of (Put_lock c v) = Some c"
| "call_of (Put_own c v n) = Some c"
| "call_of (Put_wait c v n) = Some c"
| "call_of (Put_other c v n) = Some c"
| "call_of _ = None"

definition put_owner_ok :: "'a schan \<Rightarrow> nat \<Rightarrow> 'a \<Rightarrow> nat \<Rightarrow> bool" where
  "put_owner_ok s c v n \<longleftrightarrow> n < nnodes s \<and> producer (nodes s n) \<and> origin (nodes s n) = c \<and> offered s c = v \<and>
     whereis s c = (case state (nodes s n) of FULL \<Rightarrow> At n | EMPTY \<Rightarrow> Gone | CANCELLED \<Rightarrow> Held) \<and>
     (state (nodes s n) = CANCELLED \<longrightarrow> halted s)"

definition take_owner_ok :: "'a schan \<Rightarrow> nat \<Rightarrow> bool" where
  "take_owner_ok s n \<longleftrightarrow> n < nnodes s \<and> \<not> producer (nodes s n) \<and> (state (nodes s n) = CANCELLED \<longrightarrow> halted s)"

text \<open>What holds of a thread at its program point.\<close>

fun thread_ok :: "'a schan \<Rightarrow> 'a syn_pc \<Rightarrow> bool" where
  "thread_ok s (Put_test c v) = (whereis s c = Held \<and> offered s c = v)"
| "thread_ok s (Put_lock c v) = (whereis s c = Held \<and> offered s c = v)"
| "thread_ok s (Put_own c v n) = put_owner_ok s c v n"
| "thread_ok s (Put_wait c v n) = (put_owner_ok s c v n \<and> (state (nodes s n) \<noteq> FULL \<longrightarrow> \<not> resting (nodes s n)))"
| "thread_ok s (Put_other c v n) =
     (n < nnodes s \<and> \<not> producer (nodes s n) \<and> state (nodes s n) \<noteq> FULL \<and> n \<notin> set (waitingConsumers s) \<and>
      whereis s c = Held \<and> offered s c = v)"
| "thread_ok s (Take_own n) = take_owner_ok s n"
| "thread_ok s (Take_wait n) = (take_owner_ok s n \<and> (state (nodes s n) \<noteq> EMPTY \<longrightarrow> \<not> resting (nodes s n)))"
| "thread_ok s (Take_other n) =
     (n < nnodes s \<and> producer (nodes s n) \<and> state (nodes s n) \<noteq> EMPTY \<and> n \<notin> set (waitingProducers s))"
| "thread_ok s _ = True"

definition threads_ok :: "'a schan \<Rightarrow> bool" where
  "threads_ok s \<longleftrightarrow> (\<forall>t. thread_ok s (pcs s t))"

text \<open>A node has at most one owner and at most one partner, a call one thread.\<close>

definition exclusive :: "('b syn_pc \<Rightarrow> nat option) \<Rightarrow> (tid \<Rightarrow> 'b syn_pc) \<Rightarrow> bool" where
  "exclusive f p \<longleftrightarrow> (\<forall>t t' n. f (p t) = Some n \<longrightarrow> f (p t') = Some n \<longrightarrow> t = t')"

definition excl_ok :: "'a schan \<Rightarrow> bool" where
  "excl_ok s \<longleftrightarrow> exclusive own_of (pcs s) \<and> exclusive other_of (pcs s) \<and> exclusive call_of (pcs s) \<and>
     (\<forall>t c. call_of (pcs s t) = Some c \<longrightarrow> c < calls s \<and> c \<notin> set (accepted s) \<and> c \<notin> set (refused s))"

definition owned_node :: "'a schan \<Rightarrow> nat \<Rightarrow> bool" where
  "owned_node s n \<longleftrightarrow> (\<exists>t. own_of (pcs s t) = Some n)"

text \<open>An empty node that nobody looks at any more.\<close>

definition retired :: "'a schan \<Rightarrow> nat \<Rightarrow> bool" where
  "retired s n \<longleftrightarrow> state (nodes s n) = EMPTY \<and> n \<notin> set (waitingConsumers s) \<and> (\<forall>t. other_of (pcs s t) \<noteq> Some n)"

definition node_ok :: "'a schan \<Rightarrow> nat \<Rightarrow> bool" where
  "node_ok s n \<longleftrightarrow> \<not> stopped (nodes s n) \<and>
     (state (nodes s n) \<noteq> CANCELLED \<longrightarrow> n < nnodes s \<and> (owned_node s n \<or> retired s n)) \<and>
     (state (nodes s n) = FULL \<longrightarrow> whereis s (origin (nodes s n)) = At n \<and>
        item (nodes s n) = offered s (origin (nodes s n)) \<and>
        (\<not> producer (nodes s n) \<longrightarrow> origin (nodes s n) \<in> set (accepted s)))"

definition nodes_ok :: "'a schan \<Rightarrow> bool" where
  "nodes_ok s \<longleftrightarrow> (\<forall>n. node_ok s n) \<and>
     (\<forall>c n. whereis s c = At n \<longrightarrow> state (nodes s n) = FULL \<and> origin (nodes s n) = c)"

definition queues_ok :: "'a schan \<Rightarrow> bool" where
  "queues_ok s \<longleftrightarrow>
     distinct (waitingProducers s) \<and> distinct (waitingConsumers s) \<and>
     (waitingProducers s = [] \<or> waitingConsumers s = []) \<and>
     (\<forall>n \<in> set (waitingProducers s). n < nnodes s \<and> producer (nodes s n) \<and> state (nodes s n) \<noteq> EMPTY) \<and>
     (\<forall>n \<in> set (waitingConsumers s). n < nnodes s \<and> \<not> producer (nodes s n) \<and> state (nodes s n) \<noteq> FULL)"

definition log_ok :: "'a schan \<Rightarrow> bool" where
  "log_ok s \<longleftrightarrow> distinct (accepted s @ refused s) \<and> (\<forall>c \<in> set (accepted s @ refused s). c < calls s)"

definition fate_ok :: "'a schan \<Rightarrow> nat \<Rightarrow> bool" where
  "fate_ok s c \<longleftrightarrow> (calls s \<le> c \<longrightarrow> whereis s c = Unborn) \<and>
     (c \<in> set (accepted s) \<longrightarrow> whereis s c = Gone \<or> (\<exists>n. whereis s c = At n \<and> \<not> producer (nodes s n)) \<or>
        whereis s c = Dropped \<and> halted s) \<and>
     (c \<in> set (refused s) \<longrightarrow> whereis s c = Dropped \<or> whereis s c = Gone \<and> halted s)"

definition delivered_ok :: "'a schan \<Rightarrow> bool" where
  "delivered_ok s \<longleftrightarrow> {c. whereis s c = Gone} = fst ` set (delivered s) \<and> distinct (map fst (delivered s)) \<and>
     (\<forall>x \<in> set (delivered s). snd x = offered s (fst x))"

definition history_ok :: "'a schan \<Rightarrow> bool" where
  "history_ok s \<longleftrightarrow> log_ok s \<and> (\<forall>c. fate_ok s c) \<and> delivered_ok s"

definition syn_inv :: "'a schan \<Rightarrow> bool" where
  "syn_inv s \<longleftrightarrow> threads_ok s \<and> excl_ok s \<and> nodes_ok s \<and> queues_ok s \<and> history_ok s"

lemma syn_inv_init: "syn_inv (syn_init blank)"
  by (auto simp: syn_inv_def syn_init_def threads_ok_def excl_ok_def exclusive_def nodes_ok_def node_ok_def queues_ok_def
      history_ok_def log_ok_def fate_ok_def delivered_ok_def new_empty_def)

lemmas syn_upd = set_pc_def set_node_def put_fails_def put_works_def move_item_def take_works_def Let_def

text \<open>A thread is not disturbed by a change that leaves its nodes and its call alone.\<close>

lemma thread_frame:
  assumes "thread_ok s pc"
    "\<And>m. own_of pc = Some m \<Longrightarrow> nodes s' m = nodes s m"
    "\<And>m. other_of pc = Some m \<Longrightarrow> nodes s' m = nodes s m \<and>
       (m \<in> set (waitingProducers s') \<longrightarrow> m \<in> set (waitingProducers s)) \<and>
       (m \<in> set (waitingConsumers s') \<longrightarrow> m \<in> set (waitingConsumers s))"
    "\<And>c. call_of pc = Some c \<Longrightarrow> whereis s' c = whereis s c \<and> offered s' c = offered s c"
    "nnodes s \<le> nnodes s'" "halted s \<longrightarrow> halted s'"
  shows "thread_ok s' pc"
  using assms by (cases pc) (auto simp: put_owner_ok_def take_owner_ok_def split: node_state.splits)

lemma exclusive_upd:
  assumes "exclusive f p" "\<And>t' n. t' \<noteq> t \<Longrightarrow> f l = Some n \<Longrightarrow> f (p t') \<noteq> Some n"
  shows "exclusive f (p(t := l))"
  using assms unfolding exclusive_def by (metis fun_upd_apply)

lemma exclusiveD: "exclusive f p \<Longrightarrow> f (p t) = Some n \<Longrightarrow> t' \<noteq> t \<Longrightarrow> f (p t') \<noteq> Some n"
  unfolding exclusive_def by blast

lemma exclusive_keep: "exclusive f p \<Longrightarrow> f l = f (p t) \<or> f l = None \<Longrightarrow> exclusive f (p(t := l))"
  by (rule exclusive_upd) (metis exclusiveD option.distinct(1))+

text \<open>A thread keeps or drops its nodes and its call; the lists grow only by a call it drops.\<close>

lemma excl_keep:
  assumes "excl_ok s" "pcs s' = (pcs s)(t := l)"
    "own_of l = own_of (pcs s t) \<or> own_of l = None" "other_of l = other_of (pcs s t) \<or> other_of l = None"
    "call_of l = call_of (pcs s t) \<or> call_of l = None"
    "calls s' = calls s"
    "\<And>c. c \<in> set (accepted s') \<union> set (refused s') \<Longrightarrow>
       c \<in> set (accepted s) \<union> set (refused s) \<or> call_of (pcs s t) = Some c \<and> call_of l = None"
  shows "excl_ok s'"
proof -
  have e: "exclusive own_of (pcs s)" "exclusive other_of (pcs s)" "exclusive call_of (pcs s)"
    and c: "\<And>t c. call_of (pcs s t) = Some c \<Longrightarrow> c < calls s \<and> c \<notin> set (accepted s) \<and> c \<notin> set (refused s)"
    using assms(1) by (auto simp: excl_ok_def)
  have n: "c' < calls s' \<and> c' \<notin> set (accepted s') \<and> c' \<notin> set (refused s')"
    if a: "call_of (pcs s' t') = Some c'" for t' c'
  proof -
    have old: "call_of (pcs s t') = Some c'" "t' = t \<longrightarrow> call_of l \<noteq> None" using a assms(2,5) by (metis fun_upd_apply option.distinct(1))+
    have "\<not> (call_of (pcs s t) = Some c' \<and> call_of l = None)"
      using old exclusiveD [OF e(3), of t c' t'] by auto
    then show ?thesis using assms(6) assms(7) [of c'] c [OF old(1)] by auto
  qed
  show ?thesis
    unfolding excl_ok_def assms(2)
    using exclusive_keep [OF e(1) assms(3)] exclusive_keep [OF e(2) assms(4)] exclusive_keep [OF e(3) assms(5)] n
    by (auto simp: assms(2))
qed

lemma threads_upd:
  assumes "pcs s' = (pcs s)(t := l)" "thread_ok s' l" "\<And>t'. t' \<noteq> t \<Longrightarrow> thread_ok s' (pcs s t')"
  shows "threads_ok s'"
  using assms by (simp add: threads_ok_def)

lemma syn_invD:
  assumes "syn_inv s"
  shows "thread_ok s (pcs s t)" "excl_ok s" "nodes_ok s" "queues_ok s" "history_ok s"
  using assms by (auto simp: syn_inv_def threads_ok_def)

lemma exclD:
  assumes "excl_ok s"
  shows "own_of (pcs s t) = Some n \<Longrightarrow> t' \<noteq> t \<Longrightarrow> own_of (pcs s t') \<noteq> Some n"
    "other_of (pcs s t) = Some n \<Longrightarrow> t' \<noteq> t \<Longrightarrow> other_of (pcs s t') \<noteq> Some n"
    "call_of (pcs s t) = Some c \<Longrightarrow> t' \<noteq> t \<Longrightarrow> call_of (pcs s t') \<noteq> Some c"
    "call_of (pcs s t) = Some c \<Longrightarrow> c < calls s \<and> c \<notin> set (accepted s) \<and> c \<notin> set (refused s)"
  using assms unfolding excl_ok_def exclusive_def by blast+

lemma queues_cong:
  "queues_ok s \<Longrightarrow> waitingProducers s' = waitingProducers s \<Longrightarrow> waitingConsumers s' = waitingConsumers s \<Longrightarrow>
     nodes s' = nodes s \<Longrightarrow> nnodes s' = nnodes s \<Longrightarrow> queues_ok s'"
  unfolding queues_ok_def by simp

lemma history_cong:
  assumes "history_ok s" "accepted s' = accepted s" "refused s' = refused s" "delivered s' = delivered s"
    "whereis s' = whereis s" "offered s' = offered s" "calls s' = calls s"
    "\<And>n. producer (nodes s' n) = producer (nodes s n)" "halted s \<Longrightarrow> halted s'"
  shows "history_ok s'"
proof -
  have "fate_ok s' c" for c using assms unfolding history_ok_def fate_ok_def by auto
  then show ?thesis using assms by (simp add: history_ok_def log_ok_def delivered_ok_def)
qed

text \<open>
  A step that changes nothing but the program point of a thread that drops its nodes, none
  of which is live.
\<close>

lemma syn_inv_move:
  assumes inv: "syn_inv s" and l: "thread_ok s l" "own_of l = own_of (pcs s t)"
    "other_of l = other_of (pcs s t) \<or> other_of l = None" "call_of l = call_of (pcs s t)"
  shows "syn_inv (set_pc t l s)"
proof -
  have same: "thread_ok (set_pc t l s) pc = thread_ok s pc" for pc
    by (cases pc) (simp_all add: set_pc_def put_owner_ok_def take_owner_ok_def)
  have 1: "threads_ok (set_pc t l s)"
    using inv l(1) by (auto simp: syn_inv_def threads_ok_def same) (simp add: set_pc_def)
  have 2: "excl_ok (set_pc t l s)" using l by (intro excl_keep [OF syn_invD(2) [OF inv], where t = t and l = l]) (auto simp: set_pc_def)
  have own: "own_of (pcs (set_pc t l s) t') = own_of (pcs s t')"
    and other: "other_of (pcs (set_pc t l s) t') = other_of (pcs s t') \<or> other_of (pcs (set_pc t l s) t') = None" for t'
    using l(2,3) by (simp_all add: set_pc_def)
  have "owned_node (set_pc t l s) n = owned_node s n" for n by (simp add: owned_node_def own)
  moreover have "retired s n \<Longrightarrow> retired (set_pc t l s) n" for n
    using other unfolding retired_def by (metis (no_types, lifting) option.distinct(1) schan.ext_inject schan.surjective schan.update_convs(6) set_pc_def)
  ultimately have "node_ok (set_pc t l s) n" for n
    using syn_invD(3) [OF inv] unfolding nodes_ok_def node_ok_def by (auto simp: set_pc_def)
  then have 3: "nodes_ok (set_pc t l s)"
    using syn_invD(3) [OF inv] unfolding nodes_ok_def by (auto simp: set_pc_def)
  have 4: "queues_ok (set_pc t l s)" by (rule queues_cong [OF syn_invD(4) [OF inv]]) (simp_all add: set_pc_def)
  have 5: "history_ok (set_pc t l s)" by (rule history_cong [OF syn_invD(5) [OF inv]]) (simp_all add: set_pc_def)
  show ?thesis using 1 2 3 4 5 by (simp add: syn_inv_def)
qed

section \<open>Sections on a node\<close>

text \<open>
  What every section does: the thread moves, one node changes and keeps its kind, and the
  value of one call may move.
\<close>

definition sect_step ::
  "'a schan \<Rightarrow> tid \<Rightarrow> 'a syn_pc \<Rightarrow> nat \<Rightarrow> 'a node \<Rightarrow> nat \<Rightarrow> place \<Rightarrow> 'a schan \<Rightarrow> bool" where
  "sect_step s t l n nd c w s' \<longleftrightarrow>
     pcs s' = (pcs s)(t := l) \<and> nodes s' = (nodes s)(n := nd) \<and> nnodes s' = nnodes s \<and>
     waitingProducers s' = waitingProducers s \<and> waitingConsumers s' = waitingConsumers s \<and>
     halted s' = halted s \<and> calls s' = calls s \<and> offered s' = offered s \<and>
     whereis s' = (whereis s)(c := w) \<and> producer nd = producer (nodes s n) \<and> \<not> stopped nd"

lemma sect_stepD:
  assumes "sect_step s t l n nd c w s'"
  shows "pcs s' = (pcs s)(t := l)" "nodes s' = (nodes s)(n := nd)" "nnodes s' = nnodes s"
    "waitingProducers s' = waitingProducers s" "waitingConsumers s' = waitingConsumers s"
    "halted s' = halted s" "calls s' = calls s" "offered s' = offered s" "whereis s' = (whereis s)(c := w)"
    "producer nd = producer (nodes s n)" "\<not> stopped nd" "producer (nodes s' m) = producer (nodes s m)"
  using assms by (auto simp: sect_step_def)

lemma queues_sect:
  assumes "queues_ok s" "sect_step s t l n nd c w s'"
    "n \<in> set (waitingProducers s) \<Longrightarrow> state nd \<noteq> EMPTY" "n \<in> set (waitingConsumers s) \<Longrightarrow> state nd \<noteq> FULL"
  shows "queues_ok s'"
  using assms(1,3,4) unfolding queues_ok_def sect_stepD(2-5,10) [OF assms(2)]
  by (auto simp: sect_stepD(10) [OF assms(2)])

lemma nodes_sect:
  assumes ok: "nodes_ok s" and st: "sect_step s t l n nd c w s'"
    and own: "own_of (pcs s t) = None \<or> own_of (pcs s t) = Some n"
    and other: "other_of l = other_of (pcs s t) \<or> other_of l = None"
    and acc: "set (accepted s) \<subseteq> set (accepted s')"
    and c: "\<And>m. whereis s c = At m \<Longrightarrow> m = n"
    and n: "node_ok s' n"
    and away: "\<And>c'. c' \<noteq> c \<Longrightarrow> whereis s c' = At n \<Longrightarrow> state nd = FULL \<and> origin nd = c'"
    and w: "\<And>m. w = At m \<Longrightarrow> m = n \<and> state nd = FULL \<and> origin nd = c"
  shows "nodes_ok s'"
proof -
  have m: "node_ok s' m" if "m \<noteq> n" for m
  proof -
    have old: "node_ok s m" using ok by (simp add: nodes_ok_def)
    have "owned_node s m \<Longrightarrow> owned_node s' m"
      using own that unfolding owned_node_def sect_stepD(1) [OF st] by (metis fun_upd_apply option.distinct(1) option.inject)
    moreover have "retired s m \<Longrightarrow> retired s' m"
      using other that unfolding retired_def sect_stepD(1,2,5) [OF st] by (metis fun_upd_apply option.distinct(1))
    moreover have "state (nodes s m) = FULL \<Longrightarrow> origin (nodes s m) \<noteq> c" using old c that by (auto simp: node_ok_def)
    ultimately show ?thesis
      using old acc that by (auto simp: node_ok_def sect_stepD(2,3,8,9) [OF st])
  qed
  have "state (nodes s' m) = FULL \<and> origin (nodes s' m) = c'" if a: "whereis s' c' = At m" for c' m
  proof (cases "c' = c")
    case True
    then show ?thesis using w [of m] a by (simp add: sect_stepD(2,9) [OF st])
  next
    case False
    then have "whereis s c' = At m" using a by (simp add: sect_stepD(9) [OF st])
    then show ?thesis using ok away [OF False] by (auto simp: nodes_ok_def sect_stepD(2) [OF st])
  qed
  then show ?thesis using m n unfolding nodes_ok_def by metis
qed

lemma history_sect:
  assumes "history_ok s" and st: "sect_step s t l n nd c w s'" and "log_ok s'" "fate_ok s' c" "delivered_ok s'"
    "\<And>c'. c' \<noteq> c \<Longrightarrow> (c' \<in> set (accepted s') \<longleftrightarrow> c' \<in> set (accepted s)) \<and> (c' \<in> set (refused s') \<longleftrightarrow> c' \<in> set (refused s))"
  shows "history_ok s'"
proof -
  have "fate_ok s' c'" for c'
  proof (cases "c' = c")
    case False
    have "fate_ok s c'" using assms(1) by (simp add: history_ok_def)
    then show ?thesis
      unfolding fate_ok_def sect_stepD(6,7,12) [OF st] using False assms(6) by (simp add: sect_stepD(9) [OF st])
  qed (use assms(4) in simp)
  then show ?thesis using assms by (simp add: history_ok_def)
qed

text \<open>The history when a call is accepted, refused, delivered, or only moved.\<close>

lemma historyD:
  assumes "history_ok s"
  shows "log_ok s" "fate_ok s c" "delivered_ok s"
  using assms by (auto simp: history_ok_def)

lemma delivered_gone: "delivered_ok s \<Longrightarrow> c \<in> fst ` set (delivered s) \<longleftrightarrow> whereis s c = Gone"
  unfolding delivered_ok_def by blast

lemma history_accept:
  assumes h: "history_ok s" and st: "sect_step s t l n nd c w s'"
    and new: "c < calls s" "c \<notin> set (accepted s)" "c \<notin> set (refused s)"
    and lists: "accepted s' = c # accepted s" "refused s' = refused s" "delivered s' = delivered s"
    and w: "w = Gone \<longleftrightarrow> whereis s c = Gone" "w = Gone \<or> w = At n \<and> \<not> producer nd"
  shows "history_ok s'"
proof (rule history_sect [OF h st])
  show "log_ok s'" using historyD(1) [OF h] new by (auto simp: log_ok_def lists sect_stepD(7) [OF st])
  show "fate_ok s' c" using new w(2) by (auto simp: fate_ok_def lists sect_stepD(2,7,9) [OF st])
  show "delivered_ok s'" using historyD(3) [OF h] w(1) by (auto simp: delivered_ok_def lists sect_stepD(8,9) [OF st])
qed (auto simp: lists)

lemma history_refuse:
  assumes h: "history_ok s" and st: "sect_step s t l n nd c w s'"
    and new: "c < calls s" "c \<notin> set (accepted s)" "c \<notin> set (refused s)"
    and lists: "accepted s' = accepted s" "refused s' = c # refused s" "delivered s' = delivered s"
    and w: "w = Gone \<longleftrightarrow> whereis s c = Gone" "w = Dropped \<or> w = Gone \<and> halted s"
  shows "history_ok s'"
proof (rule history_sect [OF h st])
  show "log_ok s'" using historyD(1) [OF h] new by (auto simp: log_ok_def lists sect_stepD(7) [OF st])
  show "fate_ok s' c" using new w(2) by (auto simp: fate_ok_def lists sect_stepD(2,6,7,9) [OF st])
  show "delivered_ok s'" using historyD(3) [OF h] w(1) by (auto simp: delivered_ok_def lists sect_stepD(8,9) [OF st])
qed (auto simp: lists)

lemma history_deliver:
  assumes h: "history_ok s" and st: "sect_step s t l n nd c Gone s'"
    and at: "whereis s c = At n"
    and lists: "accepted s' = accepted s" "refused s' = refused s" "delivered s' = delivered s @ [(c, offered s c)]"
  shows "history_ok s'"
proof (rule history_sect [OF h st])
  show "log_ok s'" using historyD(1) [OF h] by (auto simp: log_ok_def lists sect_stepD(7) [OF st])
  show "fate_ok s' c" using historyD(2) [OF h, of c] at by (auto simp: fate_ok_def lists sect_stepD(2,7,9) [OF st])
  have "c \<notin> fst ` set (delivered s)" using delivered_gone [OF historyD(3) [OF h]] at by simp
  then show "delivered_ok s'" using historyD(3) [OF h] by (auto simp: delivered_ok_def lists sect_stepD(8,9) [OF st])
qed (auto simp: lists)

lemma history_drop:
  assumes h: "history_ok s" and st: "sect_step s t l n nd c w s'"
    and at: "whereis s c = At n" "w = Held \<and> producer (nodes s n) \<or> w = Dropped \<and> halted s"
    and lists: "accepted s' = accepted s" "refused s' = refused s" "delivered s' = delivered s"
  shows "history_ok s'"
proof (rule history_sect [OF h st])
  show "log_ok s'" using historyD(1) [OF h] by (auto simp: log_ok_def lists sect_stepD(7) [OF st])
  show "fate_ok s' c" using historyD(2) [OF h, of c] at by (auto simp: fate_ok_def lists sect_stepD(2,6,7,9) [OF st])
  have "{c'. whereis s' c' = Gone} = {c'. whereis s c' = Gone}" using at by (auto simp: sect_stepD(9) [OF st])
  then show "delivered_ok s'" using historyD(3) [OF h] by (simp add: delivered_ok_def lists sect_stepD(8) [OF st])
qed (auto simp: lists)

lemma history_stay:
  assumes h: "history_ok s" and st: "sect_step s t l n nd c w s'" and "w = whereis s c"
    and lists: "accepted s' = accepted s" "refused s' = refused s" "delivered s' = delivered s"
  shows "history_ok s'"
  by (rule history_cong [OF h]) (use assms sect_stepD [OF st] in auto)

section \<open>The invariant is kept by every section\<close>

text \<open>The other threads when the owner of the node, and when its partner, runs a section.\<close>

lemma others_owner:
  assumes inv: "syn_inv s" and st: "sect_step s t l n nd c w s'" and own: "own_of (pcs s t) = Some n"
    and ne: "t' \<noteq> t"
    and c: "call_of (pcs s t') = Some c \<Longrightarrow> w = whereis s c"
    and nd: "state nd = state (nodes s n) \<or> state nd = CANCELLED \<or> state nd = EMPTY \<and> \<not> producer nd"
  shows "thread_ok s' (pcs s t')"
proof (cases "other_of (pcs s t') = Some n")
  case False
  have "own_of (pcs s t') \<noteq> Some n" using exclD(1) [OF syn_invD(2) [OF inv] own ne] .
  then show ?thesis
    using False c by (intro thread_frame [OF syn_invD(1) [OF inv, of t']]) (auto simp: sect_stepD(2-9) [OF st])
next
  case True
  have "call_of (pcs s t') = Some c' \<Longrightarrow> whereis s' c' = whereis s c'" for c'
    using c by (auto simp: sect_stepD(9) [OF st])
  with True nd syn_invD(1) [OF inv, of t'] show ?thesis
    by (cases "pcs s t'") (auto simp: sect_stepD(2-8,10) [OF st])
qed

lemma others_partner:
  assumes inv: "syn_inv s" and st: "sect_step s t l n nd c w s'" and other: "other_of (pcs s t) = Some n"
    and ne: "t' \<noteq> t"
    and c: "call_of (pcs s t') = Some c \<Longrightarrow> own_of (pcs s t') \<noteq> Some n \<Longrightarrow> w = whereis s c"
    and own: "own_of (pcs s t') = Some n \<Longrightarrow> thread_ok s' (pcs s t')"
  shows "thread_ok s' (pcs s t')"
proof (cases "own_of (pcs s t') = Some n")
  case False
  have "other_of (pcs s t') \<noteq> Some n" using exclD(2) [OF syn_invD(2) [OF inv] other ne] .
  then show ?thesis
    using False c by (intro thread_frame [OF syn_invD(1) [OF inv, of t']]) (auto simp: sect_stepD(2-9) [OF st])
qed (rule own)

text \<open>The owner of a producer's node waits again, retries or is done: the node keeps its state.\<close>

lemma put_stays:
  assumes inv: "syn_inv s" and pc: "pcs s t = Put_own c v n \<or> pcs s t = Put_wait c v n"
    and st: "sect_step s t l n nd c (whereis s c) s'"
    and nd: "state nd = state (nodes s n)" "item nd = item (nodes s n)" "origin nd = origin (nodes s n)"
    and l: "state nd = FULL \<and> l = Put_wait c v n \<or> state nd = CANCELLED \<and> l = Put_test c v \<or> state nd = EMPTY \<and> l = Put_return 0"
    and lists: "accepted s' = (if state nd = EMPTY then c # accepted s else accepted s)" "refused s' = refused s"
      "delivered s' = delivered s"
  shows "syn_inv s'"
proof -
  have own: "own_of (pcs s t) = Some n" and call: "call_of (pcs s t) = Some c" and ot: "other_of (pcs s t) = None"
    and ok: "put_owner_ok s c v n"
    using pc syn_invD(1) [OF inv, of t] by auto
  note ex = syn_invD(2) [OF inv] and no = syn_invD(3) [OF inv]
  have w: "whereis s' = whereis s" by (simp add: sect_stepD(9) [OF st])
  have 1: "threads_ok s'"
  proof (rule threads_upd [OF sect_stepD(1) [OF st]])
    show "thread_ok s' l"
      using l ok nd by (auto simp: put_owner_ok_def w sect_stepD(2-8,10) [OF st])
    show "thread_ok s' (pcs s t')" if "t' \<noteq> t" for t'
      by (rule others_owner [OF inv st own that]) (use nd in auto)
  qed
  have 2: "excl_ok s'"
    by (rule excl_keep [OF ex sect_stepD(1) [OF st]]) (use l own call ot lists sect_stepD(7) [OF st] in \<open>auto split: if_splits\<close>)
  have "node_ok s n" using no by (simp add: nodes_ok_def)
  moreover have "retired s' n" if "state nd = EMPTY"
  proof -
    have "other_of (pcs s t') \<noteq> Some n" for t'
      using syn_invD(1) [OF inv, of t'] that ok nd(1) by (cases "pcs s t'") (auto simp: put_owner_ok_def)
    moreover have "n \<notin> set (waitingConsumers s)" using syn_invD(4) [OF inv] ok by (auto simp: queues_ok_def put_owner_ok_def)
    ultimately show ?thesis using that l by (auto simp: retired_def sect_stepD(1,2,5) [OF st])
  qed
  moreover have "owned_node s' n" if "state nd = FULL"
    using that l unfolding owned_node_def sect_stepD(1) [OF st] by (intro exI [of _ t]) auto
  ultimately have n: "node_ok s' n"
    using nd l ok by (cases "state nd") (auto simp: node_ok_def put_owner_ok_def w lists sect_stepD(2,3,8,10,11) [OF st])
  have 3: "nodes_ok s'"
    by (rule nodes_sect [OF no st]) (use own ot l lists n nd ok no in \<open>auto simp: put_owner_ok_def nodes_ok_def split: node_state.splits\<close>)
  have 4: "queues_ok s'"
    using syn_invD(4) [OF inv] by (intro queues_sect [OF _ st]) (auto simp: queues_ok_def nd)
  have 5: "history_ok s'"
  proof (cases "state nd = EMPTY")
    case True
    then show ?thesis
      using ok nd(1) exclD(4) [OF ex call] lists
      by (intro history_accept [OF syn_invD(5) [OF inv] st]) (auto simp: put_owner_ok_def)
  qed (use lists in \<open>auto intro: history_stay [OF syn_invD(5) [OF inv] st]\<close>)
  show ?thesis using 1 2 3 4 5 by (simp add: syn_inv_def)
qed
text \<open>A section that moves no value may name any call.\<close>

lemma sect_step_other: "sect_step s t l n nd c (whereis s c) s' \<Longrightarrow> sect_step s t l n nd c' (whereis s c') s'"
  unfolding sect_step_def by (simp add: fun_upd_idem)

text \<open>The owner of a producer's node gives up: the value was not taken, or the channel is halted.\<close>

lemma put_gives_up:
  assumes inv: "syn_inv s" and pc: "pcs s t = Put_own c v n \<or> pcs s t = Put_wait c v n"
    and st: "sect_step s t l n nd c (if whereis s c = Gone then Gone else Dropped) s'"
    and nd: "state nd = CANCELLED" "state (nodes s n) = EMPTY \<Longrightarrow> halted s"
    and l: "syn_idle l"
    and lists: "accepted s' = accepted s" "refused s' = c # refused s" "delivered s' = delivered s"
  shows "syn_inv s'"
proof -
  have own: "own_of (pcs s t) = Some n" and call: "call_of (pcs s t) = Some c" and ot: "other_of (pcs s t) = None"
    and ok: "put_owner_ok s c v n"
    using pc syn_invD(1) [OF inv, of t] by auto
  have l': "own_of l = None" "other_of l = None" "call_of l = None" "thread_ok s' l" using l by (cases l; simp)+
  note ex = syn_invD(2) [OF inv] and no = syn_invD(3) [OF inv]
  have 1: "threads_ok s'"
  proof (rule threads_upd [OF sect_stepD(1) [OF st] l'(4)])
    show "thread_ok s' (pcs s t')" if "t' \<noteq> t" for t'
      by (rule others_owner [OF inv st own that]) (use nd exclD(3) [OF ex call that] in auto)
  qed
  have 2: "excl_ok s'"
    by (rule excl_keep [OF ex sect_stepD(1) [OF st]]) (use l' own call ot lists sect_stepD(7) [OF st] in auto)
  have n: "node_ok s' n" using nd by (simp add: node_ok_def sect_stepD(2,11) [OF st])
  have 3: "nodes_ok s'"
    by (rule nodes_sect [OF no st])
      (use own ot l' lists n nd ok no in \<open>auto simp: put_owner_ok_def nodes_ok_def split: node_state.splits if_splits\<close>)
  have 4: "queues_ok s'" by (intro queues_sect [OF syn_invD(4) [OF inv] st]) (auto simp: nd)
  have 5: "history_ok s'"
    using ok nd(2) exclD(4) [OF ex call] lists
    by (intro history_refuse [OF syn_invD(5) [OF inv] st]) (auto simp: put_owner_ok_def split: node_state.splits)
  show ?thesis using 1 2 3 4 5 by (simp add: syn_inv_def)
qed

text \<open>The owner of a consumer's node waits again or retries.\<close>

lemma take_stays:
  assumes inv: "syn_inv s" and pc: "pcs s t = Take_own n \<or> pcs s t = Take_wait n"
    and st: "sect_step s t l n nd c (whereis s c) s'"
    and nd: "state nd = state (nodes s n)"
    and l: "state nd = EMPTY \<and> l = Take_wait n \<or> state nd = CANCELLED \<and> l = Take_test"
    and lists: "accepted s' = accepted s" "refused s' = refused s" "delivered s' = delivered s"
  shows "syn_inv s'"
proof -
  have own: "own_of (pcs s t) = Some n" and call: "call_of (pcs s t) = None" and ot: "other_of (pcs s t) = None"
    and ok: "take_owner_ok s n"
    using pc syn_invD(1) [OF inv, of t] by auto
  note ex = syn_invD(2) [OF inv] and no = syn_invD(3) [OF inv]
  have w: "whereis s' = whereis s" by (simp add: sect_stepD(9) [OF st])
  have 1: "threads_ok s'"
  proof (rule threads_upd [OF sect_stepD(1) [OF st]])
    show "thread_ok s' l" using l ok nd by (auto simp: take_owner_ok_def sect_stepD(2-8,10) [OF st])
    show "thread_ok s' (pcs s t')" if "t' \<noteq> t" for t'
      by (rule others_owner [OF inv st own that]) (use nd in auto)
  qed
  have 2: "excl_ok s'"
    by (rule excl_keep [OF ex sect_stepD(1) [OF st]]) (use l own call ot lists sect_stepD(7) [OF st] in auto)
  have "owned_node s' n" if "state nd = EMPTY"
    using that l unfolding owned_node_def sect_stepD(1) [OF st] by (intro exI [of _ t]) auto
  then have n: "node_ok s' n"
    using l ok by (auto simp: node_ok_def take_owner_ok_def sect_stepD(2,3,11) [OF st])
  have away: "whereis s c' \<noteq> At n" for c' using no nd l by (auto simp: nodes_ok_def)
  have 3: "nodes_ok s'"
  proof -
    have u: "whereis s (calls s) = Unborn" using historyD(2) [OF syn_invD(5) [OF inv]] by (simp add: fate_ok_def)
    show ?thesis by (rule nodes_sect [OF no sect_step_other [OF st, of "calls s"]]) (use own ot l lists n u away in auto)
  qed
  have 4: "queues_ok s'"
    using syn_invD(4) [OF inv] by (intro queues_sect [OF _ st]) (auto simp: queues_ok_def nd)
  have 5: "history_ok s'" using history_stay [OF syn_invD(5) [OF inv] st _ lists] by simp
  show ?thesis using 1 2 3 4 5 by (simp add: syn_inv_def)
qed

text \<open>The owner of a consumer's node takes the value out of it.\<close>

lemma take_succeeds:
  assumes inv: "syn_inv s" and pc: "pcs s t = Take_own n \<or> pcs s t = Take_wait n"
    and full: "state (nodes s n) = FULL" and c: "c = origin (nodes s n)" "v = item (nodes s n)"
    and st: "sect_step s t (Take_return v) n nd c Gone s'"
    and nd: "state nd = EMPTY"
    and lists: "accepted s' = accepted s" "refused s' = refused s" "delivered s' = delivered s @ [(c, v)]"
  shows "syn_inv s'"
proof -
  have own: "own_of (pcs s t) = Some n" and ot: "other_of (pcs s t) = None" and ok: "take_owner_ok s n"
    using pc syn_invD(1) [OF inv, of t] by auto
  note ex = syn_invD(2) [OF inv] and no = syn_invD(3) [OF inv]
  have nok: "node_ok s n" and at: "c' \<noteq> c \<Longrightarrow> whereis s c' \<noteq> At n" for c' using no c by (auto simp: nodes_ok_def)
  have acc: "c \<in> set (accepted s)" "whereis s c = At n" "v = offered s c"
    using nok full c ok by (auto simp: node_ok_def take_owner_ok_def)
  have 1: "threads_ok s'"
  proof (rule threads_upd [OF sect_stepD(1) [OF st]])
    show "thread_ok s' (pcs s t')" if "t' \<noteq> t" for t'
      by (rule others_owner [OF inv st own that])
        (use nd acc(1) exclD(4) [OF ex, of t' c] ok in \<open>auto simp: take_owner_ok_def sect_stepD(10) [OF st]\<close>)
  qed simp
  have 2: "excl_ok s'"
    by (rule excl_keep [OF ex sect_stepD(1) [OF st]]) (use lists sect_stepD(7) [OF st] in auto)
  have "other_of (pcs s t') \<noteq> Some n" for t'
    using syn_invD(1) [OF inv, of t'] full ok by (cases "pcs s t'") (auto simp: take_owner_ok_def)
  moreover have nq: "n \<notin> set (waitingConsumers s)" "n \<notin> set (waitingProducers s)"
    using syn_invD(4) [OF inv] full ok by (auto simp: queues_ok_def take_owner_ok_def)
  ultimately have "retired s' n" using nd by (auto simp: retired_def sect_stepD(1,2,5) [OF st])
  then have n: "node_ok s' n" using nd ok by (auto simp: node_ok_def take_owner_ok_def sect_stepD(2,3,11) [OF st])
  have 3: "nodes_ok s'" by (rule nodes_sect [OF no st]) (use own ot lists n acc at in auto)
  have 4: "queues_ok s'" by (intro queues_sect [OF syn_invD(4) [OF inv] st]) (use nq in auto)
  have 5: "history_ok s'" using history_deliver [OF syn_invD(5) [OF inv] st acc(2)] lists acc(3) by simp
  show ?thesis using 1 2 3 4 5 by (simp add: syn_inv_def)
qed

text \<open>The owner of a consumer's node gives up.\<close>

lemma take_gives_up:
  assumes inv: "syn_inv s" and pc: "pcs s t = Take_own n \<or> pcs s t = Take_wait n"
    and full: "state (nodes s n) = FULL \<Longrightarrow> halted s" and c: "c = origin (nodes s n)"
    and st: "sect_step s t (S_throw e) n nd c (if state (nodes s n) = FULL then Dropped else whereis s c) s'"
    and nd: "state nd = CANCELLED"
    and lists: "accepted s' = accepted s" "refused s' = refused s" "delivered s' = delivered s"
  shows "syn_inv s'"
proof -
  have own: "own_of (pcs s t) = Some n" and ot: "other_of (pcs s t) = None" and ok: "take_owner_ok s n"
    using pc syn_invD(1) [OF inv, of t] by auto
  note ex = syn_invD(2) [OF inv] and no = syn_invD(3) [OF inv]
  have nok: "node_ok s n" and at: "c' \<noteq> c \<or> state (nodes s n) \<noteq> FULL \<Longrightarrow> whereis s c' \<noteq> At n" for c'
    using no c by (auto simp: nodes_ok_def)
  have acc: "c \<in> set (accepted s)" "whereis s c = At n" if "state (nodes s n) = FULL"
    using nok that c ok by (auto simp: node_ok_def take_owner_ok_def)
  have 1: "threads_ok s'"
  proof (rule threads_upd [OF sect_stepD(1) [OF st]])
    show "thread_ok s' (pcs s t')" if "t' \<noteq> t" for t'
      by (rule others_owner [OF inv st own that]) (use nd acc(1) exclD(4) [OF ex, of t' c] in auto)
  qed simp
  have 2: "excl_ok s'"
    by (rule excl_keep [OF ex sect_stepD(1) [OF st]]) (use lists sect_stepD(7) [OF st] in auto)
  have n: "node_ok s' n" using nd by (simp add: node_ok_def sect_stepD(2,11) [OF st])
  have 3: "nodes_ok s'"
  proof (cases "state (nodes s n) = FULL")
    case True
    show ?thesis by (rule nodes_sect [OF no st]) (use True own ot lists n acc at in auto)
  next
    case False
    then have st': "sect_step s t (S_throw e) n nd c (whereis s c) s'" using st by simp
    have u: "whereis s (calls s) = Unborn" using historyD(2) [OF syn_invD(5) [OF inv]] by (simp add: fate_ok_def)
    show ?thesis by (rule nodes_sect [OF no sect_step_other [OF st', of "calls s"]]) (use False own ot lists n u at in auto)
  qed
  have 4: "queues_ok s'" by (intro queues_sect [OF syn_invD(4) [OF inv] st]) (use nd in auto)
  have 5: "history_ok s'"
  proof (cases "state (nodes s n) = FULL")
    case True
    then show ?thesis using acc full lists by (intro history_drop [OF syn_invD(5) [OF inv] st]) auto
  qed (use lists in \<open>auto intro: history_stay [OF syn_invD(5) [OF inv] st]\<close>)
  show ?thesis using 1 2 3 4 5 by (simp add: syn_inv_def)
qed
text \<open>A producer fills the node of a waiting consumer.\<close>

lemma fill_succeeds:
  assumes inv: "syn_inv s" and pc: "pcs s t = Put_other c v n"
    and empty: "state (nodes s n) = EMPTY"
    and st: "sect_step s t (Put_return 0) n nd c (At n) s'"
    and nd: "state nd = FULL" "item nd = v" "origin nd = c" "\<not> resting nd"
    and lists: "accepted s' = c # accepted s" "refused s' = refused s" "delivered s' = delivered s"
  shows "syn_inv s'"
proof -
  have other: "other_of (pcs s t) = Some n" and own: "own_of (pcs s t) = None" and call: "call_of (pcs s t) = Some c"
    and ok: "n < nnodes s" "\<not> producer (nodes s n)" "n \<notin> set (waitingConsumers s)" "whereis s c = Held" "offered s c = v"
    using pc syn_invD(1) [OF inv, of t] by auto
  note ex = syn_invD(2) [OF inv] and no = syn_invD(3) [OF inv]
  have 1: "threads_ok s'"
  proof (rule threads_upd [OF sect_stepD(1) [OF st]])
    fix t' assume ne: "t' \<noteq> t"
    show "thread_ok s' (pcs s t')"
    proof (rule others_partner [OF inv st other ne])
      assume "own_of (pcs s t') = Some n"
      then show "thread_ok s' (pcs s t')"
        using syn_invD(1) [OF inv, of t'] ok nd
        by (cases "pcs s t'") (auto simp: put_owner_ok_def take_owner_ok_def sect_stepD(2-8,10) [OF st])
    qed (use exclD(3) [OF ex call ne] in auto)
  qed simp
  have 2: "excl_ok s'"
    by (rule excl_keep [OF ex sect_stepD(1) [OF st]]) (use call lists sect_stepD(7) [OF st] in auto)
  have "node_ok s n" using no by (simp add: nodes_ok_def)
  then have "owned_node s n" using empty other by (auto simp: node_ok_def retired_def)
  then have "owned_node s' n" using own unfolding owned_node_def sect_stepD(1) [OF st] by (metis fun_upd_apply option.distinct(1))
  then have n: "node_ok s' n" using nd ok lists by (auto simp: node_ok_def sect_stepD(2,3,8,9,11) [OF st])
  have away: "whereis s c' \<noteq> At n" for c' using no empty by (auto simp: nodes_ok_def)
  have 3: "nodes_ok s'" by (rule nodes_sect [OF no st]) (use own other lists n ok nd away in auto)
  have 4: "queues_ok s'" by (intro queues_sect [OF syn_invD(4) [OF inv] st]) (use nd ok in auto)
  have 5: "history_ok s'"
    using exclD(4) [OF ex call] lists ok by (intro history_accept [OF syn_invD(5) [OF inv] st]) (auto simp: sect_stepD(10) [OF st])
  show ?thesis using 1 2 3 4 5 by (simp add: syn_inv_def)
qed

text \<open>A producer finds the channel halted and cancels the node of a consumer.\<close>

lemma fill_gives_up:
  assumes inv: "syn_inv s" and pc: "pcs s t = Put_other c v n" and halted: "halted s"
    and st: "sect_step s t (S_throw e) n nd c Dropped s'"
    and nd: "state nd = CANCELLED" "\<not> resting nd"
    and lists: "accepted s' = accepted s" "refused s' = c # refused s" "delivered s' = delivered s"
  shows "syn_inv s'"
proof -
  have other: "other_of (pcs s t) = Some n" and own: "own_of (pcs s t) = None" and call: "call_of (pcs s t) = Some c"
    and ok: "n < nnodes s" "\<not> producer (nodes s n)" "state (nodes s n) \<noteq> FULL" "n \<notin> set (waitingConsumers s)" "whereis s c = Held"
    using pc syn_invD(1) [OF inv, of t] by auto
  note ex = syn_invD(2) [OF inv] and no = syn_invD(3) [OF inv]
  have 1: "threads_ok s'"
  proof (rule threads_upd [OF sect_stepD(1) [OF st]])
    fix t' assume ne: "t' \<noteq> t"
    show "thread_ok s' (pcs s t')"
    proof (rule others_partner [OF inv st other ne])
      assume "own_of (pcs s t') = Some n"
      then show "thread_ok s' (pcs s t')"
        using syn_invD(1) [OF inv, of t'] ok nd halted
        by (cases "pcs s t'") (auto simp: put_owner_ok_def take_owner_ok_def sect_stepD(2-8,10) [OF st])
    qed (use exclD(3) [OF ex call ne] in auto)
  qed simp
  have 2: "excl_ok s'"
    by (rule excl_keep [OF ex sect_stepD(1) [OF st]]) (use call lists sect_stepD(7) [OF st] in auto)
  have n: "node_ok s' n" using nd by (simp add: node_ok_def sect_stepD(2,11) [OF st])
  have away: "whereis s c' \<noteq> At n" for c' using no ok by (auto simp: nodes_ok_def)
  have 3: "nodes_ok s'" by (rule nodes_sect [OF no st]) (use own other lists n ok nd away in auto)
  have 4: "queues_ok s'" by (intro queues_sect [OF syn_invD(4) [OF inv] st]) (use nd ok in auto)
  have 5: "history_ok s'"
    using exclD(4) [OF ex call] lists ok by (intro history_refuse [OF syn_invD(5) [OF inv] st]) auto
  show ?thesis using 1 2 3 4 5 by (simp add: syn_inv_def)
qed

text \<open>
  A consumer empties the node of a waiting producer, or finds the channel halted and cancels
  it.  The producer finds its value taken, or has it back.
\<close>

lemma other_takes:
  assumes inv: "syn_inv s" and pc: "pcs s t = Take_other n" and c: "c = origin (nodes s n)"
    and st: "sect_step s t l n nd c w s'" and l: "syn_idle l"
    and how: "state (nodes s n) = FULL \<and> w = Gone \<and> state nd = EMPTY \<and> delivered s' = delivered s @ [(c, item (nodes s n))] \<or>
      state (nodes s n) = FULL \<and> halted s \<and> w = Held \<and> state nd = CANCELLED \<and> delivered s' = delivered s"
    and nd: "origin nd = c" "\<not> resting nd"
    and lists: "accepted s' = accepted s" "refused s' = refused s"
  shows "syn_inv s'"
proof -
  have other: "other_of (pcs s t) = Some n" and own: "own_of (pcs s t) = None" and call: "call_of (pcs s t) = None"
    and ok: "n < nnodes s" "producer (nodes s n)" "n \<notin> set (waitingProducers s)"
    using pc syn_invD(1) [OF inv, of t] by auto
  have l': "own_of l = None" "other_of l = None" "call_of l = None" "thread_ok s' l" using l by (cases l; simp)+
  note ex = syn_invD(2) [OF inv] and no = syn_invD(3) [OF inv]
  have nok: "node_ok s n" and at: "c' \<noteq> c \<Longrightarrow> whereis s c' \<noteq> At n" for c' using no c by (auto simp: nodes_ok_def)
  have full: "state (nodes s n) = FULL" using how by auto
  have w: "whereis s c = At n" "item (nodes s n) = offered s c" using nok full c by (auto simp: node_ok_def)
  have 1: "threads_ok s'"
  proof (rule threads_upd [OF sect_stepD(1) [OF st] l'(4)])
    fix t' assume ne: "t' \<noteq> t"
    show "thread_ok s' (pcs s t')"
    proof (rule others_partner [OF inv st other ne])
      assume "own_of (pcs s t') = Some n"
      then show "thread_ok s' (pcs s t')"
        using syn_invD(1) [OF inv, of t'] ok nd how c
        by (cases "pcs s t'") (auto simp: put_owner_ok_def take_owner_ok_def sect_stepD(2-10) [OF st])
    next
      assume "call_of (pcs s t') = Some c" "own_of (pcs s t') \<noteq> Some n"
      then show "w = whereis s c"
        using syn_invD(1) [OF inv, of t'] w by (cases "pcs s t'") (auto simp: put_owner_ok_def split: node_state.splits)
    qed
  qed
  have 2: "excl_ok s'"
    by (rule excl_keep [OF ex sect_stepD(1) [OF st]]) (use call l' lists sect_stepD(7) [OF st] in auto)
  have "owned_node s n" using nok full by (auto simp: node_ok_def retired_def)
  then have "owned_node s' n" using own unfolding owned_node_def sect_stepD(1) [OF st] by (metis fun_upd_apply option.distinct(1))
  then have n: "node_ok s' n" using how ok by (auto simp: node_ok_def sect_stepD(2,3,8,9,11) [OF st])
  have 3: "nodes_ok s'" by (rule nodes_sect [OF no st]) (use own other l' lists n w how at in auto)
  have "n \<notin> set (waitingConsumers s)" using syn_invD(4) [OF inv] ok by (auto simp: queues_ok_def)
  then have 4: "queues_ok s'" by (intro queues_sect [OF syn_invD(4) [OF inv] st]) (use ok in auto)
  have 5: "history_ok s'"
  proof (cases "w = Gone")
    case True
    then show ?thesis using how lists w st by (intro history_deliver [OF syn_invD(5) [OF inv]]) auto
  next
    case False
    then show ?thesis using how lists w ok by (intro history_drop [OF syn_invD(5) [OF inv] st]) auto
  qed
  show ?thesis using 1 2 3 4 5 by (simp add: syn_inv_def)
qed

text \<open>A consumer cancels a node that is cancelled already.\<close>

lemma other_late:
  assumes inv: "syn_inv s" and pc: "pcs s t = Take_other n"
    and st: "sect_step s t l n nd c (whereis s c) s'" and l: "syn_idle l"
    and nd: "state (nodes s n) = CANCELLED" "state nd = CANCELLED" "origin nd = origin (nodes s n)" "\<not> resting nd"
    and lists: "accepted s' = accepted s" "refused s' = refused s" "delivered s' = delivered s"
  shows "syn_inv s'"
proof -
  have other: "other_of (pcs s t) = Some n" and own: "own_of (pcs s t) = None" and call: "call_of (pcs s t) = None"
    and ok: "n < nnodes s" "producer (nodes s n)"
    using pc syn_invD(1) [OF inv, of t] by auto
  have l': "own_of l = None" "other_of l = None" "call_of l = None" "thread_ok s' l" using l by (cases l; simp)+
  note ex = syn_invD(2) [OF inv] and no = syn_invD(3) [OF inv]
  have w: "whereis s' = whereis s" by (simp add: sect_stepD(9) [OF st])
  have 1: "threads_ok s'"
  proof (rule threads_upd [OF sect_stepD(1) [OF st] l'(4)])
    fix t' assume ne: "t' \<noteq> t"
    show "thread_ok s' (pcs s t')"
    proof (rule others_partner [OF inv st other ne])
      assume "own_of (pcs s t') = Some n"
      then show "thread_ok s' (pcs s t')"
        using syn_invD(1) [OF inv, of t'] ok nd
        by (cases "pcs s t'") (auto simp: put_owner_ok_def take_owner_ok_def w sect_stepD(2-8,10) [OF st])
    qed simp
  qed
  have 2: "excl_ok s'"
    by (rule excl_keep [OF ex sect_stepD(1) [OF st]]) (use call l' lists sect_stepD(7) [OF st] in auto)
  have n: "node_ok s' n" using nd by (simp add: node_ok_def sect_stepD(2,11) [OF st])
  have away: "whereis s c' \<noteq> At n" for c' using no nd by (auto simp: nodes_ok_def)
  have u: "whereis s (calls s) = Unborn" using historyD(2) [OF syn_invD(5) [OF inv]] by (simp add: fate_ok_def)
  have 3: "nodes_ok s'"
    by (rule nodes_sect [OF no sect_step_other [OF st, of "calls s"]]) (use own other l' lists n u away in auto)
  have 4: "queues_ok s'" by (intro queues_sect [OF syn_invD(4) [OF inv] st]) (use nd in auto)
  have 5: "history_ok s'" using history_stay [OF syn_invD(5) [OF inv] st _ lists] by simp
  show ?thesis using 1 2 3 4 5 by (simp add: syn_inv_def)
qed
section \<open>The invariant is kept by every step\<close>

lemma deque_some:
  "deque f ns = (Some n, ms) \<Longrightarrow> \<exists>ks. ns = ks @ n # ms \<and> state (f n) \<noteq> CANCELLED \<and> (\<forall>k \<in> set ks. state (f k) = CANCELLED)"
proof (induction ns)
  case (Cons k ns)
  show ?case
  proof (cases "state (f k) = CANCELLED")
    case True
    then obtain ks where "ns = ks @ n # ms \<and> state (f n) \<noteq> CANCELLED \<and> (\<forall>k \<in> set ks. state (f k) = CANCELLED)"
      using Cons by auto
    then show ?thesis using True by (intro exI [of _ "k # ks"]) auto
  qed (use Cons.prems in auto)
qed simp

lemma deque_none: "deque f ns = (None, ms) \<Longrightarrow> ms = [] \<and> (\<forall>k \<in> set ns. state (f k) = CANCELLED)"
  by (induction ns) (auto split: if_splits)

text \<open>A thread takes a node out of a queue.\<close>

lemma queue_out:
  assumes inv: "syn_inv s" and pcs: "pcs s' = (pcs s)(t := l)"
    and l: "own_of (pcs s t) = None" "own_of l = None" "other_of (pcs s t) = None" "other_of l = Some n"
      "call_of l = call_of (pcs s t)" "thread_ok s' l"
    and q: "set (waitingProducers s') \<subseteq> set (waitingProducers s)" "set (waitingConsumers s') \<subseteq> set (waitingConsumers s)"
      "distinct (waitingProducers s')" "distinct (waitingConsumers s')" "waitingProducers s' = [] \<or> waitingConsumers s' = []"
    and n: "state (nodes s n) \<noteq> CANCELLED" "n \<in> set (waitingConsumers s) \<union> set (waitingProducers s)"
    and same: "nodes s' = nodes s" "nnodes s' = nnodes s" "halted s' = halted s" "calls s' = calls s" "offered s' = offered s"
      "whereis s' = whereis s" "accepted s' = accepted s" "refused s' = refused s" "delivered s' = delivered s"
  shows "syn_inv s'"
proof -
  note ex = syn_invD(2) [OF inv] and no = syn_invD(3) [OF inv] and qu = syn_invD(4) [OF inv]
  have nn: "other_of (pcs s t') \<noteq> Some n" for t'
    using syn_invD(1) [OF inv, of t'] n(2) qu by (cases "pcs s t'") (auto simp: queues_ok_def)
  have 1: "threads_ok s'"
  proof (rule threads_upd [OF pcs l(6)])
    show "thread_ok s' (pcs s t')" for t'
      using q by (intro thread_frame [OF syn_invD(1) [OF inv, of t']]) (auto simp: same)
  qed
  have e: "exclusive own_of (pcs s)" "exclusive other_of (pcs s)" "exclusive call_of (pcs s)" using ex by (auto simp: excl_ok_def)
  have "exclusive other_of (pcs s')" unfolding pcs by (rule exclusive_upd [OF e(2)]) (use l(4) nn in auto)
  moreover have "call_of (pcs s' t') = call_of (pcs s t')" "own_of (pcs s' t') = own_of (pcs s t')" for t' using l by (simp_all add: pcs)
  ultimately have 2: "excl_ok s'" and own: "owned_node s' m = owned_node s m" for m
    using ex by (simp_all add: excl_ok_def exclusive_def owned_node_def same)
  have "retired s m \<Longrightarrow> retired s' m" for m
  proof -
    assume r: "retired s m"
    have "m \<noteq> n"
    proof
      assume "m = n"
      then have "n \<in> set (waitingProducers s)" "state (nodes s n) = EMPTY" using r n(2) by (auto simp: retired_def)
      then show False using qu by (auto simp: queues_ok_def)
    qed
    then show "retired s' m" using r q(2) l(4) by (auto simp: retired_def same pcs)
  qed
  then have "node_ok s' m" if "node_ok s m" for m using that unfolding node_ok_def own same by blast
  then have 3: "nodes_ok s'" using no by (simp add: nodes_ok_def same)
  have 4: "queues_ok s'" using qu q by (auto simp: queues_ok_def same)
  have 5: "history_ok s'" by (rule history_cong [OF syn_invD(5) [OF inv]]) (simp_all add: same)
  show ?thesis using 1 2 3 4 5 by (simp add: syn_inv_def)
qed

text \<open>A thread queues a new node.\<close>

lemma queue_in:
  assumes inv: "syn_inv s" and pcs: "pcs s' = (pcs s)(t := l)"
    and l: "own_of (pcs s t) = None" "other_of (pcs s t) = None" "own_of l = Some (nnodes s)" "other_of l = None"
      "call_of l = call_of (pcs s t)" "thread_ok s' l"
    and c: "call_of l = Some c \<and> whereis s c = Held \<or> call_of l = None \<and> c = calls s"
    and node: "nodes s' = (nodes s)(nnodes s := nd)" "nnodes s' = Suc (nnodes s)" "\<not> stopped nd"
    and kind: "producer nd \<and> state nd = FULL \<and> origin nd = c \<and> item nd = offered s c \<and> call_of l \<noteq> None \<and>
        whereis s' = (whereis s)(c := At (nnodes s)) \<and>
        waitingProducers s' = waitingProducers s @ [nnodes s] \<and> waitingConsumers s' = [] \<or>
      \<not> producer nd \<and> state nd = EMPTY \<and> call_of l = None \<and> whereis s' = whereis s \<and>
        waitingProducers s' = [] \<and> waitingConsumers s' = waitingConsumers s @ [nnodes s]"
    and same: "halted s' = halted s" "calls s' = calls s" "offered s' = offered s"
      "accepted s' = accepted s" "refused s' = refused s" "delivered s' = delivered s"
  shows "syn_inv s'"
proof -
  note ex = syn_invD(2) [OF inv] and no = syn_invD(3) [OF inv] and qu = syn_invD(4) [OF inv] and hi = syn_invD(5) [OF inv]
  let ?n = "nnodes s"
  have new: "own_of (pcs s t') \<noteq> Some ?n" "other_of (pcs s t') \<noteq> Some ?n" for t'
    using syn_invD(1) [OF inv, of t'] by (cases "pcs s t'"; auto simp: put_owner_ok_def take_owner_ok_def)+
  have cnc: "state (nodes s ?n) = CANCELLED" using no by (fastforce simp: nodes_ok_def node_ok_def)
  have notat: "whereis s c' \<noteq> At ?n" for c' using no cnc by (auto simp: nodes_ok_def)
  have 1: "threads_ok s'"
  proof (rule threads_upd [OF pcs l(6)])
    fix t' assume ne: "t' \<noteq> t"
    have cc: "call_of (pcs s t') = Some c' \<Longrightarrow> whereis s' c' = whereis s c'" for c'
      using kind c exclD(3) [OF ex _ ne, of c] l(5) by (auto split: if_splits)
    show "thread_ok s' (pcs s t')"
      using new kind cc qu
      by (intro thread_frame [OF syn_invD(1) [OF inv, of t']]) (auto simp: same node queues_ok_def)
  qed
  have e: "exclusive own_of (pcs s)" "exclusive other_of (pcs s)" "exclusive call_of (pcs s)" using ex by (auto simp: excl_ok_def)
  have "exclusive own_of (pcs s')" unfolding pcs by (rule exclusive_upd [OF e(1)]) (use l(3) new in auto)
  moreover have "call_of (pcs s' t') = call_of (pcs s t')" "other_of (pcs s' t') = other_of (pcs s t')" for t'
    using l by (simp_all add: pcs)
  ultimately have 2: "excl_ok s'" and oth: "other_of (pcs s' t') = other_of (pcs s t')" for t'
    using ex by (simp_all add: excl_ok_def exclusive_def same)
  have own: "owned_node s' m" if "owned_node s m \<or> m = ?n" for m
    using that l(1,3) unfolding owned_node_def pcs by (metis fun_upd_apply option.distinct(1))
  have "node_ok s' m" for m
  proof (cases "m = ?n")
    case True
    then show ?thesis using kind own [of m] by (auto simp: node_ok_def node same)
  next
    case False
    have old: "node_ok s m" using no by (simp add: nodes_ok_def)
    have r: "retired s m \<Longrightarrow> retired s' m" using kind False by (auto simp: retired_def node oth)
    have "state (nodes s m) = FULL \<Longrightarrow> whereis s' (origin (nodes s m)) = whereis s (origin (nodes s m))"
      using old c kind by (auto simp: node_ok_def split: if_splits)
    then show ?thesis using old r own False by (auto simp: node_ok_def node same)
  qed
  moreover have "state (nodes s' m) = FULL \<and> origin (nodes s' m) = c'" if "whereis s' c' = At m" for c' m
  proof (cases "m = ?n")
    case True
    then show ?thesis using that kind notat [of c'] by (auto simp: node split: if_splits)
  next
    case False
    then have "whereis s c' = At m" using that kind by (auto split: if_splits)
    then show ?thesis using no False by (auto simp: nodes_ok_def node)
  qed
  ultimately have 3: "nodes_ok s'" by (simp add: nodes_ok_def)
  have fresh: "m < ?n" if "m \<in> set (waitingProducers s) \<union> set (waitingConsumers s)" for m
    using that qu by (auto simp: queues_ok_def)
  have "?n \<notin> set (waitingProducers s)" "?n \<notin> set (waitingConsumers s)" using fresh [of ?n] by auto
  then have 4: "queues_ok s'" using qu kind unfolding queues_ok_def node by (elim disjE) (auto simp: less_Suc_eq)
  have "fate_ok s' c'" for c'
  proof (cases "producer nd \<and> c' = c")
    case True
    then have "call_of (pcs s t) = Some c" "whereis s' c' = At ?n" using kind c l(5) by auto
    then show ?thesis using exclD(4) [OF ex, of t c] True by (simp add: fate_ok_def same)
  next
    case False
    then have w: "whereis s' c' = whereis s c'" using kind by auto
    have "whereis s c' = At m \<Longrightarrow> nodes s' m = nodes s m" for m using notat [of c'] by (auto simp: node)
    then show ?thesis using historyD(2) [OF hi, of c'] unfolding fate_ok_def same w by metis
  qed
  moreover have "{c'. whereis s' c' = Gone} = {c'. whereis s c' = Gone}" using kind c by (auto split: if_splits)
  ultimately have 5: "history_ok s'" using hi by (simp add: history_ok_def log_ok_def delivered_ok_def same)
  show ?thesis using 1 2 3 4 5 by (simp add: syn_inv_def)
qed
text \<open>A call starts, the channel is halted, a call finds it halted.\<close>

lemma syn_call:
  assumes inv: "syn_inv s" and idle: "syn_idle (pcs s t)"
  shows "syn_inv (set_pc t (Put_test (calls s) v)
    (s\<lparr>calls := Suc (calls s), offered := (offered s)(calls s := v), whereis := (whereis s)(calls s := Held)\<rparr>))"
    (is "syn_inv ?s")
proof -
  note ex = syn_invD(2) [OF inv] and no = syn_invD(3) [OF inv] and hi = syn_invD(5) [OF inv]
  have i: "own_of (pcs s t) = None" "other_of (pcs s t) = None" "call_of (pcs s t) = None" using idle by (cases "pcs s t"; simp)+
  have u: "whereis s (calls s) = Unborn" using historyD(2) [OF hi, of "calls s"] by (simp add: fate_ok_def)
  have pcs: "pcs ?s = (pcs s)(t := Put_test (calls s) v)" by (simp add: set_pc_def)
  have old: "call_of (pcs s t') = Some c' \<Longrightarrow> c' < calls s" for t' c' using exclD(4) [OF ex, of t' c'] by simp
  have 1: "threads_ok ?s"
  proof (rule threads_upd [OF pcs])
    show "thread_ok ?s (pcs s t')" for t'
      using old by (intro thread_frame [OF syn_invD(1) [OF inv, of t']]) (fastforce simp: set_pc_def)+
  qed (simp add: set_pc_def)
  have e: "exclusive own_of (pcs s)" "exclusive other_of (pcs s)" "exclusive call_of (pcs s)" using ex by (auto simp: excl_ok_def)
  have "exclusive call_of (pcs ?s)" unfolding pcs by (rule exclusive_upd [OF e(3)]) (use old in fastforce)
  moreover have same: "other_of (pcs ?s t') = other_of (pcs s t')" "own_of (pcs ?s t') = own_of (pcs s t')" for t' using i by (simp_all add: pcs)
  moreover have "c' < calls ?s \<and> c' \<notin> set (accepted ?s) \<and> c' \<notin> set (refused ?s)" if "call_of (pcs ?s t') = Some c'" for t' c'
    using that exclD(4) [OF ex, of t' c'] historyD(1) [OF hi] by (auto simp: set_pc_def log_ok_def split: if_splits)
  ultimately have 2: "excl_ok ?s" using e by (simp add: excl_ok_def exclusive_def)
  have "node_ok s n \<Longrightarrow> node_ok ?s n" for n
    using u by (auto simp: node_ok_def owned_node_def retired_def same) (auto simp: set_pc_def)
  then have 3: "nodes_ok ?s" using no by (auto simp: nodes_ok_def set_pc_def)
  have 4: "queues_ok ?s" by (rule queues_cong [OF syn_invD(4) [OF inv]]) (simp_all add: set_pc_def)
  have log: "c' \<in> set (accepted s) \<union> set (refused s) \<Longrightarrow> c' < calls s" for c' using historyD(1) [OF hi] by (auto simp: log_ok_def)
  have fate: "fate_ok ?s c'" for c' using historyD(2) [OF hi, of c'] log [of "calls s"] by (auto simp: fate_ok_def set_pc_def)
  have log': "log_ok ?s" using historyD(1) [OF hi] by (auto simp: log_ok_def set_pc_def less_SucI)
  have "calls s \<notin> fst ` set (delivered s)" using delivered_gone [OF historyD(3) [OF hi]] u by simp
  then have "\<forall>x \<in> set (delivered s). fst x \<noteq> calls s" by force
  moreover have "{c'. whereis ?s c' = Gone} = {c'. whereis s c' = Gone}" using u by (auto simp: set_pc_def)
  ultimately have "delivered_ok ?s" using historyD(3) [OF hi] by (simp add: delivered_ok_def) (simp add: set_pc_def)
  then have 5: "history_ok ?s" using fate log' by (simp add: history_ok_def)
  show ?thesis using 1 2 3 4 5 by (simp add: syn_inv_def)
qed

lemma syn_halt:
  assumes inv: "syn_inv s"
  shows "syn_inv (s\<lparr>halted := True\<rparr>)" (is "syn_inv ?s")
proof -
  have "thread_ok ?s (pcs s t)" for t by (rule thread_frame [OF syn_invD(1) [OF inv, of t]]) simp_all
  then have 1: "threads_ok ?s" by (simp add: threads_ok_def)
  have 2: "excl_ok ?s" using syn_invD(2) [OF inv] by (simp add: excl_ok_def)
  have 3: "nodes_ok ?s" using syn_invD(3) [OF inv] by (simp add: nodes_ok_def node_ok_def owned_node_def retired_def)
  have 4: "queues_ok ?s" by (rule queues_cong [OF syn_invD(4) [OF inv]]) simp_all
  have 5: "history_ok ?s" by (rule history_cong [OF syn_invD(5) [OF inv]]) simp_all
  show ?thesis using 1 2 3 4 5 by (simp add: syn_inv_def)
qed

lemma put_stopped:
  assumes inv: "syn_inv s" and pc: "pcs s t = Put_test c v"
  shows "syn_inv (set_pc t (S_throw e) (put_fails c s))" (is "syn_inv ?s")
proof -
  note ex = syn_invD(2) [OF inv] and no = syn_invD(3) [OF inv] and hi = syn_invD(5) [OF inv]
  have ok: "whereis s c = Held" and call: "call_of (pcs s t) = Some c" using syn_invD(1) [OF inv, of t] pc by auto
  have new: "c < calls s" "c \<notin> set (accepted s)" "c \<notin> set (refused s)" using exclD(4) [OF ex call] by auto
  have st: "sect_step s t (S_throw e) 0 (nodes s 0) c Dropped ?s"
    using ok no by (auto simp: sect_step_def set_pc_def put_fails_def nodes_ok_def node_ok_def)
  have lists: "accepted ?s = accepted s" "refused ?s = c # refused s" "delivered ?s = delivered s" "nodes ?s = nodes s"
    by (simp_all add: set_pc_def put_fails_def)
  have 1: "threads_ok ?s"
  proof (rule threads_upd [OF sect_stepD(1) [OF st]])
    show "thread_ok ?s (pcs s t')" if "t' \<noteq> t" for t'
      using exclD(3) [OF ex call that]
      by (intro thread_frame [OF syn_invD(1) [OF inv, of t']]) (auto simp: lists sect_stepD(3-9) [OF st])
  qed simp
  have 2: "excl_ok ?s"
    by (rule excl_keep [OF ex sect_stepD(1) [OF st]]) (use call lists sect_stepD(7) [OF st] in auto)
  have same: "other_of (pcs ?s t') = other_of (pcs s t')" "own_of (pcs ?s t') = own_of (pcs s t')" for t'
    using pc by (simp_all add: sect_stepD(1) [OF st])
  have "node_ok s n \<Longrightarrow> node_ok ?s n" for n
    using ok by (auto simp: node_ok_def owned_node_def retired_def same lists sect_stepD(3,5,8,9) [OF st])
  then have 3: "nodes_ok ?s" using no by (auto simp: nodes_ok_def lists sect_stepD(9) [OF st] split: if_splits)
  have 4: "queues_ok ?s" by (rule queues_cong [OF syn_invD(4) [OF inv]]) (simp_all add: set_pc_def put_fails_def)
  have 5: "history_ok ?s" using new lists ok by (intro history_refuse [OF hi st]) auto
  show ?thesis using 1 2 3 4 5 by (simp add: syn_inv_def)
qed
text \<open>The ends of the sections, for a node whose own flag is not set.\<close>

definition same_node :: "'a node \<Rightarrow> 'a node \<Rightarrow> bool" where
  "same_node nd nd' \<longleftrightarrow> (\<exists>b. nd' = nd\<lparr>resting := b\<rparr>)"

lemma same_nodeD:
  assumes "same_node nd nd'"
  shows "state nd' = state nd" "item nd' = item nd" "origin nd' = origin nd" "producer nd' = producer nd" "stopped nd' = stopped nd"
  using assms by (auto simp: same_node_def)

lemma put_section_cases:
  assumes "\<not> stopped nd" "r = put_loop blank h nd \<or> r = put_woken blank h w nd" "w \<noteq> W_interrupted"
  obtains (block) nd' where "state nd = FULL" "r = (nd', Block)" "same_node nd nd'"
    | (retry) "state nd = CANCELLED" "r = (nd, Retry)"
    | (taken) "state nd = EMPTY" "r = (nd, Put_done 0)"
    | (fails) out where "state nd = EMPTY \<longrightarrow> h" "r = (set_state blank CANCELLED nd, out)"
        "out = Put_done (- 1) \<and> state nd = FULL \<or> (\<exists>e. out = Throw e)"
  using assms
  by (cases w; cases "state nd") (auto simp: put_loop_def node_wait_def cancel_throw_def same_node_def split: if_splits)

lemma take_section_cases:
  assumes "\<not> stopped nd" "r = take_loop blank h nd \<or> r = take_woken blank h w nd" "w \<noteq> W_interrupted"
  obtains (block) nd' where "state nd = EMPTY" "r = (nd', Block)" "same_node nd nd'"
    | (retry) "state nd = CANCELLED" "r = (nd, Retry)"
    | (takes) "state nd = FULL" "r = (set_state blank EMPTY nd, Take_done (item nd))"
    | (fails) e where "state nd = FULL \<longrightarrow> h" "r = (set_state blank CANCELLED nd, Throw e)"
  using assms
  by (cases w; cases "state nd")
    (auto simp: take_loop_def get_item_def node_wait_def cancel_throw_def same_node_def split: if_splits)

lemma set_state_sel [simp]:
  "\<not> stopped nd \<Longrightarrow> state (set_state blank x nd) = x" "producer (set_state blank x nd) = producer nd"
  "origin (set_state blank x nd) = origin nd" "stopped (set_state blank x nd) = stopped nd"
  "\<not> resting (set_state blank x nd)"
  "\<not> stopped nd \<Longrightarrow> item (set_state blank x nd) = (if x = FULL then item nd else blank)"
  by (auto simp: set_state_def Let_def)

lemma sync_not_stopped: "syn_inv s \<Longrightarrow> \<not> stopped (nodes s n)"
  by (auto simp: syn_inv_def nodes_ok_def node_ok_def)

lemma put_leave_inv:
  assumes inv: "syn_inv s" and pc: "pcs s t = Put_own c v n \<or> pcs s t = Put_wait c v n"
    and nd: "same_node (nodes s n) nd" and r: "r = put_loop blank (halted s) nd \<or> r = put_woken blank (halted s) w nd"
      "w \<noteq> W_interrupted"
  shows "syn_inv (put_leave t c v n s r)"
proof -
  note ns = sync_not_stopped [OF inv, of n] and d = same_nodeD [OF nd]
  have idem: "(whereis s)(c := whereis s c) = whereis s" by simp
  from ns d have "\<not> stopped nd" by simp
  from this r show ?thesis
  proof (cases rule: put_section_cases)
    case (block nd')
    note d' = same_nodeD [OF block(3)]
    show ?thesis
      by (rule put_stays [OF inv pc, where l = "Put_wait c v n" and nd = nd'])
        (use block(1) d d' ns in \<open>simp_all add: block(2) put_leave_def sect_step_def syn_upd\<close>)
  next
    case retry
    show ?thesis
      by (rule put_stays [OF inv pc, where l = "Put_test c v" and nd = nd])
        (use retry(1) d ns in \<open>simp_all add: retry(2) put_leave_def sect_step_def syn_upd\<close>)
  next
    case taken
    show ?thesis
      by (rule put_stays [OF inv pc, where l = "Put_return 0" and nd = nd])
        (use taken(1) d ns in \<open>simp_all add: taken(2) put_leave_def sect_step_def syn_upd\<close>)
  next
    case (fails out)
    show ?thesis
      by (rule put_gives_up [OF inv pc, where l = "case out of Put_done rc \<Rightarrow> Put_return rc | Throw e \<Rightarrow> S_throw e | _ \<Rightarrow> S_idle"
            and nd = "set_state blank CANCELLED nd"])
        (use fails(1,3) d ns in \<open>auto simp: fails(2) put_leave_def sect_step_def syn_upd\<close>)
  qed
qed

lemma take_leave_inv:
  assumes inv: "syn_inv s" and pc: "pcs s t = Take_own n \<or> pcs s t = Take_wait n"
    and nd: "same_node (nodes s n) nd" and r: "r = take_loop blank (halted s) nd \<or> r = take_woken blank (halted s) w nd"
      "w \<noteq> W_interrupted"
  shows "syn_inv (take_leave t True n s r)"
proof -
  note ns = sync_not_stopped [OF inv, of n] and d = same_nodeD [OF nd]
  from ns d have "\<not> stopped nd" by simp
  from this r show ?thesis
  proof (cases rule: take_section_cases)
    case (block nd')
    note d' = same_nodeD [OF block(3)]
    show ?thesis
      by (rule take_stays [OF inv pc, where l = "Take_wait n" and nd = nd'])
        (use block(1) d d' ns in \<open>simp_all add: block(2) take_leave_def sect_step_def syn_upd\<close>)
  next
    case retry
    show ?thesis
      by (rule take_stays [OF inv pc, where l = Take_test and nd = nd])
        (use retry(1) d ns in \<open>simp_all add: retry(2) take_leave_def sect_step_def syn_upd\<close>)
  next
    case takes
    show ?thesis
      by (rule take_succeeds [OF inv pc, where c = "origin (nodes s n)" and v = "item (nodes s n)" and nd = "set_state blank EMPTY nd"])
        (use takes(1) d ns in \<open>simp_all add: takes(2) take_leave_def sect_step_def syn_upd\<close>)
  next
    case (fails e)
    show ?thesis
      by (rule take_gives_up [OF inv pc, where c = "origin (nodes s n)" and e = e and nd = "set_state blank CANCELLED nd"])
        (use fails(1) d ns in \<open>auto simp: fails(2) take_leave_def sect_step_def syn_upd\<close>)
  qed
qed

lemma fill_leave_inv:
  assumes inv: "syn_inv s" and pc: "pcs s t = Put_other c v n"
  shows "syn_inv (fill_leave t c v n s (put_fill blank (halted s) v (nodes s n)))"
proof -
  note ns = sync_not_stopped [OF inv, of n]
  have ok: "state (nodes s n) \<noteq> FULL" "whereis s c = Held" "offered s c = v" using syn_invD(1) [OF inv, of t] pc by auto
  consider (stop) "halted s" | (fill) "\<not> halted s" "state (nodes s n) = EMPTY" | (late) "\<not> halted s" "state (nodes s n) = CANCELLED"
    using ok(1) by (cases "state (nodes s n)") auto
  then show ?thesis
  proof cases
    case stop
    show ?thesis
      by (rule fill_gives_up [OF inv pc stop, where e = InterruptedException and nd = "set_state blank CANCELLED (nodes s n)"])
        (use stop ns ok in \<open>simp_all add: put_fill_def cancel_throw_def fill_leave_def sect_step_def syn_upd\<close>)
  next
    case fill
    show ?thesis
      by (rule fill_succeeds [OF inv pc fill(2), where nd = "(set_state blank FULL ((nodes s n)\<lparr>item := v\<rparr>))\<lparr>origin := c\<rparr>"])
        (use fill ns ok in \<open>simp_all add: put_fill_def put_item_def fill_leave_def sect_step_def syn_upd\<close>)
  next
    case late
    have "fill_leave t c v n s (put_fill blank (halted s) v (nodes s n)) = set_pc t (Put_test c v) s"
      using late by (simp add: put_fill_def put_item_def fill_leave_def set_node_def)
    then show ?thesis using syn_inv_move [OF inv, of "Put_test c v" t] ok pc by simp
  qed
qed

lemma other_leave_inv:
  assumes inv: "syn_inv s" and pc: "pcs s t = Take_other n"
  shows "syn_inv (take_leave t False n s (take_empty blank (halted s) (nodes s n)))"
proof -
  note ns = sync_not_stopped [OF inv, of n]
  have ok: "state (nodes s n) \<noteq> EMPTY" using syn_invD(1) [OF inv, of t] pc by auto
  consider (stop) "halted s" "state (nodes s n) = FULL" | (stop_late) "halted s" "state (nodes s n) = CANCELLED"
    | (get) "\<not> halted s" "state (nodes s n) = FULL" | (late) "\<not> halted s" "state (nodes s n) = CANCELLED"
    using ok by (cases "state (nodes s n)") auto
  then show ?thesis
  proof cases
    case stop
    show ?thesis
      by (rule other_takes [OF inv pc refl, where l = "S_throw InterruptedException" and w = Held
            and nd = "set_state blank CANCELLED (nodes s n)"])
        (use stop ns in \<open>simp_all add: take_empty_def cancel_throw_def take_leave_def sect_step_def syn_upd\<close>)
  next
    case stop_late
    show ?thesis
      by (rule other_late [OF inv pc, where l = "S_throw InterruptedException" and c = 0
            and nd = "set_state blank CANCELLED (nodes s n)"])
        (use stop_late ns in \<open>simp_all add: take_empty_def cancel_throw_def take_leave_def sect_step_def syn_upd\<close>)
  next
    case get
    show ?thesis
      by (rule other_takes [OF inv pc refl, where l = "Take_return (item (nodes s n))" and w = Gone
            and nd = "set_state blank EMPTY (nodes s n)"])
        (use get ns in \<open>simp_all add: take_empty_def get_item_def take_leave_def sect_step_def syn_upd\<close>)
  next
    case late
    have "take_leave t False n s (take_empty blank (halted s) (nodes s n)) = set_pc t Take_test s"
      using late by (simp add: take_empty_def get_item_def take_leave_def set_node_def Let_def)
    then show ?thesis using syn_inv_move [OF inv, of Take_test t] pc by simp
  qed
qed
lemma put_lock_inv:
  assumes inv: "syn_inv s" and pc: "pcs s t = Put_lock c v" and go: "syn_go blank t s (Put_lock c v) = Some s'"
  shows "syn_inv s'"
proof (cases "deque (nodes s) (waitingConsumers s)")
  case (Pair q ns)
  note qu = syn_invD(4) [OF inv]
  have ok: "whereis s c = Held" "offered s c = v" using syn_invD(1) [OF inv, of t] pc by auto
  show ?thesis
  proof (cases q)
    case None
    then have ns: "ns = []" using deque_none Pair by fast
    have s': "s' = set_pc t (Put_own c v (nnodes s))
            (move_item c (At (nnodes s)) (set_node (nnodes s) (new_full v c)
              (s\<lparr>waitingConsumers := ns, waitingProducers := waitingProducers s @ [nnodes s], nnodes := Suc (nnodes s)\<rparr>)))"
      using go Pair None by simp
    show ?thesis
      by (rule queue_in [OF inv, where t = t and l = "Put_own c v (nnodes s)" and c = c and nd = "new_full v c"])
        (use pc ok ns in \<open>simp_all add: s' syn_upd new_full_def put_owner_ok_def\<close>)
  next
    case (Some n)
    obtain ks where ks: "waitingConsumers s = ks @ n # ns" "state (nodes s n) \<noteq> CANCELLED"
      using deque_some [of "nodes s"] Pair Some by blast
    have s': "s' = set_pc t (Put_other c v n) (s\<lparr>waitingConsumers := ns\<rparr>)" using go Pair Some by simp
    have n: "n \<in> set (waitingConsumers s)" "n \<notin> set ns" "set ns \<subseteq> set (waitingConsumers s)" "distinct ns"
      using qu by (auto simp: ks(1) queues_ok_def)
    have nn: "n < nnodes s \<and> \<not> producer (nodes s n) \<and> state (nodes s n) \<noteq> FULL" using qu n(1) by (auto simp: queues_ok_def)
    have p: "waitingProducers s = []" "distinct (waitingProducers s)" using qu ks by (auto simp: queues_ok_def)
    show ?thesis
      by (rule queue_out [OF inv, where t = t and l = "Put_other c v n" and n = n])
        (use pc ok ks(2) n nn p in \<open>simp_all add: s' set_pc_def\<close>)
  qed
qed

lemma take_lock_inv:
  assumes inv: "syn_inv s" and pc: "pcs s t = Take_lock" and go: "syn_go blank t s Take_lock = Some s'"
  shows "syn_inv s'"
proof (cases "deque (nodes s) (waitingProducers s)")
  case (Pair q ns)
  note qu = syn_invD(4) [OF inv]
  show ?thesis
  proof (cases q)
    case None
    then have ns: "ns = []" using deque_none Pair by fast
    have s': "s' = set_pc t (Take_own (nnodes s)) (set_node (nnodes s) (new_empty blank)
              (s\<lparr>waitingProducers := ns, waitingConsumers := waitingConsumers s @ [nnodes s], nnodes := Suc (nnodes s)\<rparr>))"
      using go Pair None by simp
    show ?thesis
      by (rule queue_in [OF inv, where t = t and l = "Take_own (nnodes s)" and c = "calls s" and nd = "new_empty blank"])
        (use pc ns in \<open>simp_all add: s' syn_upd new_empty_def take_owner_ok_def\<close>)
  next
    case (Some n)
    obtain ks where ks: "waitingProducers s = ks @ n # ns" "state (nodes s n) \<noteq> CANCELLED"
      using deque_some [of "nodes s"] Pair Some by blast
    have s': "s' = set_pc t (Take_other n) (s\<lparr>waitingProducers := ns\<rparr>)" using go Pair Some by simp
    have n: "n \<in> set (waitingProducers s)" "n \<notin> set ns" "set ns \<subseteq> set (waitingProducers s)" "distinct ns"
      using qu by (auto simp: ks(1) queues_ok_def)
    have nn: "n < nnodes s \<and> producer (nodes s n) \<and> state (nodes s n) \<noteq> EMPTY" using qu n(1) by (auto simp: queues_ok_def)
    have p: "waitingConsumers s = []" "distinct (waitingConsumers s)" using qu ks by (auto simp: queues_ok_def)
    show ?thesis
      by (rule queue_out [OF inv, where t = t and l = "Take_other n" and n = n])
        (use pc ks(2) n nn p in \<open>simp_all add: s' set_pc_def\<close>)
  qed
qed

lemma same_node_refl: "same_node nd nd"
  unfolding same_node_def by (rule exI [of _ "resting nd"]) simp

lemma syn_go_inv:
  assumes inv: "syn_inv s" and go: "syn_go blank t s (pcs s t) = Some s'"
  shows "syn_inv s'"
proof (cases "pcs s t")
  case (Put_test c v)
  show ?thesis
  proof (cases "halted s")
    case True
    then show ?thesis using go put_stopped [OF inv Put_test, where e = InterruptedException] by (simp add: Put_test)
  next
    case False
    have "syn_inv (set_pc t (Put_lock c v) s)"
      by (rule syn_inv_move [OF inv]) (use syn_invD(1) [OF inv, of t] Put_test in simp_all)
    then show ?thesis using go False by (simp add: Put_test)
  qed
next
  case (Put_lock c v)
  then show ?thesis using put_lock_inv [OF inv Put_lock] go by metis
next
  case (Put_own c v n)
  then show ?thesis
    using go put_leave_inv [OF inv disjI1 [OF Put_own] same_node_refl disjI1 [OF refl], of W_ok blank] by simp
next
  case (Put_other c v n)
  then show ?thesis using go fill_leave_inv [OF inv Put_other, of blank] by simp
next
  case Take_test
  have "syn_inv (set_pc t l s)" if "l = Take_lock \<or> l = S_throw InterruptedException" for l
    by (rule syn_inv_move [OF inv]) (use that Take_test in auto)
  then show ?thesis using go by (auto simp: Take_test split: if_splits)
next
  case Take_lock
  then show ?thesis using take_lock_inv [OF inv Take_lock] go by metis
next
  case (Take_own n)
  then show ?thesis
    using go take_leave_inv [OF inv disjI1 [OF Take_own] same_node_refl disjI1 [OF refl], of W_ok blank] by simp
next
  case (Take_other n)
  then show ?thesis using go other_leave_inv [OF inv Take_other, of blank] by simp
qed (use go in simp_all)

lemma syn_wake_inv:
  assumes inv: "syn_inv s" and w: "r \<noteq> W_interrupted" and go: "syn_wake blank t r s (pcs s t) = Some s'"
  shows "syn_inv s'"
proof -
  have nd: "same_node (nodes s n) ((nodes s n)\<lparr>resting := False\<rparr>)" for n by (auto simp: same_node_def)
  show ?thesis
  proof (cases "pcs s t")
    case (Put_wait c v n)
    then show ?thesis
      using go put_leave_inv [OF inv disjI2 [OF Put_wait] nd disjI2 [OF refl] w, of blank] sync_not_stopped [OF inv, of n]
      by (simp add: Let_def)
  next
    case (Take_wait n)
    then show ?thesis
      using go take_leave_inv [OF inv disjI2 [OF Take_wait] nd disjI2 [OF refl] w, of blank] sync_not_stopped [OF inv, of n]
      by (simp add: Let_def)
  qed (use go in simp_all)
qed

lemma syn_step_inv: "syn_inv s \<Longrightarrow> syn_step blank s e = Some s' \<Longrightarrow> syn_inv s'"
proof (cases e)
  case (Take t)
  assume inv: "syn_inv s" and st: "syn_step blank s e = Some s'"
  have idle: "syn_idle (pcs s t)" and s': "s' = set_pc t Take_test s" using st by (auto simp: syn_step_def Take split: if_splits)
  show ?thesis unfolding s' by (rule syn_inv_move [OF inv]) (use idle in \<open>cases "pcs s t"; simp\<close>)+
qed (auto simp: syn_step_def split: if_splits intro: syn_call syn_halt syn_go_inv syn_wake_inv)

interpretation syn_machine: event_invariant "syn_step blank" syn_inv for blank :: 'a
  by unfold_locales (rule syn_step_inv)
section \<open>Properties\<close>

text \<open>A cancelled node stays cancelled, which is what \<open>deque\<close> relies on.\<close>

lemma cancelled_stays:
  assumes "state nd = CANCELLED"
  shows "state (fst (put_loop blank h nd)) = CANCELLED" "state (fst (put_fill blank h v nd)) = CANCELLED"
    "state (fst (take_loop blank h nd)) = CANCELLED" "state (fst (take_empty blank h nd)) = CANCELLED"
    "state (fst (put_woken blank h r nd)) = CANCELLED" "state (fst (take_woken blank h r nd)) = CANCELLED"
proof -
  show "state (fst (put_loop blank h nd)) = CANCELLED" "state (fst (put_fill blank h v nd)) = CANCELLED"
    and t: "state (fst (take_loop blank h nd)) = CANCELLED" and "state (fst (take_empty blank h nd)) = CANCELLED"
    using assms by (simp_all add: put_loop_def put_fill_def take_loop_def take_empty_def put_item_def get_item_def
        cancel_throw_def set_state_def Let_def)
  show "state (fst (put_woken blank h r nd)) = CANCELLED" "state (fst (take_woken blank h r nd)) = CANCELLED"
    using assms t by (cases r; simp add: put_loop_def get_item_def cancel_throw_def set_state_def Let_def)+
qed

text \<open>A thread whose partner has come leaves with its next step.\<close>

lemma taker_leaves:
  assumes inv: "syn_inv s" and pc: "pcs s t = Take_wait n" and full: "state (nodes s n) = FULL" and h: "\<not> halted s" "r \<noteq> W_interrupted"
  shows "\<not> resting (nodes s n)"
    "\<exists>s'. syn_step blank s (Woken t r) = Some s' \<and> pcs s' t = Take_return (item (nodes s n)) \<and>
       delivered s' = delivered s @ [(origin (nodes s n), item (nodes s n))]"
proof -
  show "\<not> resting (nodes s n)" using syn_invD(1) [OF inv, of t] pc full by simp
  show "\<exists>s'. syn_step blank s (Woken t r) = Some s' \<and> pcs s' t = Take_return (item (nodes s n)) \<and>
       delivered s' = delivered s @ [(origin (nodes s n), item (nodes s n))]"
    using sync_not_stopped [OF inv, of n] pc full h
    by (cases r) (simp_all add: syn_step_def take_loop_def get_item_def take_leave_def syn_upd)
qed

lemma putter_leaves:
  assumes inv: "syn_inv s" and pc: "pcs s t = Put_wait c v n" and empty: "state (nodes s n) = EMPTY" and h: "r \<noteq> W_interrupted"
  shows "\<not> resting (nodes s n)"
    "\<exists>s'. syn_step blank s (Woken t r) = Some s' \<and> pcs s' t = Put_return 0 \<and> c \<in> fst ` set (delivered s')"
proof -
  show "\<not> resting (nodes s n)" using syn_invD(1) [OF inv, of t] pc empty by simp
  have "whereis s c = Gone" using syn_invD(1) [OF inv, of t] pc empty by (simp add: put_owner_ok_def)
  then have "c \<in> fst ` set (delivered s)" using delivered_gone [OF historyD(3) [OF syn_invD(5) [OF inv]]] by simp
  then show "\<exists>s'. syn_step blank s (Woken t r) = Some s' \<and> pcs s' t = Put_return 0 \<and> c \<in> fst ` set (delivered s')"
    using sync_not_stopped [OF inv, of n] pc empty h
    by (cases r) (simp_all add: syn_step_def put_loop_def put_leave_def syn_upd)
qed

lemma accepted_in_flight:
  assumes inv: "syn_inv s" and h: "\<not> halted s" and c: "c \<in> set (accepted s)" "c \<notin> fst ` set (delivered s)"
  shows "\<exists>t n. (pcs s t = Take_own n \<or> pcs s t = Take_wait n) \<and> state (nodes s n) = FULL \<and>
    origin (nodes s n) = c \<and> item (nodes s n) = offered s c"
proof -
  have "fate_ok s c" "whereis s c \<noteq> Gone"
    using historyD(2) [OF syn_invD(5) [OF inv]] delivered_gone [OF historyD(3) [OF syn_invD(5) [OF inv]]] c(2) by auto
  then obtain n where n: "whereis s c = At n" "\<not> producer (nodes s n)" using h c(1) by (auto simp: fate_ok_def)
  have f: "state (nodes s n) = FULL" "origin (nodes s n) = c" and "node_ok s n"
    using syn_invD(3) [OF inv] n(1) by (auto simp: nodes_ok_def)
  then have own: "owned_node s n" and i: "item (nodes s n) = offered s c" by (auto simp: node_ok_def retired_def)
  from own obtain t where "own_of (pcs s t) = Some n" by (auto simp: owned_node_def)
  then have "pcs s t = Take_own n \<or> pcs s t = Take_wait n"
    using syn_invD(1) [OF inv, of t] n(2) by (cases "pcs s t") (auto simp: put_owner_ok_def)
  then show ?thesis using f i by blast
qed

text \<open>
  Claim C6.  The hand-off is exactly once.  In every interleaving of \<open>put\<close> and \<open>take\<close>, with
  time-outs, errors and spurious wake-ups at any wait: no value is delivered twice, and every
  delivered value is the one its \<open>put\<close> offered.  As long as the channel is not interrupted, a
  \<open>put\<close> that failed was not delivered, and a \<open>put\<close> that returned 0 is delivered or lies in the
  node of a consumer that is still in \<open>take\<close>.  A thread whose partner has come is not left
  asleep, and its next step returns the value, or 0, even if its wait ends with a time-out.
  A producer and a consumer are never both queued.
\<close>

theorem handoff_exactly_once:
  assumes "reachable (syn_step blank) (syn_init blank) s"
  shows "distinct (map fst (delivered s)) \<and> (\<forall>c v. (c, v) \<in> set (delivered s) \<longrightarrow> v = offered s c) \<and>
    (\<not> halted s \<longrightarrow> (\<forall>c \<in> set (refused s). c \<notin> fst ` set (delivered s)) \<and>
       (\<forall>c \<in> set (accepted s). c \<in> fst ` set (delivered s) \<or>
          (\<exists>t n. (pcs s t = Take_own n \<or> pcs s t = Take_wait n) \<and> state (nodes s n) = FULL \<and>
             origin (nodes s n) = c \<and> item (nodes s n) = offered s c)) \<and>
       (\<forall>t n r. pcs s t = Take_wait n \<and> state (nodes s n) = FULL \<and> r \<noteq> W_interrupted \<longrightarrow>
          \<not> resting (nodes s n) \<and>
          (\<exists>s'. syn_step blank s (Woken t r) = Some s' \<and> pcs s' t = Take_return (item (nodes s n)) \<and>
             delivered s' = delivered s @ [(origin (nodes s n), item (nodes s n))]))) \<and>
    (\<forall>t c v n r. pcs s t = Put_wait c v n \<and> state (nodes s n) = EMPTY \<and> r \<noteq> W_interrupted \<longrightarrow>
       \<not> resting (nodes s n) \<and>
       (\<exists>s'. syn_step blank s (Woken t r) = Some s' \<and> pcs s' t = Put_return 0 \<and> c \<in> fst ` set (delivered s'))) \<and>
    (waitingProducers s = [] \<or> waitingConsumers s = [])"
proof -
  have inv: "syn_inv s" using syn_machine.reachable_inv [OF syn_inv_init assms] .
  note d = historyD(3) [OF syn_invD(5) [OF inv]]
  have 1: "distinct (map fst (delivered s))" "\<forall>c v. (c, v) \<in> set (delivered s) \<longrightarrow> v = offered s c"
    using d by (auto simp: delivered_ok_def)
  have 2: "\<forall>c \<in> set (refused s). c \<notin> fst ` set (delivered s)" if "\<not> halted s"
    using historyD(2) [OF syn_invD(5) [OF inv]] that by (auto simp: fate_ok_def delivered_gone [OF d])
  have 3: "\<forall>c \<in> set (accepted s). c \<in> fst ` set (delivered s) \<or>
      (\<exists>t n. (pcs s t = Take_own n \<or> pcs s t = Take_wait n) \<and> state (nodes s n) = FULL \<and>
         origin (nodes s n) = c \<and> item (nodes s n) = offered s c)" if "\<not> halted s"
    using accepted_in_flight [OF inv that] by blast
  have 4: "\<forall>t n r. pcs s t = Take_wait n \<and> state (nodes s n) = FULL \<and> r \<noteq> W_interrupted \<longrightarrow>
      \<not> resting (nodes s n) \<and>
      (\<exists>s'. syn_step blank s (Woken t r) = Some s' \<and> pcs s' t = Take_return (item (nodes s n)) \<and>
         delivered s' = delivered s @ [(origin (nodes s n), item (nodes s n))])" if h: "\<not> halted s"
    using taker_leaves [OF inv _ _ h] by blast
  have 5: "\<forall>t c v n r. pcs s t = Put_wait c v n \<and> state (nodes s n) = EMPTY \<and> r \<noteq> W_interrupted \<longrightarrow>
      \<not> resting (nodes s n) \<and>
      (\<exists>s'. syn_step blank s (Woken t r) = Some s' \<and> pcs s' t = Put_return 0 \<and> c \<in> fst ` set (delivered s'))"
    using putter_leaves [OF inv] by blast
  have 6: "waitingProducers s = [] \<or> waitingConsumers s = []" using syn_invD(4) [OF inv] by (simp add: queues_ok_def)
  show ?thesis by (intro conjI impI 1 2 3 4 5 6)
qed

theorem handoff_exactly_once_witness:
  "\<exists>s. run (syn_step 0) (syn_init 0)
       [Put 0 (7 :: int), Go 0, Go 0, Go 0, Take 1, Go 1, Go 1, Go 1, Woken 0 (W_error ETIME),
        Put 0 8, Go 0, Go 0, Go 0, Woken 0 (W_error ETIME)] = Some s \<and>
     accepted s = [0] \<and> refused s = [1] \<and> delivered s = [(0, 7)] \<and> distinct (map fst (delivered s))"
proof -
  let ?es = "[Put 0 (7 :: int), Go 0, Go 0, Go 0, Take 1, Go 1, Go 1, Go 1, Woken 0 (W_error ETIME),
        Put 0 8, Go 0, Go 0, Go 0, Woken 0 (W_error ETIME)]"
  let ?s = "the (run (syn_step 0) (syn_init 0) ?es)"
  have r: "run (syn_step 0) (syn_init 0) ?es \<noteq> None" and c: "accepted ?s = [0]" "refused ?s = [1]" "delivered ?s = [(0, 7)]"
    by code_simp+
  show ?thesis
    using handoff_exactly_once [OF reachable_run [OF r]] r c by (intro exI [of _ ?s]) (simp del: run.simps)
qed
section \<open>Interrupts\<close>

text \<open>
  \<open>interrupt\<close> is that of the channel's own monitor and does not reach the nodes.  When all
  other threads are outside the channel, nothing they do later wakes a thread that waits.
\<close>

definition stranded :: "tid \<Rightarrow> 'a syn_pc \<Rightarrow> nat \<Rightarrow> 'a schan \<Rightarrow> bool" where
  "stranded t l n s \<longleftrightarrow> halted s \<and> pcs s t = l \<and> resting (nodes s n) \<and>
     (\<forall>t'. t' \<noteq> t \<longrightarrow> syn_idle (pcs s t') \<or> (\<exists>c v. pcs s t' = Put_test c v) \<or> pcs s t' = Take_test)"

lemma stranded_step:
  assumes st: "stranded t l n s" and l: "l = Put_wait c v n \<or> l = Take_wait n"
    and step: "syn_step blank s e = Some s'" and e: "\<And>r. e \<noteq> Woken t r"
  shows "stranded t l n s'"
proof (cases e)
  case (Go t')
  show ?thesis
  proof (cases "t' = t")
    case True
    then show ?thesis using st l step by (auto simp: stranded_def syn_step_def Go)
  next
    case False
    then consider "syn_idle (pcs s t')" | c' v' where "pcs s t' = Put_test c' v'" | "pcs s t' = Take_test"
      using st by (auto simp: stranded_def)
    then show ?thesis
      using st step False
      by cases (cases "pcs s t'"; auto simp: stranded_def syn_step_def Go set_pc_def put_fails_def)+
  qed
next
  case (Woken t' r)
  then have "t' \<noteq> t" using e by auto
  then have "syn_idle (pcs s t') \<or> (\<exists>c v. pcs s t' = Put_test c v) \<or> pcs s t' = Take_test" using st by (simp add: stranded_def)
  then show ?thesis using step by (cases "pcs s t'") (auto simp: syn_step_def Woken split: if_splits)
qed (use st l step in \<open>auto simp: stranded_def syn_step_def set_pc_def split: if_splits\<close>)

lemma stranded_run:
  "stranded t l n s \<Longrightarrow> l = Put_wait c v n \<or> l = Take_wait n \<Longrightarrow> \<forall>r. Woken t r \<notin> set es \<Longrightarrow>
     run (syn_step blank) s es = Some s' \<Longrightarrow> stranded t l n s'"
proof (induction es arbitrary: s)
  case (Cons e es)
  from Cons.prems(4) obtain s1 where s1: "syn_step blank s e = Some s1" "run (syn_step blank) s1 es = Some s'"
    by (auto split: option.splits)
  have "stranded t l n s1" by (rule stranded_step [OF Cons.prems(1,2) s1(1)]) (use Cons.prems(3) in auto)
  then show ?case using Cons.IH [of s1] Cons.prems(2,3) s1(2) by auto
qed simp

text \<open>
  Claim C14.  \<open>interrupt\<close> does not do what it promises on a synchronous channel.  A thread that
  sleeps in \<open>put\<close> or \<open>take\<close> stays asleep after it, whatever the other threads do, until its own wait
  times out or wakes up spuriously.  And the hand-off is no longer exact: a \<open>put\<close> may have returned 0 when
  the consumer throws the value away, and a \<open>put\<close> may throw although its value was taken.
\<close>

theorem interrupt_strands_waiters:
  assumes "pcs s t = Put_wait c v n \<or> pcs s t = Take_wait n" "resting (nodes s n)"
    and "\<forall>t'. t' \<noteq> t \<longrightarrow> syn_idle (pcs s t')"
    and "run (syn_step blank) s (Halt_all # es) = Some s'" "\<forall>r. Woken t r \<notin> set es"
  shows "pcs s' t = pcs s t \<and> resting (nodes s' n) \<and>
    (\<exists>es2 s2. run (syn_step (0 :: int)) (syn_init 0) es2 = Some s2 \<and>
       pcs s2 1 = Put_return 0 \<and> accepted s2 = [0] \<and> pcs s2 0 = S_throw InterruptedException \<and> whereis s2 0 = Dropped) \<and>
    (\<exists>es3 s3. run (syn_step (0 :: int)) (syn_init 0) es3 = Some s3 \<and>
       pcs s3 0 = S_throw InterruptedException \<and> refused s3 = [0] \<and> delivered s3 = [(0, 7)])"
proof -
  have 1: "stranded t (pcs s t) n (s\<lparr>halted := True\<rparr>)" using assms(2,3) by (auto simp: stranded_def)
  have 2: "run (syn_step blank) (s\<lparr>halted := True\<rparr>) es = Some s'" using assms(4) by (simp add: syn_step_def)
  have "stranded t (pcs s t) n s'" using stranded_run [OF 1 assms(1,5) 2] .
  then have a: "pcs s' t = pcs s t" "resting (nodes s' n)" by (auto simp: stranded_def)
  let ?es2 = "[Take 0, Go 0, Go 0, Go 0, Put 1 (7 :: int), Go 1, Go 1, Go 1, Halt_all, Woken 0 W_ok]"
  let ?s2 = "the (run (syn_step 0) (syn_init 0) ?es2)"
  have b: "run (syn_step 0) (syn_init 0) ?es2 \<noteq> None" "pcs ?s2 1 = Put_return 0" "accepted ?s2 = [0]"
    "pcs ?s2 0 = S_throw InterruptedException" "whereis ?s2 0 = Dropped" by code_simp+
  let ?es3 = "[Put 0 (7 :: int), Go 0, Go 0, Take 1, Go 1, Go 1, Go 1, Halt_all, Go 0]"
  let ?s3 = "the (run (syn_step 0) (syn_init 0) ?es3)"
  have c: "run (syn_step 0) (syn_init 0) ?es3 \<noteq> None" "pcs ?s3 0 = S_throw InterruptedException" "refused ?s3 = [0]"
    "delivered ?s3 = [(0, 7)]" by code_simp+
  have "\<exists>es2 s2. run (syn_step (0 :: int)) (syn_init 0) es2 = Some s2 \<and> pcs s2 1 = Put_return 0 \<and> accepted s2 = [0] \<and>
      pcs s2 0 = S_throw InterruptedException \<and> whereis s2 0 = Dropped"
    using b by (intro exI [of _ ?es2] exI [of _ ?s2]) (simp del: run.simps)
  moreover have "\<exists>es3 s3. run (syn_step (0 :: int)) (syn_init 0) es3 = Some s3 \<and>
       pcs s3 0 = S_throw InterruptedException \<and> refused s3 = [0] \<and> delivered s3 = [(0, 7)]"
    using c by (intro exI [of _ ?es3] exI [of _ ?s3]) (simp del: run.simps)
  ultimately show ?thesis using a by blast
qed

theorem interrupt_strands_waiters_witness:
  "\<exists>s s'. run (syn_step 0) (syn_init 0) [Put 0 (7 :: int), Go 0, Go 0, Go 0] = Some s \<and>
     run (syn_step 0) s [Halt_all, Take 1, Go 1, Put 2 8, Go 2] = Some s' \<and> pcs s' 0 = Put_wait 0 7 0"
proof -
  let ?s = "the (run (syn_step 0) (syn_init 0) [Put 0 (7 :: int), Go 0, Go 0, Go 0])"
  let ?s' = "the (run (syn_step 0) ?s [Halt_all, Take 1, Go 1, Put 2 8, Go 2])"
  have n: "run (syn_step 0) (syn_init 0) [Put 0 (7 :: int), Go 0, Go 0, Go 0] \<noteq> None"
    "run (syn_step 0) ?s [Halt_all, Take 1, Go 1, Put 2 8, Go 2] \<noteq> None" by code_simp+
  note r = option.collapse [OF n(1), symmetric] and r' = option.collapse [OF n(2), symmetric]
  have i: "\<forall>t'. t' \<noteq> 0 \<longrightarrow> syn_idle (pcs ?s t')"
    by (simp add: syn_step_def syn_init_def put_leave_def put_loop_def node_wait_def new_full_def syn_upd)
  have p: "pcs ?s 0 = Put_wait 0 7 0" "resting (nodes ?s 0)" by code_simp+
  have e: "\<forall>r. Woken 0 r \<notin> set [Take 1, Go 1, Put 2 (8 :: int), Go 2]" by simp
  have "pcs ?s' 0 = pcs ?s 0" using interrupt_strands_waiters [OF disjI1 [OF p(1)] p(2) i r' e] by (rule conjunct1)
  then show ?thesis using r r' p(1) by metis
qed

end
