(* ===== verification/Task_Executor.thy ===== *)
theory Task_Executor
  imports Synchronous_Channel
begin

text \<open>
  \<^verbatim>\<open>DAF::TaskExecutor\<close> (\<^verbatim>\<open>daf/TaskExecutor.h\<close>, \<^verbatim>\<open>.cpp\<close>): a pool of threads that run commands.  \<open>execute\<close>
  offers a command to the pool over a synchronous channel and starts a new thread when no
  pool thread takes it in time; a pool thread that gets no command for a while ends.

  The executor is composed with the model of the channel (\<open>Synchronous_Channel\<close>): its state
  contains the channel's, and a thread that is inside \<open>offer\<close> or \<open>poll\<close> moves by the channel's own
  steps.  Sections under \<^verbatim>\<open>lock_\<close> are single steps, and so is every access to a flag that is read
  without it.  A thread identifier is idle, a client's, or a pool thread's;
  \<open>threads\<close> is the list of all pool threads that the thread manager has started.

  The thread manager of ACE, the shutdown flag and the commands are the environment: a spawn succeeds
  for all its threads or fails, a command returns or throws.  Cancelling the threads that do
  not leave in time (\<open>terminate_task\<close>) is left to the operating system and not modelled; after it,
  as after an orderly end, \<open>module_closed\<close> waits for all threads.  Thread counts do not overflow \<^verbatim>\<open>size_t\<close>.

  History variables: a number for every command handed to \<open>execute\<close>, where that command is,
  the commands whose \<open>execute\<close> returned 0 and -1, and the commands that were run.
\<close>

section \<open>State\<close>

datatype exec_pc =
    X_idle
  | Run_test "nat option"
  | Run_offer nat
  | Run_offering nat
  | Hand_test nat
  | Hand_lock nat
  | Hand_start nat tid
  | N_test nat bool
  | N_lock nat bool
  | N_start "tid list"
  | Close_flag
  | Close_test
  | Close_set
  | Close_stop
  | Close_lock
  | Close_wait
  | Close_terminate
  | Close_join
  | X_return int
  | W_start "nat option"
  | W_plain
  | W_loop "nat option"
  | W_polling
  | W_run nat
  | W_exit
  | W_gone

datatype sub_place = S_none | S_client tid | S_chan nat | S_worker tid | S_ran | S_lost

record exec =
  taskChannel :: "nat option schan"
  thr_count :: nat
  executorAvailable :: bool
  executorClosed :: bool
  has_shutdown :: bool
  decay_timeout :: int
  evict_timeout :: int
  handoff_timeout :: int
  tpc :: "tid \<Rightarrow> exec_pc"
  threads :: "tid list"
  joined :: bool
  nsub :: nat
  sub :: "nat \<Rightarrow> sub_place"
  done_ok :: "nat list"
  done_bad :: "nat list"
  ran :: "nat list"

section \<open>Small operations\<close>

definition setDecayTimeout :: "int \<Rightarrow> exec \<Rightarrow> exec" where
  "setDecayTimeout ms s = s\<lparr>decay_timeout := ace_range MSECS_ONE_SECOND MSECS_ONE_HOUR ms\<rparr>"

definition setEvictTimeout :: "int \<Rightarrow> exec \<Rightarrow> exec" where
  "setEvictTimeout ms s = s\<lparr>evict_timeout := ace_range MSECS_ONE_SECOND MSECS_ONE_MINUTE ms\<rparr>"

definition setHandoffTimeout :: "int \<Rightarrow> exec \<Rightarrow> exec" where
  "setHandoffTimeout ms s = s\<lparr>handoff_timeout := ace_range 0 10 ms\<rparr>"

text \<open>The constructor; its arguments are the numeric properties that it reads, in seconds, seconds, milliseconds.\<close>

definition TaskExecutor_new :: "int \<Rightarrow> int \<Rightarrow> int \<Rightarrow> exec" where
  "TaskExecutor_new decay evict handoff =
     setHandoffTimeout handoff (setEvictTimeout (evict * MSECS_ONE_SECOND) (setDecayTimeout (decay * MSECS_ONE_SECOND)
       \<lparr>taskChannel = syn_init None, thr_count = 0, executorAvailable = True, executorClosed = False, has_shutdown = False,
        decay_timeout = MSECS_ONE_SECOND * 30, evict_timeout = MSECS_ONE_SECOND * 6, handoff_timeout = 1,
        tpc = (\<lambda>_. X_idle), threads = [], joined = False, nsub = 0, sub = (\<lambda>_. S_none), done_ok = [], done_bad = [], ran = []\<rparr>))"

definition isAvailable :: "exec \<Rightarrow> bool \<times> exec" where
  "isAvailable s =
     (if executorAvailable s then
        if has_shutdown s then (False, s\<lparr>executorAvailable := False\<rparr>) else (True, s)
      else (False, s))"

definition isActive :: "exec \<Rightarrow> bool" where
  "isActive s \<longleftrightarrow> thr_count s > 0"

definition goto_pc :: "tid \<Rightarrow> exec_pc \<Rightarrow> exec \<Rightarrow> exec" where
  "goto_pc t l s = s\<lparr>tpc := (tpc s)(t := l)\<rparr>"

definition place_sub :: "nat \<Rightarrow> sub_place \<Rightarrow> exec \<Rightarrow> exec" where
  "place_sub x p s = s\<lparr>sub := (sub s)(x := p)\<rparr>"

text \<open>\<open>execute(command)\<close> returns: 0, or -1 with the command given up.\<close>

definition exec_ok :: "tid \<Rightarrow> nat \<Rightarrow> exec \<Rightarrow> exec" where
  "exec_ok t x s = goto_pc t (X_return 0) (s\<lparr>done_ok := x # done_ok s\<rparr>)"

definition exec_bad :: "tid \<Rightarrow> nat \<Rightarrow> exec \<Rightarrow> exec" where
  "exec_bad t x s = goto_pc t (X_return (- 1)) (s\<lparr>done_bad := x # done_bad s\<rparr>)"

fun starting :: "exec_pc \<Rightarrow> bool" where
  "starting (W_start job) = True"
| "starting _ = False"

fun pool_thread :: "exec_pc \<Rightarrow> bool" where
  "pool_thread (W_start job) = True"
| "pool_thread W_plain = True"
| "pool_thread (W_loop c) = True"
| "pool_thread W_polling = True"
| "pool_thread (W_run x) = True"
| "pool_thread W_exit = True"
| "pool_thread _ = False"

text \<open>A spawn of \<open>n\<close> threads by \<open>t\<close>: the new threads are idle identifiers.\<close>

definition can_spawn :: "tid \<Rightarrow> nat \<Rightarrow> tid list \<Rightarrow> exec \<Rightarrow> bool" where
  "can_spawn t n ws s \<longleftrightarrow> length ws = n \<and> distinct ws \<and> t \<notin> set ws \<and> list_all (\<lambda>w. tpc s w = X_idle) ws"

definition spawn :: "tid list \<Rightarrow> nat option \<Rightarrow> exec \<Rightarrow> exec" where
  "spawn ws job s =
     s\<lparr>thr_count := thr_count s + length ws, threads := threads s @ ws, tpc := (\<lambda>w. if w \<in> set ws then W_start job else tpc s w)\<rparr>"

section \<open>Steps\<close>

text \<open>
  One step of a thread outside the channel.  The choice is \<open>Some ws\<close> for a spawn that starts the threads
  \<open>ws\<close> and for a command that returns, and \<open>None\<close> for a spawn that fails and a command that throws.
\<close>

fun exec_go :: "tid \<Rightarrow> tid list option \<Rightarrow> exec \<Rightarrow> exec_pc \<Rightarrow> exec option" where
  "exec_go t ch s (Run_test cmd) =
     (case isAvailable s of (av, s') \<Rightarrow>
        Some (case cmd of
          None \<Rightarrow> goto_pc t (X_return (if av then 0 else - 1)) s'
        | Some x \<Rightarrow> if av then goto_pc t (Run_offer x) s' else exec_bad t x (place_sub x S_lost s')))"
| "exec_go t ch s (Run_offer x) =
     (case syn_step None (taskChannel s) (Put t (Some x)) of
        None \<Rightarrow> None
      | Some c' \<Rightarrow> Some (goto_pc t (Run_offering x) (place_sub x (S_chan (calls (taskChannel s))) (s\<lparr>taskChannel := c'\<rparr>))))"
| "exec_go t ch s (Hand_test x) =
     (case isAvailable s of (av, s') \<Rightarrow>
        Some (if av then goto_pc t (Hand_lock x) s' else exec_bad t x (place_sub x S_lost s')))"
| "exec_go t ch s (Hand_lock x) =
     (case isAvailable s of (av, s') \<Rightarrow>
        if av then
          case ch of
            None \<Rightarrow> Some (exec_bad t x (place_sub x S_lost s'))
          | Some ws \<Rightarrow>
              if can_spawn t 1 ws s' then
                Some (goto_pc t (Hand_start x (hd ws)) (place_sub x (S_worker (hd ws)) (spawn ws (Some x) s')))
              else None
        else Some (exec_bad t x (place_sub x S_lost s')))"
| "exec_go t ch s (Hand_start x w) = (if starting (tpc s w) then None else Some (exec_ok t x s))"
| "exec_go t ch s (N_test n force) =
     (if n \<noteq> 0 then
        case isAvailable s of (av, s') \<Rightarrow> Some (goto_pc t (if av then N_lock n force else X_return (- 1)) s')
      else Some (goto_pc t (X_return (- 1)) s))"
| "exec_go t ch s (N_lock n force) =
     (case isAvailable s of (av, s') \<Rightarrow>
        if (if av then (if force then False else thr_count s' \<noteq> 0) else True) then Some (goto_pc t (X_return (- 1)) s')
        else case ch of
            None \<Rightarrow> Some (goto_pc t (X_return (- 1)) s')
          | Some ws \<Rightarrow> if can_spawn t n ws s' then Some (goto_pc t (N_start ws) (spawn ws None s')) else None)"
| "exec_go t ch s (N_start ws) =
     (if list_ex (\<lambda>w. starting (tpc s w)) ws then None else Some (goto_pc t (X_return 0) s))"
| "exec_go t ch s Close_flag = Some (goto_pc t Close_test (s\<lparr>executorAvailable := False\<rparr>))"
| "exec_go t ch s Close_test = Some (goto_pc t (if executorClosed s then X_return 0 else Close_set) s)"
| "exec_go t ch s Close_set = Some (goto_pc t Close_stop (s\<lparr>executorClosed := True\<rparr>))"
| "exec_go t ch s Close_stop =
     (case syn_step None (taskChannel s) Halt_all of
        None \<Rightarrow> None | Some c' \<Rightarrow> Some (goto_pc t Close_lock (s\<lparr>taskChannel := c'\<rparr>)))"
| "exec_go t ch s Close_lock = Some (goto_pc t (if thr_count s > 0 then Close_wait else Close_join) s)"
| "exec_go t ch s Close_terminate = Some (goto_pc t Close_join s)"
| "exec_go t ch s (W_start job) =
     Some (goto_pc t (case job of None \<Rightarrow> W_plain | Some x \<Rightarrow> W_loop (Some x)) s)"
| "exec_go t ch s W_plain = Some (goto_pc t W_exit s)"
| "exec_go t ch s (W_loop cmd) =
     (case isAvailable s of (av, s') \<Rightarrow>
        if av then
          case cmd of
            None \<Rightarrow>
              (case syn_step None (taskChannel s') (Take t) of
                 None \<Rightarrow> None | Some c' \<Rightarrow> Some (goto_pc t W_polling (s'\<lparr>taskChannel := c'\<rparr>)))
          | Some x \<Rightarrow> Some (goto_pc t (W_run x) s')
        else Some (goto_pc t W_exit (case cmd of None \<Rightarrow> s' | Some x \<Rightarrow> place_sub x S_lost s')))"
| "exec_go t ch s (W_run x) =
     Some (goto_pc t (if ch = None then W_exit else W_loop None) (place_sub x S_ran (s\<lparr>ran := ran s @ [x]\<rparr>)))"
| "exec_go t ch s W_exit = Some (goto_pc t W_gone (s\<lparr>thr_count := thr_count s - 1\<rparr>))"
| "exec_go t ch s _ = None"

text \<open>
  A step of the channel by a thread inside \<open>offer\<close> or \<open>poll\<close>, and what the thread does when it
  returns.  A value that the channel gives up is lost, unless its client still has it.
\<close>

definition resync :: "nat option schan \<Rightarrow> exec \<Rightarrow> exec" where
  "resync c' s =
     s\<lparr>taskChannel := c',
       sub := (\<lambda>x. case sub s x of S_chan c \<Rightarrow> if whereis c' c = Dropped then S_lost else S_chan c | p \<Rightarrow> p)\<rparr>"

definition chan_return :: "tid \<Rightarrow> exec_pc \<Rightarrow> nat option schan \<Rightarrow> exec \<Rightarrow> exec" where
  "chan_return t l c' s =
     (case (l, pcs c' t) of
        (Run_offering x, Put_return rc) \<Rightarrow>
          if rc = 0 then exec_ok t x (resync c' s) else goto_pc t (Hand_test x) (place_sub x (S_client t) (resync c' s))
      | (Run_offering x, S_throw e) \<Rightarrow> exec_bad t x (resync c' s)
      | (W_polling, Take_return (Some x)) \<Rightarrow> goto_pc t (W_loop (Some x)) (place_sub x (S_worker t) (resync c' s))
      | (W_polling, Take_return None) \<Rightarrow> goto_pc t (W_loop None) (resync c' s)
      | (W_polling, S_throw e) \<Rightarrow> goto_pc t W_exit (resync c' s)
      | _ \<Rightarrow> resync c' s)"

fun in_channel :: "exec_pc \<Rightarrow> bool" where
  "in_channel (Run_offering x) = True"
| "in_channel W_polling = True"
| "in_channel _ = False"

fun idle_pc :: "exec_pc \<Rightarrow> bool" where
  "idle_pc X_idle = True"
| "idle_pc (X_return rc) = True"
| "idle_pc _ = False"

text \<open>The wait for the threads to leave, with its deadline.\<close>

definition close_woken :: "tid \<Rightarrow> wres \<Rightarrow> exec \<Rightarrow> exec" where
  "close_woken t r s =
     (if r = W_error ETIME then goto_pc t (if thr_count s > 0 then Close_terminate else Close_join) s
      else goto_pc t Close_lock s)"

text \<open>\<open>ACE_Task_Base::wait\<close> returns when no thread of the task is left.\<close>

definition no_pool_threads :: "exec \<Rightarrow> bool" where
  "no_pool_threads s \<longleftrightarrow> list_all (\<lambda>w. \<not> pool_thread (tpc s w)) (threads s)"

datatype exec_event =
    Execute tid bool
  | ExecuteN tid nat bool
  | Close tid
  | Shutdown
  | X_go tid "tid list option"
  | X_chan tid
  | X_chan_woken tid wres
  | X_woken tid wres
  | X_join tid

definition exec_chan :: "tid \<Rightarrow> nat option syn_event \<Rightarrow> exec \<Rightarrow> exec option" where
  "exec_chan t e s =
     (if in_channel (tpc s t) then
        case syn_step None (taskChannel s) e of None \<Rightarrow> None | Some c' \<Rightarrow> Some (chan_return t (tpc s t) c' s)
      else None)"

definition exec_step :: "exec \<Rightarrow> exec_event \<Rightarrow> exec option" where
  "exec_step s e =
     (case e of
        Execute t nil \<Rightarrow>
          if idle_pc (tpc s t) then
            if nil then Some (goto_pc t (Run_test None) s)
            else Some (goto_pc t (Run_test (Some (nsub s))) (place_sub (nsub s) (S_client t) (s\<lparr>nsub := Suc (nsub s)\<rparr>)))
          else None
      | ExecuteN t n force \<Rightarrow> if idle_pc (tpc s t) then Some (goto_pc t (N_test n force) s) else None
      | Close t \<Rightarrow> if idle_pc (tpc s t) then Some (goto_pc t Close_flag s) else None
      | Shutdown \<Rightarrow> Some (s\<lparr>has_shutdown := True\<rparr>)
      | X_go t ch \<Rightarrow> exec_go t ch s (tpc s t)
      | X_chan t \<Rightarrow> exec_chan t (Go t) s
      | X_chan_woken t r \<Rightarrow> exec_chan t (Woken t r) s
      | X_woken t r \<Rightarrow> if tpc s t = Close_wait then Some (close_woken t r s) else None
      | X_join t \<Rightarrow>
          if tpc s t = Close_join \<and> no_pool_threads s then Some (goto_pc t (X_return 0) (s\<lparr>joined := True\<rparr>)) else None)"

section \<open>What a step of the channel does for its thread\<close>

fun taking :: "'a syn_pc \<Rightarrow> bool" where
  "taking Take_test = True"
| "taking Take_lock = True"
| "taking (Take_own n) = True"
| "taking (Take_wait n) = True"
| "taking (Take_other n) = True"
| "taking _ = False"

definition thread_event :: "tid \<Rightarrow> 'a syn_event \<Rightarrow> bool" where
  "thread_event t e \<longleftrightarrow> e = Go t \<or> (\<exists>r. e = Woken t r)"

text \<open>The ends of the sections change the channel as follows.\<close>

lemmas leave_defs = put_leave_def fill_leave_def take_leave_def put_fails_def put_works_def take_works_def move_item_def
  set_node_def set_pc_def Let_def

lemma leave_keeps:
  "pcs (put_leave t c v n s r) t' = (if t' = t then pcs (put_leave t c v n s r) t else pcs s t')"
  "calls (put_leave t c v n s r) = calls s" "offered (put_leave t c v n s r) = offered s" "halted (put_leave t c v n s r) = halted s"
  "pcs (fill_leave t c v n s r) t' = (if t' = t then pcs (fill_leave t c v n s r) t else pcs s t')"
  "calls (fill_leave t c v n s r) = calls s" "offered (fill_leave t c v n s r) = offered s" "halted (fill_leave t c v n s r) = halted s"
  "pcs (take_leave t b n s r) t' = (if t' = t then pcs (take_leave t b n s r) t else pcs s t')"
  "calls (take_leave t b n s r) = calls s" "offered (take_leave t b n s r) = offered s" "halted (take_leave t b n s r) = halted s"
  by (auto simp: leave_defs split: sect.splits)

lemma chan_keeps:
  assumes "syn_step blank s e = Some s'" "thread_event t e"
  shows "t' \<noteq> t \<Longrightarrow> pcs s' t' = pcs s t'" "calls s' = calls s" "offered s' = offered s" "halted s' = halted s"
proof -
  have "(t' \<noteq> t \<longrightarrow> pcs s' t' = pcs s t') \<and> calls s' = calls s \<and> offered s' = offered s \<and> halted s' = halted s"
  proof (cases "e = Go t")
    case True
    then have "syn_go blank t s (pcs s t) = Some s'" using assms by (simp add: syn_step_def)
    then show ?thesis
      by (cases "pcs s t")
        (auto simp: leave_keeps set_pc_def put_fails_def move_item_def set_node_def split: option.splits prod.splits if_splits)
  next
    case False
    then obtain r where "syn_wake blank t r s (pcs s t) = Some s'"
      using assms by (auto simp: syn_step_def thread_event_def split: if_splits)
    then show ?thesis by (cases "pcs s t") (auto simp: Let_def leave_keeps)
  qed
  then show "t' \<noteq> t \<Longrightarrow> pcs s' t' = pcs s t'" "calls s' = calls s" "offered s' = offered s" "halted s' = halted s" by auto
qed

text \<open>A section of \<open>put\<close> moves the value of its own call only.\<close>

definition put_effect :: "tid \<Rightarrow> nat \<Rightarrow> 'a schan \<Rightarrow> 'a schan \<Rightarrow> bool" where
  "put_effect t c s s' \<longleftrightarrow>
     (\<forall>c'. c' \<noteq> c \<longrightarrow> whereis s' c' = whereis s c') \<and> delivered s' = delivered s \<and>
     (call_of (pcs s' t) = Some c \<and> accepted s' = accepted s \<or>
      pcs s' t = Put_return 0 \<and> accepted s' = c # accepted s \<and> whereis s' c \<noteq> Dropped \<or>
      pcs s' t = Put_return (- 1) \<and> accepted s' = accepted s \<and> whereis s' c = Dropped \<or>
      (\<exists>e. pcs s' t = S_throw e) \<and> accepted s' = accepted s \<and> (whereis s' c = Dropped \<or> whereis s' c = Gone \<and> halted s))"

lemma put_effectI:
  assumes "delivered s' = delivered s" "whereis s' = (whereis s)(c := w)"
  shows "call_of (pcs s' t) = Some c \<Longrightarrow> accepted s' = accepted s \<Longrightarrow> put_effect t c s s'"
    "pcs s' t = Put_return 0 \<Longrightarrow> accepted s' = c # accepted s \<Longrightarrow> w \<noteq> Dropped \<Longrightarrow> put_effect t c s s'"
    "pcs s' t = Put_return (- 1) \<Longrightarrow> accepted s' = accepted s \<Longrightarrow> w = Dropped \<Longrightarrow> put_effect t c s s'"
    "pcs s' t = S_throw e \<Longrightarrow> accepted s' = accepted s \<Longrightarrow> w = Dropped \<or> w = Gone \<and> halted s \<Longrightarrow> put_effect t c s s'"
  unfolding put_effect_def assms by simp_all

lemma put_leave_effect:
  assumes inv: "syn_inv s" and pc: "pcs s t = Put_own c v n \<or> pcs s t = Put_wait c v n"
    and nd: "same_node (nodes s n) nd" and r: "r = put_loop blank (halted s) nd \<or> r = put_woken blank (halted s) w nd"
      "w \<noteq> W_interrupted"
  shows "put_effect t c s (put_leave t c v n s r)"
proof -
  note d = same_nodeD [OF nd]
  have ok: "put_owner_ok s c v n" using pc syn_invD(1) [OF inv, of t] by auto
  have "\<not> stopped nd" using sync_not_stopped [OF inv, of n] d by simp
  from this r show ?thesis
  proof (cases rule: put_section_cases)
    case (block nd')
    show ?thesis by (rule put_effectI(1) [where w = "whereis s c"]) (simp_all add: block(2) leave_defs)
  next
    case retry
    show ?thesis by (rule put_effectI(1) [where w = "whereis s c"]) (simp_all add: retry(2) leave_defs)
  next
    case taken
    then have "whereis s c \<noteq> Dropped" using ok d by (simp add: put_owner_ok_def)
    then show ?thesis by (intro put_effectI(2) [where w = "whereis s c"]) (simp_all add: taken(2) leave_defs)
  next
    case (fails out)
    from fails(3) show ?thesis
    proof (elim disjE exE conjE)
      assume a: "out = Put_done (- 1)" "state nd = FULL"
      then have "whereis s c = At n" using ok d by (simp add: put_owner_ok_def)
      then show ?thesis by (intro put_effectI(3) [where w = Dropped]) (simp_all add: fails(2) a leave_defs)
    next
      fix e assume a: "out = Throw e"
      have "whereis s c = Gone \<Longrightarrow> halted s" using ok fails(1) d by (auto simp: put_owner_ok_def split: node_state.splits)
      then show ?thesis
        by (intro put_effectI(4) [where w = "if whereis s c = Gone then Gone else Dropped" and e = e])
          (simp_all add: fails(2) a leave_defs)
    qed
  qed
qed

lemma put_step_effect:
  assumes inv: "syn_inv s" and step: "syn_step blank s e = Some s'" "thread_event t e" and c: "call_of (pcs s t) = Some c"
  shows "put_effect t c s s'"
proof (cases "e = Go t")
  case True
  then have go: "syn_go blank t s (pcs s t) = Some s'" using step by (simp add: syn_step_def)
  show ?thesis
  proof (cases "pcs s t")
    case (Put_own c' v n)
    then show ?thesis
      using go c put_leave_effect [OF inv disjI1 [OF Put_own] same_node_refl disjI1 [OF refl], of W_ok blank] by simp
  next
    case (Put_lock c' v)
    then have c': "c' = c" using c by simp
    obtain q ns where q: "deque (nodes s) (waitingConsumers s) = (q, ns)" by fastforce
    show ?thesis
    proof (cases q)
      case None
      then show ?thesis
        using go q Put_lock c' by (intro put_effectI(1) [where w = "At (nnodes s)"]) (auto simp: set_pc_def move_item_def set_node_def)
    next
      case (Some n)
      then show ?thesis
        using go q Put_lock c' by (intro put_effectI(1) [where w = "whereis s c"]) (auto simp: set_pc_def)
    qed
  next
    case (Put_other c' v n)
    then have c': "c' = c" using c by simp
    have ok: "whereis s c = Held" "state (nodes s n) \<noteq> FULL" using syn_invD(1) [OF inv, of t] Put_other c' by auto
    have s': "s' = fill_leave t c v n s (put_fill blank (halted s) v (nodes s n))" using go Put_other c' by simp
    consider (stop) "halted s" | (fill) "\<not> halted s" "state (nodes s n) = EMPTY" | (late) "\<not> halted s" "state (nodes s n) = CANCELLED"
      using ok(2) by (cases "state (nodes s n)") auto
    then show ?thesis
    proof cases
      case stop
      then show ?thesis
        by (intro put_effectI(4) [where w = Dropped and e = InterruptedException])
          (simp_all add: s' ok leave_defs put_fill_def cancel_throw_def)
    next
      case fill
      then show ?thesis
        using sync_not_stopped [OF inv, of n]
        by (intro put_effectI(2) [where w = "At n"]) (simp_all add: s' ok leave_defs put_fill_def put_item_def)
    next
      case late
      then show ?thesis
        by (intro put_effectI(1) [where w = "whereis s c"]) (simp_all add: s' leave_defs put_fill_def put_item_def)
    qed
  next
    case (Put_test c' v)
    then have c': "c' = c" using c by simp
    have h: "whereis s c = Held" using syn_invD(1) [OF inv, of t] Put_test c' by auto
    show ?thesis
    proof (cases "halted s")
      case True
      then show ?thesis
        using go Put_test c' h by (intro put_effectI(4) [where w = Dropped and e = InterruptedException]) (auto simp: set_pc_def put_fails_def)
    next
      case False
      then show ?thesis
        using go Put_test c' by (intro put_effectI(1) [where w = "whereis s c"]) (auto simp: set_pc_def)
    qed
  qed (use go c in simp_all)
next
  case False
  then obtain r where go: "syn_wake blank t r s (pcs s t) = Some s'" and r: "r \<noteq> W_interrupted"
    using step by (auto simp: syn_step_def thread_event_def split: if_splits)
  have nd: "same_node (nodes s n) ((nodes s n)\<lparr>resting := False\<rparr>)" for n by (auto simp: same_node_def)
  show ?thesis
  proof (cases "pcs s t")
    case (Put_wait c' v n)
    then show ?thesis
      using go c put_leave_effect [OF inv disjI2 [OF Put_wait] nd disjI2 [OF refl] r, of blank] sync_not_stopped [OF inv, of n]
      by (simp add: Let_def)
  qed (use go c in simp_all)
qed

text \<open>A section of \<open>take\<close> delivers a value that lies in a node, or gives one up if the channel is halted.\<close>

definition take_effect :: "tid \<Rightarrow> 'a schan \<Rightarrow> 'a schan \<Rightarrow> bool" where
  "take_effect t s s' \<longleftrightarrow> accepted s' = accepted s \<and>
     (taking (pcs s' t) \<and> whereis s' = whereis s \<or>
      (\<exists>e. pcs s' t = S_throw e) \<and>
        (whereis s' = whereis s \<or>
         (\<exists>c n w. halted s \<and> whereis s c = At n \<and> (w = Held \<or> w = Dropped) \<and> whereis s' = (whereis s)(c := w))) \<or>
      (\<exists>c n. pcs s' t = Take_return (offered s c) \<and> whereis s c = At n \<and> whereis s' = (whereis s)(c := Gone)))"

lemma take_effectI:
  assumes "accepted s' = accepted s"
  shows "taking (pcs s' t) \<Longrightarrow> whereis s' = whereis s \<Longrightarrow> take_effect t s s'"
    "pcs s' t = S_throw e \<Longrightarrow> whereis s' = whereis s \<Longrightarrow> take_effect t s s'"
    "pcs s' t = S_throw e \<Longrightarrow> whereis s' = (whereis s)(c := w) \<Longrightarrow> whereis s c = At n \<Longrightarrow> halted s \<Longrightarrow> w = Held \<or> w = Dropped \<Longrightarrow>
       take_effect t s s'"
    "pcs s' t = Take_return (offered s c) \<Longrightarrow> whereis s c = At n \<Longrightarrow> whereis s' = (whereis s)(c := Gone) \<Longrightarrow> take_effect t s s'"
  unfolding take_effect_def using assms by blast+

lemma take_leave_effect:
  assumes inv: "syn_inv s" and nd: "same_node (nodes s n) nd"
    and r: "r = take_loop blank (halted s) nd \<or> r = take_woken blank (halted s) w nd" "w \<noteq> W_interrupted"
  shows "take_effect t s (take_leave t True n s r)"
proof -
  note d = same_nodeD [OF nd]
  have ok: "node_ok s n" using syn_invD(3) [OF inv] by (simp add: nodes_ok_def)
  have "\<not> stopped nd" using sync_not_stopped [OF inv, of n] d by simp
  have full: "whereis s (origin (nodes s n)) = At n" "item (nodes s n) = offered s (origin (nodes s n))"
    if "state (nodes s n) = FULL"
    using ok that by (auto simp: node_ok_def)
  from \<open>\<not> stopped nd\<close> r show ?thesis
  proof (cases rule: take_section_cases)
    case (block nd')
    show ?thesis by (rule take_effectI(1)) (simp_all add: block(2) leave_defs)
  next
    case retry
    show ?thesis by (rule take_effectI(1)) (simp_all add: retry(2) leave_defs)
  next
    case takes
    then show ?thesis
      using full d by (intro take_effectI(4) [where c = "origin (nodes s n)" and n = n]) (simp_all add: leave_defs)
  next
    case (fails e)
    show ?thesis
    proof (cases "state (nodes s n) = FULL")
      case True
      then show ?thesis
        using fails full d
        by (intro take_effectI(3) [where c = "origin (nodes s n)" and n = n and w = Dropped and e = e]) (simp_all add: leave_defs)
    next
      case False
      then show ?thesis using fails by (intro take_effectI(2) [where e = e]) (simp_all add: leave_defs)
    qed
  qed
qed

lemma take_step_effect:
  assumes inv: "syn_inv s" and step: "syn_step blank s e = Some s'" "thread_event t e" and c: "taking (pcs s t)"
  shows "take_effect t s s'"
proof (cases "e = Go t")
  case True
  then have go: "syn_go blank t s (pcs s t) = Some s'" using step by (simp add: syn_step_def)
  show ?thesis
  proof (cases "pcs s t")
    case (Take_own n)
    then show ?thesis using go take_leave_effect [OF inv same_node_refl disjI1 [OF refl], of W_ok t n blank] by simp
  next
    case Take_lock
    then show ?thesis
      using go by (intro take_effectI(1)) (auto simp: set_pc_def set_node_def split: option.splits prod.splits)
  next
    case Take_test
    then show ?thesis
      using go take_effectI(1) [of s' s t] take_effectI(2) [of s' s t InterruptedException]
      by (cases "halted s") (auto simp: set_pc_def)
  next
    case (Take_other n)
    have s': "s' = take_leave t False n s (take_empty blank (halted s) (nodes s n))" using go Take_other by simp
    have "node_ok s n" using syn_invD(3) [OF inv] by (simp add: nodes_ok_def)
    then have full: "whereis s (origin (nodes s n)) = At n" "item (nodes s n) = offered s (origin (nodes s n))"
      if "state (nodes s n) = FULL"
      using that by (auto simp: node_ok_def)
    have ne: "state (nodes s n) \<noteq> EMPTY" using syn_invD(1) [OF inv, of t] Take_other by auto
    consider (stop) "halted s" "state (nodes s n) = FULL" | (stop_late) "halted s" "state (nodes s n) = CANCELLED"
      | (get) "\<not> halted s" "state (nodes s n) = FULL" | (late) "\<not> halted s" "state (nodes s n) = CANCELLED"
      using ne by (cases "state (nodes s n)") auto
    then show ?thesis
    proof cases
      case stop
      then show ?thesis
        using full by (intro take_effectI(3) [where c = "origin (nodes s n)" and n = n and w = Held and e = InterruptedException])
          (simp_all add: s' leave_defs take_empty_def cancel_throw_def)
    next
      case stop_late
      then show ?thesis
        by (intro take_effectI(2) [where e = InterruptedException]) (simp_all add: s' leave_defs take_empty_def cancel_throw_def)
    next
      case get
      then show ?thesis
        using full sync_not_stopped [OF inv, of n]
        by (intro take_effectI(4) [where c = "origin (nodes s n)" and n = n])
          (simp_all add: s' leave_defs take_empty_def get_item_def)
    next
      case late
      then show ?thesis by (intro take_effectI(1)) (simp_all add: s' leave_defs take_empty_def get_item_def)
    qed
  qed (use go c in simp_all)
next
  case False
  then obtain r where go: "syn_wake blank t r s (pcs s t) = Some s'" and r: "r \<noteq> W_interrupted"
    using step by (auto simp: syn_step_def thread_event_def split: if_splits)
  have nd: "same_node (nodes s n) ((nodes s n)\<lparr>resting := False\<rparr>)" for n by (auto simp: same_node_def)
  show ?thesis
  proof (cases "pcs s t")
    case (Take_wait n)
    then show ?thesis
      using go take_leave_effect [OF inv nd disjI2 [OF refl] r, of t n blank] sync_not_stopped [OF inv, of n] by (simp add: Let_def)
  qed (use go c in simp_all)
qed

section \<open>The invariant\<close>

fun client_has :: "exec_pc \<Rightarrow> nat option" where
  "client_has (Run_test cmd) = cmd"
| "client_has (Run_offer x) = Some x"
| "client_has (Hand_test x) = Some x"
| "client_has (Hand_lock x) = Some x"
| "client_has _ = None"

fun worker_has :: "exec_pc \<Rightarrow> nat option" where
  "worker_has (W_start job) = job"
| "worker_has (W_loop cmd) = cmd"
| "worker_has (W_run x) = Some x"
| "worker_has _ = None"

fun not_offered :: "exec_pc \<Rightarrow> nat option" where
  "not_offered (Run_test cmd) = cmd"
| "not_offered (Run_offer x) = Some x"
| "not_offered _ = None"

fun closing :: "exec_pc \<Rightarrow> bool" where
  "closing Close_test = True"
| "closing Close_set = True"
| "closing Close_stop = True"
| "closing Close_lock = True"
| "closing Close_wait = True"
| "closing Close_terminate = True"
| "closing Close_join = True"
| "closing _ = False"

text \<open>A thread is inside the channel exactly while it offers or polls.\<close>

fun chan_pc_ok :: "nat option schan \<Rightarrow> nat option syn_pc \<Rightarrow> exec_pc \<Rightarrow> bool" where
  "chan_pc_ok ch p (Run_offering x) = (\<exists>c. call_of p = Some c \<and> offered ch c = Some x)"
| "chan_pc_ok ch p W_polling = taking p"
| "chan_pc_ok ch p _ = syn_idle p"

definition chan_ok :: "exec \<Rightarrow> bool" where
  "chan_ok s \<longleftrightarrow> syn_inv (taskChannel s) \<and> (\<forall>t. chan_pc_ok (taskChannel s) (pcs (taskChannel s) t) (tpc s t))"

definition pool_ok :: "exec \<Rightarrow> bool" where
  "pool_ok s \<longleftrightarrow> distinct (threads s) \<and> (\<forall>w. pool_thread (tpc s w) \<or> tpc s w = W_gone \<longleftrightarrow> w \<in> set (threads s)) \<and>
     thr_count s = length (filter (\<lambda>w. pool_thread (tpc s w)) (threads s))"

definition in_transit :: "nat option schan \<Rightarrow> nat \<Rightarrow> bool" where
  "in_transit ch c \<longleftrightarrow> c < calls ch \<and> (whereis ch c = Held \<or> (\<exists>n. whereis ch c = At n))"

definition offers_ok :: "exec \<Rightarrow> bool" where
  "offers_ok s \<longleftrightarrow>
     inj_on (offered (taskChannel s)) {..<calls (taskChannel s)} \<and>
     (\<forall>c < calls (taskChannel s). \<exists>x < nsub s. offered (taskChannel s) c = Some x) \<and>
     (\<forall>t x c. not_offered (tpc s t) = Some x \<longrightarrow> c < calls (taskChannel s) \<longrightarrow> offered (taskChannel s) c \<noteq> Some x)"

text \<open>A command that the executor has taken over: run, with a pool thread, or lost in a shutdown.\<close>

definition taken_over :: "exec \<Rightarrow> nat \<Rightarrow> bool" where
  "taken_over s x \<longleftrightarrow> sub s x = S_ran \<or> (\<exists>w. sub s x = S_worker w) \<or> sub s x = S_lost \<and> \<not> executorAvailable s"

definition places_ok :: "exec \<Rightarrow> bool" where
  "places_ok s \<longleftrightarrow>
     (\<forall>t x. client_has (tpc s t) = Some x \<longrightarrow> sub s x = S_client t) \<and>
     (\<forall>t x. worker_has (tpc s t) = Some x \<longleftrightarrow> sub s x = S_worker t) \<and>
     (\<forall>c x. sub s x = S_chan c \<longleftrightarrow> in_transit (taskChannel s) c \<and> offered (taskChannel s) c = Some x) \<and>
     (\<forall>c x. c < calls (taskChannel s) \<longrightarrow> whereis (taskChannel s) c = Gone \<longrightarrow> offered (taskChannel s) c = Some x \<longrightarrow> taken_over s x) \<and>
     (\<forall>t x w. tpc s t = Hand_start x w \<longrightarrow> taken_over s x) \<and>
     (\<forall>x. nsub s \<le> x \<longleftrightarrow> sub s x = S_none)"

definition results_ok :: "exec \<Rightarrow> bool" where
  "results_ok s \<longleftrightarrow> distinct (ran s) \<and> (\<forall>x. x \<in> set (ran s) \<longleftrightarrow> sub s x = S_ran) \<and>
     (\<forall>x \<in> set (done_ok s). taken_over s x \<or> (\<exists>c. sub s x = S_chan c \<and> c \<in> set (accepted (taskChannel s)))) \<and>
     (\<forall>x \<in> set (done_bad s). sub s x = S_lost \<or> halted (taskChannel s) \<and> sub s x \<noteq> S_none)"

definition closing_ok :: "exec \<Rightarrow> bool" where
  "closing_ok s \<longleftrightarrow>
     (halted (taskChannel s) \<longrightarrow> \<not> executorAvailable s) \<and> (\<forall>t. closing (tpc s t) \<longrightarrow> \<not> executorAvailable s) \<and>
     (joined s \<longrightarrow> \<not> executorAvailable s \<and> no_pool_threads s)"

definition exec_inv :: "exec \<Rightarrow> bool" where
  "exec_inv s \<longleftrightarrow> chan_ok s \<and> pool_ok s \<and> offers_ok s \<and> places_ok s \<and> results_ok s \<and> closing_ok s"

lemmas exec_parts = chan_ok_def pool_ok_def offers_ok_def places_ok_def results_ok_def closing_ok_def

lemma exec_invD:
  assumes "exec_inv s"
  shows "chan_ok s" "pool_ok s" "offers_ok s" "places_ok s" "results_ok s" "closing_ok s"
    "syn_inv (taskChannel s)" "chan_pc_ok (taskChannel s) (pcs (taskChannel s) t) (tpc s t)"
  using assms by (auto simp: exec_inv_def chan_ok_def)

lemma exec_inv_new: "exec_inv (TaskExecutor_new d e h)"
  using syn_inv_init [of "None :: nat option"]
  by (auto simp: exec_inv_def exec_parts TaskExecutor_new_def setHandoffTimeout_def setEvictTimeout_def setDecayTimeout_def
      syn_init_def in_transit_def no_pool_threads_def taken_over_def)

lemma poolD:
  assumes "pool_ok s"
  shows "distinct (threads s)" "w \<in> set (threads s) \<longleftrightarrow> pool_thread (tpc s w) \<or> tpc s w = W_gone"
    "thr_count s = length (filter (\<lambda>w. pool_thread (tpc s w)) (threads s))"
  using assms unfolding pool_ok_def by simp_all

lemma poolI:
  assumes "distinct (threads s)" "\<And>w. w \<in> set (threads s) \<longleftrightarrow> pool_thread (tpc s w) \<or> tpc s w = W_gone"
    "thr_count s = length (filter (\<lambda>w. pool_thread (tpc s w)) (threads s))"
  shows "pool_ok s"
  using assms unfolding pool_ok_def by simp

lemma chan_pc_quiet: "\<not> in_channel l \<Longrightarrow> chan_pc_ok ch p l = syn_idle p"
  by (cases l) auto

lemma not_offered_client: "not_offered l = Some x \<Longrightarrow> client_has l = Some x"
  by (cases l) auto

lemma offersD:
  assumes "offers_ok s"
  shows "inj_on (offered (taskChannel s)) {..<calls (taskChannel s)}"
    "c < calls (taskChannel s) \<Longrightarrow> \<exists>x < nsub s. offered (taskChannel s) c = Some x"
    "not_offered (tpc s t) = Some x \<Longrightarrow> c < calls (taskChannel s) \<Longrightarrow> offered (taskChannel s) c \<noteq> Some x"
  using assms unfolding offers_ok_def by blast+

lemma closing_keep:
  assumes "closing_ok s" "\<And>w. pool_thread (tpc s' w) = pool_thread (tpc s w)" "threads s' = threads s" "joined s' = joined s"
    "executorAvailable s' = executorAvailable s" "halted (taskChannel s') \<Longrightarrow> \<not> executorAvailable s"
    "\<And>w. closing (tpc s' w) \<Longrightarrow> closing (tpc s w) \<or> \<not> executorAvailable s"
  shows "closing_ok s'"
  using assms unfolding closing_ok_def no_pool_threads_def by (auto simp: list_all_iff)

lemma placesD:
  assumes "places_ok s"
  shows "client_has (tpc s t) = Some x \<Longrightarrow> sub s x = S_client t"
    "worker_has (tpc s t) = Some x \<longleftrightarrow> sub s x = S_worker t"
    "sub s x = S_chan c \<longleftrightarrow> in_transit (taskChannel s) c \<and> offered (taskChannel s) c = Some x"
    "c < calls (taskChannel s) \<Longrightarrow> whereis (taskChannel s) c = Gone \<Longrightarrow> offered (taskChannel s) c = Some x \<Longrightarrow> taken_over s x"
    "tpc s t = Hand_start x w \<Longrightarrow> taken_over s x"
    "nsub s \<le> x \<longleftrightarrow> sub s x = S_none"
  using assms unfolding places_ok_def by blast+

lemma placesI:
  assumes "\<And>t x. client_has (tpc s t) = Some x \<Longrightarrow> sub s x = S_client t"
    "\<And>t x. worker_has (tpc s t) = Some x \<longleftrightarrow> sub s x = S_worker t"
    "\<And>x c. sub s x = S_chan c \<longleftrightarrow> in_transit (taskChannel s) c \<and> offered (taskChannel s) c = Some x"
    "\<And>x c. c < calls (taskChannel s) \<Longrightarrow> whereis (taskChannel s) c = Gone \<Longrightarrow> offered (taskChannel s) c = Some x \<Longrightarrow> taken_over s x"
    "\<And>t x w. tpc s t = Hand_start x w \<Longrightarrow> taken_over s x"
    "\<And>x. nsub s \<le> x \<longleftrightarrow> sub s x = S_none"
  shows "places_ok s"
  using assms unfolding places_ok_def by simp

lemma resultsD:
  assumes "results_ok s"
  shows "distinct (ran s)" "x \<in> set (ran s) \<longleftrightarrow> sub s x = S_ran"
    "x \<in> set (done_ok s) \<Longrightarrow> taken_over s x \<or> (\<exists>c. sub s x = S_chan c \<and> c \<in> set (accepted (taskChannel s)))"
    "x \<in> set (done_bad s) \<Longrightarrow> sub s x = S_lost \<or> halted (taskChannel s) \<and> sub s x \<noteq> S_none"
  using assms unfolding results_ok_def by blast+

lemma resultsI:
  assumes "distinct (ran s)" "\<And>x. x \<in> set (ran s) \<longleftrightarrow> sub s x = S_ran"
    "\<And>x. x \<in> set (done_ok s) \<Longrightarrow> taken_over s x \<or> (\<exists>c. sub s x = S_chan c \<and> c \<in> set (accepted (taskChannel s)))"
    "\<And>x. x \<in> set (done_bad s) \<Longrightarrow> sub s x = S_lost \<or> halted (taskChannel s) \<and> sub s x \<noteq> S_none"
  shows "results_ok s"
  using assms unfolding results_ok_def by simp

text \<open>The executor becomes unavailable.\<close>

lemma exec_inv_unavailable:
  assumes "exec_inv s"
  shows "exec_inv (s\<lparr>executorAvailable := False\<rparr>)" (is "exec_inv ?s")
proof -
  have to: "taken_over s x \<Longrightarrow> taken_over ?s x" for x by (auto simp: taken_over_def)
  have "chan_ok ?s" "pool_ok ?s" "offers_ok ?s" "closing_ok ?s"
    using exec_invD(1,2,3,6) [OF assms] by (simp_all add: chan_ok_def pool_ok_def offers_ok_def closing_ok_def no_pool_threads_def)
  moreover have "places_ok ?s" using exec_invD(4) [OF assms] to unfolding places_ok_def by simp
  moreover have "results_ok ?s" using exec_invD(5) [OF assms] to unfolding results_ok_def by auto
  ultimately show ?thesis by (simp add: exec_inv_def)
qed

lemma isAvailable_inv:
  assumes "exec_inv s" "isAvailable s = (av, s')"
  shows "exec_inv s'" "tpc s' = tpc s" "sub s' = sub s" "av = executorAvailable s'" "taskChannel s' = taskChannel s"
    "executorAvailable s' \<Longrightarrow> executorAvailable s" "\<not> av \<Longrightarrow> \<not> executorAvailable s'"
  using assms exec_inv_unavailable [OF assms(1)] by (auto simp: isAvailable_def split: if_splits)

text \<open>A thread moves and keeps what it holds.\<close>

lemma exec_move:
  assumes inv: "exec_inv s"
    and l: "client_has l = client_has (tpc s t) \<or> client_has l = None" "worker_has l = worker_has (tpc s t)"
      "not_offered l = not_offered (tpc s t) \<or> not_offered l = None"
      "pool_thread l = pool_thread (tpc s t)" "l \<noteq> W_gone" "tpc s t \<noteq> W_gone" "\<not> in_channel l" "\<not> in_channel (tpc s t)"
      "\<And>x w. l \<noteq> Hand_start x w" "closing l \<Longrightarrow> \<not> executorAvailable s"
  shows "exec_inv (goto_pc t l s)" (is "exec_inv ?s")
proof -
  have to: "taken_over ?s x = taken_over s x" for x by (simp add: taken_over_def goto_pc_def)
  have "syn_idle (pcs (taskChannel s) t)"
    using exec_invD(8) [OF inv, of t] l(8) by (cases "tpc s t") auto
  then have "chan_pc_ok (taskChannel s) (pcs (taskChannel s) t) l" using l(7) by (cases l) auto
  then have 1: "chan_ok ?s" using exec_invD(1) [OF inv] by (simp add: chan_ok_def goto_pc_def)
  have p: "pool_thread (tpc ?s w) = pool_thread (tpc s w)" "tpc ?s w = W_gone \<longleftrightarrow> tpc s w = W_gone" for w
    using l(4-6) by (auto simp: goto_pc_def)
  have 2: "pool_ok ?s" using exec_invD(2) [OF inv] unfolding pool_ok_def p by (simp add: goto_pc_def)
  have 3: "offers_ok ?s"
    using exec_invD(3) [OF inv] l(3) unfolding offers_ok_def by (auto simp: goto_pc_def)
  note pl = placesD [OF exec_invD(4) [OF inv]]
  have 4: "places_ok ?s"
  proof (rule placesI)
    show "client_has (tpc ?s t') = Some x \<Longrightarrow> sub ?s x = S_client t'" for t' x
      using l(1) pl(1) [of t' x] by (auto simp: goto_pc_def split: if_splits)
    show "worker_has (tpc ?s t') = Some x \<longleftrightarrow> sub ?s x = S_worker t'" for t' x
      using l(2) pl(2) [of t' x] by (auto simp: goto_pc_def)
    show "tpc ?s t' = Hand_start x w \<Longrightarrow> taken_over ?s x" for t' x w
      using l(9) pl(5) [of t' x w] by (auto simp: to) (auto simp: goto_pc_def split: if_splits)
    show "c < calls (taskChannel ?s) \<Longrightarrow> whereis (taskChannel ?s) c = Gone \<Longrightarrow> offered (taskChannel ?s) c = Some x \<Longrightarrow> taken_over ?s x" for x c
      using pl(4) [of c x] unfolding to by (simp add: goto_pc_def)
  qed (use pl(3,6) in \<open>simp_all add: goto_pc_def\<close>)
  have 5: "results_ok ?s" using exec_invD(5) [OF inv] unfolding results_ok_def to by (simp add: goto_pc_def)
  have 6: "closing_ok ?s"
    using exec_invD(6) [OF inv] l(4,10) unfolding closing_ok_def
    by (auto simp: goto_pc_def no_pool_threads_def list_all_iff)
  show ?thesis using 1 2 3 4 5 6 by (simp add: exec_inv_def)
qed

text \<open>A command leaves the thread that holds it: given up by its client, or run or lost by its pool thread.\<close>

lemma has_one: "client_has l = Some x \<Longrightarrow> worker_has l = None"
  by (cases l) auto

lemma worker_in_pool: "\<not> pool_thread l \<Longrightarrow> worker_has l = None"
  by (cases l) auto

lemma exec_settle:
  assumes inv: "exec_inv s"
    and who: "client_has (tpc s t) = Some x \<and> p = S_lost \<or> worker_has (tpc s t) = Some x \<and> (p = S_ran \<or> p = S_lost \<and> \<not> executorAvailable s)"
    and l: "client_has l = None" "worker_has l = None" "not_offered l = None"
      "pool_thread l = pool_thread (tpc s t)" "l \<noteq> W_gone" "\<not> in_channel l" "\<And>x w. l \<noteq> Hand_start x w" "\<not> closing l"
    and bad: "bad = done_bad s \<or> bad = x # done_bad s \<and> p = S_lost"
  shows "exec_inv (goto_pc t l ((place_sub x p s)\<lparr>done_bad := bad, ran := (if p = S_ran then ran s @ [x] else ran s)\<rparr>))" (is "exec_inv ?s")
proof -
  note pl = placesD [OF exec_invD(4) [OF inv]] and re = resultsD [OF exec_invD(5) [OF inv]]
  have held: "sub s x = S_client t \<and> p = S_lost \<or> sub s x = S_worker t \<and> (p = S_ran \<or> p = S_lost \<and> \<not> executorAvailable s)"
    using who pl(1) [of t x] pl(2) [of t x] by auto
  have nch: "\<not> in_channel (tpc s t)" "tpc s t \<noteq> W_gone" using who by (cases "tpc s t"; auto)+
  have f: "tpc ?s = (tpc s)(t := l)" "sub ?s = (sub s)(x := p)" "taskChannel ?s = taskChannel s" "nsub ?s = nsub s"
    "executorAvailable ?s = executorAvailable s" "threads ?s = threads s" "thr_count ?s = thr_count s" "done_ok ?s = done_ok s" "joined ?s = joined s"
    by (simp_all add: goto_pc_def place_sub_def)
  have to: "taken_over s y \<Longrightarrow> taken_over ?s y" for y
    using held by (auto simp: taken_over_def f)
  have "syn_idle (pcs (taskChannel s) t)" using exec_invD(8) [OF inv, of t] nch by (cases "tpc s t") auto
  then have "chan_pc_ok (taskChannel s) (pcs (taskChannel s) t) l" using l(6) by (cases l) auto
  then have 1: "chan_ok ?s" using exec_invD(1) [OF inv] by (simp add: chan_ok_def f)
  have q: "pool_thread (tpc ?s w) = pool_thread (tpc s w)" "tpc ?s w = W_gone \<longleftrightarrow> tpc s w = W_gone" for w
    using l(4,5) nch by (auto simp: f)
  have 2: "pool_ok ?s" using exec_invD(2) [OF inv] unfolding pool_ok_def q f(6,7) .
  have 3: "offers_ok ?s" using exec_invD(3) [OF inv] l(3) unfolding offers_ok_def by (auto simp: f)
  have notin: "\<not> (in_transit (taskChannel s) c \<and> offered (taskChannel s) c = Some x)" for c
    using held pl(3) [of x c] by auto
  have 4: "places_ok ?s"
  proof (rule placesI)
    fix t' y assume "client_has (tpc ?s t') = Some y"
    then have "client_has (tpc s t') = Some y" "t' \<noteq> t" using l(1) by (auto simp: f split: if_splits)
    then show "sub ?s y = S_client t'" using pl(1) [of t' y] held by (auto simp: f)
  next
    fix t' y
    show "worker_has (tpc ?s t') = Some y \<longleftrightarrow> sub ?s y = S_worker t'"
      using l(2) held who has_one [of "tpc s t" x] pl(2) [of t' y] pl(2) [of t x] pl(1) [of t x] by (cases "t' = t"; cases "y = x") (auto simp: f)
  next
    fix y c
    show "sub ?s y = S_chan c \<longleftrightarrow> in_transit (taskChannel ?s) c \<and> offered (taskChannel ?s) c = Some y"
      using notin [of c] held pl(3) [of y c] by (auto simp: f)
  next
    fix y c assume "c < calls (taskChannel ?s)" "whereis (taskChannel ?s) c = Gone" "offered (taskChannel ?s) c = Some y"
    then show "taken_over ?s y" using pl(4) [of c y] to by (simp add: f)
  next
    fix t' y w assume "tpc ?s t' = Hand_start y w"
    then have "tpc s t' = Hand_start y w" using l(7) by (auto simp: f split: if_splits)
    then show "taken_over ?s y" using pl(5) [of t' y w] to by simp
  next
    fix y
    show "nsub ?s \<le> y \<longleftrightarrow> sub ?s y = S_none" using pl(6) [of y] held by (auto simp: f)
  qed
  have r: "ran ?s = (if p = S_ran then ran s @ [x] else ran s)" "done_bad ?s = bad" by (simp_all add: goto_pc_def place_sub_def)
  have nr: "x \<notin> set (ran s)" using re(2) [of x] held by auto
  have 5: "results_ok ?s"
  proof (rule resultsI)
    show "distinct (ran ?s)" using re(1) nr by (simp add: r)
    show "y \<in> set (ran ?s) \<longleftrightarrow> sub ?s y = S_ran" for y using re(2) [of y] held nr by (auto simp: r f)
    show "taken_over ?s y \<or> (\<exists>c. sub ?s y = S_chan c \<and> c \<in> set (accepted (taskChannel ?s)))" if "y \<in> set (done_ok ?s)" for y
    proof -
      have "taken_over s y \<or> (\<exists>c. sub s y = S_chan c \<and> c \<in> set (accepted (taskChannel s)))" using re(3) [of y] that by (simp add: f)
      then show ?thesis using to [of y] held by (auto simp: f)
    qed
    show "sub ?s y = S_lost \<or> halted (taskChannel ?s) \<and> sub ?s y \<noteq> S_none"
      if "y \<in> set (done_bad ?s)" for y
      using re(4) [of y] that held bad by (auto simp: f r)
  qed
  have 6: "closing_ok ?s"
    using exec_invD(6) [OF inv] l(8) unfolding closing_ok_def no_pool_threads_def q f(3,5,6,9) by (auto simp: f)
  show ?thesis using 1 2 3 4 5 6 by (simp add: exec_inv_def)
qed

lemma client_gives_up:
  assumes "exec_inv s" "client_has (tpc s t) = Some x"
  shows "exec_inv (exec_bad t x (place_sub x S_lost s))"
proof -
  have "\<not> pool_thread (tpc s t)" using assms(2) by (cases "tpc s t") auto
  then have "exec_inv (goto_pc t (X_return (- 1)) ((place_sub x S_lost s)\<lparr>done_bad := x # done_bad s, ran := (if S_lost = S_ran then ran s @ [x] else ran s)\<rparr>))"
    using assms by (intro exec_settle) auto
  then show ?thesis by (simp add: exec_bad_def goto_pc_def place_sub_def)
qed

lemma worker_loses:
  assumes "exec_inv s" "tpc s t = W_loop (Some x)" "\<not> executorAvailable s"
  shows "exec_inv (goto_pc t W_exit (place_sub x S_lost s))"
proof -
  have "exec_inv (goto_pc t W_exit ((place_sub x S_lost s)\<lparr>done_bad := done_bad s, ran := (if S_lost = S_ran then ran s @ [x] else ran s)\<rparr>))"
    using assms by (intro exec_settle) auto
  then show ?thesis by (simp add: goto_pc_def place_sub_def)
qed

lemma worker_runs:
  assumes "exec_inv s" "tpc s t = W_run x" "l = W_exit \<or> l = W_loop None"
  shows "exec_inv (goto_pc t l (place_sub x S_ran (s\<lparr>ran := ran s @ [x]\<rparr>)))"
proof -
  have "exec_inv (goto_pc t l ((place_sub x S_ran s)\<lparr>done_bad := done_bad s, ran := (if S_ran = S_ran then ran s @ [x] else ran s)\<rparr>))"
    using assms by (intro exec_settle) auto
  moreover have "(place_sub x S_ran s)\<lparr>done_bad := done_bad s, ran := ran s @ [x]\<rparr> = place_sub x S_ran (s\<lparr>ran := ran s @ [x]\<rparr>)"
    by (rule exec.equality) (simp_all add: place_sub_def)
  ultimately show ?thesis by simp
qed

text \<open>\<open>execute(command)\<close> returns 0 after the new thread has started.\<close>

lemma hand_returns:
  assumes inv: "exec_inv s" and pc: "tpc s t = Hand_start x w"
  shows "exec_inv (exec_ok t x s)"
proof -
  have 1: "exec_inv (goto_pc t (X_return 0) s)" (is "exec_inv ?g") using pc by (intro exec_move [OF inv]) simp_all
  have to: "taken_over s x" using placesD(5) [OF exec_invD(4) [OF inv] pc] .
  have e: "exec_ok t x s = ?g\<lparr>done_ok := x # done_ok s\<rparr>" by (rule exec.equality) (simp_all add: exec_ok_def goto_pc_def)
  have "results_ok (exec_ok t x s)"
    unfolding e by (rule resultsI) (use resultsD [OF exec_invD(5) [OF 1]] to in \<open>auto simp: taken_over_def goto_pc_def\<close>)
  moreover have "chan_ok (exec_ok t x s)" "pool_ok (exec_ok t x s)" "offers_ok (exec_ok t x s)" "places_ok (exec_ok t x s)" "closing_ok (exec_ok t x s)"
    using exec_invD(1,2,3,4,6) [OF 1] unfolding e
    by (simp_all add: chan_ok_def pool_ok_def offers_ok_def places_ok_def closing_ok_def no_pool_threads_def taken_over_def)
  ultimately show ?thesis by (simp add: exec_inv_def)
qed

text \<open>New threads: \<open>job\<close> is the command handed to the thread, held by its client \<open>t\<close> until then.\<close>

lemma exec_spawn:
  assumes inv: "exec_inv s" and av: "executorAvailable s" and can: "can_spawn t (length ws) ws s"
    and job: "job = None \<and> s1 = s \<and> worker_has l = None \<or>
      (\<exists>x w. job = Some x \<and> client_has (tpc s t) = Some x \<and> ws = [w] \<and> s1 = place_sub x (S_worker w) s \<and> l = Hand_start x w)"
    and l: "\<not> pool_thread (tpc s t)" "tpc s t \<noteq> W_gone" "\<not> in_channel (tpc s t)" "\<not> pool_thread l" "l \<noteq> W_gone" "\<not> in_channel l" "\<not> closing l"
      "client_has l = None" "job = None \<Longrightarrow> client_has (tpc s t) = None" "\<And>x w. job = None \<Longrightarrow> l \<noteq> Hand_start x w"
  shows "exec_inv (goto_pc t l (spawn ws job s1))" (is "exec_inv ?s")
proof -
  note pl = placesD [OF exec_invD(4) [OF inv]] and re = resultsD [OF exec_invD(5) [OF inv]] and po = poolD [OF exec_invD(2) [OF inv]]
  have ws: "distinct ws" "t \<notin> set ws" "\<And>w. w \<in> set ws \<Longrightarrow> tpc s w = X_idle" using can by (auto simp: can_spawn_def list_all_iff)
  have f: "tpc ?s w = (if w = t then l else if w \<in> set ws then W_start job else tpc s w)"
    "sub ?s = sub s1" "taskChannel ?s = taskChannel s" "nsub ?s = nsub s" "executorAvailable ?s = executorAvailable s"
    "threads ?s = threads s @ ws" "thr_count ?s = thr_count s + length ws" "done_ok ?s = done_ok s" "done_bad ?s = done_bad s"
    "joined ?s = joined s" "ran ?s = ran s" for w
    using job by (auto simp: goto_pc_def spawn_def place_sub_def)
  have su: "sub s1 y = (if \<exists>x. job = Some x \<and> y = x then S_worker (hd ws) else sub s y)" for y
    using job by (auto simp: place_sub_def split: if_splits)
  have client: "sub s y = S_client t" if "job = Some y" for y using that job pl(1) [of t y] by auto
  have to: "taken_over s y \<Longrightarrow> taken_over ?s y" for y by (auto simp: taken_over_def f su)
  have idle: "syn_idle (pcs (taskChannel s) w)" if "w = t \<or> w \<in> set ws" for w
    using exec_invD(8) [OF inv, of w] that l(3) ws(3) [of w] chan_pc_quiet [of "tpc s t"] by auto
  have "chan_pc_ok (taskChannel s) (pcs (taskChannel s) w) (tpc ?s w)" for w
    using exec_invD(8) [OF inv, of w] idle [of w] chan_pc_quiet [OF l(6)] by (cases "w = t") (auto simp: f)
  then have 1: "chan_ok ?s" using exec_invD(1) [OF inv] by (simp add: chan_ok_def f)
  have notin: "w \<notin> set (threads s)" if "w \<in> set ws \<or> w = t" for w
    using that ws(3) [of w] po(2) [of w] l(1,2) by auto
  have same: "filter (\<lambda>w. pool_thread (tpc ?s w)) (threads s) = filter (\<lambda>w. pool_thread (tpc s w)) (threads s)"
    by (rule filter_cong) (use notin in \<open>auto simp: f\<close>)
  have new: "filter (\<lambda>w. pool_thread (tpc ?s w)) ws = ws" using ws(2) by (auto simp: filter_id_conv f)
  have 2: "pool_ok ?s"
  proof (rule poolI)
    show "distinct (threads ?s)" using po(1) ws(1) notin by (auto simp: f)
    show "w \<in> set (threads ?s) \<longleftrightarrow> pool_thread (tpc ?s w) \<or> tpc ?s w = W_gone" for w
      using po(2) [of w] l(4,5) notin [of w] ws(2) by (auto simp: f)
    show "thr_count ?s = length (filter (\<lambda>w. pool_thread (tpc ?s w)) (threads ?s))" using po(3) by (simp add: f(6,7) same new)
  qed
  have 3: "offers_ok ?s"
  proof -
    have "not_offered (tpc ?s w) = Some y \<Longrightarrow> not_offered (tpc s w) = Some y" for w y using not_offered_client [of l y] l(8) by (auto simp: f split: if_splits)
    then show ?thesis using exec_invD(3) [OF inv] unfolding offers_ok_def f(3,4) by blast
  qed
  have 4: "places_ok ?s"
  proof (rule placesI)
    fix t' y assume "client_has (tpc ?s t') = Some y"
    then have "client_has (tpc s t') = Some y" "t' \<noteq> t" using l(8) by (auto simp: f split: if_splits)
    then show "sub ?s y = S_client t'" using pl(1) [of t' y] client [of y] by (auto simp: f su)
  next
    fix t' y
    have tw: "worker_has (tpc s t) = None" "worker_has l = None" using l(1,4) worker_in_pool by blast+
    show "worker_has (tpc ?s t') = Some y \<longleftrightarrow> sub ?s y = S_worker t'"
      using pl(2) [of t' y] tw job client [of y] ws(2) ws(3) [of t'] by (auto simp: f su)
  next
    fix y c
    show "sub ?s y = S_chan c \<longleftrightarrow> in_transit (taskChannel ?s) c \<and> offered (taskChannel ?s) c = Some y"
      using pl(3) [of y c] client [of y] by (auto simp: f su)
  next
    fix y c assume "c < calls (taskChannel ?s)" "whereis (taskChannel ?s) c = Gone" "offered (taskChannel ?s) c = Some y"
    then show "taken_over ?s y" using pl(4) [of c y] to by (simp add: f)
  next
    fix t' y w assume a: "tpc ?s t' = Hand_start y w"
    show "taken_over ?s y"
    proof (cases "t' = t")
      case True
      then have "job = Some y" using a job l(10) by (auto simp: f)
      then show ?thesis unfolding taken_over_def f su by simp
    next
      case False
      then show ?thesis using a pl(5) [of t' y w] to by (auto simp: f split: if_splits)
    qed
  next
    fix y
    show "nsub ?s \<le> y \<longleftrightarrow> sub ?s y = S_none" using pl(6) [of y] client [of y] by (auto simp: f su)
  qed
  have 5: "results_ok ?s"
  proof (rule resultsI)
    show "distinct (ran ?s)" using re(1) by (simp add: f)
    show "y \<in> set (ran ?s) \<longleftrightarrow> sub ?s y = S_ran" for y using re(2) [of y] client [of y] by (auto simp: f su)
    show "taken_over ?s y \<or> (\<exists>c. sub ?s y = S_chan c \<and> c \<in> set (accepted (taskChannel ?s)))" if "y \<in> set (done_ok ?s)" for y
    proof -
      have "taken_over s y \<or> (\<exists>c. sub s y = S_chan c \<and> c \<in> set (accepted (taskChannel s)))" using re(3) [of y] that by (simp add: f)
      then show ?thesis using to [of y] client [of y] by (auto simp: f su)
    qed
    show "sub ?s y = S_lost \<or> halted (taskChannel ?s) \<and> sub ?s y \<noteq> S_none"
      if "y \<in> set (done_bad ?s)" for y
      using re(4) [of y] that client [of y] by (auto simp: f su)
  qed
  have 6: "closing_ok ?s" using exec_invD(6) [OF inv] av l(7) by (auto simp: closing_ok_def f)
  show ?thesis using 1 2 3 4 5 6 by (simp add: exec_inv_def)
qed

text \<open>A pool thread leaves: \<open>threadCleanup\<close>.\<close>

lemma exec_leave:
  assumes inv: "exec_inv s" and pc: "tpc s t = W_exit"
  shows "exec_inv (goto_pc t W_gone (s\<lparr>thr_count := thr_count s - 1\<rparr>))"
proof -
  define s' where "s' = goto_pc t W_gone (s\<lparr>thr_count := thr_count s - 1\<rparr>)"
  have f: "tpc s' = (tpc s)(t := W_gone)" "sub s' = sub s" "taskChannel s' = taskChannel s" "nsub s' = nsub s"
    "executorAvailable s' = executorAvailable s" "threads s' = threads s" "thr_count s' = thr_count s - 1" "done_ok s' = done_ok s"
    "done_bad s' = done_bad s" "joined s' = joined s" "ran s' = ran s"
    by (simp_all add: s'_def goto_pc_def)
  note pl = placesD [OF exec_invD(4) [OF inv]] and po = poolD [OF exec_invD(2) [OF inv]]
  have to: "taken_over s' x = taken_over s x" for x by (simp add: taken_over_def f)
  have t: "t \<in> set (threads s)" "distinct (threads s)" using po(1) po(2) [of t] pc by auto
  have 1: "chan_ok s'" using exec_invD(1) [OF inv] exec_invD(8) [OF inv, of t] pc by (auto simp: chan_ok_def f)
  have "length (filter (\<lambda>w. pool_thread (tpc s w)) (threads s)) = Suc (length (filter (\<lambda>w. pool_thread (((tpc s)(t := W_gone)) w)) (threads s)))"
  proof -
    have "filter (\<lambda>w. pool_thread (((tpc s)(t := W_gone)) w)) (threads s) = remove1 t (filter (\<lambda>w. pool_thread (tpc s w)) (threads s))"
      using t(2) by (simp add: distinct_remove1_removeAll removeAll_filter_not_eq conj_commute) (rule filter_cong, auto)
    moreover have "t \<in> set (filter (\<lambda>w. pool_thread (tpc s w)) (threads s))" using t(1) pc by simp
    ultimately show ?thesis using remove1_length_less [of t] by metis
  qed
  then have 2: "pool_ok s'" using po(1) po(2) po(3) t(1) by (intro poolI) (auto simp: f)
  have 3: "offers_ok s'" using exec_invD(3) [OF inv] unfolding offers_ok_def by (auto simp: f)
  have 4: "places_ok s'"
  proof (rule placesI)
    show "client_has (tpc s' t') = Some x \<Longrightarrow> sub s' x = S_client t'" for t' x using pl(1) [of t' x] by (auto simp: f split: if_splits)
    show "worker_has (tpc s' t') = Some x \<longleftrightarrow> sub s' x = S_worker t'" for t' x using pl(2) [of t' x] pc by (auto simp: f)
    show "tpc s' t' = Hand_start x w \<Longrightarrow> taken_over s' x" for t' x w using pl(5) [of t' x w] by (auto simp: to f split: if_splits)
    show "c < calls (taskChannel s') \<Longrightarrow> whereis (taskChannel s') c = Gone \<Longrightarrow> offered (taskChannel s') c = Some x \<Longrightarrow> taken_over s' x" for x c
      using pl(4) [of c x] unfolding to f .
  qed (use pl(3,6) in \<open>simp_all add: f\<close>)
  have 5: "results_ok s'" using exec_invD(5) [OF inv] unfolding results_ok_def to f .
  have 6: "closing_ok s'" using exec_invD(6) [OF inv] by (auto simp: closing_ok_def no_pool_threads_def list_all_iff f)
  show ?thesis using 1 2 3 4 5 6 unfolding exec_inv_def s'_def [symmetric] by blast
qed

section \<open>Steps that involve the channel\<close>

text \<open>Start of \<open>offer\<close> and of \<open>poll\<close>, and \<open>interrupt\<close>.\<close>

lemma exec_offer:
  assumes inv: "exec_inv s" and pc: "tpc s t = Run_offer x" and step: "syn_step None (taskChannel s) (Put t (Some x)) = Some c'"
  shows "exec_inv (goto_pc t (Run_offering x) (place_sub x (S_chan (calls (taskChannel s))) (s\<lparr>taskChannel := c'\<rparr>)))"
proof -
  define s' where "s' = goto_pc t (Run_offering x) (place_sub x (S_chan (calls (taskChannel s))) (s\<lparr>taskChannel := c'\<rparr>))"
  let ?n = "calls (taskChannel s)"
  note pl = placesD [OF exec_invD(4) [OF inv]] and re = resultsD [OF exec_invD(5) [OF inv]] and po = poolD [OF exec_invD(2) [OF inv]]
  have c': "pcs c' = (pcs (taskChannel s))(t := Put_test ?n (Some x))" "calls c' = Suc ?n" "offered c' = (offered (taskChannel s))(?n := Some x)"
    "whereis c' = (whereis (taskChannel s))(?n := Held)" "accepted c' = accepted (taskChannel s)" "halted c' = halted (taskChannel s)"
    using step by (auto simp: syn_step_def set_pc_def split: if_splits)
  have f: "tpc s' = (tpc s)(t := Run_offering x)" "sub s' = (sub s)(x := S_chan ?n)" "taskChannel s' = c'" "nsub s' = nsub s"
    "executorAvailable s' = executorAvailable s" "threads s' = threads s" "thr_count s' = thr_count s" "done_ok s' = done_ok s"
    "done_bad s' = done_bad s" "joined s' = joined s" "ran s' = ran s"
    by (simp_all add: s'_def goto_pc_def place_sub_def)
  have x: "sub s x = S_client t" using pl(1) [of t x] pc by simp
  have to: "taken_over s y \<Longrightarrow> taken_over s' y" for y using x by (auto simp: taken_over_def f)
  have fate: "whereis (taskChannel s) ?n = Unborn"
    using historyD(2) [OF syn_invD(5) [OF exec_invD(7) [OF inv]], of ?n] by (simp add: fate_ok_def)
  have off: "in_transit c' c \<longleftrightarrow> c = ?n \<or> in_transit (taskChannel s) c" for c by (auto simp: in_transit_def c')
  have ltn: "\<not> in_transit (taskChannel s) ?n" by (simp add: in_transit_def)
  have "syn_inv c'" using syn_step_inv [OF exec_invD(7) [OF inv] step] .
  moreover have "chan_pc_ok c' (pcs c' t') (tpc s' t')" for t'
  proof (cases "t' = t")
    case False
    have call: "call_of (pcs (taskChannel s) t') = Some c \<Longrightarrow> c < ?n" for c using exclD(4) [OF syn_invD(2) [OF exec_invD(7) [OF inv]]] by blast
    show ?thesis
    proof (cases "tpc s t'")
      case (Run_offering y)
      then obtain c where "call_of (pcs (taskChannel s) t') = Some c" "offered (taskChannel s) c = Some y"
        using exec_invD(8) [OF inv, of t'] by auto
      then show ?thesis using False Run_offering call by (auto simp: c' f)
    qed (use False exec_invD(8) [OF inv, of t'] in \<open>auto simp: c' f\<close>)
  qed (simp add: c' f)
  ultimately have 1: "chan_ok s'" by (simp add: chan_ok_def f)
  have p: "pool_thread (tpc s' w) = pool_thread (tpc s w)" "tpc s' w = W_gone \<longleftrightarrow> tpc s w = W_gone" for w
    using pc by (auto simp: f)
  have 2: "pool_ok s'" using exec_invD(2) [OF inv] unfolding pool_ok_def p f(6,7) .
  note offs = offersD [OF exec_invD(3) [OF inv]]
  have fresh: "offered (taskChannel s) c \<noteq> Some x" if "c < ?n" for c using offs(3) [of t x c] pc that by simp
  have xs: "x < nsub s" using pl(6) [of x] x by simp
  have 3: "offers_ok s'"
    unfolding offers_ok_def f c'
  proof (intro conjI allI impI)
    show "inj_on ((offered (taskChannel s))(?n := Some x)) {..<Suc ?n}"
    proof (rule inj_onI)
      fix a b assume "a \<in> {..<Suc ?n}" "b \<in> {..<Suc ?n}"
        "((offered (taskChannel s))(?n := Some x)) a = ((offered (taskChannel s))(?n := Some x)) b"
      then show "a = b"
        using fresh inj_onD [OF offs(1), of a b] by (metis fun_upd_apply lessThan_iff less_Suc_eq)
    qed
    show "\<exists>y<nsub s. ((offered (taskChannel s))(?n := Some x)) c = Some y" if "c < Suc ?n" for c
      using offs(2) [of c] that xs by (auto simp: less_Suc_eq)
    show "((offered (taskChannel s))(?n := Some x)) c \<noteq> Some y"
      if "not_offered (((tpc s)(t := Run_offering x)) t') = Some y" "c < Suc ?n" for t' y c
    proof -
      have n: "not_offered (tpc s t') = Some y" "t' \<noteq> t" using that(1) by (auto split: if_splits)
      then have "y \<noteq> x" using pl(1) [of t' y] not_offered_client [OF n(1)] x by auto
      then show ?thesis using offs(3) [OF n(1), of c] that(2) by (auto simp: less_Suc_eq)
    qed
  qed
  have 4: "places_ok s'"
  proof (rule placesI)
    fix t' y assume "client_has (tpc s' t') = Some y"
    then have "client_has (tpc s t') = Some y" "t' \<noteq> t" by (auto simp: f split: if_splits)
    then show "sub s' y = S_client t'" using pl(1) [of t' y] x by (auto simp: f)
  next
    fix t' y show "worker_has (tpc s' t') = Some y \<longleftrightarrow> sub s' y = S_worker t'" using pl(2) [of t' y] x pc by (auto simp: f)
  next
    fix y c show "sub s' y = S_chan c \<longleftrightarrow> in_transit (taskChannel s') c \<and> offered (taskChannel s') c = Some y"
      using pl(3) [of y c] pl(3) [of x c] x ltn by (auto simp: f off c')
  next
    fix y c assume "c < calls (taskChannel s')" "whereis (taskChannel s') c = Gone" "offered (taskChannel s') c = Some y"
    then show "taken_over s' y" using pl(4) [of c y] to by (auto simp: f c' split: if_splits)
  next
    fix t' y w assume "tpc s' t' = Hand_start y w"
    then show "taken_over s' y" using pl(5) [of t' y w] to by (auto simp: f split: if_splits)
  next
    fix y show "nsub s' \<le> y \<longleftrightarrow> sub s' y = S_none" using pl(6) [of y] x by (auto simp: f)
  qed
  have 5: "results_ok s'"
  proof (rule resultsI)
    show "distinct (ran s')" using re(1) by (simp add: f)
    show "y \<in> set (ran s') \<longleftrightarrow> sub s' y = S_ran" for y using re(2) [of y] x by (auto simp: f)
    show "taken_over s' y \<or> (\<exists>c. sub s' y = S_chan c \<and> c \<in> set (accepted (taskChannel s')))" if "y \<in> set (done_ok s')" for y
    proof -
      have "taken_over s y \<or> (\<exists>c. sub s y = S_chan c \<and> c \<in> set (accepted (taskChannel s)))" using re(3) [of y] that by (simp add: f)
      then show ?thesis using to [of y] x by (auto simp: f c')
    qed
    show "sub s' y = S_lost \<or> halted (taskChannel s') \<and> sub s' y \<noteq> S_none"
      if "y \<in> set (done_bad s')" for y
      using re(4) [of y] that x by (auto simp: f c')
  qed
  have 6: "closing_ok s'"
    by (rule closing_keep [OF exec_invD(6) [OF inv] p(1)])
      (use exec_invD(6) [OF inv] in \<open>auto simp: f c' closing_ok_def split: if_splits\<close>)
  show ?thesis using 1 2 3 4 5 6 unfolding exec_inv_def s'_def [symmetric] by blast
qed

text \<open>The channel changes, but no value moves.\<close>

lemma exec_chan_same:
  assumes inv: "exec_inv s"
    and c': "syn_inv c'" "\<And>t'. t' \<noteq> t \<Longrightarrow> pcs c' t' = pcs (taskChannel s) t'" "chan_pc_ok c' (pcs c' t) l"
      "calls c' = calls (taskChannel s)" "offered c' = offered (taskChannel s)" "whereis c' = whereis (taskChannel s)"
      "accepted c' = accepted (taskChannel s)" "halted (taskChannel s) \<Longrightarrow> halted c'" "halted c' \<Longrightarrow> \<not> executorAvailable s"
    and l: "client_has l = None" "client_has (tpc s t) = None" "worker_has l = None" "worker_has (tpc s t) = None"
      "pool_thread l = pool_thread (tpc s t)" "l \<noteq> W_gone" "tpc s t \<noteq> W_gone" "\<And>x w. l \<noteq> Hand_start x w" "closing l \<Longrightarrow> \<not> executorAvailable s"
  shows "exec_inv (goto_pc t l (s\<lparr>taskChannel := c'\<rparr>))"
proof -
  define s' where "s' = goto_pc t l (s\<lparr>taskChannel := c'\<rparr>)"
  note pl = placesD [OF exec_invD(4) [OF inv]] and re = resultsD [OF exec_invD(5) [OF inv]] and po = poolD [OF exec_invD(2) [OF inv]]
    and offs = offersD [OF exec_invD(3) [OF inv]]
  have f: "tpc s' = (tpc s)(t := l)" "sub s' = sub s" "taskChannel s' = c'" "nsub s' = nsub s"
    "executorAvailable s' = executorAvailable s" "threads s' = threads s" "thr_count s' = thr_count s" "done_ok s' = done_ok s"
    "done_bad s' = done_bad s" "joined s' = joined s" "ran s' = ran s"
    by (simp_all add: s'_def goto_pc_def)
  have to: "taken_over s' y = taken_over s y" for y by (simp add: taken_over_def f)
  have tr: "in_transit c' c = in_transit (taskChannel s) c" for c by (simp add: in_transit_def c'(4,6))
  have "chan_pc_ok c' (pcs c' t') (tpc s' t')" for t'
  proof (cases "t' = t")
    case False
    have "chan_pc_ok c' p l' = chan_pc_ok (taskChannel s) p l'" for p l' by (cases l') (auto simp: c'(5))
    then show ?thesis using False exec_invD(8) [OF inv, of t'] c'(2) [OF False] by (simp add: f)
  qed (use c'(3) in \<open>simp add: f\<close>)
  then have 1: "chan_ok s'" using c'(1) by (simp add: chan_ok_def f)
  have p: "pool_thread (tpc s' w) = pool_thread (tpc s w)" "tpc s' w = W_gone \<longleftrightarrow> tpc s w = W_gone" for w
    using l by (auto simp: f)
  have 2: "pool_ok s'" using exec_invD(2) [OF inv] unfolding pool_ok_def p f(6,7) .
  have no: "not_offered (tpc s' t') = Some y \<Longrightarrow> not_offered (tpc s t') = Some y" for t' y
    using not_offered_client [of l y] l(1) by (auto simp: f split: if_splits)
  have 3: "offers_ok s'" using offs no unfolding offers_ok_def f(3,4) c' by blast
  have 4: "places_ok s'"
  proof (rule placesI)
    show "client_has (tpc s' t') = Some x \<Longrightarrow> sub s' x = S_client t'" for t' x
      using l(1) pl(1) [of t' x] by (auto simp: f split: if_splits)
    show "worker_has (tpc s' t') = Some x \<longleftrightarrow> sub s' x = S_worker t'" for t' x
      using l(3,4) pl(2) [of t' x] by (auto simp: f)
    show "tpc s' t' = Hand_start x w \<Longrightarrow> taken_over s' x" for t' x w
      using l(8) pl(5) [of t' x w] by (auto simp: to f split: if_splits)
    show "c < calls (taskChannel s') \<Longrightarrow> whereis (taskChannel s') c = Gone \<Longrightarrow> offered (taskChannel s') c = Some x \<Longrightarrow> taken_over s' x" for x c
      using pl(4) [of c x] unfolding to f c' .
  qed (use pl(3,6) in \<open>simp_all add: f tr c'\<close>)
  have 5: "results_ok s'"
    by (rule resultsI) (use re c'(8) in \<open>auto simp: f to c'(7)\<close>)
  have 6: "closing_ok s'"
    by (rule closing_keep [OF exec_invD(6) [OF inv] p(1)]) (use l(9) c'(9) in \<open>auto simp: f split: if_splits\<close>)
  show ?thesis using 1 2 3 4 5 6 unfolding exec_inv_def s'_def [symmetric] by blast
qed

text \<open>The value of one call moves: to the client, to a pool thread, or away.\<close>

lemma exec_chan_value:
  assumes inv: "exec_inv s"
    and c': "syn_inv c'" "\<And>t'. t' \<noteq> t \<Longrightarrow> pcs c' t' = pcs (taskChannel s) t'" "chan_pc_ok c' (pcs c' t) l"
      "calls c' = calls (taskChannel s)" "offered c' = offered (taskChannel s)"
      "\<And>d. d \<noteq> c \<Longrightarrow> whereis c' d = whereis (taskChannel s) d"
      "set (accepted (taskChannel s)) \<subseteq> set (accepted c')" "halted c' = halted (taskChannel s)"
    and c: "c < calls (taskChannel s)" "offered (taskChannel s) c = Some x"
    and p: "in_transit c' c \<Longrightarrow> in_transit (taskChannel s) c \<and> p = S_chan c"
      "\<not> in_transit c' c \<Longrightarrow> in_transit (taskChannel s) c \<Longrightarrow>
         p = S_lost \<or> p = S_client t \<or> p = S_worker t"
      "\<not> in_transit (taskChannel s) c \<Longrightarrow> p = sub s x"
      "whereis c' c = Gone \<Longrightarrow> whereis (taskChannel s) c = Gone \<or> p = S_worker t"
    and l: "client_has (tpc s t) = None" "worker_has (tpc s t) = None" "in_channel (tpc s t)"
      "client_has l = (if in_transit (taskChannel s) c \<and> p = S_client t then Some x else None)"
      "worker_has l = (if in_transit (taskChannel s) c \<and> p = S_worker t then Some x else None)"
      "not_offered l = None" "pool_thread l = pool_thread (tpc s t)" "l \<noteq> W_gone" "\<And>x w. l \<noteq> Hand_start x w" "\<not> closing l"
    and ok: "\<And>y. y \<in> set ok \<Longrightarrow> y \<in> set (done_ok s) \<or> y = x"
      "x \<in> set ok \<Longrightarrow> in_transit (taskChannel s) c \<Longrightarrow> p = S_lost \<Longrightarrow> \<not> executorAvailable s"
      "x \<in> set ok \<Longrightarrow> in_transit (taskChannel s) c \<Longrightarrow> p \<noteq> S_client t"
      "x \<in> set ok \<Longrightarrow> in_transit c' c \<Longrightarrow> c \<in> set (accepted c')"
      "x \<in> set ok \<Longrightarrow> x \<notin> set (done_ok s) \<Longrightarrow> \<not> in_transit (taskChannel s) c \<Longrightarrow> whereis (taskChannel s) c = Gone"
    and bad: "\<And>y. y \<in> set bad \<Longrightarrow> y \<in> set (done_bad s) \<or> y = x \<and> (p = S_lost \<or> halted c')"
  shows "exec_inv (s\<lparr>taskChannel := c', sub := (sub s)(x := p), tpc := (tpc s)(t := l), done_ok := ok, done_bad := bad\<rparr>)"
proof -
  define s' where "s' = s\<lparr>taskChannel := c', sub := (sub s)(x := p), tpc := (tpc s)(t := l), done_ok := ok, done_bad := bad\<rparr>"
  note pl = placesD [OF exec_invD(4) [OF inv]] and re = resultsD [OF exec_invD(5) [OF inv]] and offs = offersD [OF exec_invD(3) [OF inv]]
  have f: "tpc s' = (tpc s)(t := l)" "sub s' = (sub s)(x := p)" "taskChannel s' = c'" "nsub s' = nsub s"
    "executorAvailable s' = executorAvailable s" "threads s' = threads s" "thr_count s' = thr_count s" "done_ok s' = ok"
    "done_bad s' = bad" "joined s' = joined s" "ran s' = ran s"
    by (simp_all add: s'_def)
  have sx: "in_transit (taskChannel s) c \<Longrightarrow> sub s x = S_chan c" using pl(3) [of x c] c by simp
  have only: "offered (taskChannel s) d = Some x \<Longrightarrow> d < calls (taskChannel s) \<Longrightarrow> d = c" for d
    using inj_onD [OF offs(1), of d c] c by simp
  have tr: "d \<noteq> c \<Longrightarrow> in_transit c' d = in_transit (taskChannel s) d" for d by (simp add: in_transit_def c'(4,6))
  have to: "taken_over s' y" if "taken_over s y" for y
    using that p(3) sx by (cases "y = x"; cases "in_transit (taskChannel s) c") (auto simp: taken_over_def f)
  have "chan_pc_ok c' (pcs c' t') (tpc s' t')" for t'
  proof (cases "t' = t")
    case False
    have "chan_pc_ok c' q l' = chan_pc_ok (taskChannel s) q l'" for q l' by (cases l') (auto simp: c'(5))
    then show ?thesis using False exec_invD(8) [OF inv, of t'] c'(2) [OF False] by (simp add: f)
  qed (use c'(3) in \<open>simp add: f\<close>)
  then have 1: "chan_ok s'" using c'(1) by (simp add: chan_ok_def f)
  have ng: "tpc s t \<noteq> W_gone" using l(3) by auto
  have q: "pool_thread (tpc s' w) = pool_thread (tpc s w)" "tpc s' w = W_gone \<longleftrightarrow> tpc s w = W_gone" for w
    using l(7,8) ng by (auto simp: f)
  have 2: "pool_ok s'" using exec_invD(2) [OF inv] unfolding pool_ok_def q f(6,7) .
  have no: "not_offered (tpc s' t') = Some y \<Longrightarrow> not_offered (tpc s t') = Some y" for t' y
    using l(6) by (auto simp: f split: if_splits)
  have 3: "offers_ok s'" using offs no unfolding offers_ok_def f(3,4) c'(4,5) by blast
  have 4: "places_ok s'"
  proof (rule placesI)
    fix t' y assume a: "client_has (tpc s' t') = Some y"
    show "sub s' y = S_client t'"
    proof (cases "t' = t")
      case True
      then show ?thesis using a l(4) by (auto simp: f split: if_splits)
    next
      case False
      then have "sub s y = S_client t'" using a pl(1) [of t' y] by (simp add: f)
      moreover from this have "y = x \<Longrightarrow> p = sub s x" using sx p(3) by (cases "in_transit (taskChannel s) c") auto
      ultimately show ?thesis by (auto simp: f)
    qed
  next
    fix t' y
    have "y = x \<Longrightarrow> in_transit (taskChannel s) c \<Longrightarrow> sub s y \<noteq> S_worker t'" using sx by simp
    then show "worker_has (tpc s' t') = Some y \<longleftrightarrow> sub s' y = S_worker t'"
      using pl(2) [of t' y] l(2,5) p(1-3) by (cases "t' = t"; cases "in_transit (taskChannel s) c"; cases "in_transit c' c"; cases "y = x") (auto simp: f)
  next
    fix y d
    show "sub s' y = S_chan d \<longleftrightarrow> in_transit (taskChannel s') d \<and> offered (taskChannel s') d = Some y"
    proof (cases "d = c")
      case True
      have "sub s x = S_chan c \<longleftrightarrow> in_transit (taskChannel s) c" using pl(3) [of x c] c by simp
      then show ?thesis using True c pl(3) [of y c] p(1-3) by (cases "in_transit c' c"; cases "in_transit (taskChannel s) c") (auto simp: f c'(5))
    next
      case False
      have "d < calls (taskChannel s)" if "in_transit (taskChannel s) d" using that by (simp add: in_transit_def)
      then have "y = x \<Longrightarrow> \<not> (in_transit (taskChannel s) d \<and> offered (taskChannel s) d = Some y)" using only [of d] False by auto
      then show ?thesis
        using False pl(3) [of y d] tr [of d] p(1-3) sx
        by (cases "in_transit c' c"; cases "in_transit (taskChannel s) c") (auto simp: f c'(5))
    qed
  next
    fix y d assume a: "d < calls (taskChannel s')" "whereis (taskChannel s') d = Gone" "offered (taskChannel s') d = Some y"
    show "taken_over s' y"
    proof (cases "d = c \<and> whereis (taskChannel s) c \<noteq> Gone")
      case True
      then have "p = S_worker t" "y = x" using a p(4) c by (auto simp: f c'(5))
      then show ?thesis by (simp add: taken_over_def f)
    next
      case False
      then have "whereis (taskChannel s) d = Gone" using a(2) c'(6) [of d] by (cases "d = c") (auto simp: f)
      then show ?thesis using a to pl(4) [of d y] by (simp add: f c'(4,5))
    qed
  next
    fix t' y w assume "tpc s' t' = Hand_start y w"
    then have "tpc s t' = Hand_start y w" using l(9) by (auto simp: f split: if_splits)
    then show "taken_over s' y" using pl(5) [of t' y w] to by simp
  next
    fix y
    have "p \<noteq> S_none" if "y = x" "\<not> nsub s \<le> x" using p(1-3) pl(6) [of x] that by (cases "in_transit c' c"; cases "in_transit (taskChannel s) c") auto
    moreover have "\<not> nsub s \<le> x" using offs(2) [OF c(1)] c(2) by auto
    ultimately show "nsub s' \<le> y \<longleftrightarrow> sub s' y = S_none" using pl(6) [of y] by (auto simp: f)
  qed
  have "p = S_ran \<longleftrightarrow> sub s x = S_ran"
    using p(1-3) sx by (cases "in_transit c' c"; cases "in_transit (taskChannel s) c") auto
  then have r: "y \<in> set (ran s') \<longleftrightarrow> sub s' y = S_ran" for y using re(2) [of y] by (auto simp: f)
  have 5: "results_ok s'"
  proof (rule resultsI)
    show "distinct (ran s')" using re(1) by (simp add: f)
    show "y \<in> set (ran s') \<longleftrightarrow> sub s' y = S_ran" for y using r .
    fix y assume y: "y \<in> set (done_ok s')"
    show "taken_over s' y \<or> (\<exists>c. sub s' y = S_chan c \<and> c \<in> set (accepted (taskChannel s')))"
    proof (cases "y = x")
      case False
      then have "taken_over s y \<or> (\<exists>c. sub s y = S_chan c \<and> c \<in> set (accepted (taskChannel s)))" using y ok(1) [of y] re(3) [of y] by (simp add: f)
      then show ?thesis using to [of y] False c'(7) by (auto simp: f)
    next
      case True
      show ?thesis
      proof (cases "in_transit (taskChannel s) c")
        case tr: True
        show ?thesis
        proof (cases "in_transit c' c")
          case True
          then show ?thesis using \<open>y = x\<close> p(1) ok(4) y by (auto simp: f)
        next
          case False
          then show ?thesis using \<open>y = x\<close> tr p(2) ok(2,3) y by (auto simp: taken_over_def f)
        qed
      next
        case nt: False
        have "taken_over s x"
        proof (cases "x \<in> set (done_ok s)")
          case True
          then show ?thesis using re(3) [of x] nt pl(3) [of x] only by (auto simp: in_transit_def)
        next
          case False
          then show ?thesis using ok(5) y \<open>y = x\<close> nt pl(4) [of c x] c by (simp add: f)
        qed
        then show ?thesis using to \<open>y = x\<close> by simp
      qed
    qed
  next
    fix y assume "y \<in> set (done_bad s')"
    then have y: "y \<in> set (done_bad s) \<or> y = x \<and> (p = S_lost \<or> halted c')" using bad by (simp add: f)
    have "x < nsub s" using offs(2) [OF c(1)] c(2) by auto
    then have "sub s' y \<noteq> S_none" if "y = x" using placesD(6) [OF 4, of y] that by (simp add: f(4))
    then show "sub s' y = S_lost \<or> halted (taskChannel s') \<and> sub s' y \<noteq> S_none"
      using y re(4) [of y] p(3) sx by (cases "y = x"; cases "in_transit (taskChannel s) c") (auto simp: f c'(8))
  qed
  have 6: "closing_ok s'"
    by (rule closing_keep [OF exec_invD(6) [OF inv] q(1)])
      (use exec_invD(6) [OF inv] l(10) c'(8) in \<open>auto simp: f closing_ok_def split: if_splits\<close>)
  show ?thesis using 1 2 3 4 5 6 unfolding exec_inv_def s'_def [symmetric] by blast
qed

lemma resync_sub:
  assumes "places_ok s" "\<And>d. d \<noteq> c \<Longrightarrow> whereis c' d = whereis (taskChannel s) d" "offered (taskChannel s) c = Some x"
  shows "sub (resync c' s) = (sub s)(x := if in_transit (taskChannel s) c \<and> whereis c' c = Dropped then S_lost else sub s x)"
proof
  fix y
  note pl = placesD(3) [OF assms(1)]
  show "sub (resync c' s) y = ((sub s)(x := if in_transit (taskChannel s) c \<and> whereis c' c = Dropped then S_lost else sub s x)) y"
  proof (cases "sub s y")
    case (S_chan d)
    then have d: "in_transit (taskChannel s) d" "offered (taskChannel s) d = Some y" using pl by auto
    show ?thesis
    proof (cases "d = c")
      case True
      then show ?thesis using S_chan d assms(3) by (auto simp: resync_def)
    next
      case False
      then have "whereis c' d \<noteq> Dropped" using assms(2) [of d] d(1) by (auto simp: in_transit_def)
      moreover have "y = x \<Longrightarrow> \<not> in_transit (taskChannel s) c" using pl [of x c] S_chan False assms(3) by auto
      ultimately show ?thesis using S_chan by (auto simp: resync_def)
    qed
  qed (use pl [of x c] assms(3) in \<open>auto simp: resync_def\<close>)
qed

lemma resync_same:
  assumes "places_ok s" "whereis c' = whereis (taskChannel s)"
  shows "resync c' s = s\<lparr>taskChannel := c'\<rparr>"
proof -
  have "sub (resync c' s) y = sub s y" for y
  proof (cases "sub s y")
    case (S_chan d)
    then have "in_transit (taskChannel s) d" using placesD(3) [OF assms(1), of y d] by simp
    then show ?thesis using S_chan assms(2) by (auto simp: resync_def in_transit_def)
  qed (simp_all add: resync_def)
  then have "sub (resync c' s) = sub s" by blast
  then show ?thesis by (intro exec.equality) (simp_all add: resync_def)
qed

lemma call_whereis:
  assumes "syn_inv ch" "call_of (pcs ch t) = Some c"
  shows "c < calls ch" "c \<notin> set (accepted ch)" "in_transit ch c \<longleftrightarrow> whereis ch c \<noteq> Gone"
proof -
  show 1: "c < calls ch" "c \<notin> set (accepted ch)" using exclD(4) [OF syn_invD(2) [OF assms(1)] assms(2)] by auto
  show "in_transit ch c \<longleftrightarrow> whereis ch c \<noteq> Gone"
    using 1 syn_invD(1) [OF assms(1), of t] assms(2)
    by (cases "pcs ch t") (auto simp: in_transit_def put_owner_ok_def split: node_state.splits)
qed

lemma gone_same:
  assumes "syn_inv ch" "syn_inv ch'" "delivered ch' = delivered ch"
  shows "whereis ch' c = Gone \<longleftrightarrow> whereis ch c = Gone"
  using delivered_gone [OF historyD(3) [OF syn_invD(5) [OF assms(1)]], of c]
    delivered_gone [OF historyD(3) [OF syn_invD(5) [OF assms(2)]], of c] assms(3) by simp

lemma exec_offering:
  assumes inv: "exec_inv s" and pc: "tpc s t = Run_offering x"
    and step: "syn_step None (taskChannel s) e = Some c'" "thread_event t e"
  shows "exec_inv (chan_return t (Run_offering x) c' s)"
proof -
  let ?ch = "taskChannel s"
  note ch = exec_invD(7) [OF inv]
  note ch' = syn_step_inv [OF ch step(1)]
  obtain c where c: "call_of (pcs ?ch t) = Some c" "offered ?ch c = Some x" using exec_invD(8) [OF inv, of t] pc by auto
  note cw = call_whereis [OF ch c(1)]
  have eff: "put_effect t c ?ch c'" by (rule put_step_effect [OF ch step c(1)])
  have others: "d \<noteq> c \<Longrightarrow> whereis c' d = whereis ?ch d" for d using eff by (simp add: put_effect_def)
  have gone: "whereis c' c = Gone \<longleftrightarrow> whereis ?ch c = Gone"
    using gone_same [OF ch ch'] eff by (simp add: put_effect_def)
  have re: "sub (resync c' s) = (sub s)(x := if in_transit ?ch c \<and> whereis c' c = Dropped then S_lost else sub s x)"
    by (rule resync_sub [OF exec_invD(4) [OF inv] others c(2)])
  have sx: "in_transit ?ch c \<Longrightarrow> sub s x = S_chan c" using placesD(3) [OF exec_invD(4) [OF inv], of x c] c(2) by simp
  have nok: "in_transit ?ch c \<Longrightarrow> x \<notin> set (done_ok s)"
    using resultsD(3) [OF exec_invD(5) [OF inv], of x] sx cw(2) by (auto simp: taken_over_def)
  note keep = chan_keeps [OF step]
  have acc: "set (accepted ?ch) \<subseteq> set (accepted c')" using eff by (auto simp: put_effect_def)
  note val = exec_chan_value [OF inv ch' keep(1) _ keep(2,3) others acc keep(4) cw(1) c(2)]
  consider (more) "call_of (pcs c' t) = Some c" | (ok) "pcs c' t = Put_return 0" "c \<in> set (accepted c')" "whereis c' c \<noteq> Dropped"
    | (late) "pcs c' t = Put_return (- 1)" "whereis c' c = Dropped"
    | (fails) e' where "pcs c' t = S_throw e'" "whereis c' c = Dropped \<or> whereis c' c = Gone \<and> halted ?ch"
    using eff unfolding put_effect_def by (elim conjE disjE exE) auto
  then show ?thesis
  proof cases
    case more
    have tr: "in_transit c' c \<longleftrightarrow> in_transit ?ch c" using call_whereis(3) [OF ch' more] cw(3) gone by simp
    have nd: "whereis c' c \<noteq> Dropped" using call_whereis(3) [OF ch' more] by (auto simp: in_transit_def)
    have "chan_return t (Run_offering x) c' s = resync c' s" using more by (cases "pcs c' t") (auto simp: chan_return_def)
    also have "\<dots> = s\<lparr>taskChannel := c', sub := (sub s)(x := sub s x), tpc := (tpc s)(t := Run_offering x), done_ok := done_ok s, done_bad := done_bad s\<rparr>"
      using nd re pc by (intro exec.equality) (auto simp: resync_def)
    finally show ?thesis
      using more c pc tr sx gone nok keep(3) by (simp only:) (rule val, auto)
  next
    case ok
    have tr: "in_transit c' c \<longleftrightarrow> in_transit ?ch c"
      using historyD(2) [OF syn_invD(5) [OF ch'], of c] ok(2,3) gone cw keep(2) by (auto simp: fate_ok_def in_transit_def)
    have "chan_return t (Run_offering x) c' s =
        s\<lparr>taskChannel := c', sub := (sub s)(x := sub s x), tpc := (tpc s)(t := X_return 0), done_ok := x # done_ok s, done_bad := done_bad s\<rparr>"
      using ok re by (intro exec.equality) (auto simp: chan_return_def exec_ok_def goto_pc_def resync_def)
    then show ?thesis
      using ok pc tr sx gone nok cw(3) by (simp only:) (rule val, auto)
  next
    case late
    have tr: "\<not> in_transit c' c" "in_transit ?ch c" using late(2) gone cw(3) by (auto simp: in_transit_def)
    have "chan_return t (Run_offering x) c' s =
        s\<lparr>taskChannel := c', sub := (sub s)(x := S_client t), tpc := (tpc s)(t := Hand_test x), done_ok := done_ok s, done_bad := done_bad s\<rparr>"
      using late re by (intro exec.equality) (auto simp: chan_return_def goto_pc_def place_sub_def resync_def)
    then show ?thesis
      using late pc tr nok by (simp only:) (rule val, auto)
  next
    case fails
    define p where "p = (if in_transit ?ch c then S_lost else sub s x)"
    have tr: "\<not> in_transit c' c" using fails(2) by (auto simp: in_transit_def)
    have d: "in_transit ?ch c \<Longrightarrow> whereis c' c = Dropped" using fails(2) gone cw(3) by auto
    have "chan_return t (Run_offering x) c' s =
        s\<lparr>taskChannel := c', sub := (sub s)(x := p), tpc := (tpc s)(t := X_return (- 1)), done_ok := done_ok s, done_bad := x # done_bad s\<rparr>"
      using fails d re by (intro exec.equality) (auto simp: chan_return_def exec_bad_def goto_pc_def resync_def p_def)
    moreover have "in_transit ?ch c \<or> halted ?ch" using fails(2) gone cw(3) by auto
    ultimately show ?thesis
      using fails pc tr nok gone keep(4) by (simp only:) (rule val, auto simp: p_def)
  qed
qed

lemma exec_polling:
  assumes inv: "exec_inv s" and pc: "tpc s t = W_polling"
    and step: "syn_step None (taskChannel s) e = Some c'" "thread_event t e"
  shows "exec_inv (chan_return t W_polling c' s)"
proof -
  let ?ch = "taskChannel s"
  note ch = exec_invD(7) [OF inv] and keep = chan_keeps [OF step]
  note ch' = syn_step_inv [OF ch step(1)]
  have "taking (pcs ?ch t)" using exec_invD(8) [OF inv, of t] pc by simp
  then have eff: "take_effect t ?ch c'" by (rule take_step_effect [OF ch step])
  then have acc: "accepted c' = accepted ?ch" by (simp add: take_effect_def)
  have hal: "halted c' \<Longrightarrow> \<not> executorAvailable s" using exec_invD(6) [OF inv] keep(4) by (simp add: closing_ok_def)
  note same = exec_chan_same [OF inv ch' keep(1) _ keep(2,3) _ acc _ hal]
  consider (more) "taking (pcs c' t)" "whereis c' = whereis ?ch"
    | (stop) e' where "pcs c' t = S_throw e'" "whereis c' = whereis ?ch"
    | (drop) e' c n w where "pcs c' t = S_throw e'" "halted ?ch" "whereis ?ch c = At n" "w = Held \<or> w = Dropped" "whereis c' = (whereis ?ch)(c := w)"
    | (get) c n where "pcs c' t = Take_return (offered ?ch c)" "whereis ?ch c = At n" "whereis c' = (whereis ?ch)(c := Gone)"
    using eff unfolding take_effect_def by blast
  then show ?thesis
  proof cases
    case more
    have "chan_return t W_polling c' s = resync c' s" using more(1) by (cases "pcs c' t") (auto simp: chan_return_def)
    also have "\<dots> = goto_pc t W_polling (s\<lparr>taskChannel := c'\<rparr>)"
      unfolding resync_same [OF exec_invD(4) [OF inv] more(2)] using pc by (intro exec.equality) (auto simp: goto_pc_def)
    finally show ?thesis using more pc keep(4) by (simp only:) (rule same, auto)
  next
    case stop
    have "chan_return t W_polling c' s = goto_pc t W_exit (s\<lparr>taskChannel := c'\<rparr>)"
      using stop(1) by (simp add: chan_return_def resync_same [OF exec_invD(4) [OF inv] stop(2)])
    then show ?thesis using stop pc keep(4) by (simp only:) (rule same, auto)
  next
    case drop
    have lt: "c < calls ?ch" using historyD(2) [OF syn_invD(5) [OF ch], of c] drop(3) by (force simp: fate_ok_def)
    then obtain x where x: "offered ?ch c = Some x" using offersD(2) [OF exec_invD(3) [OF inv]] by blast
    have others: "d \<noteq> c \<Longrightarrow> whereis c' d = whereis ?ch d" for d using drop(5) by simp
    have tr: "in_transit ?ch c" "in_transit c' c \<longleftrightarrow> w = Held" using lt drop(3-5) keep(2) by (auto simp: in_transit_def)
    then have sx: "sub s x = S_chan c" using placesD(3) [OF exec_invD(4) [OF inv], of x c] x by simp
    define p where "p = (if w = Dropped then S_lost else S_chan c)"
    note re = resync_sub [OF exec_invD(4) [OF inv] others x]
    have "chan_return t W_polling c' s =
        s\<lparr>taskChannel := c', sub := (sub s)(x := p), tpc := (tpc s)(t := W_exit), done_ok := done_ok s, done_bad := done_bad s\<rparr>"
      using drop re tr sx by (intro exec.equality) (auto simp: chan_return_def goto_pc_def p_def resync_def)
    moreover have "x \<in> set (done_ok s) \<Longrightarrow> c \<in> set (accepted ?ch)"
      using resultsD(3) [OF exec_invD(5) [OF inv], of x] sx by (auto simp: taken_over_def)
    ultimately show ?thesis
      using drop pc tr sx hal keep(4) acc
      by (simp only:) (rule exec_chan_value [OF inv ch' keep(1) _ keep(2,3) others _ keep(4) lt x], auto simp: p_def)
  next
    case get
    have lt: "c < calls ?ch" using historyD(2) [OF syn_invD(5) [OF ch], of c] get(2) by (force simp: fate_ok_def)
    then obtain x where x: "offered ?ch c = Some x" using offersD(2) [OF exec_invD(3) [OF inv]] by blast
    have others: "d \<noteq> c \<Longrightarrow> whereis c' d = whereis ?ch d" for d using get(3) by simp
    have tr: "in_transit ?ch c" "\<not> in_transit c' c" using lt get(2,3) keep(2) by (auto simp: in_transit_def)
    note re = resync_sub [OF exec_invD(4) [OF inv] others x]
    have "chan_return t W_polling c' s =
        s\<lparr>taskChannel := c', sub := (sub s)(x := S_worker t), tpc := (tpc s)(t := W_loop (Some x)), done_ok := done_ok s, done_bad := done_bad s\<rparr>"
      using get re x by (intro exec.equality) (auto simp: chan_return_def goto_pc_def place_sub_def resync_def)
    then show ?thesis
      using get pc tr acc x
      by (simp only:) (rule exec_chan_value [OF inv ch' keep(1) _ keep(2,3) others _ keep(4) lt x], auto)
  qed
qed

lemma exec_chan_inv:
  assumes inv: "exec_inv s" and ev: "thread_event t e" and step: "exec_chan t e s = Some s'"
  shows "exec_inv s'"
proof -
  have i: "in_channel (tpc s t)" using step by (simp add: exec_chan_def split: if_splits)
  then obtain c' where c': "syn_step None (taskChannel s) e = Some c'" "s' = chan_return t (tpc s t) c' s"
    using step by (auto simp: exec_chan_def split: option.splits)
  show ?thesis
  proof (cases "tpc s t")
    case (Run_offering x)
    then show ?thesis using exec_offering [OF inv _ c'(1) ev] c'(2) by simp
  next
    case W_polling
    then show ?thesis using exec_polling [OF inv _ c'(1) ev] c'(2) by simp
  qed (use i in simp_all)
qed

section \<open>Every step keeps the invariant\<close>

lemma exec_poll:
  assumes inv: "exec_inv s" and pc: "tpc s t = W_loop None" and step: "syn_step None (taskChannel s) (Take t) = Some c'"
  shows "exec_inv (goto_pc t W_polling (s\<lparr>taskChannel := c'\<rparr>))"
proof -
  have c': "c' = set_pc t Take_test (taskChannel s)" using step by (auto simp: syn_step_def split: if_splits)
  have hal: "halted (taskChannel s) \<Longrightarrow> \<not> executorAvailable s" using exec_invD(6) [OF inv] by (simp add: closing_ok_def)
  show ?thesis
    by (rule exec_chan_same [OF inv syn_step_inv [OF exec_invD(7) [OF inv] step]])
      (use pc hal in \<open>auto simp: c' set_pc_def\<close>)
qed

lemma exec_halt:
  assumes inv: "exec_inv s" and pc: "tpc s t = Close_stop" and step: "syn_step None (taskChannel s) Halt_all = Some c'"
  shows "exec_inv (goto_pc t Close_lock (s\<lparr>taskChannel := c'\<rparr>))"
proof -
  have c': "c' = (taskChannel s)\<lparr>halted := True\<rparr>" using step by (simp add: syn_step_def)
  have na: "\<not> executorAvailable s" using exec_invD(6) [OF inv] pc unfolding closing_ok_def by (metis closing.simps(3))
  show ?thesis
    by (rule exec_chan_same [OF inv syn_step_inv [OF exec_invD(7) [OF inv] step]])
      (use pc na exec_invD(8) [OF inv, of t] in \<open>auto simp: c'\<close>)
qed

lemma closing_unavailable: "exec_inv s \<Longrightarrow> closing (tpc s t) \<Longrightarrow> \<not> executorAvailable s"
  using exec_invD(6) [of s] by (auto simp: closing_ok_def)

text \<open>Fields that the invariant does not read.\<close>

lemma parts_cong:
  assumes "taskChannel s' = taskChannel s" "thr_count s' = thr_count s" "executorAvailable s' = executorAvailable s" "tpc s' = tpc s"
    "threads s' = threads s" "nsub s' = nsub s" "sub s' = sub s" "done_ok s' = done_ok s" "done_bad s' = done_bad s" "ran s' = ran s"
  shows "chan_ok s' = chan_ok s" "pool_ok s' = pool_ok s" "offers_ok s' = offers_ok s" "places_ok s' = places_ok s"
    "results_ok s' = results_ok s" "joined s' = joined s \<Longrightarrow> closing_ok s' = closing_ok s"
  unfolding exec_parts taken_over_def no_pool_threads_def assms by simp_all

lemma exec_inv_flags:
  assumes "exec_inv s"
  shows "exec_inv (s\<lparr>has_shutdown := b\<rparr>)" "exec_inv (s\<lparr>executorClosed := b\<rparr>)"
  using assms parts_cong [of "s\<lparr>has_shutdown := b\<rparr>" s] parts_cong [of "s\<lparr>executorClosed := b\<rparr>" s] by (simp_all add: exec_inv_def)

lemma spawn_place: "place_sub x p (spawn ws job s) = spawn ws job (place_sub x p s)"
  by (rule exec.equality) (simp_all add: place_sub_def spawn_def fun_eq_iff)

lemma exec_submit:
  assumes inv: "exec_inv s" and idle: "idle_pc (tpc s t)"
  shows "exec_inv (goto_pc t (Run_test (Some (nsub s))) (place_sub (nsub s) (S_client t) (s\<lparr>nsub := Suc (nsub s)\<rparr>)))"
proof -
  define s' where "s' = goto_pc t (Run_test (Some (nsub s))) (place_sub (nsub s) (S_client t) (s\<lparr>nsub := Suc (nsub s)\<rparr>))"
  let ?x = "nsub s"
  note pl = placesD [OF exec_invD(4) [OF inv]] and re = resultsD [OF exec_invD(5) [OF inv]] and offs = offersD [OF exec_invD(3) [OF inv]]
  have f: "tpc s' = (tpc s)(t := Run_test (Some ?x))" "sub s' = (sub s)(?x := S_client t)" "taskChannel s' = taskChannel s" "nsub s' = Suc ?x"
    "executorAvailable s' = executorAvailable s" "threads s' = threads s" "thr_count s' = thr_count s" "done_ok s' = done_ok s"
    "done_bad s' = done_bad s" "joined s' = joined s" "ran s' = ran s"
    by (simp_all add: s'_def goto_pc_def place_sub_def)
  have x: "sub s ?x = S_none" using pl(6) [of ?x] by simp
  have to: "taken_over s y \<Longrightarrow> taken_over s' y" for y using x by (auto simp: taken_over_def f)
  have i: "client_has (tpc s t) = None" "worker_has (tpc s t) = None" "\<not> pool_thread (tpc s t)" "tpc s t \<noteq> W_gone" "\<not> in_channel (tpc s t)"
    using idle by (cases "tpc s t"; simp)+
  have 1: "chan_ok s'"
    using exec_invD(1) [OF inv] exec_invD(8) [OF inv, of t] chan_pc_quiet [OF i(5)] by (auto simp: chan_ok_def f)
  have q: "pool_thread (tpc s' w) = pool_thread (tpc s w)" "tpc s' w = W_gone \<longleftrightarrow> tpc s w = W_gone" for w using i by (auto simp: f)
  have 2: "pool_ok s'" using exec_invD(2) [OF inv] unfolding pool_ok_def q f(6,7) .
  have new: "c < calls (taskChannel s) \<Longrightarrow> offered (taskChannel s) c \<noteq> Some ?x" for c using offs(2) [of c] by auto
  have 3: "offers_ok s'"
    unfolding offers_ok_def f(3,4)
  proof (intro conjI allI impI)
    show "\<exists>y < Suc ?x. offered (taskChannel s) c = Some y" if "c < calls (taskChannel s)" for c using offs(2) [OF that] less_SucI by blast
    show "offered (taskChannel s) c \<noteq> Some y" if "not_offered (tpc s' t') = Some y" "c < calls (taskChannel s)" for t' y c
      using that new [of c] offs(3) [of t' y c] by (auto simp: f split: if_splits)
  qed (rule offs(1))
  have 4: "places_ok s'"
  proof (rule placesI)
    show "client_has (tpc s' t') = Some y \<Longrightarrow> sub s' y = S_client t'" for t' y
      using pl(1) [of t' y] x by (auto simp: f split: if_splits)
    show "worker_has (tpc s' t') = Some y \<longleftrightarrow> sub s' y = S_worker t'" for t' y using pl(2) [of t' y] x i by (auto simp: f)
    show "sub s' y = S_chan c \<longleftrightarrow> in_transit (taskChannel s') c \<and> offered (taskChannel s') c = Some y" for y c
      using pl(3) [of y c] x by (auto simp: f)
    show "tpc s' t' = Hand_start y w \<Longrightarrow> taken_over s' y" for t' y w using pl(5) [of t' y w] to by (auto simp: f split: if_splits)
    show "c < calls (taskChannel s') \<Longrightarrow> whereis (taskChannel s') c = Gone \<Longrightarrow> offered (taskChannel s') c = Some y \<Longrightarrow> taken_over s' y" for y c
      using pl(4) [of c y] to by (simp add: f)
    show "nsub s' \<le> y \<longleftrightarrow> sub s' y = S_none" for y using pl(6) [of y] by (auto simp: f)
  qed
  have 5: "results_ok s'"
  proof (rule resultsI)
    show "distinct (ran s')" using re(1) by (simp add: f)
    show "y \<in> set (ran s') \<longleftrightarrow> sub s' y = S_ran" for y using re(2) [of y] x by (auto simp: f)
    show "taken_over s' y \<or> (\<exists>c. sub s' y = S_chan c \<and> c \<in> set (accepted (taskChannel s')))" if "y \<in> set (done_ok s')" for y
    proof -
      have "taken_over s y \<or> (\<exists>c. sub s y = S_chan c \<and> c \<in> set (accepted (taskChannel s)))" using re(3) [of y] that by (simp add: f)
      then show ?thesis using to [of y] x by (auto simp: f)
    qed
    show "sub s' y = S_lost \<or> halted (taskChannel s') \<and> sub s' y \<noteq> S_none" if "y \<in> set (done_bad s')" for y
      using re(4) [of y] that x by (auto simp: f)
  qed
  have 6: "closing_ok s'"
    by (rule closing_keep [OF exec_invD(6) [OF inv] q(1)])
      (use exec_invD(6) [OF inv] in \<open>auto simp: f closing_ok_def split: if_splits\<close>)
  show ?thesis using 1 2 3 4 5 6 unfolding exec_inv_def s'_def [symmetric] by blast
qed

lemma exec_go_inv:
  assumes inv: "exec_inv s" and go: "exec_go t ch s (tpc s t) = Some s'"
  shows "exec_inv s'"
proof -
  obtain av s1 where a: "isAvailable s = (av, s1)" by fastforce
  note a1 = isAvailable_inv [OF inv a]
  note na = closing_unavailable [OF inv, of t]
  show ?thesis
  proof (cases "tpc s t")
    case (Run_test cmd)
    show ?thesis
    proof (cases cmd)
      case None
      then show ?thesis using go Run_test a a1 by (auto intro!: exec_move)
    next
      case (Some x)
      have "exec_inv (exec_bad t x (place_sub x S_lost s1))" using client_gives_up [OF a1(1), of t x] Run_test Some a1(2) by simp
      then show ?thesis using go Run_test Some a a1 by (auto split: if_splits intro!: exec_move)
    qed
  next
    case (Run_offer x)
    then show ?thesis using go exec_offer [OF inv Run_offer] by (auto split: option.splits)
  next
    case (Hand_test x)
    have "exec_inv (exec_bad t x (place_sub x S_lost s1))" using client_gives_up [OF a1(1), of t x] Hand_test a1(2) by simp
    then show ?thesis using go Hand_test a a1 by (auto split: if_splits intro!: exec_move)
  next
    case (Hand_lock x)
    have b: "exec_inv (exec_bad t x (place_sub x S_lost s1))" using client_gives_up [OF a1(1), of t x] Hand_lock a1(2) by simp
    show ?thesis
    proof (cases "av \<and> ch \<noteq> None")
      case False
      then show ?thesis using go Hand_lock a b by (auto split: if_splits)
    next
      case True
      then obtain ws where ws: "ch = Some ws" "can_spawn t 1 ws s1" and
        s': "s' = goto_pc t (Hand_start x (hd ws)) (spawn ws (Some x) (place_sub x (S_worker (hd ws)) s1))"
        using go Hand_lock a by (auto split: if_splits simp: spawn_place)
      then obtain w where w: "ws = [w]" by (auto simp: can_spawn_def length_Suc_conv)
      show ?thesis
        unfolding s' by (rule exec_spawn [OF a1(1)]) (use True a1 ws w Hand_lock in auto)
    qed
  next
    case (Hand_start x w)
    then show ?thesis using go hand_returns [OF inv Hand_start] by (auto split: if_splits)
  next
    case (N_test n force)
    then show ?thesis using go a a1 inv by (auto split: if_splits intro!: exec_move)
  next
    case (N_lock n force)
    show ?thesis
    proof (cases "s' = goto_pc t (X_return (- 1)) s1")
      case True
      then show ?thesis using N_lock a1 by (auto intro!: exec_move)
    next
      case False
      then obtain ws where ws: "ch = Some ws" "can_spawn t n ws s1" "s' = goto_pc t (N_start ws) (spawn ws None s1)" "av"
        using go N_lock a by (auto split: if_splits option.splits)
      then have "length ws = n" by (simp add: can_spawn_def)
      then show ?thesis unfolding ws(3) by (intro exec_spawn [OF a1(1)]) (use a1 ws N_lock in auto)
    qed
  next
    case (N_start ws)
    then show ?thesis using go inv by (auto split: if_splits intro!: exec_move)
  next
    case Close_flag
    have "exec_inv (goto_pc t Close_test (s\<lparr>executorAvailable := False\<rparr>))"
      by (rule exec_move [OF exec_inv_unavailable [OF inv]]) (use Close_flag in simp_all)
    then show ?thesis using go Close_flag by simp
  next
    case Close_test
    then show ?thesis using go inv na by (auto split: if_splits intro!: exec_move)
  next
    case Close_set
    have "exec_inv (goto_pc t Close_stop (s\<lparr>executorClosed := True\<rparr>))"
      by (rule exec_move [OF exec_inv_flags(2) [OF inv]]) (use Close_set na in simp_all)
    then show ?thesis using go Close_set by simp
  next
    case Close_stop
    then show ?thesis using go exec_halt [OF inv Close_stop] by (auto split: option.splits)
  next
    case Close_lock
    then show ?thesis using go inv na by (auto split: if_splits intro!: exec_move)
  next
    case Close_terminate
    then show ?thesis using go inv na by (auto intro!: exec_move)
  next
    case (W_start job)
    then show ?thesis using go inv by (auto split: option.splits intro!: exec_move)
  next
    case W_plain
    then show ?thesis using go inv by (auto intro!: exec_move)
  next
    case (W_loop cmd)
    show ?thesis
    proof (cases cmd)
      case None
      have "exec_inv (goto_pc t W_exit s1)" by (rule exec_move [OF a1(1)]) (use W_loop None a1(2) in simp_all)
      then show ?thesis
        using go W_loop None a a1(2,5) exec_poll [OF a1(1), of t] by (auto split: if_splits option.splits)
    next
      case (Some x)
      have "exec_inv (goto_pc t (W_run x) s1)" by (rule exec_move [OF a1(1)]) (use W_loop Some a1(2) in simp_all)
      moreover have "\<not> av \<Longrightarrow> exec_inv (goto_pc t W_exit (place_sub x S_lost s1))"
        using worker_loses [OF a1(1), of t x] W_loop Some a1(2,4) by simp
      ultimately show ?thesis using go W_loop Some a by (auto split: if_splits)
    qed
  next
    case (W_run x)
    then show ?thesis using go worker_runs [OF inv W_run] by auto
  next
    case W_exit
    then show ?thesis using go exec_leave [OF inv W_exit] by simp
  qed (use go in simp_all)
qed

lemma exec_step_inv:
  assumes inv: "exec_inv s" and step: "exec_step s e = Some s'"
  shows "exec_inv s'"
proof (cases e)
  case (Execute t nil)
  then have i: "idle_pc (tpc s t)" using step by (simp add: exec_step_def split: if_splits)
  have "exec_inv (goto_pc t (Run_test None) s)" using i by (intro exec_move [OF inv]) (cases "tpc s t"; simp)+
  then show ?thesis using step Execute exec_submit [OF inv i] by (auto simp: exec_step_def split: if_splits)
next
  case (ExecuteN t n force)
  then have i: "idle_pc (tpc s t)" using step by (simp add: exec_step_def split: if_splits)
  have "exec_inv (goto_pc t (N_test n force) s)" using i by (intro exec_move [OF inv]) (cases "tpc s t"; simp)+
  then show ?thesis using step ExecuteN i by (simp add: exec_step_def)
next
  case (Close t)
  then have i: "idle_pc (tpc s t)" using step by (simp add: exec_step_def split: if_splits)
  have "exec_inv (goto_pc t Close_flag s)" using i by (intro exec_move [OF inv]) (cases "tpc s t"; simp)+
  then show ?thesis using step Close i by (simp add: exec_step_def)
next
  case Shutdown
  then show ?thesis using step exec_inv_flags(1) [OF inv, of True] by (simp add: exec_step_def)
next
  case (X_go t ch)
  then show ?thesis using step exec_go_inv [OF inv] by (simp add: exec_step_def)
next
  case (X_chan t)
  then show ?thesis using step exec_chan_inv [OF inv, of t "Go t"] by (simp add: exec_step_def thread_event_def)
next
  case (X_chan_woken t r)
  then show ?thesis using step exec_chan_inv [OF inv, of t "Woken t r"] by (simp add: exec_step_def thread_event_def)
next
  case (X_woken t r)
  then have pc: "tpc s t = Close_wait" and s': "s' = close_woken t r s" using step by (auto simp: exec_step_def split: if_splits)
  have "\<not> executorAvailable s" using closing_unavailable [OF inv, of t] pc by simp
  then have "exec_inv (goto_pc t l s)" if "l \<in> {Close_lock, Close_join, Close_terminate}" for l
    using that pc by (intro exec_move [OF inv]) auto
  then show ?thesis by (simp add: s' close_woken_def)
next
  case (X_join t)
  then have pc: "tpc s t = Close_join" "no_pool_threads s" and s': "s' = goto_pc t (X_return 0) (s\<lparr>joined := True\<rparr>)"
    using step by (auto simp: exec_step_def split: if_splits)
  have na: "\<not> executorAvailable s" using closing_unavailable [OF inv, of t] pc by simp
  have "closing_ok (s\<lparr>joined := True\<rparr>)" using exec_invD(6) [OF inv] na pc(2) by (simp add: closing_ok_def no_pool_threads_def)
  then have "exec_inv (s\<lparr>joined := True\<rparr>)"
    using inv parts_cong(1-5) [of "s\<lparr>joined := True\<rparr>" s] by (simp add: exec_inv_def)
  then show ?thesis unfolding s' by (rule exec_move) (use pc in simp_all)
qed

interpretation exec_machine: event_invariant exec_step exec_inv
  by unfold_locales (rule exec_step_inv)

section \<open>Properties\<close>

text \<open>\<open>execute(n, false)\<close> on an executor that has threads fails; the documentation promises the result 1.\<close>

lemma execute_n_active:
  assumes "thr_count s > 0"
  shows "\<exists>s'. exec_go t ch s (N_lock n False) = Some (goto_pc t (X_return (- 1)) s')"
  using assms by (auto simp: isAvailable_def split: prod.splits)

lemma timeouts_in_range:
  "decay_timeout (setDecayTimeout ms s) \<in> {1000 .. 3600000}" "evict_timeout (setEvictTimeout ms s) \<in> {1000 .. 60000}"
  "handoff_timeout (setHandoffTimeout ms s) \<in> {0 .. 10}"
  using ace_range_bounds [of 1000 3600000 ms] ace_range_bounds [of 1000 60000 ms] ace_range_bounds [of 0 10 ms]
  by (simp_all add: setDecayTimeout_def setEvictTimeout_def setHandoffTimeout_def MSECS_ONE_HOUR_def MSECS_ONE_MINUTE_def MSECS_ONE_SECOND_def)

text \<open>A command that was accepted and lies in the channel is in the node of a pool thread that polls.\<close>

lemma accepted_with_worker:
  assumes inv: "exec_inv s" and av: "\<not> halted (taskChannel s)" and c: "sub s x = S_chan c" "c \<in> set (accepted (taskChannel s))"
  shows "\<exists>w n. tpc s w = W_polling \<and> (pcs (taskChannel s) w = Take_own n \<or> pcs (taskChannel s) w = Take_wait n) \<and>
    state (nodes (taskChannel s) n) = FULL \<and> item (nodes (taskChannel s) n) = Some x"
proof -
  note ch = exec_invD(7) [OF inv]
  have tr: "in_transit (taskChannel s) c" "offered (taskChannel s) c = Some x"
    using placesD(3) [OF exec_invD(4) [OF inv], of x c] c(1) by auto
  then have "c \<notin> fst ` set (delivered (taskChannel s))"
    using delivered_gone [OF historyD(3) [OF syn_invD(5) [OF ch]], of c] by (auto simp: in_transit_def)
  then obtain w n where w: "pcs (taskChannel s) w = Take_own n \<or> pcs (taskChannel s) w = Take_wait n"
    "state (nodes (taskChannel s) n) = FULL" "item (nodes (taskChannel s) n) = Some x"
    using accepted_in_flight [OF ch av c(2)] tr(2) by auto
  then have "tpc s w = W_polling" using exec_invD(8) [OF inv, of w] by (cases "tpc s w") auto
  then show ?thesis using w by blast
qed

text \<open>A pool thread that holds a command runs it within three steps of its own.\<close>

lemma worker_progress:
  assumes w: "worker_has (tpc s w) = Some x" and av: "executorAvailable s" "\<not> has_shutdown s"
  shows "\<exists>k \<le> 3. \<exists>s'. run exec_step s (replicate k (X_go w (Some []))) = Some s' \<and> x \<in> set (ran s')"
proof -
  consider "tpc s w = W_start (Some x)" | "tpc s w = W_loop (Some x)" | "tpc s w = W_run x" using w by (cases "tpc s w") auto
  then show ?thesis
  proof cases
    case 1
    then show ?thesis using av
      by (intro exI [of _ 3] conjI) (simp_all add: numeral_3_eq_3 exec_step_def isAvailable_def goto_pc_def place_sub_def)
  next
    case 2
    then show ?thesis using av
      by (intro exI [of _ 2] conjI) (simp_all add: numeral_2_eq_2 exec_step_def isAvailable_def goto_pc_def place_sub_def)
  next
    case 3
    then show ?thesis using av
      by (intro exI [of _ 1] conjI) (simp_all add: exec_step_def goto_pc_def place_sub_def)
  qed
qed

text \<open>
  Claim C7.  The thread pool runs every accepted command once.  In every interleaving of clients,
  pool threads, time-outs, failing spawns, throwing commands and shutdowns: the thread count is the
  number of live pool threads, and no command is run twice.  While the executor is available, a command
  whose \<open>execute\<close> returned 0 has been run, or is held by a pool thread, or lies in the node of a
  pool thread that polls; a pool thread that holds a command runs it within three steps of its own.
  A command whose \<open>execute\<close> returned -1 was not run and is with no pool thread, unless the
  channel was interrupted.  Once \<open>module_closed\<close> has waited for the threads, none is left and none is started.
\<close>

theorem executor_runs_once:
  assumes "reachable exec_step (TaskExecutor_new d e h) s"
  shows "distinct (threads s) \<and> thr_count s = length (filter (\<lambda>w. pool_thread (tpc s w)) (threads s)) \<and> distinct (ran s) \<and>
    (executorAvailable s \<longrightarrow> (\<forall>x \<in> set (done_ok s). x \<in> set (ran s) \<or> (\<exists>w. worker_has (tpc s w) = Some x) \<or>
       (\<exists>w n. tpc s w = W_polling \<and> (pcs (taskChannel s) w = Take_own n \<or> pcs (taskChannel s) w = Take_wait n) \<and>
          state (nodes (taskChannel s) n) = FULL \<and> item (nodes (taskChannel s) n) = Some x))) \<and>
    (\<forall>w x. worker_has (tpc s w) = Some x \<and> executorAvailable s \<and> \<not> has_shutdown s \<longrightarrow>
       (\<exists>k \<le> 3. \<exists>s'. run exec_step s (replicate k (X_go w (Some []))) = Some s' \<and> x \<in> set (ran s'))) \<and>
    (\<not> halted (taskChannel s) \<longrightarrow> (\<forall>x \<in> set (done_bad s). x \<notin> set (ran s) \<and> (\<forall>w. worker_has (tpc s w) \<noteq> Some x))) \<and>
    (joined s \<longrightarrow> \<not> executorAvailable s \<and> thr_count s = 0)"
proof -
  have inv: "exec_inv s" using exec_machine.reachable_inv [OF exec_inv_new assms] .
  note po = poolD [OF exec_invD(2) [OF inv]] and pl = placesD [OF exec_invD(4) [OF inv]] and re = resultsD [OF exec_invD(5) [OF inv]]
  have av: "executorAvailable s \<Longrightarrow> \<not> halted (taskChannel s)" using exec_invD(6) [OF inv] by (auto simp: closing_ok_def)
  have 4: "\<forall>x \<in> set (done_ok s). x \<in> set (ran s) \<or> (\<exists>w. worker_has (tpc s w) = Some x) \<or>
       (\<exists>w n. tpc s w = W_polling \<and> (pcs (taskChannel s) w = Take_own n \<or> pcs (taskChannel s) w = Take_wait n) \<and>
          state (nodes (taskChannel s) n) = FULL \<and> item (nodes (taskChannel s) n) = Some x)" if a: "executorAvailable s"
  proof
    fix x assume "x \<in> set (done_ok s)"
    then consider "sub s x = S_ran" | w where "sub s x = S_worker w" | c where "sub s x = S_chan c" "c \<in> set (accepted (taskChannel s))"
      using re(3) [of x] a by (auto simp: taken_over_def)
    then show "x \<in> set (ran s) \<or> (\<exists>w. worker_has (tpc s w) = Some x) \<or>
       (\<exists>w n. tpc s w = W_polling \<and> (pcs (taskChannel s) w = Take_own n \<or> pcs (taskChannel s) w = Take_wait n) \<and>
          state (nodes (taskChannel s) n) = FULL \<and> item (nodes (taskChannel s) n) = Some x)"
      by cases (simp add: re(2), use pl(2) in blast, use accepted_with_worker [OF inv av [OF a]] in blast)
  qed
  have 5: "\<forall>w x. worker_has (tpc s w) = Some x \<and> executorAvailable s \<and> \<not> has_shutdown s \<longrightarrow>
       (\<exists>k \<le> 3. \<exists>s'. run exec_step s (replicate k (X_go w (Some []))) = Some s' \<and> x \<in> set (ran s'))"
    using worker_progress by blast
  have 6: "\<forall>x \<in> set (done_bad s). x \<notin> set (ran s) \<and> (\<forall>w. worker_has (tpc s w) \<noteq> Some x)" if "\<not> halted (taskChannel s)"
    using re(4) that by (simp add: re(2) pl(2))
  have 7: "\<not> executorAvailable s \<and> thr_count s = 0" if "joined s"
    using exec_invD(6) [OF inv] that po(3) by (auto simp: closing_ok_def no_pool_threads_def list_all_iff filter_empty_conv)
  show ?thesis by (intro conjI impI po(1) po(3) re(1) 4 5 6) (use 7 in auto)
qed

text \<open>One command by a new thread, one by the hand-off.\<close>

definition demo :: "exec_event list" where
  "demo =
     [Execute 0 False, X_go 0 None, X_go 0 None, X_chan 0, X_chan 0, X_chan 0, X_chan_woken 0 (W_error ETIME),
      X_go 0 None, X_go 0 (Some [5]), X_go 5 None, X_go 0 None, X_go 5 None, X_go 5 (Some []), X_go 5 None,
      X_chan 5, X_chan 5, X_chan 5, Execute 0 False, X_go 0 None, X_go 0 None, X_chan 0, X_chan 0, X_chan 0,
      X_chan_woken 5 W_ok]"

theorem executor_runs_once_witness:
  "\<exists>s. run exec_step (TaskExecutor_new 30 6 1) demo = Some s \<and> done_ok s = [1, 0] \<and> ran s = [0] \<and> thr_count s = 1 \<and>
     worker_has (tpc s 5) = Some 1 \<and> distinct (ran s)"
proof -
  let ?s = "the (run exec_step (TaskExecutor_new 30 6 1) demo)"
  have r: "run exec_step (TaskExecutor_new 30 6 1) demo \<noteq> None"
    and c: "done_ok ?s = [1, 0]" "ran ?s = [0]" "thr_count ?s = 1" "worker_has (tpc ?s 5) = Some 1"
    by code_simp+
  show ?thesis
    using executor_runs_once [OF reachable_run [OF r]] r c by (intro exI [of _ ?s]) (simp del: run.simps)
qed

end
