(* ===== verification/Service_Gestalt.thy ===== *)
theory Service_Gestalt
  imports Properties
begin

text \<open>
  \<^verbatim>\<open>DAF::ServiceGestalt\<close> (\<^verbatim>\<open>daf/ServiceGestalt.h\<close>, \<^verbatim>\<open>.cpp\<close>): a container of services that are loaded,
  suspended, resumed and removed by name.  The services themselves live in a repository of
  ACE, which is driven by directives in text form; the container keeps a descriptor
  of every service that it loaded.

  ACE's repository is a parameter: the record \<open>ace\<close> of its operations over a repository type \<open>'r\<close>.
  Each request is an activity that a pool thread runs under the container's readers-writer lock,
  while the caller waits for the result for a limited time.  Loading and removing hold the lock
  exclusively and are single steps; suspending and resuming hold it shared and are three
  steps: the test, the directive, the flag of the descriptor.

  The XML and the classic form of the directives are chosen at build time, here by the argument \<open>cl\<close>.
\<close>

section \<open>Texts\<close>

definition INVALID_IDENT_CHARS :: string where
  "INVALID_IDENT_CHARS = '' :.#%*~-(){}'' @ [CHR 0x5C, CHR 0x27, CHR 0x22]"

definition get_activity_timeout :: "int \<Rightarrow> int \<Rightarrow> int" where
  "get_activity_timeout min_timeout prop = MSECS_ONE_SECOND * ace_range min_timeout 60 prop"

definition bad_ident :: "string \<Rightarrow> bool" where
  "bad_ident svc_ident \<longleftrightarrow> svc_ident = [] \<or> list_ex (\<lambda>c. c \<in> set INVALID_IDENT_CHARS) svc_ident"

text \<open>The clean-up of the library path in \<open>loadDynamic\<close>; the second argument is \<^verbatim>\<open>pos\<close> before the test \<^verbatim>\<open>pos-- > 0\<close>.\<close>

definition lib_junk :: "char \<Rightarrow> bool" where
  "lib_junk c \<longleftrightarrow> c = CHR 0x22 \<or> c = CHR 0x27 \<or> c = CHR '' '' \<or> c_iscntrl c"

fun lib_loop :: "string \<Rightarrow> nat \<Rightarrow> string" where
  "lib_loop s 0 = s"
| "lib_loop s (Suc pos) =
     (if lib_junk (char_at s 0) then lib_loop (erase1 s 0) pos
      else if pos \<noteq> 0 then
        if lib_junk (char_at s pos) then lib_loop (erase1 s pos) pos else clean_from (pos - 1) s
      else s)"

definition quote_lib :: "string \<Rightarrow> string" where
  "quote_lib s =
     (if \<exists>p \<in> set_option (find_from (CHR '' '') s 0). p > 0 then [CHR 0x27] @ s @ [CHR 0x27] else s)"

section \<open>Directives\<close>

text \<open>\<^verbatim>\<open>std::ends\<close> appends a null character, at which \<^verbatim>\<open>c_str\<close> ends the text again.\<close>

definition ends :: "string \<Rightarrow> string" where
  "ends s = s @ [CHR 0x00]"

definition c_str :: "string \<Rightarrow> string" where
  "c_str s = takeWhile (\<lambda>c. c \<noteq> CHR 0x00) s"

definition dq :: string where
  "dq = [CHR 0x22]"

definition params_attr :: "string \<Rightarrow> string" where
  "params_attr parameters = (if parameters \<noteq> [] then '' params='' @ dq @ parameters @ dq else [])"

definition static_directive :: "bool \<Rightarrow> string \<Rightarrow> string \<Rightarrow> string" where
  "static_directive cl ident parameters =
     ends (if cl then ''static '' @ ident @ '' '' @ dq @ parameters @ dq
       else ''<ACE_Svc_Conf>'' @ ''<static id='' @ dq @ ident @ dq @ params_attr parameters @ ''/>''
         @ ''</static>'' @ ''</ACE_Svc_Conf>'')"

definition dynamic_directive :: "bool \<Rightarrow> string \<Rightarrow> string \<Rightarrow> string \<Rightarrow> string \<Rightarrow> string" where
  "dynamic_directive cl ident libpathname objectclass parameters =
     ends (if cl then ''dynamic '' @ ident @ '' Service_Object * '' @ libpathname @ '':'' @ objectclass @ ''() '' @ dq @ parameters @ dq
       else ''<ACE_Svc_Conf>'' @ ''<dynamic id='' @ dq @ ident @ dq @ '' type='' @ dq @ ''Service_Object'' @ dq @ ''>''
         @ ''<initializer path='' @ dq @ libpathname @ dq @ '' init='' @ dq @ objectclass @ dq @ params_attr parameters @ ''/>''
         @ ''</dynamic>'' @ ''</ACE_Svc_Conf>'')"

definition element_directive :: "string \<Rightarrow> bool \<Rightarrow> string \<Rightarrow> string" where
  "element_directive verb cl ident =
     ends (if cl then verb @ '' '' @ ident
       else ''<ACE_Svc_Conf>'' @ ''<'' @ verb @ '' id='' @ dq @ ident @ dq @ ''>'' @ ''</'' @ verb @ ''>'' @ ''</ACE_Svc_Conf>'')"

definition suspend_directive :: "bool \<Rightarrow> string \<Rightarrow> string" where
  "suspend_directive = element_directive ''suspend''"

definition resume_directive :: "bool \<Rightarrow> string \<Rightarrow> string" where
  "resume_directive = element_directive ''resume''"

definition remove_directive :: "bool \<Rightarrow> string \<Rightarrow> string" where
  "remove_directive = element_directive ''remove''"

section \<open>State\<close>

unbundle bit_operations_syntax

definition LOAD_STATIC :: "32 word" where "LOAD_STATIC = push_bit 1 1"

definition LOAD_DYNAMIC :: "32 word" where "LOAD_DYNAMIC = push_bit 2 1"

definition LOAD_OBJECT :: "32 word" where "LOAD_OBJECT = push_bit 3 1"

definition LOAD_ACTIVE :: "32 word" where "LOAD_ACTIVE = push_bit 6 1"

definition ENOTSUP :: errno where "ENOTSUP = E_OTHER 95"

record svc_desc =
  svc_ident :: string
  libpathname :: string
  objectclass :: string
  parameters :: string
  loadtime :: "int \<times> int"
  loadflags :: "32 word"

text \<open>An entry of ACE's repository, and the operations on it that are used.\<close>

record svc_type =
  active :: bool
  fini_called :: bool

record 'r ace =
  ace_find :: "'r \<Rightarrow> string \<Rightarrow> svc_type option"
  ace_names :: "'r \<Rightarrow> string list"
  ace_directive :: "string \<Rightarrow> errno \<Rightarrow> 'r \<Rightarrow> int \<times> errno \<times> 'r"
  ace_active :: "string \<Rightarrow> bool \<Rightarrow> 'r \<Rightarrow> 'r"

record 'r gestalt =
  repo :: 'r
  svc_descriptors :: "string \<rightharpoonup> svc_desc"

section \<open>Activities\<close>

datatype activity =
    LoadStatic svc_desc
  | LoadDynamic svc_desc
  | Suspend string
  | Resume string
  | Remove string

definition load_directive :: "bool \<Rightarrow> bool \<Rightarrow> svc_desc \<Rightarrow> string" where
  "load_directive cl dyn sd =
     (if dyn then dynamic_directive cl (svc_ident sd) (libpathname sd) (objectclass sd) (parameters sd)
      else static_directive cl (svc_ident sd) (parameters sd))"

text \<open>\<open>run\<close> of the activities: the new container, \<^verbatim>\<open>result_\<close> and \<^verbatim>\<open>error_\<close>; \<open>err\<close> is the thread's error number before.\<close>

definition load_run :: "'r ace \<Rightarrow> bool \<Rightarrow> bool \<Rightarrow> svc_desc \<Rightarrow> errno \<Rightarrow> 'r gestalt \<Rightarrow> 'r gestalt \<times> int \<times> errno" where
  "load_run R cl dyn sd err g =
     (case ace_find R (repo g) (svc_ident sd) of
        Some ty \<Rightarrow> (g, - 1, EEXIST)
      | None \<Rightarrow>
          (case ace_directive R (c_str (load_directive cl dyn sd)) err (repo g) of (rc, err', r') \<Rightarrow>
             if rc \<noteq> 0 then (g\<lparr>repo := r'\<rparr>, rc, err')
             else (g\<lparr>repo := r', svc_descriptors := (case svc_descriptors g (svc_ident sd) of
                     Some d \<Rightarrow> svc_descriptors g
                   | None \<Rightarrow> (svc_descriptors g)(svc_ident sd \<mapsto> sd\<lparr>loadflags := loadflags sd OR LOAD_ACTIVE\<rparr>))\<rparr>, rc, err')))"

text \<open>Suspending (\<open>on\<close> false) and resuming (\<open>on\<close> true) have the same shape.\<close>

definition toggle_test :: "'r ace \<Rightarrow> bool \<Rightarrow> string \<Rightarrow> 'r gestalt \<Rightarrow> (int \<times> errno) option" where
  "toggle_test R on ident g =
     (case ace_find R (repo g) ident of
        None \<Rightarrow> Some (- 1, EEXIST)
      | Some ty \<Rightarrow>
          if fini_called ty then Some (- 1, EACCES)
          else if active ty = on then Some (0, E_NONE)
          else None)"

definition toggle_do :: "'r ace \<Rightarrow> bool \<Rightarrow> bool \<Rightarrow> string \<Rightarrow> errno \<Rightarrow> 'r gestalt \<Rightarrow> 'r gestalt \<times> int \<times> errno" where
  "toggle_do R cl on ident err g =
     (case ace_directive R (c_str ((if on then resume_directive else suspend_directive) cl ident)) err (repo g) of (rc, err', r') \<Rightarrow>
        if rc \<noteq> 0 then (g\<lparr>repo := ace_active R ident (\<not> on) r'\<rparr>, rc, if err' = EINVAL then ENOTSUP else err')
        else (g\<lparr>repo := r'\<rparr>, rc, err'))"

definition toggle_flag :: "bool \<Rightarrow> string \<Rightarrow> 'r gestalt \<Rightarrow> 'r gestalt" where
  "toggle_flag on ident g =
     (case svc_descriptors g ident of
        None \<Rightarrow> g
      | Some d \<Rightarrow> g\<lparr>svc_descriptors := (svc_descriptors g)(ident \<mapsto>
          d\<lparr>loadflags := if on then loadflags d OR LOAD_ACTIVE else loadflags d AND NOT LOAD_ACTIVE\<rparr>)\<rparr>)"

definition toggle_run :: "'r ace \<Rightarrow> bool \<Rightarrow> bool \<Rightarrow> string \<Rightarrow> errno \<Rightarrow> 'r gestalt \<Rightarrow> 'r gestalt \<times> int \<times> errno" where
  "toggle_run R cl on ident err g =
     (case toggle_test R on ident g of
        Some (rc, e) \<Rightarrow> (g, rc, e)
      | None \<Rightarrow>
          (case toggle_do R cl on ident err g of (g', rc, e) \<Rightarrow> if rc \<noteq> 0 then (g', rc, e) else (toggle_flag on ident g', rc, e)))"

definition remove_run :: "'r ace \<Rightarrow> bool \<Rightarrow> string \<Rightarrow> errno \<Rightarrow> 'r gestalt \<Rightarrow> 'r gestalt \<times> int \<times> errno" where
  "remove_run R cl ident err g =
     (case ace_find R (repo g) ident of
        None \<Rightarrow> (g, - 1, EEXIST)
      | Some ty \<Rightarrow>
          if fini_called ty then (g, - 1, EACCES)
          else case ace_directive R (c_str (remove_directive cl ident)) err (repo g) of (rc, err', r') \<Rightarrow>
            let known = svc_descriptors g ident \<noteq> None;
                val = (if known then err' else E_NONE)
            in (g\<lparr>repo := r', svc_descriptors := (svc_descriptors g)(ident := None)\<rparr>,
                if val = E_NONE \<or> val = EINVAL then 0 else rc,
                if known then err' else ENOENT))"

fun activity_run :: "'r ace \<Rightarrow> bool \<Rightarrow> activity \<Rightarrow> errno \<Rightarrow> 'r gestalt \<Rightarrow> 'r gestalt \<times> int \<times> errno" where
  "activity_run R cl (LoadStatic sd) = load_run R cl False sd"
| "activity_run R cl (LoadDynamic sd) = load_run R cl True sd"
| "activity_run R cl (Suspend ident) = toggle_run R cl False ident"
| "activity_run R cl (Resume ident) = toggle_run R cl True ident"
| "activity_run R cl (Remove ident) = remove_run R cl ident"

section \<open>Requests\<close>

text \<open>
  What happens to a request: the executor refuses it, the lock cannot be had, the result comes too late for
  the caller, or in time.  An activity starts with the error number \<open>ENOEXEC\<close>, which the pool thread sets.
\<close>

datatype chance = Refused | No_lock | Late | In_time

definition wait_result :: "bool \<Rightarrow> int \<Rightarrow> errno \<Rightarrow> errno \<Rightarrow> int \<times> errno" where
  "wait_result acquired result error err =
     (if acquired then (result, if result \<noteq> 0 then error else err) else (- 1, ETIME))"

definition process_svc_action ::
  "'r ace \<Rightarrow> bool \<Rightarrow> chance \<Rightarrow> activity \<Rightarrow> errno \<Rightarrow> 'r gestalt \<Rightarrow> 'r gestalt \<times> int \<times> errno" where
  "process_svc_action R cl ch a err g =
     (case ch of
        Refused \<Rightarrow> (g, - 1, ENOEXEC)
      | No_lock \<Rightarrow> (g, wait_result True (- 1) ENOLCK err)
      | Late \<Rightarrow> (case activity_run R cl a ENOEXEC g of (g', res, e) \<Rightarrow> (g', wait_result False res e err))
      | In_time \<Rightarrow> (case activity_run R cl a ENOEXEC g of (g', res, e) \<Rightarrow> (g', wait_result True res e err)))"

text \<open>The request of an activity by the public operations: 0, or -1 with an error number.\<close>

definition svc_request :: "'r ace \<Rightarrow> bool \<Rightarrow> chance \<Rightarrow> activity \<Rightarrow> errno \<Rightarrow> 'r gestalt \<Rightarrow> 'r gestalt \<times> int \<times> errno" where
  "svc_request R cl ch a err g =
     (case process_svc_action R cl ch a err g of (g', rc, e) \<Rightarrow> (g', if rc \<noteq> 0 then - 1 else 0, e))"

definition suspendService :: "'r ace \<Rightarrow> bool \<Rightarrow> chance \<Rightarrow> string \<Rightarrow> errno \<Rightarrow> 'r gestalt \<Rightarrow> 'r gestalt \<times> int \<times> errno" where
  "suspendService R cl ch ident err g =
     (let i = trim_string (CHR '' '') ident in
      if bad_ident i then (g, - 1, EINVAL) else svc_request R cl ch (Suspend i) err g)"

definition resumeService :: "'r ace \<Rightarrow> bool \<Rightarrow> chance \<Rightarrow> string \<Rightarrow> errno \<Rightarrow> 'r gestalt \<Rightarrow> 'r gestalt \<times> int \<times> errno" where
  "resumeService R cl ch ident err g =
     (let i = trim_string (CHR '' '') ident in
      if bad_ident i then (g, - 1, EINVAL) else svc_request R cl ch (Resume i) err g)"

definition removeService :: "'r ace \<Rightarrow> bool \<Rightarrow> chance \<Rightarrow> string \<Rightarrow> errno \<Rightarrow> 'r gestalt \<Rightarrow> 'r gestalt \<times> int \<times> errno" where
  "removeService R cl ch ident err g =
     (let i = trim_string (CHR '' '') ident in
      if bad_ident i then (g, - 1, EINVAL) else svc_request R cl ch (Remove i) err g)"

text \<open>The descriptors that the loads build; \<open>None\<close> is an invalid argument.  \<open>params\<close> is the formatted parameter text.\<close>

definition static_desc :: "host \<Rightarrow> string \<Rightarrow> string \<Rightarrow> svc_desc" where
  "static_desc h ident params =
     \<lparr>svc_ident = ident, libpathname = [], objectclass = [], parameters = params, loadtime = gettimeofday h,
      loadflags = LOAD_STATIC OR LOAD_OBJECT\<rparr>"

definition loadStatic ::
  "nat \<Rightarrow> host \<Rightarrow> props \<Rightarrow> 'r ace \<Rightarrow> bool \<Rightarrow> chance \<Rightarrow> string \<Rightarrow> string \<Rightarrow> errno \<Rightarrow> 'r gestalt \<Rightarrow> ('r gestalt \<times> int \<times> errno) run_result" where
  "loadStatic n h ps R cl ch ident params err g =
     (let i = trim_string (CHR '' '') ident in
      if bad_ident i then Some (ps, Returns (g, - 1, EINVAL))
      else case format_args n h ps params True True of
        None \<Rightarrow> None
      | Some (ps', r) \<Rightarrow> Some (ps', and_then r (\<lambda>p. Returns (svc_request R cl ch (LoadStatic (static_desc h i p)) err g))))"

definition dynamic_lib :: "host \<Rightarrow> string \<Rightarrow> string" where
  "dynamic_lib h lib = (let l = parse_args h lib True True in lib_loop l (length l))"

definition dynamic_class :: "string \<Rightarrow> string option" where
  "dynamic_class cls =
     (let c = trim_string (CHR '' '') cls in
      if (if c \<noteq> [] then \<exists>p \<in> set_option (find_from (CHR '' '') c 0). p > 0 else True) then None else Some c)"

definition dynamic_desc :: "host \<Rightarrow> string \<Rightarrow> string \<Rightarrow> string \<Rightarrow> string \<Rightarrow> svc_desc" where
  "dynamic_desc h ident lib cls params =
     \<lparr>svc_ident = ident, libpathname = quote_lib lib, objectclass = cls, parameters = params, loadtime = gettimeofday h,
      loadflags = LOAD_DYNAMIC OR LOAD_OBJECT\<rparr>"

definition loadDynamic ::
  "nat \<Rightarrow> host \<Rightarrow> props \<Rightarrow> 'r ace \<Rightarrow> bool \<Rightarrow> chance \<Rightarrow> string \<Rightarrow> string \<Rightarrow> string \<Rightarrow> string \<Rightarrow> errno \<Rightarrow> 'r gestalt \<Rightarrow> ('r gestalt \<times> int \<times> errno) run_result" where
  "loadDynamic n h ps R cl ch ident lib cls params err g =
     (let i = trim_string (CHR '' '') ident in
      if bad_ident i then Some (ps, Returns (g, - 1, EINVAL))
      else case dynamic_class cls of
        None \<Rightarrow> Some (ps, Returns (g, - 1, EINVAL))
      | Some c \<Rightarrow>
          if parse_args h lib True True = [] \<or> dynamic_lib h lib = [] then Some (ps, Returns (g, - 1, EINVAL))
          else case format_args n h ps params True True of
            None \<Rightarrow> None
          | Some (ps', r) \<Rightarrow> Some (ps', and_then r (\<lambda>p.
              Returns (svc_request R cl ch (LoadDynamic (dynamic_desc h i (dynamic_lib h lib) c p)) err g))))"

section \<open>All services\<close>

definition list_service_repository :: "'r ace \<Rightarrow> bool \<Rightarrow> 'r gestalt \<Rightarrow> svc_desc list" where
  "list_service_repository R reverse g =
     (let found = List.map_filter (svc_descriptors g) (ace_names R (repo g)) in if reverse then rev found else found)"

text \<open>The loop over the list, with one chance for each service.\<close>

fun count_fails :: "(svc_desc \<Rightarrow> errno \<Rightarrow> 'r gestalt \<Rightarrow> 'r gestalt \<times> int \<times> errno) \<Rightarrow> svc_desc list \<Rightarrow> errno \<Rightarrow> 'r gestalt \<Rightarrow> 'r gestalt \<times> nat" where
  "count_fails f [] err g = (g, 0)"
| "count_fails f (d # ds) err g =
     (case f d err g of (g', rc, e) \<Rightarrow>
        case count_fails f ds e g' of (g'', fails) \<Rightarrow> (g'', if rc < 0 then Suc fails else fails))"

definition suspendServiceAll :: "'r ace \<Rightarrow> bool \<Rightarrow> (string \<Rightarrow> chance) \<Rightarrow> errno \<Rightarrow> 'r gestalt \<Rightarrow> 'r gestalt \<times> nat" where
  "suspendServiceAll R cl ch err g =
     count_fails (\<lambda>d. suspendService R cl (ch (svc_ident d)) (svc_ident d)) (list_service_repository R True g) err g"

definition resumeServiceAll :: "'r ace \<Rightarrow> bool \<Rightarrow> (string \<Rightarrow> chance) \<Rightarrow> errno \<Rightarrow> 'r gestalt \<Rightarrow> 'r gestalt \<times> nat" where
  "resumeServiceAll R cl ch err g =
     count_fails (\<lambda>d. resumeService R cl (ch (svc_ident d)) (svc_ident d)) (list_service_repository R True g) err g"

definition removeServiceAll :: "'r ace \<Rightarrow> bool \<Rightarrow> (string \<Rightarrow> chance) \<Rightarrow> errno \<Rightarrow> 'r gestalt \<Rightarrow> 'r gestalt \<times> nat" where
  "removeServiceAll R cl ch err g =
     count_fails (\<lambda>d. removeService R cl (ch (svc_ident d)) (svc_ident d)) (list_service_repository R True g) err g"

section \<open>Interleaving of activities\<close>

text \<open>
  Every request makes a new activity with a number of its own.  A step of an activity is the whole section of
  an exclusive lock, or one part of a shared one; \<open>locked\<close> false is a failure of the lock.
\<close>

datatype act_pc =
    A_none
  | A_queued activity
  | A_toggle_do bool string
  | A_toggle_flag bool string int errno
  | A_finished int errno

record 'r gsys =
  gst :: "'r gestalt"
  acts :: "nat \<Rightarrow> act_pc"
  nacts :: nat

datatype gest_event =
    Req_static string string
  | Req_dynamic string string string string
  | Req_toggle bool string
  | Req_remove string
  | Go_act nat bool

fun reader :: "act_pc \<Rightarrow> bool" where
  "reader (A_toggle_do on i) = True"
| "reader (A_toggle_flag on i rc e) = True"
| "reader _ = False"

definition submit :: "activity \<Rightarrow> 'r gsys \<Rightarrow> 'r gsys" where
  "submit a s = s\<lparr>acts := (acts s)(nacts s := A_queued a), nacts := Suc (nacts s)\<rparr>"

definition act_goto :: "nat \<Rightarrow> act_pc \<Rightarrow> 'r gestalt \<Rightarrow> 'r gsys \<Rightarrow> 'r gsys" where
  "act_goto n l g s = s\<lparr>gst := g, acts := (acts s)(n := l)\<rparr>"

definition act_start :: "'r ace \<Rightarrow> bool \<Rightarrow> nat \<Rightarrow> activity \<Rightarrow> 'r gsys \<Rightarrow> 'r gsys option" where
  "act_start R cl n a s =
     (let toggle = (\<lambda>on i. case toggle_test R on i (gst s) of
         Some (rc, e) \<Rightarrow> Some (act_goto n (A_finished rc e) (gst s) s)
       | None \<Rightarrow> Some (act_goto n (A_toggle_do on i) (gst s) s))
      in case a of
        Suspend i \<Rightarrow> toggle False i
      | Resume i \<Rightarrow> toggle True i
      | _ \<Rightarrow>
          if list_ex (\<lambda>k. reader (acts s k)) [0..<nacts s] then None
          else case activity_run R cl a ENOEXEC (gst s) of (g, rc, e) \<Rightarrow> Some (act_goto n (A_finished rc e) g s))"

definition act_step :: "'r ace \<Rightarrow> bool \<Rightarrow> nat \<Rightarrow> bool \<Rightarrow> 'r gsys \<Rightarrow> 'r gsys option" where
  "act_step R cl n locked s =
     (case acts s n of
        A_queued a \<Rightarrow> if locked then act_start R cl n a s else Some (act_goto n (A_finished (- 1) ENOLCK) (gst s) s)
      | A_toggle_do on i \<Rightarrow>
          (case toggle_do R cl on i ENOEXEC (gst s) of (g, rc, e) \<Rightarrow>
             Some (act_goto n (if rc \<noteq> 0 then A_finished rc e else A_toggle_flag on i rc e) g s))
      | A_toggle_flag on i rc e \<Rightarrow> Some (act_goto n (A_finished rc e) (toggle_flag on i (gst s)) s)
      | _ \<Rightarrow> None)"

text \<open>A request with invalid arguments returns at once.\<close>

definition gest_step :: "'r ace \<Rightarrow> bool \<Rightarrow> host \<Rightarrow> 'r gsys \<Rightarrow> gest_event \<Rightarrow> 'r gsys option" where
  "gest_step R cl h s e =
     (case e of
        Req_static ident params \<Rightarrow>
          let i = trim_string (CHR '' '') ident in
          Some (if bad_ident i then s else submit (LoadStatic (static_desc h i params)) s)
      | Req_dynamic ident lib cls params \<Rightarrow>
          let i = trim_string (CHR '' '') ident in
          Some (if bad_ident i then s
            else case dynamic_class cls of
              None \<Rightarrow> s
            | Some c \<Rightarrow> if dynamic_lib h lib = [] then s
                else submit (LoadDynamic (dynamic_desc h i (dynamic_lib h lib) c params)) s)
      | Req_toggle on ident \<Rightarrow>
          let i = trim_string (CHR '' '') ident in
          Some (if bad_ident i then s else submit (if on then Resume i else Suspend i) s)
      | Req_remove ident \<Rightarrow>
          let i = trim_string (CHR '' '') ident in
          Some (if bad_ident i then s else submit (Remove i) s)
      | Go_act n locked \<Rightarrow> act_step R cl n locked s)"

definition gest_new :: "'r \<Rightarrow> 'r gsys" where
  "gest_new r = \<lparr>gst = \<lparr>repo = r, svc_descriptors = Map.empty\<rparr>, acts = (\<lambda>_. A_none), nacts = 0\<rparr>"

section \<open>The library path\<close>

definition strip_junk :: "string \<Rightarrow> string" where
  "strip_junk s = rev (dropWhile lib_junk (rev (dropWhile lib_junk s)))"

lemma not_junk_uncntrl: "\<not> lib_junk x \<Longrightarrow> uncntrl_char x = x"
  by (simp add: lib_junk_def uncntrl_char_def)

lemma strip_junk_Cons: "lib_junk x \<Longrightarrow> strip_junk (x # xs) = strip_junk xs"
  by (simp add: strip_junk_def)

lemma strip_junk_snoc: "\<not> lib_junk (hd s) \<Longrightarrow> s \<noteq> [] \<Longrightarrow> lib_junk x \<Longrightarrow> strip_junk (s @ [x]) = strip_junk s"
  by (cases s) (simp_all add: strip_junk_def)

lemma strip_junk_done: "s \<noteq> [] \<Longrightarrow> \<not> lib_junk (hd s) \<Longrightarrow> \<not> lib_junk (last s) \<Longrightarrow> strip_junk s = s"
  using dropWhile_eq_self_iff [of lib_junk s] dropWhile_eq_self_iff [of lib_junk "rev s"] by (simp add: strip_junk_def hd_rev)

lemma lib_loop_strips: "lib_loop s (length s) = map uncntrl_char (strip_junk s)"
proof (induction "length s" arbitrary: s)
  case 0
  then show ?case by (simp add: strip_junk_def)
next
  case (Suc n)
  then obtain x xs where s: "s = x # xs" by (cases s) auto
  show ?case
  proof (cases "lib_junk x \<or> xs = []")
    case True
    then show ?thesis using Suc(1) [of xs] Suc(2)
      by (auto simp: s erase1_def char_at_def strip_junk_Cons) (auto simp: strip_junk_def not_junk_uncntrl)
  next
    case False
    then obtain ys y where xs: "xs = ys @ [y]" by (cases xs rule: rev_cases) auto
    have at: "char_at s (length xs) = y" "erase1 s (length xs) = x # ys" by (simp_all add: s xs char_at_def erase1_def nth_append)
    have step: "lib_loop s (length s) = (if lib_junk y then lib_loop (x # ys) (length xs) else clean_from (length ys) s)"
      using False at by (simp add: s xs char_at_def)
    show ?thesis
    proof (cases "lib_junk y")
      case True
      then show ?thesis using Suc(1) [of "x # ys"] Suc(2) step False strip_junk_snoc [of "x # ys" y] by (simp add: s xs)
    next
      case False
      then have "clean_from (length ys) s = map uncntrl_char (x # ys) @ [y]" by (subst clean_from_eq) (simp_all add: s xs)
      then show ?thesis using step False \<open>\<not> (lib_junk x \<or> xs = [])\<close> strip_junk_done [of s] by (simp add: s xs not_junk_uncntrl)
    qed
  qed
qed

lemma strip_junk_ends:
  "strip_junk s \<noteq> [] \<Longrightarrow> \<not> lib_junk (hd (strip_junk s)) \<and> \<not> lib_junk (last (strip_junk s))"
proof -
  let ?t = "dropWhile lib_junk s" and ?u = "dropWhile lib_junk (rev (dropWhile lib_junk s))"
  assume "strip_junk s \<noteq> []"
  then have u: "?u \<noteq> []" and t: "?t \<noteq> []" by (auto simp: strip_junk_def simp del: dropWhile_eq_Nil_conv)
  have "last ?u = hd ?t"
    using u t by (metis dropWhile_append3 hd_rev last_rev last_appendR rev_is_Nil_conv takeWhile_dropWhile_id)
  then show ?thesis using u t hd_dropWhile [OF u] hd_dropWhile [OF t] by (simp add: strip_junk_def hd_rev last_rev)
qed

definition clean_lib :: "string \<Rightarrow> bool" where
  "clean_lib l \<longleftrightarrow> l \<noteq> [] \<and> \<not> lib_junk (hd l) \<and> \<not> lib_junk (last l) \<and> list_all (\<lambda>c. \<not> c_iscntrl c) l"

lemma dynamic_lib_clean: "dynamic_lib h lib \<noteq> [] \<Longrightarrow> clean_lib (dynamic_lib h lib)"
proof -
  let ?l = "parse_args h lib True True"
  have d: "dynamic_lib h lib = map uncntrl_char (strip_junk ?l)" by (simp add: dynamic_lib_def lib_loop_strips)
  assume "dynamic_lib h lib \<noteq> []"
  then have "strip_junk ?l \<noteq> []" by (simp add: d)
  with strip_junk_ends [OF this] show ?thesis
    by (auto simp: d clean_lib_def hd_map last_map not_junk_uncntrl list_all_iff) (simp add: uncntrl_char_def c_iscntrl_def c_code_def split: if_splits)
qed

section \<open>Well-formed descriptors\<close>

definition good_ident :: "string \<Rightarrow> bool" where
  "good_ident i \<longleftrightarrow> \<not> bad_ident i \<and> list_all (\<lambda>c. \<not> c_iscntrl c) i"

lemma good_ident_trim: "\<not> bad_ident (trim_string c s) \<Longrightarrow> good_ident (trim_string c s)"
  using trim_string_trimmed(2) [of c s] by (simp add: good_ident_def list_all_iff)

text \<open>An identifier that was accepted once is accepted again unchanged.\<close>

lemma good_ident_chars:
  assumes "good_ident i" "c \<in> set i"
  shows "c \<noteq> CHR '' ''" "c \<noteq> CHR 0x22" "c \<noteq> CHR 0x00" "\<not> c_isspace c" "c \<noteq> CHR 0x27"
proof -
  have *: "c \<notin> set INVALID_IDENT_CHARS" "\<not> c_iscntrl c"
    using assms by (auto simp: good_ident_def bad_ident_def list_all_iff list_ex_iff)
  then show 1: "c \<noteq> CHR '' ''" "c \<noteq> CHR 0x22" "c \<noteq> CHR 0x27" by (auto simp: INVALID_IDENT_CHARS_def)
  show 2: "c \<noteq> CHR 0x00" using * by (auto simp: c_iscntrl_def c_code_def)
  show "\<not> c_isspace c"
  proof
    assume "c_isspace c"
    then have "of_char c = (32 :: nat)" using * by (auto simp: c_isspace_def c_iscntrl_def c_code_def)
    then have "char_of (of_char c :: nat) = (char_of (32 :: nat) :: char)" by (rule arg_cong)
    moreover have "(char_of (32 :: nat) :: char) = CHR '' ''" by code_simp
    ultimately have "c = CHR '' ''" by (simp only: char_of_char)
    with 1 show False by simp
  qed
qed

lemma good_ident_fixed: "good_ident i \<Longrightarrow> trim_string (CHR '' '') i = i"
proof (rule trim_string_fixed)
  assume g: "good_ident i"
  then show "\<forall>x \<in> set i. \<not> c_iscntrl x" by (simp add: good_ident_def list_all_iff)
  then show "trimmed (CHR '' '') i"
    using good_ident_chars [OF g] by (cases "i = []") (auto simp: trimmed_def blank_def)
qed

definition wf_static :: "svc_desc \<Rightarrow> bool" where
  "wf_static d \<longleftrightarrow> libpathname d = [] \<and> objectclass d = [] \<and> loadflags d OR LOAD_ACTIVE = LOAD_STATIC OR LOAD_OBJECT OR LOAD_ACTIVE"

definition wf_dynamic :: "svc_desc \<Rightarrow> bool" where
  "wf_dynamic d \<longleftrightarrow> (\<exists>l. clean_lib l \<and> libpathname d = quote_lib l) \<and> objectclass d \<noteq> [] \<and> CHR '' '' \<notin> set (objectclass d) \<and>
     loadflags d OR LOAD_ACTIVE = LOAD_DYNAMIC OR LOAD_OBJECT OR LOAD_ACTIVE"

definition wf_desc :: "string \<Rightarrow> svc_desc \<Rightarrow> bool" where
  "wf_desc i d \<longleftrightarrow> svc_ident d = i \<and> good_ident i \<and> (wf_static d \<or> wf_dynamic d)"

definition wf_gestalt :: "'r gestalt \<Rightarrow> bool" where
  "wf_gestalt g \<longleftrightarrow> (\<forall>i d. svc_descriptors g i = Some d \<longrightarrow> wf_desc i d)"

lemma wf_gestaltD: "wf_gestalt g \<Longrightarrow> svc_descriptors g i = Some d \<Longrightarrow> wf_desc i d"
  by (simp add: wf_gestalt_def)

fun good_activity :: "activity \<Rightarrow> bool" where
  "good_activity (LoadStatic d) = (good_ident (svc_ident d) \<and> wf_static d)"
| "good_activity (LoadDynamic d) = (good_ident (svc_ident d) \<and> wf_dynamic d)"
| "good_activity (Suspend i) = good_ident i"
| "good_activity (Resume i) = good_ident i"
| "good_activity (Remove i) = good_ident i"

lemma flag_absorb:
  fixes f a :: "32 word"
  shows "(f OR a) OR a = f OR a" "(f AND NOT a) OR a = f OR a"
  by (rule bit_eqI, auto simp: bit_simps)+

lemma wf_desc_flags:
  "wf_desc i d \<Longrightarrow> wf_desc i (d\<lparr>loadflags := loadflags d OR LOAD_ACTIVE\<rparr>)"
  "wf_desc i d \<Longrightarrow> wf_desc i (d\<lparr>loadflags := loadflags d AND NOT LOAD_ACTIVE\<rparr>)"
  by (auto simp: wf_desc_def wf_static_def wf_dynamic_def flag_absorb)

lemma static_desc_good: "good_ident i \<Longrightarrow> good_activity (LoadStatic (static_desc h i p))"
  by (simp add: static_desc_def wf_static_def or.assoc)

lemma dynamic_class_good: "dynamic_class cls = Some c \<Longrightarrow> c \<noteq> [] \<and> CHR '' '' \<notin> set c"
proof -
  let ?t = "trim_string (CHR '' '') cls"
  assume "dynamic_class cls = Some c"
  then have c: "c = ?t" "c \<noteq> []" "\<forall>p. find_from (CHR '' '') c 0 = Some p \<longrightarrow> p = 0"
    by (auto simp: dynamic_class_def Let_def split: if_splits)
  have "hd c \<noteq> CHR '' ''" using trim_string_trimmed(1) [of "CHR '' ''" cls] c(1,2)
    by (auto simp: trimmed_def blank_def c_isspace_def c_code_def)
  then show ?thesis using c(2,3) find_from_bounds [of "CHR '' ''" c 0]
    by (cases c) (auto simp: find_from_def split: if_splits)
qed

lemma dynamic_desc_good:
  "good_ident i \<Longrightarrow> dynamic_class cls = Some c \<Longrightarrow> dynamic_lib h lib \<noteq> [] \<Longrightarrow>
   good_activity (LoadDynamic (dynamic_desc h i (dynamic_lib h lib) c p))"
  using dynamic_class_good [of cls c] dynamic_lib_clean [of h lib]
  by (auto simp: dynamic_desc_def wf_dynamic_def or.assoc)

text \<open>Every activity keeps the descriptors well-formed, whatever the repository does.\<close>

lemma load_run_descs:
  assumes "load_run R cl dyn sd err g = (g', rc, e)"
  shows "svc_descriptors g' = svc_descriptors g \<or>
    rc = 0 \<and> svc_descriptors g (svc_ident sd) = None \<and>
      svc_descriptors g' = (svc_descriptors g)(svc_ident sd \<mapsto> sd\<lparr>loadflags := loadflags sd OR LOAD_ACTIVE\<rparr>)"
  using assms by (auto simp: load_run_def split: option.splits prod.splits if_splits)

lemma toggle_flag_descs:
  "svc_descriptors (toggle_flag on i g) = svc_descriptors g \<or>
   (\<exists>d. svc_descriptors g i = Some d \<and> svc_descriptors (toggle_flag on i g) = (svc_descriptors g)(i \<mapsto>
      d\<lparr>loadflags := if on then loadflags d OR LOAD_ACTIVE else loadflags d AND NOT LOAD_ACTIVE\<rparr>))"
  by (auto simp: toggle_flag_def split: option.splits)

lemma toggle_do_descs: "toggle_do R cl on i err g = (g', rc, e) \<Longrightarrow> svc_descriptors g' = svc_descriptors g"
  by (auto simp: toggle_do_def split: prod.splits if_splits)

lemma wf_toggle_flag: "wf_gestalt g \<Longrightarrow> wf_gestalt (toggle_flag on i g)"
  using toggle_flag_descs [of on i g] wf_desc_flags unfolding wf_gestalt_def by (auto split: if_splits)

lemma wf_same: "wf_gestalt g \<Longrightarrow> svc_descriptors g' = svc_descriptors g \<Longrightarrow> wf_gestalt g'"
  by (simp add: wf_gestalt_def)

lemma wf_load:
  assumes "load_run R cl dyn sd err g = (g', rc, e)" "wf_gestalt g" "good_ident (svc_ident sd)" "wf_static sd \<or> wf_dynamic sd"
  shows "wf_gestalt g'"
proof -
  have "wf_desc (svc_ident sd) sd" using assms(3,4) by (simp add: wf_desc_def)
  then have "wf_desc (svc_ident sd) (sd\<lparr>loadflags := loadflags sd OR LOAD_ACTIVE\<rparr>)" by (rule wf_desc_flags)
  then show ?thesis using load_run_descs [OF assms(1)] assms(2) by (auto simp: wf_gestalt_def split: if_splits)
qed

lemma wf_toggle_run: "toggle_run R cl on i err g = (g', rc, e) \<Longrightarrow> wf_gestalt g \<Longrightarrow> wf_gestalt g'"
  by (auto simp: toggle_run_def split: option.splits prod.splits if_splits
      intro: wf_toggle_flag wf_same [OF _ toggle_do_descs])

lemma wf_remove_run: "remove_run R cl i err g = (g', rc, e) \<Longrightarrow> wf_gestalt g \<Longrightarrow> wf_gestalt g'"
  by (auto simp: remove_run_def Let_def wf_gestalt_def split: option.splits prod.splits if_splits)

lemma wf_activity_run:
  "activity_run R cl a err g = (g', rc, e) \<Longrightarrow> good_activity a \<Longrightarrow> wf_gestalt g \<Longrightarrow> wf_gestalt g'"
  by (cases a) (auto dest: wf_load wf_toggle_run wf_remove_run)

section \<open>What the repository is relied upon for\<close>

text \<open>
  The documented behaviour of ACE's repository: its iterator visits every entry once, a successful load
  directive enters the service, a remove directive takes away no other service, and
  the other directives take away none.  Services may bring in others.
\<close>

definition ace_ok :: "'r ace \<Rightarrow> bool \<Rightarrow> bool" where
  "ace_ok R cl \<longleftrightarrow>
     (\<forall>r. distinct (ace_names R r) \<and> (\<forall>i. i \<in> set (ace_names R r) \<longleftrightarrow> ace_find R r i \<noteq> None)) \<and>
     (\<forall>sd dyn err r rc e r'. good_ident (svc_ident sd) \<and> ace_directive R (c_str (load_directive cl dyn sd)) err r = (rc, e, r') \<longrightarrow>
        (rc = 0 \<longrightarrow> ace_find R r' (svc_ident sd) \<noteq> None) \<and> (\<forall>j. ace_find R r j \<noteq> None \<longrightarrow> ace_find R r' j \<noteq> None)) \<and>
     (\<forall>on i err r rc e r'. good_ident i \<and>
        ace_directive R (c_str ((if on then resume_directive else suspend_directive) cl i)) err r = (rc, e, r') \<longrightarrow>
        (\<forall>j. ace_find R r j \<noteq> None \<longrightarrow> ace_find R r' j \<noteq> None)) \<and>
     (\<forall>i err r rc e r'. good_ident i \<and> ace_directive R (c_str (remove_directive cl i)) err r = (rc, e, r') \<longrightarrow>
        (\<forall>j. j \<noteq> i \<and> ace_find R r j \<noteq> None \<longrightarrow> ace_find R r' j \<noteq> None)) \<and>
     (\<forall>i b r j. ace_find R r j \<noteq> None \<longrightarrow> ace_find R (ace_active R i b r) j \<noteq> None)"

lemma ace_okD:
  assumes "ace_ok R cl"
  shows "distinct (ace_names R r)" "i \<in> set (ace_names R r) \<longleftrightarrow> ace_find R r i \<noteq> None"
    "good_ident (svc_ident sd) \<Longrightarrow> ace_directive R (c_str (load_directive cl dyn sd)) err r = (rc, e, r') \<Longrightarrow> rc = 0 \<Longrightarrow> ace_find R r' (svc_ident sd) \<noteq> None"
    "good_ident (svc_ident sd) \<Longrightarrow> ace_directive R (c_str (load_directive cl dyn sd)) err r = (rc, e, r') \<Longrightarrow> ace_find R r j \<noteq> None \<Longrightarrow> ace_find R r' j \<noteq> None"
    "good_ident i \<Longrightarrow> ace_directive R (c_str ((if on then resume_directive else suspend_directive) cl i)) err r = (rc, e, r') \<Longrightarrow>
       ace_find R r j \<noteq> None \<Longrightarrow> ace_find R r' j \<noteq> None"
    "good_ident i \<Longrightarrow> ace_directive R (c_str (remove_directive cl i)) err r = (rc, e, r') \<Longrightarrow> j \<noteq> i \<Longrightarrow> ace_find R r j \<noteq> None \<Longrightarrow> ace_find R r' j \<noteq> None"
    "ace_find R r j \<noteq> None \<Longrightarrow> ace_find R (ace_active R i b r) j \<noteq> None"
proof -
  note a = assms [unfolded ace_ok_def]
  note b = conjunct2 [OF a] note c = conjunct2 [OF b] note d = conjunct2 [OF c]
  show "distinct (ace_names R r)" "i \<in> set (ace_names R r) \<longleftrightarrow> ace_find R r i \<noteq> None" using conjunct1 [OF a] by simp_all
  show "good_ident (svc_ident sd) \<Longrightarrow> ace_directive R (c_str (load_directive cl dyn sd)) err r = (rc, e, r') \<Longrightarrow> rc = 0 \<Longrightarrow> ace_find R r' (svc_ident sd) \<noteq> None"
    "good_ident (svc_ident sd) \<Longrightarrow> ace_directive R (c_str (load_directive cl dyn sd)) err r = (rc, e, r') \<Longrightarrow> ace_find R r j \<noteq> None \<Longrightarrow> ace_find R r' j \<noteq> None"
    using conjunct1 [OF b] by blast+
  show "good_ident i \<Longrightarrow> ace_directive R (c_str ((if on then resume_directive else suspend_directive) cl i)) err r = (rc, e, r') \<Longrightarrow>
       ace_find R r j \<noteq> None \<Longrightarrow> ace_find R r' j \<noteq> None"
    using conjunct1 [OF c, rule_format, of i on err r rc e r' j] by simp
  show "good_ident i \<Longrightarrow> ace_directive R (c_str (remove_directive cl i)) err r = (rc, e, r') \<Longrightarrow> j \<noteq> i \<Longrightarrow> ace_find R r j \<noteq> None \<Longrightarrow> ace_find R r' j \<noteq> None"
    using conjunct1 [OF d] by blast
  show "ace_find R r j \<noteq> None \<Longrightarrow> ace_find R (ace_active R i b r) j \<noteq> None" using conjunct2 [OF d] by blast
qed

text \<open>The container knows only services that are in the repository.\<close>

definition known_present :: "'r ace \<Rightarrow> 'r gestalt \<Rightarrow> bool" where
  "known_present R g \<longleftrightarrow> (\<forall>i. svc_descriptors g i \<noteq> None \<longrightarrow> ace_find R (repo g) i \<noteq> None)"

lemma known_presentD: "known_present R g \<Longrightarrow> svc_descriptors g i \<noteq> None \<Longrightarrow> ace_find R (repo g) i \<noteq> None"
  by (simp add: known_present_def)

lemma known_load:
  assumes "ace_ok R cl" "load_run R cl dyn sd err g = (g', rc, e)" "good_ident (svc_ident sd)" "known_present R g"
  shows "known_present R g'"
proof (cases "ace_find R (repo g) (svc_ident sd)")
  case None
  obtain rc' e' r' where d: "ace_directive R (c_str (load_directive cl dyn sd)) err (repo g) = (rc', e', r')" by (metis prod_cases3)
  note k = ace_okD(3,4) [OF assms(1,3) d]
  have g: "repo g' = r'" "rc' = rc" using assms(2) None d by (auto simp: load_run_def split: if_splits)
  show ?thesis unfolding known_present_def
  proof (intro allI impI)
    fix i assume "svc_descriptors g' i \<noteq> None"
    then have "svc_descriptors g i \<noteq> None \<or> i = svc_ident sd \<and> rc = 0"
      using load_run_descs [OF assms(2)] by (auto split: if_splits)
    then show "ace_find R (repo g') i \<noteq> None" using k g known_presentD [OF assms(4), of i] by auto
  qed
next
  case (Some ty)
  then show ?thesis using assms(2,4) by (simp add: load_run_def)
qed

lemma known_toggle_do:
  assumes "ace_ok R cl" "toggle_do R cl on i err g = (g', rc, e)" "good_ident i" "known_present R g"
  shows "known_present R g'"
proof -
  obtain rc' e' r' where d: "ace_directive R (c_str ((if on then resume_directive else suspend_directive) cl i)) err (repo g) = (rc', e', r')"
    by (metis prod_cases3)
  have r: "repo g' = r' \<or> (\<exists>b. repo g' = ace_active R i b r')"
    using assms(2) d by (auto simp: toggle_do_def simp del: if_split split: if_splits)
  show ?thesis unfolding known_present_def toggle_do_descs [OF assms(2)]
    using r ace_okD(5) [OF assms(1,3) d] ace_okD(7) [OF assms(1)] known_presentD [OF assms(4)] by metis
qed

lemma known_toggle_flag: "known_present R (toggle_flag on i g) \<longleftrightarrow> known_present R g"
proof -
  have "repo (toggle_flag on i g) = repo g" by (simp add: toggle_flag_def split: option.split)
  moreover have "(svc_descriptors (toggle_flag on i g) j \<noteq> None) = (svc_descriptors g j \<noteq> None)" for j
    using toggle_flag_descs [of on i g] by (auto split: if_splits)
  ultimately show ?thesis by (simp add: known_present_def)
qed

lemma known_remove:
  assumes "ace_ok R cl" "remove_run R cl i err g = (g', rc, e)" "good_ident i" "known_present R g"
  shows "known_present R g'"
proof -
  obtain rc' e' r' where d: "ace_directive R (c_str (remove_directive cl i)) err (repo g) = (rc', e', r')" by (metis prod_cases3)
  have "g' = g \<or> repo g' = r' \<and> svc_descriptors g' = (svc_descriptors g)(i := None)"
    using assms(2) d by (auto simp: remove_run_def Let_def split: option.splits if_splits)
  then show ?thesis using assms(4) ace_okD(6) [OF assms(1,3) d] known_presentD [OF assms(4)]
    unfolding known_present_def by (metis fun_upd_apply)
qed

section \<open>Invariant\<close>

fun good_pc :: "act_pc \<Rightarrow> bool" where
  "good_pc (A_queued a) = good_activity a"
| "good_pc (A_toggle_do on i) = good_ident i"
| "good_pc (A_toggle_flag on i rc e) = good_ident i"
| "good_pc _ = True"

definition gest_inv :: "'r ace \<Rightarrow> bool \<Rightarrow> 'r gsys \<Rightarrow> bool" where
  "gest_inv R cl s \<longleftrightarrow> wf_gestalt (gst s) \<and> (\<forall>n. good_pc (acts s n)) \<and> (ace_ok R cl \<longrightarrow> known_present R (gst s))"

lemma gest_inv_new: "gest_inv R cl (gest_new r)"
  by (simp add: gest_inv_def gest_new_def wf_gestalt_def known_present_def)

lemma gest_inv_submit: "gest_inv R cl s \<Longrightarrow> good_activity a \<Longrightarrow> gest_inv R cl (submit a s)"
  by (simp add: gest_inv_def submit_def)

lemma gest_inv_goto:
  "gest_inv R cl s \<Longrightarrow> wf_gestalt g \<Longrightarrow> (ace_ok R cl \<Longrightarrow> known_present R g) \<Longrightarrow> good_pc l \<Longrightarrow> gest_inv R cl (act_goto n l g s)"
  by (simp add: gest_inv_def act_goto_def)

lemma gest_invD:
  assumes "gest_inv R cl s"
  shows "good_pc (acts s n)" "wf_gestalt (gst s)" "ace_ok R cl \<Longrightarrow> known_present R (gst s)"
  using assms by (auto simp: gest_inv_def)

lemma known_activity:
  assumes "ace_ok R cl" "activity_run R cl a err g = (g', rc, e)" "good_activity a" "known_present R g"
    "\<And>i. a \<noteq> Suspend i" "\<And>i. a \<noteq> Resume i"
  shows "known_present R g'"
  using assms by (cases a) (auto intro: known_load known_remove)

lemma act_start_inv:
  assumes "gest_inv R cl s" "act_start R cl n a s = Some s'" "good_activity a"
  shows "gest_inv R cl s'"
proof -
  note g = gest_invD [OF assms(1)]
  have t: "gest_inv R cl s'" if "(case toggle_test R on i (gst s) of
         Some (rc, e) \<Rightarrow> Some (act_goto n (A_finished rc e) (gst s) s)
       | None \<Rightarrow> Some (act_goto n (A_toggle_do on i) (gst s) s)) = Some s'" "good_ident i" for on i
    using that g assms(1) by (auto split: option.splits intro!: gest_inv_goto)
  have w: "gest_inv R cl s'" if o: "\<And>i. a \<noteq> Suspend i" "\<And>i. a \<noteq> Resume i"
  proof -
    obtain g' rc e where r: "activity_run R cl a ENOEXEC (gst s) = (g', rc, e)" by (metis prod_cases3)
    have s': "s' = act_goto n (A_finished rc e) g' s"
      using assms(2) o r by (cases a) (auto simp: act_start_def Let_def simp del: activity_run.simps split: if_splits)
    show ?thesis unfolding s'
      by (rule gest_inv_goto) (use assms g o in \<open>auto intro: wf_activity_run [OF r] known_activity [OF _ r]\<close>)
  qed
  show ?thesis using assms(2,3) t w by (cases a) (auto simp: act_start_def Let_def)
qed

lemma act_step_inv:
  assumes "gest_inv R cl s" "act_step R cl n locked s = Some s'"
  shows "gest_inv R cl s'"
proof (cases "acts s n")
  case (A_queued a)
  then show ?thesis using assms gest_invD(1) [OF assms(1), of n] gest_invD(2,3) [OF assms(1)] act_start_inv [OF assms(1), of n a s']
    by (auto simp: act_step_def split: if_splits intro!: gest_inv_goto)
next
  case (A_toggle_do on i)
  obtain g rc e where r: "toggle_do R cl on i ENOEXEC (gst s) = (g, rc, e)" by (metis prod_cases3)
  have i: "good_ident i" using gest_invD(1) [OF assms(1), of n] A_toggle_do by simp
  have "s' = act_goto n (if rc \<noteq> 0 then A_finished rc e else A_toggle_flag on i rc e) g s"
    using assms(2) A_toggle_do r by (simp add: act_step_def)
  then show ?thesis using gest_invD [OF assms(1)] assms(1) i wf_same [OF _ toggle_do_descs [OF r]] known_toggle_do [OF _ r i]
    by (auto intro!: gest_inv_goto)
next
  case (A_toggle_flag on i rc e)
  then have "s' = act_goto n (A_finished rc e) (toggle_flag on i (gst s)) s" using assms(2) by (simp add: act_step_def)
  then show ?thesis using gest_invD [OF assms(1)] assms(1) wf_toggle_flag known_toggle_flag [of R on i "gst s"]
    by (auto intro!: gest_inv_goto)
qed (use assms(2) in \<open>simp_all add: act_step_def\<close>)

lemma gest_step_inv:
  assumes "gest_inv R cl s" "gest_step R cl h s e = Some s'"
  shows "gest_inv R cl s'"
proof (cases e)
  case (Go_act n locked)
  then show ?thesis using assms act_step_inv by (simp add: gest_step_def)
qed (use assms in \<open>auto simp: gest_step_def Let_def good_ident_trim split: if_splits option.splits
    intro!: gest_inv_submit static_desc_good dynamic_desc_good simp del: good_activity.simps(1,2)\<close>)

interpretation gest_machine: event_invariant "gest_step R cl h" "gest_inv R cl" for R :: "'r ace" and cl h
  by unfold_locales (rule gest_step_inv)

section \<open>Lists of services\<close>

lemma map_filter_lists:
  assumes "distinct ns" "\<And>i d. m i = Some d \<Longrightarrow> i \<in> set ns \<and> svc_ident d = i"
  shows "distinct (map svc_ident (List.map_filter m ns))" "set (List.map_filter m ns) = Map.ran m"
proof -
  have "distinct (map svc_ident (List.map_filter m ns))" if "distinct ns" "\<And>i d. m i = Some d \<Longrightarrow> svc_ident d = i" for ns
    using that by (induction ns) (auto simp: map_filter_def)
  then show "distinct (map svc_ident (List.map_filter m ns))" using assms by blast
  show "set (List.map_filter m ns) = Map.ran m" using assms(2) by (force simp: map_filter_def Map.ran_def image_iff)
qed

lemma list_complete:
  assumes "ace_ok R cl" "gest_inv R cl s"
  shows "distinct (map svc_ident (list_service_repository R b (gst s)))"
    "set (list_service_repository R b (gst s)) = Map.ran (svc_descriptors (gst s))"
proof -
  let ?g = "gst s" and ?ns = "ace_names R (repo (gst s))"
  have "i \<in> set ?ns \<and> svc_ident d = i" if "svc_descriptors ?g i = Some d" for i d
    using wf_gestaltD [OF gest_invD(2) [OF assms(2)] that] known_presentD [OF gest_invD(3) [OF assms(2,1)], of i] that
    by (auto simp: wf_desc_def ace_okD(2) [OF assms(1)])
  note m = map_filter_lists [of ?ns "svc_descriptors ?g", OF ace_okD(1) [OF assms(1)] this]
  show "distinct (map svc_ident (list_service_repository R b ?g))"
    "set (list_service_repository R b ?g) = Map.ran (svc_descriptors ?g)"
    using m by (simp_all add: list_service_repository_def Let_def rev_map [symmetric] distinct_rev)
qed

section \<open>Removing\<close>

lemma svc_request_cases:
  assumes "svc_request R cl ch a err g = (g', rc, e)"
  shows "rc = - 1 \<and> g' = g \<or> (\<exists>res er. activity_run R cl a ENOEXEC g = (g', res, er) \<and> (rc = 0 \<longrightarrow> res = 0 \<and> ch = In_time) \<and> rc \<in> {0, - 1} \<and>
     (ch = In_time \<and> res = 0 \<longrightarrow> rc = 0))"
  using assms
  by (cases ch) (auto simp: svc_request_def process_svc_action_def wait_result_def split: prod.splits if_splits)

lemma removeService_cases:
  assumes "removeService R cl ch i err g = (g', rc, e)" "good_ident i"
  shows "rc \<in> {0, - 1}" "svc_descriptors g' \<in> {svc_descriptors g, (svc_descriptors g)(i := None)}"
    "rc = 0 \<Longrightarrow> svc_descriptors g' i = None"
proof -
  have "svc_request R cl ch (Remove i) err g = (g', rc, e)"
    using assms good_ident_fixed [OF assms(2)] by (simp add: removeService_def Let_def good_ident_def)
  from svc_request_cases [OF this]
  have c: "rc = - 1 \<and> g' = g \<or> (\<exists>res er. remove_run R cl i ENOEXEC g = (g', res, er) \<and> (rc = 0 \<longrightarrow> res = 0) \<and> rc \<in> {0, - 1})" by auto
  have r: "svc_descriptors g' = svc_descriptors g \<and> res = - 1 \<or> svc_descriptors g' = (svc_descriptors g)(i := None)"
    if "remove_run R cl i ENOEXEC g = (g', res, er)" for res er
    using that by (auto simp: remove_run_def Let_def split: option.splits prod.splits if_splits)
  show "rc \<in> {0, - 1}" "svc_descriptors g' \<in> {svc_descriptors g, (svc_descriptors g)(i := None)}"
    "rc = 0 \<Longrightarrow> svc_descriptors g' i = None" using c r by fastforce+
qed

definition remove_one :: "'r ace \<Rightarrow> bool \<Rightarrow> (string \<Rightarrow> chance) \<Rightarrow> svc_desc \<Rightarrow> errno \<Rightarrow> 'r gestalt \<Rightarrow> 'r gestalt \<times> int \<times> errno" where
  "remove_one R cl ch d = removeService R cl (ch (svc_ident d)) (svc_ident d)"

lemma remove_loop:
  assumes "\<forall>d \<in> set ds. good_ident (svc_ident d)" "count_fails (remove_one R cl ch) ds err g = (g', fails)"
  shows "(\<forall>i. svc_descriptors g' i \<noteq> None \<longrightarrow> svc_descriptors g i \<noteq> None) \<and>
    length (filter (\<lambda>d. svc_descriptors g' (svc_ident d) \<noteq> None) ds) \<le> fails"
  using assms
proof (induction ds arbitrary: err g fails)
  case Nil
  then show ?case by simp
next
  case (Cons d ds)
  obtain g1 rc e where 1: "remove_one R cl ch d err g = (g1, rc, e)" by (metis prod_cases3)
  obtain fs where 2: "count_fails (remove_one R cl ch) ds e g1 = (g', fs)" "fails = (if rc < 0 then Suc fs else fs)"
    using Cons.prems(2) 1 by (auto split: prod.splits)
  have gd: "good_ident (svc_ident d)" using Cons.prems(1) by simp
  note r = removeService_cases [OF 1 [unfolded remove_one_def] gd]
  have ih: "\<forall>i. svc_descriptors g' i \<noteq> None \<longrightarrow> svc_descriptors g1 i \<noteq> None"
    "length (filter (\<lambda>d. svc_descriptors g' (svc_ident d) \<noteq> None) ds) \<le> fs"
    using Cons.IH [OF _ 2(1)] Cons.prems(1) by auto
  have a: "svc_descriptors g1 i \<noteq> None \<Longrightarrow> svc_descriptors g i \<noteq> None" for i using r(2) by (auto split: if_splits)
  have b: "rc < 0 \<or> svc_descriptors g' (svc_ident d) = None" using r(1,3) ih(1) by auto
  have c: "\<forall>i. svc_descriptors g' i \<noteq> None \<longrightarrow> svc_descriptors g i \<noteq> None" using ih(1) a by blast
  have "length (filter (\<lambda>d. svc_descriptors g' (svc_ident d) \<noteq> None) (d # ds)) \<le> fails"
    using ih(2) b 2(2) by (auto simp del: not_None_eq)
  with c show ?case by blast
qed

text \<open>A repository that removes as it is told: what has not ended is removed without an error, and nothing else changes.\<close>

definition ace_removes :: "'r ace \<Rightarrow> bool \<Rightarrow> bool" where
  "ace_removes R cl \<longleftrightarrow> (\<forall>i err r. good_ident i \<longrightarrow>
     (case ace_directive R (c_str (remove_directive cl i)) err r of (rc, e, r') \<Rightarrow> rc = 0 \<and> (\<forall>j. j \<noteq> i \<longrightarrow> ace_find R r' j = ace_find R r j)))"

lemma remove_loop_succeeds:
  assumes "\<forall>d \<in> set ds. good_ident (svc_ident d)" "distinct (map svc_ident ds)" "ace_removes R cl" "\<forall>i. ch i = In_time"
    "\<forall>d \<in> set ds. \<exists>ty. ace_find R (repo g) (svc_ident d) = Some ty \<and> \<not> fini_called ty"
  shows "snd (count_fails (remove_one R cl ch) ds err g) = 0"
  using assms
proof (induction ds arbitrary: err g)
  case Nil
  then show ?case by simp
next
  case (Cons d ds)
  let ?i = "svc_ident d"
  have gd: "good_ident ?i" using Cons.prems(1) by simp
  obtain ty where ty: "ace_find R (repo g) ?i = Some ty" "\<not> fini_called ty" using Cons.prems(5) by auto
  obtain rc er r' where d: "ace_directive R (c_str (remove_directive cl ?i)) ENOEXEC (repo g) = (rc, er, r')" by (metis prod_cases3)
  have l: "rc = 0" "\<And>j. j \<noteq> ?i \<Longrightarrow> ace_find R r' j = ace_find R (repo g) j"
    using Cons.prems(3) gd d unfolding ace_removes_def by (metis (mono_tags, lifting) case_prod_conv)+
  obtain g1 rc1 e1 where 1: "remove_one R cl ch d err g = (g1, rc1, e1)" by (metis prod_cases3)
  have "rc1 = 0 \<and> repo g1 = r'" using 1 ty d l(1) Cons.prems(4) good_ident_fixed [OF gd] gd
    by (auto simp: remove_one_def removeService_def Let_def good_ident_def svc_request_def process_svc_action_def wait_result_def
        remove_run_def split: if_splits)
  moreover have "snd (count_fails (remove_one R cl ch) ds e1 g1) = 0"
  proof (rule Cons.IH)
    show "\<forall>d \<in> set ds. \<exists>ty. ace_find R (repo g1) (svc_ident d) = Some ty \<and> \<not> fini_called ty"
    proof
      fix d' assume d': "d' \<in> set ds"
      then have "svc_ident d' \<in> set (map svc_ident ds)" by simp
      moreover have "?i \<notin> set (map svc_ident ds)" using Cons.prems(2) by simp
      ultimately have "svc_ident d' \<noteq> ?i" by metis
      then show "\<exists>ty. ace_find R (repo g1) (svc_ident d') = Some ty \<and> \<not> fini_called ty"
        using l(2) Cons.prems(5) d' \<open>rc1 = 0 \<and> repo g1 = r'\<close> by auto
    qed
  qed (use Cons.prems in auto)
  ultimately show ?case using 1 by (auto split: prod.splits)
qed

section \<open>A sample repository\<close>

text \<open>A list of names with their state, driven by directives in the classic form.\<close>

definition sample_words :: "string \<Rightarrow> string \<times> string" where
  "sample_words txt =
     (let verb = takeWhile (\<lambda>c. c \<noteq> CHR '' '') txt in (verb, takeWhile (\<lambda>c. c \<noteq> CHR '' '') (drop (Suc (length verb)) txt)))"

definition sample_directive :: "string \<Rightarrow> errno \<Rightarrow> (string \<times> bool) list \<Rightarrow> int \<times> errno \<times> (string \<times> bool) list" where
  "sample_directive txt err r =
     (case sample_words txt of (verb, i) \<Rightarrow>
        if verb = ''static'' \<or> verb = ''dynamic'' then (0, err, (i, True) # r)
        else if verb = ''suspend'' then (0, err, map (\<lambda>p. if fst p = i then (i, False) else p) r)
        else if verb = ''resume'' then (0, err, map (\<lambda>p. if fst p = i then (i, True) else p) r)
        else if verb = ''remove'' then (0, err, filter (\<lambda>p. fst p \<noteq> i) r)
        else (1, EINVAL, r))"

definition sample_ace :: "(string \<times> bool) list ace" where
  "sample_ace =
     \<lparr>ace_find = (\<lambda>r i. map_option (\<lambda>b. \<lparr>active = b, fini_called = False\<rparr>) (map_of r i)),
      ace_names = (\<lambda>r. remdups (map fst r)),
      ace_directive = sample_directive,
      ace_active = (\<lambda>i b r. map (\<lambda>p. if fst p = i then (i, b) else p) r)\<rparr>"

lemma c_str_append: "CHR 0x00 \<notin> set a \<Longrightarrow> c_str (a @ b) = a @ c_str b"
  by (induction a) (auto simp: c_str_def)

lemma c_str_space: "c_str (CHR '' '' # b) = CHR '' '' # c_str b"
  by (simp add: c_str_def)

lemma c_str_ends: "CHR 0x00 \<notin> set a \<Longrightarrow> c_str (a @ [CHR 0x00]) = a"
  by (subst c_str_append) (simp_all add: c_str_def)

lemma sample_words_eq:
  assumes "CHR '' '' \<notin> set v" "CHR '' '' \<notin> set i"
  shows "sample_words (v @ CHR '' '' # i @ CHR '' '' # rest) = (v, i)" "sample_words (v @ CHR '' '' # i) = (v, i)"
proof -
  have v: "takeWhile (\<lambda>c. c \<noteq> CHR '' '') (v @ CHR '' '' # x) = v" for x using assms(1) by (induction v) auto
  have i: "takeWhile (\<lambda>c. c \<noteq> CHR '' '') (i @ CHR '' '' # x) = i" "takeWhile (\<lambda>c. c \<noteq> CHR '' '') i = i" for x
    using assms(2) by (induction i) auto
  show "sample_words (v @ CHR '' '' # i @ CHR '' '' # rest) = (v, i)" "sample_words (v @ CHR '' '' # i) = (v, i)"
    by (simp_all add: sample_words_def Let_def v i)
qed

lemma good_ident_notin: "good_ident i \<Longrightarrow> CHR '' '' \<notin> set i" "good_ident i \<Longrightarrow> CHR 0x00 \<notin> set i"
  using good_ident_chars [of i] by blast+

lemma sample_load:
  assumes "good_ident (svc_ident sd)"
  shows "sample_words (c_str (load_directive True dyn sd)) = (if dyn then ''dynamic'' else ''static'', svc_ident sd)"
proof -
  let ?i = "svc_ident sd"
  note g = good_ident_notin [OF assms]
  have "\<exists>rest. load_directive True dyn sd = ((if dyn then ''dynamic'' else ''static'') @ CHR '' '' # ?i) @ CHR '' '' # rest"
    by (simp add: load_directive_def dynamic_directive_def static_directive_def ends_def)
  then obtain rest where r: "load_directive True dyn sd = ((if dyn then ''dynamic'' else ''static'') @ CHR '' '' # ?i) @ CHR '' '' # rest" by blast
  show ?thesis unfolding r by (subst c_str_append) (use g in \<open>simp_all add: c_str_space sample_words_eq\<close>)
qed

lemma sample_element:
  assumes "good_ident i" "CHR '' '' \<notin> set v" "CHR 0x00 \<notin> set v"
  shows "sample_words (c_str (element_directive v True i)) = (v, i)"
proof -
  note g = good_ident_notin [OF assms(1)]
  have "element_directive v True i = (v @ CHR '' '' # i) @ [CHR 0x00]" by (simp add: element_directive_def ends_def)
  then have "c_str (element_directive v True i) = v @ CHR '' '' # i" using c_str_ends [of "v @ CHR '' '' # i"] g(2) assms(3) by simp
  then show ?thesis using sample_words_eq(2) [OF assms(2) g(1)] by simp
qed

lemma sample_verbs:
  assumes "good_ident i"
  shows "sample_words (c_str (suspend_directive True i)) = (''suspend'', i)" "sample_words (c_str (resume_directive True i)) = (''resume'', i)"
    "sample_words (c_str (remove_directive True i)) = (''remove'', i)"
  using sample_element [OF assms] by (simp_all add: suspend_directive_def resume_directive_def remove_directive_def)

lemma map_of_set_flag: "map_of (map (\<lambda>p. if fst p = i then (i, b) else p) r) j = (if j = i then map_option (\<lambda>_. b) (map_of r j) else map_of r j)"
  by (induction r) auto

lemma map_of_removed: "map_of (filter (\<lambda>p. fst p \<noteq> i) r) j = (if j = i then None else map_of r j)"
  by (induction r) auto

lemma sample_find: "ace_find sample_ace r i = map_option (\<lambda>b. \<lparr>active = b, fini_called = False\<rparr>) (map_of r i)"
  by (simp add: sample_ace_def)

lemma sample_ace_ok: "ace_ok sample_ace True"
proof -
  have d: "ace_directive sample_ace = sample_directive" "ace_active sample_ace = (\<lambda>i b r. map (\<lambda>p. if fst p = i then (i, b) else p) r)"
    by (simp_all add: sample_ace_def)
  show ?thesis unfolding ace_ok_def d
  proof (intro conjI allI impI)
    fix r i
    show "distinct (ace_names sample_ace r)" by (simp add: sample_ace_def)
    show "(i \<in> set (ace_names sample_ace r)) = (ace_find sample_ace r i \<noteq> None)"
      by (simp add: sample_ace_def map_of_eq_None_iff del: not_None_eq)
  qed (auto simp: sample_directive_def sample_load sample_verbs sample_find map_of_set_flag map_of_removed split: if_splits)
qed

lemma sample_ace_removes: "ace_removes sample_ace True"
  by (simp add: ace_removes_def sample_ace_def sample_directive_def sample_verbs map_of_removed)

section \<open>The active flag\<close>

text \<open>The flag of a descriptor says whether its service is active.\<close>

definition flags_agree :: "'r ace \<Rightarrow> 'r gestalt \<Rightarrow> bool" where
  "flags_agree R g \<longleftrightarrow> (\<forall>i d. svc_descriptors g i = Some d \<longrightarrow>
     (\<exists>ty. ace_find R (repo g) i = Some ty \<and> (active ty \<longleftrightarrow> loadflags d AND LOAD_ACTIVE \<noteq> 0)))"

text \<open>A repository whose directives change the state of the named service only, and as they say when they succeed.\<close>

definition ace_tracks :: "'r ace \<Rightarrow> bool \<Rightarrow> bool" where
  "ace_tracks R cl \<longleftrightarrow>
     (\<forall>sd dyn err r rc e r'. good_ident (svc_ident sd) \<and> ace_find R r (svc_ident sd) = None \<and>
        ace_directive R (c_str (load_directive cl dyn sd)) err r = (rc, e, r') \<longrightarrow>
        (rc = 0 \<longrightarrow> (\<exists>ty. ace_find R r' (svc_ident sd) = Some ty \<and> active ty)) \<and> (\<forall>j. ace_find R r j \<noteq> None \<longrightarrow> ace_find R r' j = ace_find R r j)) \<and>
     (\<forall>on i err r rc e r'. good_ident i \<and> ace_find R r i \<noteq> None \<and>
        ace_directive R (c_str ((if on then resume_directive else suspend_directive) cl i)) err r = (rc, e, r') \<longrightarrow>
        (\<exists>ty. ace_find R r' i = Some ty \<and> (rc = 0 \<longrightarrow> active ty = on)) \<and> (\<forall>j. j \<noteq> i \<longrightarrow> ace_find R r' j = ace_find R r j)) \<and>
     (\<forall>i err r rc e r'. good_ident i \<and> ace_directive R (c_str (remove_directive cl i)) err r = (rc, e, r') \<longrightarrow>
        (\<forall>j. j \<noteq> i \<longrightarrow> ace_find R r' j = ace_find R r j)) \<and>
     (\<forall>i b r j. ace_find R (ace_active R i b r) j = (if j = i then map_option (\<lambda>ty. ty\<lparr>active := b\<rparr>) (ace_find R r j) else ace_find R r j))"

lemma ace_tracksD:
  assumes "ace_tracks R cl"
  shows "good_ident (svc_ident sd) \<Longrightarrow> ace_find R r (svc_ident sd) = None \<Longrightarrow> ace_directive R (c_str (load_directive cl dyn sd)) err r = (rc, e, r') \<Longrightarrow>
      (rc = 0 \<longrightarrow> (\<exists>ty. ace_find R r' (svc_ident sd) = Some ty \<and> active ty)) \<and> (\<forall>j. ace_find R r j \<noteq> None \<longrightarrow> ace_find R r' j = ace_find R r j)"
    "good_ident i \<Longrightarrow> ace_find R r i \<noteq> None \<Longrightarrow>
      ace_directive R (c_str ((if on then resume_directive else suspend_directive) cl i)) err r = (rc, e, r') \<Longrightarrow>
      (\<exists>ty. ace_find R r' i = Some ty \<and> (rc = 0 \<longrightarrow> active ty = on)) \<and> (\<forall>j. j \<noteq> i \<longrightarrow> ace_find R r' j = ace_find R r j)"
    "good_ident i \<Longrightarrow> ace_directive R (c_str (remove_directive cl i)) err r = (rc, e, r') \<Longrightarrow> j \<noteq> i \<Longrightarrow> ace_find R r' j = ace_find R r j"
    "ace_find R (ace_active R i b r) j = (if j = i then map_option (\<lambda>ty. ty\<lparr>active := b\<rparr>) (ace_find R r j) else ace_find R r j)"
proof -
  note a = assms [unfolded ace_tracks_def]
  note b = conjunct2 [OF a] note c = conjunct2 [OF b]
  show "good_ident (svc_ident sd) \<Longrightarrow> ace_find R r (svc_ident sd) = None \<Longrightarrow> ace_directive R (c_str (load_directive cl dyn sd)) err r = (rc, e, r') \<Longrightarrow>
      (rc = 0 \<longrightarrow> (\<exists>ty. ace_find R r' (svc_ident sd) = Some ty \<and> active ty)) \<and> (\<forall>j. ace_find R r j \<noteq> None \<longrightarrow> ace_find R r' j = ace_find R r j)"
    using conjunct1 [OF a] by blast
  show "good_ident i \<Longrightarrow> ace_find R r i \<noteq> None \<Longrightarrow>
      ace_directive R (c_str ((if on then resume_directive else suspend_directive) cl i)) err r = (rc, e, r') \<Longrightarrow>
      (\<exists>ty. ace_find R r' i = Some ty \<and> (rc = 0 \<longrightarrow> active ty = on)) \<and> (\<forall>j. j \<noteq> i \<longrightarrow> ace_find R r' j = ace_find R r j)"
    using conjunct1 [OF b, THEN spec, of on] by blast
  show "good_ident i \<Longrightarrow> ace_directive R (c_str (remove_directive cl i)) err r = (rc, e, r') \<Longrightarrow> j \<noteq> i \<Longrightarrow> ace_find R r' j = ace_find R r j"
    using conjunct1 [OF c] by blast
  show "ace_find R (ace_active R i b r) j = (if j = i then map_option (\<lambda>ty. ty\<lparr>active := b\<rparr>) (ace_find R r j) else ace_find R r j)"
    using conjunct2 [OF c] by blast
qed

lemma flag_bits:
  fixes f :: "32 word"
  shows "(f OR LOAD_ACTIVE) AND LOAD_ACTIVE \<noteq> 0" "(f AND NOT LOAD_ACTIVE) AND LOAD_ACTIVE = 0"
proof -
  have "(f OR LOAD_ACTIVE) AND LOAD_ACTIVE = LOAD_ACTIVE" by (rule bit_eqI) (auto simp: bit_simps)
  then show "(f OR LOAD_ACTIVE) AND LOAD_ACTIVE \<noteq> 0" by (simp add: LOAD_ACTIVE_def)
  show "(f AND NOT LOAD_ACTIVE) AND LOAD_ACTIVE = 0" by (rule bit_eqI) (auto simp: bit_simps)
qed

lemma flags_agreeD:
  "flags_agree R g \<Longrightarrow> svc_descriptors g i = Some d \<Longrightarrow> \<exists>ty. ace_find R (repo g) i = Some ty \<and> (active ty \<longleftrightarrow> loadflags d AND LOAD_ACTIVE \<noteq> 0)"
  by (simp add: flags_agree_def)

lemma flags_load:
  assumes t: "ace_tracks R cl" and f: "flags_agree R g" and l: "load_run R cl dyn sd err g = (g', rc, e)" and i: "good_ident (svc_ident sd)"
  shows "flags_agree R g'"
proof (cases "ace_find R (repo g) (svc_ident sd)")
  case None
  obtain rc' e' r' where d: "ace_directive R (c_str (load_directive cl dyn sd)) err (repo g) = (rc', e', r')" by (metis prod_cases3)
  note k = ace_tracksD(1) [OF t i None d]
  have g: "repo g' = r'" "rc' = rc" using l None d by (auto simp: load_run_def split: if_splits)
  have old: "\<exists>ty. ace_find R (repo g') j = Some ty \<and> (active ty \<longleftrightarrow> loadflags x AND LOAD_ACTIVE \<noteq> 0)"
    if "svc_descriptors g j = Some x" for j x using flags_agreeD [OF f that] k g(1) by force
  show ?thesis unfolding flags_agree_def
    using load_run_descs [OF l] old k g flag_bits(1) [of "loadflags sd"] by (auto split: if_splits)
next
  case (Some ty)
  then show ?thesis using l f by (simp add: load_run_def)
qed

lemma flags_toggle:
  assumes t: "ace_tracks R cl" and f: "flags_agree R g" and l: "toggle_run R cl on i err g = (g', rc, e)" and i: "good_ident i"
  shows "flags_agree R g'"
proof (cases "toggle_test R on i g")
  case None
  then obtain ty where ty: "ace_find R (repo g) i = Some ty" "active ty = (\<not> on)"
    by (auto simp: toggle_test_def split: option.splits if_splits)
  obtain rc' e' r' where d: "ace_directive R (c_str ((if on then resume_directive else suspend_directive) cl i)) err (repo g) = (rc', e', r')"
    by (metis prod_cases3)
  obtain ty' where ty': "ace_find R r' i = Some ty'" "rc' = 0 \<longrightarrow> active ty' = on" and o: "\<And>j. j \<noteq> i \<Longrightarrow> ace_find R r' j = ace_find R (repo g) j"
    using ace_tracksD(2) [OF t i _ d] ty by auto
  have g': "g' = (if rc' = 0 then toggle_flag on i (g\<lparr>repo := r'\<rparr>) else g\<lparr>repo := ace_active R i (\<not> on) r'\<rparr>)"
    using l None d by (auto simp: toggle_run_def toggle_do_def simp del: if_split split: if_splits)
  show ?thesis
  proof (cases "rc' = 0")
    case True
    then have g1: "repo g' = r'" "\<And>j. j \<noteq> i \<Longrightarrow> svc_descriptors g' j = svc_descriptors g j"
      "\<And>x. svc_descriptors g' i = Some x \<Longrightarrow> (loadflags x AND LOAD_ACTIVE \<noteq> 0) = on"
      using flag_bits by (auto simp: g' toggle_flag_def split: option.splits if_splits)
    show ?thesis unfolding flags_agree_def
    proof (intro allI impI)
      fix j x assume x: "svc_descriptors g' j = Some x"
      show "\<exists>ty. ace_find R (repo g') j = Some ty \<and> (active ty \<longleftrightarrow> loadflags x AND LOAD_ACTIVE \<noteq> 0)"
        using x g1 ty' True o flags_agreeD [OF f, of j x] by (cases "j = i") auto
    qed
  next
    case False
    then have g1: "repo g' = ace_active R i (\<not> on) r'" "svc_descriptors g' = svc_descriptors g" by (simp_all add: g')
    show ?thesis unfolding flags_agree_def g1
    proof (intro allI impI)
      fix j x assume x: "svc_descriptors g j = Some x"
      show "\<exists>ty. ace_find R (ace_active R i (\<not> on) r') j = Some ty \<and> (active ty \<longleftrightarrow> loadflags x AND LOAD_ACTIVE \<noteq> 0)"
        using flags_agreeD [OF f x] ty ty'(1) o [of j] ace_tracksD(4) [OF t, of i "\<not> on" r' j] by (cases "j = i") auto
    qed
  qed
next
  case (Some x)
  then show ?thesis using l f by (auto simp: toggle_run_def split: prod.splits)
qed

lemma flags_remove:
  assumes t: "ace_tracks R cl" and f: "flags_agree R g" and l: "remove_run R cl i err g = (g', rc, e)" and i: "good_ident i"
  shows "flags_agree R g'"
proof -
  obtain rc' e' r' where d: "ace_directive R (c_str (remove_directive cl i)) err (repo g) = (rc', e', r')" by (metis prod_cases3)
  have "g' = g \<or> repo g' = r' \<and> svc_descriptors g' = (svc_descriptors g)(i := None)"
    using l d by (auto simp: remove_run_def Let_def split: option.splits if_splits)
  then show ?thesis using f ace_tracksD(3) [OF t i d] by (auto simp: flags_agree_def split: if_splits)
qed

lemma flags_activity:
  assumes "ace_tracks R cl" "flags_agree R g" "good_activity a" "activity_run R cl a err g = (g', rc, e)"
  shows "flags_agree R g'"
  using assms by (cases a) (auto intro: flags_load flags_toggle flags_remove)

lemma sample_ace_tracks: "ace_tracks sample_ace True"
proof -
  have d: "ace_directive sample_ace = sample_directive" "ace_active sample_ace = (\<lambda>i b r. map (\<lambda>p. if fst p = i then (i, b) else p) r)"
    by (simp_all add: sample_ace_def)
  show ?thesis unfolding ace_tracks_def d
    by (auto simp: sample_directive_def sample_load sample_verbs sample_find map_of_set_flag map_of_removed option.map_comp comp_def split: if_splits)
      (metis svc_type.select_convs(1))+
qed

section \<open>Properties\<close>

text \<open>
  Claim C18.  The container's table is well-formed in every interleaving of requests and activities, whatever the
  repository does: a descriptor is stored under its own identifier, which is not empty and free of blanks,
  control characters and punctuation; it is a static service without library and class, or a dynamic one with a class without blanks and
  a library path that is stripped of quotes, blanks and control characters and quoted when it holds a blank; its flags
  say which, and nothing else but whether it is active.  If the repository behaves as documented, every known service is in it, and
  \<open>list_service_repository\<close> lists every known service once.
\<close>

theorem gestalt_descriptors:
  assumes "reachable (gest_step R cl h) (gest_new r) s"
  shows "(\<forall>i d. svc_descriptors (gst s) i = Some d \<longrightarrow> wf_desc i d) \<and>
    (ace_ok R cl \<longrightarrow> known_present R (gst s) \<and>
      (\<forall>b. distinct (map svc_ident (list_service_repository R b (gst s))) \<and>
        set (list_service_repository R b (gst s)) = Map.ran (svc_descriptors (gst s))))"
proof -
  have inv: "gest_inv R cl s" using gest_machine.reachable_inv [OF gest_inv_new assms] .
  show ?thesis using gest_invD(2,3) [OF inv] list_complete [OF _ inv] by (auto simp: wf_gestalt_def)
qed

text \<open>
  Claim C19.  \<open>removeServiceAll\<close> on a container that was reached in any way: the result is at least the number of services
  that remain known, so 0 means that the table is empty; and if the repository removes what it is told, no service has ended on
  its own and every activity completes in time, the result is 0.
\<close>

theorem remove_all_complete:
  assumes "reachable (gest_step R cl h) (gest_new r) s" "ace_ok R cl"
    and "removeServiceAll R cl ch err (gst s) = (g', fails)"
  shows "dom (svc_descriptors g') \<subseteq> dom (svc_descriptors (gst s)) \<and> card (dom (svc_descriptors g')) \<le> fails \<and>
    (fails = 0 \<longrightarrow> svc_descriptors g' = Map.empty) \<and>
    (ace_removes R cl \<and> (\<forall>i. ch i = In_time) \<and> (\<forall>i ty. ace_find R (repo (gst s)) i = Some ty \<longrightarrow> \<not> fini_called ty) \<longrightarrow> fails = 0)"
proof -
  have inv: "gest_inv R cl s" using gest_machine.reachable_inv [OF gest_inv_new assms(1)] .
  let ?ds = "list_service_repository R True (gst s)"
  note wf = wf_gestaltD [OF gest_invD(2) [OF inv]] and ls = list_complete [OF assms(2) inv, of True]
  have key: "svc_descriptors (gst s) (svc_ident d) = Some d \<and> good_ident (svc_ident d)" if "d \<in> set ?ds" for d
    using that ls(2) wf by (auto simp: Map.ran_def wf_desc_def)
  have loop: "count_fails (remove_one R cl ch) ?ds err (gst s) = (g', fails)"
    using assms(3) by (simp add: removeServiceAll_def remove_one_def [abs_def])
  have "\<forall>d \<in> set ?ds. good_ident (svc_ident d)" using key by blast
  note r = remove_loop [OF this loop] and ok = remove_loop_succeeds [OF this ls(1)]
  have sub: "dom (svc_descriptors g') \<subseteq> dom (svc_descriptors (gst s))" using r by blast
  let ?left = "filter (\<lambda>d. svc_descriptors g' (svc_ident d) \<noteq> None) ?ds"
  have "dom (svc_descriptors g') \<subseteq> set (map svc_ident ?left)"
  proof
    fix i assume i: "i \<in> dom (svc_descriptors g')"
    then obtain d where d: "svc_descriptors (gst s) i = Some d" using sub by blast
    then have "d \<in> set ?ds" "svc_ident d = i" using ls(2) wf by (auto simp: Map.ran_def wf_desc_def)
    then show "i \<in> set (map svc_ident ?left)" using i by force
  qed
  then have "card (dom (svc_descriptors g')) \<le> length ?left"
    by (metis List.finite_set card_length card_mono le_trans length_map)
  then have c: "card (dom (svc_descriptors g')) \<le> fails" using r by linarith
  have fin: "finite (dom (svc_descriptors g'))" using \<open>dom (svc_descriptors g') \<subseteq> set (map svc_ident ?left)\<close> finite_subset by blast
  have z: "svc_descriptors g' = Map.empty" if "fails = 0" using c that fin by simp
  have o: "fails = 0" if "ace_removes R cl" "\<forall>i. ch i = In_time" "\<forall>i ty. ace_find R (repo (gst s)) i = Some ty \<longrightarrow> \<not> fini_called ty"
  proof -
    have "\<forall>d \<in> set ?ds. \<exists>ty. ace_find R (repo (gst s)) (svc_ident d) = Some ty \<and> \<not> fini_called ty"
      using key known_presentD [OF gest_invD(3) [OF inv assms(2)]] that(3) by fastforce
    from ok [OF that(1,2) this, of err] show ?thesis using loop by simp
  qed
  show ?thesis using sub c z o by blast
qed

text \<open>A run on the sample repository: a service is loaded, then suspended and resumed by two overlapping activities.\<close>

definition race_events :: "gest_event list" where
  "race_events = [Req_static ''a'' [], Go_act 0 True, Req_toggle False ''a'', Req_toggle True ''a'',
     Go_act 1 True, Go_act 1 True, Go_act 2 True, Go_act 2 True, Go_act 2 True, Go_act 1 True]"

definition race_state :: "host \<Rightarrow> (string \<times> bool) list gsys" where
  "race_state h = \<lparr>gst = \<lparr>repo = [(''a'', True)], svc_descriptors = [''a'' \<mapsto> (static_desc h ''a'' [])]\<rparr>,
     acts = (\<lambda>_. A_none)(0 := A_finished 0 ENOEXEC, 1 := A_finished 0 ENOEXEC, 2 := A_finished 0 ENOEXEC), nacts = 3\<rparr>"

lemma sample_a:
  "trim_string (CHR '' '') ''a'' = ''a''" "\<not> bad_ident ''a''" "good_ident ''a''"
  by code_simp+

lemma sample_directives_a:
  "ace_directive sample_ace (c_str (load_directive True False (static_desc h ''a'' []))) err r = (0, err, (''a'', True) # r)"
  "ace_directive sample_ace (c_str (suspend_directive True ''a'')) err r = (0, err, map (\<lambda>p. if fst p = ''a'' then (''a'', False) else p) r)"
  "ace_directive sample_ace (c_str (resume_directive True ''a'')) err r = (0, err, map (\<lambda>p. if fst p = ''a'' then (''a'', True) else p) r)"
  using sample_load [of "static_desc h ''a'' []" False] sample_verbs [OF sample_a(3)] sample_a(3)
  by (simp_all add: sample_ace_def sample_directive_def static_desc_def)

lemma static_flags:
  "(LOAD_STATIC OR LOAD_OBJECT) AND LOAD_ACTIVE = 0" "((LOAD_STATIC OR LOAD_OBJECT) OR LOAD_ACTIVE) OR LOAD_ACTIVE = (LOAD_STATIC OR LOAD_OBJECT) OR LOAD_ACTIVE"
  "((LOAD_STATIC OR LOAD_OBJECT) OR LOAD_ACTIVE) AND NOT LOAD_ACTIVE = LOAD_STATIC OR LOAD_OBJECT"
  by code_simp+

lemma static_desc_fields: "svc_ident (static_desc h i p) = i" "loadflags (static_desc h i p) = LOAD_STATIC OR LOAD_OBJECT"
  "(static_desc h i p)\<lparr>loadflags := LOAD_STATIC OR LOAD_OBJECT\<rparr> = static_desc h i p"
  by (simp_all add: static_desc_def)

lemma race_run: "run (gest_step sample_ace True h) (gest_new []) race_events = Some (race_state h)"
  by (simp add: race_events_def gest_step_def gest_new_def sample_a submit_def act_step_def act_start_def act_goto_def load_run_def
      sample_find sample_directives_a toggle_test_def toggle_do_def toggle_flag_def static_desc_fields static_flags
      race_state_def Let_def eval_nat_numeral fun_eq_iff)

lemma race_reachable: "reachable (gest_step sample_ace True h) (gest_new []) (race_state h)"
  using race_run [of h] by (auto simp: reachable_def)

lemma race_descs: "svc_descriptors (gst (race_state h)) i = (if i = ''a'' then Some (static_desc h ''a'' []) else None)"
  "repo (gst (race_state h)) = [(''a'', True)]"
  by (simp_all add: race_state_def)

text \<open>
  Claim C20.  The flag \<open>LOAD_ACTIVE\<close> of a descriptor.  Activities that run one at a time keep it equal to the state of the service, also when
  they fail, given a repository that changes the named service as it is told.  But suspending and resuming hold the lock
  only as readers, and may overlap: a suspend and a resume of the same service, both with result 0,
  can leave an active service whose descriptor says that it is not.
\<close>

theorem suspend_resume_race:
  assumes "ace_tracks R cl" "flags_agree R g" "good_activity a" "activity_run R cl a err g = (g', rc, e)"
  shows "flags_agree R g' \<and>
    (\<exists>s. reachable (gest_step sample_ace True h) (gest_new []) s \<and> nacts s = 3 \<and>
      acts s 1 = A_finished 0 ENOEXEC \<and> acts s 2 = A_finished 0 ENOEXEC \<and> (\<forall>n. \<not> reader (acts s n)) \<and>
      map_option active (ace_find sample_ace (repo (gst s)) ''a'') = Some True \<and>
      map_option (\<lambda>d. loadflags d AND LOAD_ACTIVE) (svc_descriptors (gst s) ''a'') = Some 0)"
proof -
  have "\<forall>n. \<not> reader (acts (race_state h) n)" by (simp add: race_state_def)
  then show ?thesis using flags_activity [OF assms]
    by (intro conjI exI [of _ "race_state h"] race_reachable)
      (simp_all add: race_descs sample_find static_desc_fields static_flags, simp_all add: race_state_def)
qed

theorem suspend_resume_race_witness:
  "\<exists>g'. activity_run sample_ace True (Suspend ''a'') ENOEXEC \<lparr>repo = [(''a'', True)], svc_descriptors = Map.empty\<rparr> = (g', 0, ENOEXEC) \<and>
     flags_agree sample_ace g'"
proof -
  let ?g = "\<lparr>repo = [(''a'', True)], svc_descriptors = Map.empty\<rparr>"
  have f: "flags_agree sample_ace ?g" by (simp add: flags_agree_def)
  have "fst (snd (activity_run sample_ace True (Suspend ''a'') ENOEXEC ?g)) = 0"
    "snd (snd (activity_run sample_ace True (Suspend ''a'') ENOEXEC ?g)) = ENOEXEC"
    by (simp_all add: toggle_run_def toggle_test_def toggle_do_def sample_find sample_directives_a)
  then obtain g' where r: "activity_run sample_ace True (Suspend ''a'') ENOEXEC ?g = (g', 0, ENOEXEC)" by (metis prod.collapse)
  have "good_activity (Suspend ''a'')" by (simp add: sample_a)
  from suspend_resume_race [OF sample_ace_tracks f this r] r show ?thesis by blast
qed

theorem gestalt_descriptors_witness:
  "reachable (gest_step sample_ace True sample_host) (gest_new []) (race_state sample_host) \<and>
   wf_desc ''a'' (static_desc sample_host ''a'' []) \<and>
   set (list_service_repository sample_ace True (gst (race_state sample_host))) = {static_desc sample_host ''a'' []}"
proof -
  have "Map.ran (svc_descriptors (gst (race_state sample_host))) = {static_desc sample_host ''a'' []}"
    by (auto simp: race_descs Map.ran_def)
  then show ?thesis
    using gestalt_descriptors [OF race_reachable [of sample_host]] sample_ace_ok race_reachable [of sample_host] race_descs(1) [of sample_host "''a''"]
    by simp
qed

theorem remove_all_complete_witness:
  "\<exists>g'. removeServiceAll sample_ace True (\<lambda>_. In_time) E_NONE (gst (race_state sample_host)) = (g', 0) \<and> svc_descriptors g' = Map.empty"
proof -
  obtain g' n where r: "removeServiceAll sample_ace True (\<lambda>_. In_time) E_NONE (gst (race_state sample_host)) = (g', n)" by fastforce
  have "\<forall>i ty. ace_find sample_ace (repo (gst (race_state sample_host))) i = Some ty \<longrightarrow> \<not> fini_called ty" by (auto simp: sample_find)
  then have "n = 0 \<and> svc_descriptors g' = Map.empty"
    using remove_all_complete [OF race_reachable sample_ace_ok r] sample_ace_removes by simp
  then show ?thesis using r by simp
qed

end
