(* ===== verification/Service_Loader.thy ===== *)
theory Service_Loader
  imports Service_Gestalt
begin

text \<open>
  \<^verbatim>\<open>DAF::ServiceGestaltLoader\<close> (\<^verbatim>\<open>daf/ServiceGestaltLoader.h\<close>, \<^verbatim>\<open>.cpp\<close>): services from configuration entries of the form
  \<^verbatim>\<open>ident = library : factory arguments\<close>.  The loader collects the entries in a map and their identifiers
  in a list; \<open>process_directives\<close> takes each apart and loads it into the container of \<open>Service_Gestalt\<close>.
  The build is the one without drive letters in paths.
\<close>

section \<open>Model\<close>

record service_loader =
  entries :: props
  ident_list :: "string list"

definition load_entry :: "string \<Rightarrow> string \<Rightarrow> service_loader \<Rightarrow> service_loader \<times> int" where
  "load_entry key val l =
     (case load_property key val (entries l) of (ps, rc) \<Rightarrow> (l\<lparr>ident_list := ident_list l @ [key], entries := ps\<rparr>, rc))"

text \<open>A position greater than zero of a character.\<close>

definition find_pos :: "char \<Rightarrow> string \<Rightarrow> nat option" where
  "find_pos c s = (case find_from c s 0 of Some p \<Rightarrow> if p > 0 then Some p else None | None \<Rightarrow> None)"

definition split_class :: "string \<Rightarrow> string \<times> string" where
  "split_class s =
     (case find_pos (CHR '' '') s of
        None \<Rightarrow> (s, [])
      | Some c \<Rightarrow>
          (take c s, trim_string (CHR '' '')
             (case find_pos (CHR '')'') s of Some p \<Rightarrow> drop (Suc p) s | None \<Rightarrow> drop (Suc c) s)))"

definition cut_paren :: "string \<Rightarrow> string" where
  "cut_paren s = (case find_pos (CHR ''('') s of Some p \<Rightarrow> take p s | None \<Rightarrow> s)"

text \<open>Library, factory and parameters of an entry.\<close>

definition parse_service :: "string \<Rightarrow> (string \<times> string \<times> string) option" where
  "parse_service args =
     (case find_pos (CHR '':'') args of
        None \<Rightarrow> None
      | Some p \<Rightarrow>
          let lib = trim_string (CHR '' '') (take p args) in
          if lib = [] then None
          else case split_class (trim_string (CHR '' '') (drop (Suc p) args)) of (c, params) \<Rightarrow>
            let cls = trim_string (CHR '' '') (cut_paren c) in
            if cls = [] then None else Some (lib, cls, params))"

definition process_directive ::
  "nat \<Rightarrow> host \<Rightarrow> props \<Rightarrow> 'r ace \<Rightarrow> bool \<Rightarrow> chance \<Rightarrow> string \<times> string \<Rightarrow> errno \<Rightarrow> 'r gestalt \<Rightarrow> ('r gestalt \<times> int \<times> errno) run_result" where
  "process_directive n h ps R cl ch val err g =
     (case format_args n h ps (snd val) True True of
        None \<Rightarrow> None
      | Some (ps', Throws x) \<Rightarrow> Some (ps', Throws x)
      | Some (ps', Undefined) \<Rightarrow> Some (ps', Undefined)
      | Some (ps', Returns args) \<Rightarrow>
          (case parse_service args of
             None \<Rightarrow> Some (ps', Returns (g, - 1, err))
           | Some (lib, cls, params) \<Rightarrow>
               (case loadDynamic n h ps' R cl ch (fst val) lib cls params err g of
                  Some (ps'', Throws x) \<Rightarrow> Some (ps'', Returns (g, - 1, err))
                | r \<Rightarrow> r)))"

text \<open>The loop over the identifiers; \<open>es\<close> is the map of entries.\<close>

fun directives_loop ::
  "nat \<Rightarrow> host \<Rightarrow> props \<Rightarrow> 'r ace \<Rightarrow> bool \<Rightarrow> (string \<Rightarrow> chance) \<Rightarrow> props \<Rightarrow> string list \<Rightarrow> nat \<Rightarrow> errno \<Rightarrow> 'r gestalt \<Rightarrow>
   ('r gestalt \<times> props \<times> nat) run_result" where
  "directives_loop n h ps R cl ch es [] fails err g = Some (ps, Returns (g, es, fails))"
| "directives_loop n h ps R cl ch es (i # is) fails err g =
     (case map_of es i of
        None \<Rightarrow> directives_loop n h ps R cl ch es is fails err g
      | Some v \<Rightarrow>
          (case process_directive n h ps R cl (ch i) (i, v) err g of
             None \<Rightarrow> None
           | Some (ps', Undefined) \<Rightarrow> Some (ps', Undefined)
           | Some (ps', Throws x) \<Rightarrow> directives_loop n h ps' R cl ch (del i es) is (Suc fails) err g
           | Some (ps', Returns (g', rc, e)) \<Rightarrow>
               directives_loop n h ps' R cl ch (del i es) is (if rc \<noteq> 0 then Suc fails else fails) e g'))"

definition process_directives ::
  "nat \<Rightarrow> host \<Rightarrow> props \<Rightarrow> 'r ace \<Rightarrow> bool \<Rightarrow> (string \<Rightarrow> chance) \<Rightarrow> service_loader \<Rightarrow> errno \<Rightarrow> 'r gestalt \<Rightarrow>
   ('r gestalt \<times> service_loader \<times> nat) run_result" where
  "process_directives n h ps R cl ch l err g =
     (case directives_loop n h ps R cl ch (entries l) (ident_list l) 0 err g of
        None \<Rightarrow> None
      | Some (ps', r) \<Rightarrow> Some (ps', and_then r (\<lambda>(g', es, fails). Returns (g', \<lparr>entries = es, ident_list = []\<rparr>, fails))))"

section \<open>Parsing\<close>

lemma find_pos_fresh:
  "c \<notin> set a \<Longrightarrow> a \<noteq> [] \<Longrightarrow> find_pos c (a @ c # b) = Some (length a)" "c \<notin> set a \<Longrightarrow> find_pos c a = None"
  by (simp_all add: find_pos_def find_from_fresh)

text \<open>A text without blanks at its ends and without control characters.\<close>

definition plain_text :: "string \<Rightarrow> bool" where
  "plain_text s \<longleftrightarrow> s \<noteq> [] \<and> \<not> c_isspace (hd s) \<and> \<not> c_isspace (last s) \<and> list_all (\<lambda>c. \<not> c_iscntrl c) s"

lemma plain_trim: "plain_text s \<Longrightarrow> trim_string (CHR '' '') s = s"
proof (rule trim_string_fixed)
  assume p: "plain_text s"
  then show "\<forall>x \<in> set s. \<not> c_iscntrl x" by (simp add: plain_text_def list_all_iff)
  then show "trimmed (CHR '' '') s" using p
    by (auto simp: plain_text_def trimmed_def blank_def) (auto simp: c_isspace_def c_code_def)
qed

lemma plain_append: "plain_text a \<Longrightarrow> plain_text b \<Longrightarrow> list_all (\<lambda>c. \<not> c_iscntrl c) m \<Longrightarrow> plain_text (a @ m @ b)"
  by (auto simp: plain_text_def)

lemma trim_spaces:
  assumes "plain_text b"
  shows "trim_string (CHR '' '') (CHR '' '' # b) = b" "trim_string (CHR '' '') (b @ '' '') = b"
proof -
  have l: "b \<noteq> []" "\<not> blank (last b)" using assms by (auto simp: plain_text_def blank_def list_all_iff)
  have s: "blank (CHR '' '')" by code_simp
  have "char_at (CHR '' '' # b) (length b) = last b" using l(1) by (simp add: char_at_def last_conv_nth nth_Cons split: nat.split)
  then have "trim_string (CHR '' '') (CHR '' '' # b) = trim_string (CHR '' '') b"
    using l s by (simp add: trim_string_def char_at_def erase1_def)
  then show "trim_string (CHR '' '') (CHR '' '' # b) = b" using plain_trim [OF assms] by simp
  have "trim_string (CHR '' '') (b @ '' '') = trim_string (CHR '' '') b"
    using s by (simp add: trim_string_def char_at_def erase1_def nth_append)
  then show "trim_string (CHR '' '') (b @ '' '') = b" using plain_trim [OF assms] by simp
qed

text \<open>The part of an entry before the factory.\<close>

lemma parse_lib:
  assumes "plain_text lib" "CHR '':'' \<notin> set lib" "plain_text rest"
  shows "parse_service (lib @ '' : '' @ rest) =
    (case split_class rest of (c, params) \<Rightarrow>
       let cls = trim_string (CHR '' '') (cut_paren c) in if cls = [] then None else Some (lib, cls, params))"
proof -
  have "find_pos (CHR '':'') ((lib @ '' '') @ CHR '':'' # CHR '' '' # rest) = Some (length (lib @ '' ''))"
    by (rule find_pos_fresh) (use assms in auto)
  then have p: "find_pos (CHR '':'') (lib @ '' : '' @ rest) = Some (Suc (length lib))" by simp
  have "take (Suc (length lib)) (lib @ '' : '' @ rest) = lib @ '' ''" "drop (Suc (Suc (length lib))) (lib @ '' : '' @ rest) = CHR '' '' # rest" by simp_all
  moreover have "lib \<noteq> []" using assms(1) by (simp add: plain_text_def)
  ultimately show ?thesis by (simp add: parse_service_def p [simplified] trim_spaces assms)
qed

text \<open>The factory, with or without parentheses.\<close>

definition plain_class :: "string \<Rightarrow> bool" where
  "plain_class cls \<longleftrightarrow> plain_text cls \<and> CHR '' '' \<notin> set cls \<and> CHR ''('' \<notin> set cls \<and> CHR '')'' \<notin> set cls"

lemma split_class_space:
  assumes "plain_class cls"
  shows "split_class cls = (cls, [])"
    "split_class (cls @ CHR '' '' # s) = (cls, trim_string (CHR '' '')
       (case find_pos (CHR '')'') (cls @ CHR '' '' # s) of Some p \<Rightarrow> drop (Suc p) (cls @ CHR '' '' # s) | None \<Rightarrow> s))"
    "plain_text s \<Longrightarrow> split_class (cls @ ''() '' @ s) = (cls @ ''()'', s)"
proof -
  have c: "CHR '' '' \<notin> set cls" "CHR '')'' \<notin> set cls" "cls \<noteq> []" using assms by (auto simp: plain_class_def plain_text_def)
  show "split_class cls = (cls, [])" using find_pos_fresh(2) [OF c(1)] by (simp add: split_class_def)
  have 1: "find_pos (CHR '' '') (cls @ CHR '' '' # s) = Some (length cls)" using find_pos_fresh(1) [OF c(1,3)] .
  then show "split_class (cls @ CHR '' '' # s) = (cls, trim_string (CHR '' '')
       (case find_pos (CHR '')'') (cls @ CHR '' '' # s) of Some p \<Rightarrow> drop (Suc p) (cls @ CHR '' '' # s) | None \<Rightarrow> s))"
    by (simp add: split_class_def split: option.split)
  have "find_pos (CHR '' '') ((cls @ ''()'') @ CHR '' '' # s) = Some (length (cls @ ''()''))"
    "find_pos (CHR '')'') ((cls @ ''('') @ CHR '')'' # CHR '' '' # s) = Some (length (cls @ ''(''))"
    by (rule find_pos_fresh; use c in simp)+
  then have "split_class (cls @ ''() '' @ s) = (cls @ ''()'', trim_string (CHR '' '') (CHR '' '' # s))"
    by (simp add: split_class_def)
  then show "plain_text s \<Longrightarrow> split_class (cls @ ''() '' @ s) = (cls @ ''()'', s)" by (simp add: trim_spaces)
qed

lemma cut_class:
  assumes "plain_class cls"
  shows "trim_string (CHR '' '') (cut_paren cls) = cls" "trim_string (CHR '' '') (cut_paren (cls @ ''()'')) = cls" "cls \<noteq> []"
proof -
  have c: "CHR ''('' \<notin> set cls" "cls \<noteq> []" "plain_text cls" using assms by (auto simp: plain_class_def plain_text_def)
  show "trim_string (CHR '' '') (cut_paren cls) = cls" "trim_string (CHR '' '') (cut_paren (cls @ ''()'')) = cls" "cls \<noteq> []"
    using find_pos_fresh(2) [OF c(1)] find_pos_fresh(1) [OF c(1,2), of "'')''"] c by (simp_all add: cut_paren_def plain_trim)
qed

text \<open>
  Claim C22.  The loader takes an entry \<^verbatim>\<open>library : factory parameters\<close> apart as documented, with or without
  parentheses after the factory, and with no parameters.  Exception: without the parentheses, everything in the parameters up
  to their first closing parenthesis is lost.
\<close>

theorem service_entry_parsed:
  assumes "plain_text lib" "CHR '':'' \<notin> set lib" "plain_class cls" "plain_text params"
  shows "parse_service (lib @ '' : '' @ cls) = Some (lib, cls, []) \<and>
    parse_service (lib @ '' : '' @ cls @ ''() '' @ params) = Some (lib, cls, params) \<and>
    (CHR '')'' \<notin> set params \<longrightarrow> parse_service (lib @ '' : '' @ cls @ '' '' @ params) = Some (lib, cls, params)) \<and>
    (\<forall>a b. CHR '')'' \<notin> set a \<and> params = a @ '')'' @ b \<longrightarrow>
       parse_service (lib @ '' : '' @ cls @ '' '' @ params) = Some (lib, cls, trim_string (CHR '' '') b))"
proof -
  have pc: "plain_text cls" "CHR '')'' \<notin> set cls" using assms(3) by (auto simp: plain_class_def)
  have pt: "plain_text (cls @ ''() '' @ params)" "plain_text (cls @ '' '' @ params)"
    by (rule plain_append [OF pc(1) assms(4)], code_simp)+
  note sc = split_class_space [OF assms(3)] and cc = cut_class [OF assms(3)]
  have 1: "parse_service (lib @ '' : '' @ cls) = Some (lib, cls, [])"
    unfolding parse_lib [OF assms(1,2) pc(1)] by (simp add: sc(1) cc)
  have 2: "parse_service (lib @ '' : '' @ cls @ ''() '' @ params) = Some (lib, cls, params)"
    unfolding parse_lib [OF assms(1,2) pt(1)] by (simp add: sc(3) [OF assms(4), simplified] cc [simplified])
  have 3: "parse_service (lib @ '' : '' @ cls @ '' '' @ params) = Some (lib, cls, params)" if "CHR '')'' \<notin> set params"
  proof -
    have "find_pos (CHR '')'') (cls @ CHR '' '' # params) = None" by (rule find_pos_fresh) (use that pc in simp)
    then show ?thesis unfolding parse_lib [OF assms(1,2) pt(2)] by (simp add: sc(2) cc plain_trim assms(4))
  qed
  have 4: "parse_service (lib @ '' : '' @ cls @ '' '' @ params) = Some (lib, cls, trim_string (CHR '' '') b)"
    if a: "CHR '')'' \<notin> set a" "params = a @ '')'' @ b" for a b
  proof -
    have "find_pos (CHR '')'') ((cls @ CHR '' '' # a) @ CHR '')'' # b) = Some (length (cls @ CHR '' '' # a))"
      by (rule find_pos_fresh) (use a pc in simp_all)
    then have "find_pos (CHR '')'') (cls @ CHR '' '' # params) = Some (length (cls @ CHR '' '' # a))" by (simp add: a(2))
    moreover have "drop (Suc (length (cls @ CHR '' '' # a))) (cls @ CHR '' '' # params) = b" by (simp add: a(2))
    ultimately have "split_class (cls @ CHR '' '' # params) = (cls, trim_string (CHR '' '') b)" by (simp only: sc(2) option.case)
    then show ?thesis unfolding parse_lib [OF assms(1,2) pt(2)] by (simp add: cc)
  qed
  show ?thesis using 1 2 3 4 by blast
qed

theorem service_entry_parsed_witness:
  "plain_text ''lib'' \<and> plain_class ''make'' \<and> parse_service (''lib'' @ '' : '' @ ''make'' @ ''() '' @ ''-x'') = Some (''lib'', ''make'', ''-x'')"
proof -
  have a: "plain_text ''lib''" "CHR '':'' \<notin> set ''lib''" "plain_class ''make''" "plain_text ''-x''" by code_simp+
  show ?thesis using service_entry_parsed [OF a] a by blast
qed

section \<open>Loading\<close>

lemma load_run_known:
  assumes "load_run R cl dyn sd err g = (g', rc, e)"
  shows "dom (svc_descriptors g) \<subseteq> dom (svc_descriptors g')" "rc = 0 \<Longrightarrow> svc_descriptors g' (svc_ident sd) \<noteq> None"
  using assms by (auto simp: load_run_def split: option.splits prod.splits if_splits)

lemma svc_request_load:
  assumes "svc_request R cl ch (LoadDynamic sd) err g = (g', rc, e)"
  shows "dom (svc_descriptors g) \<subseteq> dom (svc_descriptors g') \<and> (rc = 0 \<longrightarrow> svc_descriptors g' (svc_ident sd) \<noteq> None)"
proof -
  consider "rc = - 1" "g' = g" | res er where "load_run R cl True sd ENOEXEC g = (g', res, er)" "rc = 0 \<longrightarrow> res = 0"
    using svc_request_cases [OF assms] by auto
  then show ?thesis using load_run_known by cases fastforce+
qed

lemma loadDynamic_known:
  assumes "loadDynamic n h ps R cl ch i lib cls params err g = Some (ps', Returns (g', rc, e))"
  shows "dom (svc_descriptors g) \<subseteq> dom (svc_descriptors g') \<and> (rc = 0 \<longrightarrow> svc_descriptors g' (trim_string (CHR '' '') i) \<noteq> None)"
proof -
  let ?i = "trim_string (CHR '' '') i"
  have f: "dom (svc_descriptors g) \<subseteq> dom (svc_descriptors g') \<and> (rc = 0 \<longrightarrow> svc_descriptors g' ?i \<noteq> None)"
    if "Returns (g', rc, e) = and_then r (\<lambda>p. Returns (svc_request R cl ch (LoadDynamic (dynamic_desc h ?i l c p)) err g))" for r l c
  proof (cases r)
    case (Returns p)
    then show ?thesis using that svc_request_load [of R cl ch "dynamic_desc h ?i l c p" err g g' rc e]
      by (simp add: dynamic_desc_def del: not_None_eq)
  qed (use that in simp_all)
  show ?thesis using assms
    by (auto simp: loadDynamic_def Let_def split: if_splits option.splits prod.splits dest!: f [OF sym] simp del: not_None_eq)
qed

lemma process_directive_known:
  assumes "process_directive n h ps R cl ch (i, v) err g = Some (ps', Returns (g', rc, e))"
  shows "dom (svc_descriptors g) \<subseteq> dom (svc_descriptors g') \<and> (rc = 0 \<longrightarrow> svc_descriptors g' (trim_string (CHR '' '') i) \<noteq> None)"
proof -
  consider "g' = g" "rc = - 1" | ps1 lib cls params where "loadDynamic n h ps1 R cl ch i lib cls params err g = Some (ps', Returns (g', rc, e))"
    using assms by (auto simp: process_directive_def split: option.splits prod.splits outcome.splits)
  then show ?thesis using loadDynamic_known by cases (simp, blast)
qed

definition unloaded :: "props \<Rightarrow> string list \<Rightarrow> 'r gestalt \<Rightarrow> string set" where
  "unloaded es is g = {i \<in> set is. map_of es i \<noteq> None \<and> svc_descriptors g (trim_string (CHR '' '') i) = None}"

lemma map_of_del_if: "map_of (del i es) j = (if j = i then None else map_of es j)"
  by (simp add: map_of_del)

lemma unloaded_Cons: "unloaded es (i # is) g \<subseteq> insert i (unloaded (del i es) is g)"
  by (auto simp: unloaded_def map_of_del_if)

lemma card_unloaded_Cons: "card (unloaded es (i # is) g) \<le> Suc (card (unloaded (del i es) is g))"
proof -
  have f: "finite (unloaded (del i es) is g)" by (simp add: unloaded_def)
  have "card (unloaded es (i # is) g) \<le> card (insert i (unloaded (del i es) is g))" by (rule card_mono [OF _ unloaded_Cons]) (simp add: f)
  then show ?thesis using card_insert_le_m1 [of "Suc (card (unloaded (del i es) is g))" "unloaded (del i es) is g" i] by simp
qed

lemma directives_loop_known:
  assumes "directives_loop n h ps R cl ch es is k err g = Some (ps', Returns (g', es', fails))"
  shows "dom (svc_descriptors g) \<subseteq> dom (svc_descriptors g') \<and> card (unloaded es is g') + k \<le> fails \<and>
    (\<forall>i. map_of es' i = (if i \<in> set is then None else map_of es i))"
  using assms
proof (induction "is" arbitrary: ps es k err g)
  case Nil
  then show ?case by (simp add: unloaded_def)
next
  case (Cons i "is")
  show ?case
  proof (cases "map_of es i")
    case None
    then have "unloaded es (i # is) g' = unloaded es is g'" by (auto simp: unloaded_def)
    then show ?thesis using Cons.IH [of ps es k err g] Cons.prems None by auto
  next
    case (Some v)
    obtain ps1 r where pd: "process_directive n h ps R cl (ch i) (i, v) err g = Some (ps1, r)"
      using Cons.prems Some by (auto split: option.splits)
    show ?thesis
    proof (cases r)
      case (Returns x)
      obtain g1 rc e where x: "x = (g1, rc, e)" by (metis prod_cases3)
      note p = process_directive_known [OF pd [unfolded Returns x]]
      note ih = Cons.IH [of ps1 "del i es" "if rc \<noteq> 0 then Suc k else k" e g1]
      have l: "directives_loop n h ps1 R cl ch (del i es) is (if rc \<noteq> 0 then Suc k else k) e g1 = Some (ps', Returns (g', es', fails))"
        using Cons.prems Some pd Returns x by simp
      have "unloaded es (i # is) g' = unloaded (del i es) is g'" if "rc = 0"
      proof -
        have "svc_descriptors g' (trim_string (CHR '' '') i) \<noteq> None" using p ih [OF l] that by blast
        then show ?thesis by (auto simp: unloaded_def map_of_del_if)
      qed
      then have "card (unloaded es (i # is) g') + k \<le> fails"
        using ih [OF l] card_unloaded_Cons [of es i "is" g'] by (auto split: if_splits)
      moreover have "dom (svc_descriptors g) \<subseteq> dom (svc_descriptors g')" using ih [OF l] p by blast
      moreover have "\<forall>j. map_of es' j = (if j \<in> set (i # is) then None else map_of es j)" using ih [OF l] by (auto simp: map_of_del_if)
      ultimately show ?thesis by blast
    next
      case (Throws x)
      have "directives_loop n h ps1 R cl ch (del i es) is (Suc k) err g = Some (ps', Returns (g', es', fails))"
        using Cons.prems Some pd Throws by simp
      from Cons.IH [OF this] show ?thesis using card_unloaded_Cons [of es i "is" g'] by (auto simp: map_of_del_if)
    next
      case Undefined
      then show ?thesis using Cons.prems Some pd by simp
    qed
  qed
qed

text \<open>
  Claim C21.  \<open>process_directives\<close> works off the whole list of identifiers and removes their entries.  No service that the
  container knew is lost, and the result is at least the number of entries whose service the container does not
  know afterwards: 0 means that every configured service was loaded.
\<close>

theorem loader_loads_all:
  assumes "process_directives n h ps R cl ch l err g = Some (ps', Returns (g', l', fails))"
  shows "ident_list l' = [] \<and> (\<forall>i. map_of (entries l') i = (if i \<in> set (ident_list l) then None else map_of (entries l) i)) \<and>
    dom (svc_descriptors g) \<subseteq> dom (svc_descriptors g') \<and>
    card {i \<in> set (ident_list l). map_of (entries l) i \<noteq> None \<and> svc_descriptors g' (trim_string (CHR '' '') i) = None} \<le> fails \<and>
    (fails = 0 \<longrightarrow> (\<forall>i \<in> set (ident_list l). map_of (entries l) i \<noteq> None \<longrightarrow> svc_descriptors g' (trim_string (CHR '' '') i) \<noteq> None))"
proof -
  obtain es' where d: "directives_loop n h ps R cl ch (entries l) (ident_list l) 0 err g = Some (ps', Returns (g', es', fails))"
    and l': "l' = \<lparr>entries = es', ident_list = []\<rparr>"
  proof -
    obtain r where r: "directives_loop n h ps R cl ch (entries l) (ident_list l) 0 err g = Some (ps', r)"
      and a: "and_then r (\<lambda>(g', es, fails). Returns (g', \<lparr>entries = es, ident_list = []\<rparr>, fails)) = Returns (g', l', fails)"
      using assms by (auto simp: process_directives_def split: option.splits)
    from a show thesis using that r by (cases r) (auto split: prod.splits)
  qed
  note k = directives_loop_known [OF d, unfolded unloaded_def add_0_right]
  have z: "{i \<in> set (ident_list l). map_of (entries l) i \<noteq> None \<and> svc_descriptors g' (trim_string (CHR '' '') i) = None} = {}" if "fails = 0"
    using k that by (intro card_0_eq [THEN iffD1]) auto
  have z': "\<forall>i \<in> set (ident_list l). map_of (entries l) i \<noteq> None \<longrightarrow> svc_descriptors g' (trim_string (CHR '' '') i) \<noteq> None" if "fails = 0"
  proof (intro ballI impI notI)
    fix i assume "i \<in> set (ident_list l)" "map_of (entries l) i \<noteq> None" "svc_descriptors g' (trim_string (CHR '' '') i) = None"
    then have "i \<in> {i \<in> set (ident_list l). map_of (entries l) i \<noteq> None \<and> svc_descriptors g' (trim_string (CHR '' '') i) = None}" by simp
    then show False unfolding z [OF that] by simp
  qed
  have n: "ident_list l' = []" "entries l' = es'" by (simp_all add: l')
  show ?thesis unfolding n
    by (intro conjI impI refl conjunct1 [OF k] conjunct1 [OF conjunct2 [OF k]] conjunct2 [OF conjunct2 [OF k]] z')
qed

definition sample_loader :: service_loader where
  "sample_loader = fst (load_entry ''a'' ''lib : make'' \<lparr>entries = [], ident_list = []\<rparr>)"

definition fails_of :: "('r gestalt \<times> service_loader \<times> nat) run_result \<Rightarrow> nat option" where
  "fails_of r = (case r of Some (ps, Returns (g, l, fails)) \<Rightarrow> Some fails | _ \<Rightarrow> None)"

lemma fails_of_Some: "fails_of r = Some f \<Longrightarrow> \<exists>ps g l. r = Some (ps, Returns (g, l, f))"
  by (auto simp: fails_of_def split: option.splits prod.splits outcome.splits)

lemma sample_loader_run:
  "fails_of (process_directives 9 sample_host [] sample_ace True (\<lambda>_. In_time) sample_loader E_NONE
     \<lparr>repo = [], svc_descriptors = Map.empty\<rparr>) = Some 0"
  by code_simp

theorem loader_loads_all_witness:
  "\<exists>ps' g' l'. process_directives 9 sample_host [] sample_ace True (\<lambda>_. In_time) sample_loader E_NONE
      \<lparr>repo = [], svc_descriptors = Map.empty\<rparr> = Some (ps', Returns (g', l', 0)) \<and>
     ident_list l' = [] \<and> svc_descriptors g' ''a'' \<noteq> None"
proof -
  obtain ps' g' l' where r: "process_directives 9 sample_host [] sample_ace True (\<lambda>_. In_time) sample_loader E_NONE
      \<lparr>repo = [], svc_descriptors = Map.empty\<rparr> = Some (ps', Returns (g', l', 0))"
    using fails_of_Some [OF sample_loader_run] by blast
  have s: "ident_list sample_loader = [''a'']" "map_of (entries sample_loader) ''a'' = Some ''lib : make''" by code_simp+
  show ?thesis using r loader_loads_all [OF r] by (intro exI [of _ ps'] exI [of _ g'] exI [of _ l']) (simp add: s sample_a)
qed

end
