(* ===== verification/Executors.thy ===== *)
theory Executors
  imports Gate
begin

text \<open>
  \<^verbatim>\<open>DAF::DirectExecutor\<close>, \<^verbatim>\<open>DAF::LockedExecutor\<close> and \<^verbatim>\<open>DAF::ConstrainedExecutor\<close> (\<^verbatim>\<open>daf/DirectExecutor.h\<close>,
  \<^verbatim>\<open>LockedExecutor.h\<close>, \<^verbatim>\<open>ConstrainedExecutor.h\<close>, \<^verbatim>\<open>.cpp\<close>): executors that run a command in the caller's thread, under a
  lock, or on another executor with a bound on the number of commands in progress.

  The constrained executor is a step system over its jobs, one for every call of \<open>execute\<close>.  Its semaphore is used
  through the gate that \<^verbatim>\<open>Semaphore.cpp\<close> refines (\<open>Gate\<close>).  The executor below is the environment: it refuses a
  command and never runs it, or runs it once, before or after its \<open>execute\<close> returns.
\<close>

section \<open>Direct and locked execution\<close>

text \<open>A command is \<open>None\<close> if nil; otherwise running it returns or throws.\<close>

definition direct_execute :: "int outcome option \<Rightarrow> int outcome" where
  "direct_execute command = (case command of None \<Rightarrow> Returns 0 | Some r \<Rightarrow> r)"

text \<open>The result and whether the lock was taken and given back; \<open>got\<close> is the result of taking it.\<close>

definition locked_execute :: "bool \<Rightarrow> int outcome option \<Rightarrow> int outcome" where
  "locked_execute got cmd =
     (if cmd \<noteq> None then if got then direct_execute cmd else Returns (- 1) else Returns 0)"

section \<open>Constrained execution\<close>

text \<open>
  A job: waiting for a permit in the constructor of \<^verbatim>\<open>ConstraintRunnable\<close>; handed to the executor below, with
  or without a permit; running; done; refused.  \<open>nil\<close>: it has no command.
\<close>

datatype job =
    J_wait bool
  | J_handed bool bool
  | J_running bool
  | J_done bool int
  | J_refused bool
  | J_thrown

record constrained =
  sem_permits :: int
  permits_total :: int
  jobs :: "job list"

definition ConstrainedExecutor_new :: "nat \<Rightarrow> constrained" where
  "ConstrainedExecutor_new k =
     (let n = ace_range 1 INT_MAX (c_int k) in \<lparr>sem_permits = n, permits_total = n, jobs = []\<rparr>)"

definition available :: "constrained \<Rightarrow> nat" where
  "available s = size_of_int (sem_permits s)"

definition cexec_size :: "constrained \<Rightarrow> nat" where
  "cexec_size s = size_of_int (permits_total s - int (available s))"

text \<open>
  How the constructor's call of \<open>acquire\<close> ends: with a permit, with an error that is ignored, or by an exception.  How
  the command ends: with a result or by an exception, which is dropped.
\<close>

datatype acquired = Acquired | Acquire_error | Acquire_throws

datatype cexec_event =
    C_execute bool
  | C_acquire nat acquired
  | C_refuse nat
  | C_run nat
  | C_finish nat "int option"

definition set_job :: "nat \<Rightarrow> job \<Rightarrow> constrained \<Rightarrow> constrained" where
  "set_job j x s = s\<lparr>jobs := (jobs s)[j := x]\<rparr>"

definition release_permit :: "constrained \<Rightarrow> constrained" where
  "release_permit s = s\<lparr>sem_permits := gate_release 1 (sem_permits s)\<rparr>"

definition cexec_step :: "constrained \<Rightarrow> cexec_event \<Rightarrow> constrained option" where
  "cexec_step s e =
     (case e of
        C_execute nil \<Rightarrow> Some (s\<lparr>jobs := jobs s @ [J_wait nil]\<rparr>)
      | C_acquire j how \<Rightarrow>
          if j < length (jobs s) then
            case jobs s ! j of
              J_wait nil \<Rightarrow>
                (case how of
                   Acquired \<Rightarrow>
                     (case gate_acquire (sem_permits s) of
                        Some p \<Rightarrow> Some (set_job j (J_handed nil True) (s\<lparr>sem_permits := p\<rparr>))
                      | None \<Rightarrow> None)
                 | Acquire_error \<Rightarrow> Some (set_job j (J_handed nil False) s)
                 | Acquire_throws \<Rightarrow> Some (set_job j J_thrown s))
            | _ \<Rightarrow> None
          else None
      | C_refuse j \<Rightarrow>
          if j < length (jobs s) then
            case jobs s ! j of J_handed nil paid \<Rightarrow> Some (set_job j (J_refused paid) s) | _ \<Rightarrow> None
          else None
      | C_run j \<Rightarrow>
          if j < length (jobs s) then
            case jobs s ! j of
              J_handed nil paid \<Rightarrow> if nil then Some (set_job j (J_done paid 0) (release_permit s)) else Some (set_job j (J_running paid) s)
            | _ \<Rightarrow> None
          else None
      | C_finish j res \<Rightarrow>
          if j < length (jobs s) then
            case jobs s ! j of
              J_running paid \<Rightarrow> Some (set_job j (J_done paid (case res of Some rc \<Rightarrow> rc | None \<Rightarrow> 0)) (release_permit s))
            | _ \<Rightarrow> None
          else None)"

section \<open>Invariant\<close>

fun running :: "job \<Rightarrow> bool" where
  "running (J_running paid) = True"
| "running _ = False"

text \<open>Jobs that hold a permit, and jobs that gave one back without having taken it.\<close>

fun holding :: "job \<Rightarrow> bool" where
  "holding (J_handed nil paid) = paid"
| "holding (J_running paid) = paid"
| "holding (J_refused paid) = paid"
| "holding _ = False"

fun refused :: "job \<Rightarrow> bool" where
  "refused (J_refused paid) = True"
| "refused _ = False"

fun unpaid :: "job \<Rightarrow> bool" where
  "unpaid (J_handed nil paid) = (\<not> paid)"
| "unpaid (J_running paid) = (\<not> paid)"
| "unpaid (J_refused paid) = (\<not> paid)"
| "unpaid (J_done paid rc) = (\<not> paid)"
| "unpaid _ = False"

fun overpaid :: "job \<Rightarrow> bool" where
  "overpaid (J_done paid rc) = (\<not> paid)"
| "overpaid _ = False"

abbreviation number :: "(job \<Rightarrow> bool) \<Rightarrow> constrained \<Rightarrow> nat" where
  "number P s \<equiv> length (filter P (jobs s))"

lemma filter_update_length:
  "i < length xs \<Longrightarrow> length (filter P (xs[i := y])) + of_bool (P (xs ! i)) = length (filter P xs) + of_bool (P y)"
proof (induction xs arbitrary: i)
  case Nil
  then show ?case by simp
next
  case (Cons x xs)
  then show ?case by (cases i) auto
qed

definition cexec_inv :: "constrained \<Rightarrow> bool" where
  "cexec_inv s \<longleftrightarrow> 1 \<le> permits_total s \<and> permits_total s \<le> INT_MAX \<and> 0 \<le> sem_permits s \<and>
     sem_permits s + int (number holding s) = permits_total s + int (number overpaid s)"

lemma cexec_inv_new: "cexec_inv (ConstrainedExecutor_new n)"
  using ace_range_bounds [of 1 INT_MAX "c_int n"] by (simp add: cexec_inv_def ConstrainedExecutor_new_def Let_def INT_MAX_def)

lemma set_job_inv:
  assumes "cexec_inv s" "j < length (jobs s)" "permits_total s' = permits_total s" "jobs s' = (jobs s)[j := x]" "0 \<le> sem_permits s'"
    "sem_permits s' + of_bool (holding x) + of_bool (overpaid (jobs s ! j)) = sem_permits s + of_bool (holding (jobs s ! j)) + of_bool (overpaid x)"
  shows "cexec_inv s'"
  using assms filter_update_length [OF assms(2), of holding x] filter_update_length [OF assms(2), of overpaid x]
  by (simp add: cexec_inv_def of_bool_def split: if_splits)

lemmas cexec_ops = cexec_step_def set_job_def release_permit_def gate_acquire_def gate_release_def

lemma cexec_step_inv:
  assumes "cexec_inv s" "cexec_step s e = Some s'"
  shows "cexec_inv s'"
proof -
  have p: "0 \<le> sem_permits s" using assms(1) by (simp add: cexec_inv_def)
  note upd = set_job_inv [OF assms(1)]
  show ?thesis
  proof (cases e)
    case (C_execute nil)
    then show ?thesis using assms by (auto simp: cexec_step_def cexec_inv_def)
  next
    case (C_acquire j how)
    then obtain nil where j: "j < length (jobs s)" "jobs s ! j = J_wait nil"
      using assms(2) by (auto simp: cexec_step_def split: if_splits job.splits)
    show ?thesis using assms(2) C_acquire j p by (cases how) (auto simp: cexec_ops split: if_splits intro!: upd [OF j(1)])
  next
    case (C_refuse j)
    then obtain nil paid where j: "j < length (jobs s)" "jobs s ! j = J_handed nil paid"
      using assms(2) by (auto simp: cexec_step_def split: if_splits job.splits)
    show ?thesis using assms(2) C_refuse j p by (auto simp: cexec_ops intro!: upd [OF j(1)])
  next
    case (C_run j)
    then obtain nil paid where j: "j < length (jobs s)" "jobs s ! j = J_handed nil paid"
      using assms(2) by (auto simp: cexec_step_def split: if_splits job.splits)
    show ?thesis using assms(2) C_run j p by (auto simp: cexec_ops split: if_splits intro!: upd [OF j(1)])
  next
    case (C_finish j res)
    then obtain paid where j: "j < length (jobs s)" "jobs s ! j = J_running paid"
      using assms(2) by (auto simp: cexec_step_def split: if_splits job.splits)
    show ?thesis using assms(2) C_finish j p by (auto simp: cexec_ops intro!: upd [OF j(1)])
  qed
qed

interpretation cexec_machine: event_invariant cexec_step cexec_inv
  by unfold_locales (rule cexec_step_inv)


lemma filter_two_le: "(\<And>x. P x \<and> Q x \<Longrightarrow> False) \<Longrightarrow> (\<And>x. P x \<or> Q x \<Longrightarrow> x \<in> set xs \<Longrightarrow> R x) \<Longrightarrow>
  length (filter P xs) + length (filter Q xs) \<le> length (filter R xs)"
proof (induction xs)
  case Nil
  then show ?case by simp
next
  case (Cons x xs)
  have "length (filter P xs) + length (filter Q xs) \<le> length (filter R xs)"
    by (rule Cons.IH) (use Cons.prems in auto)
  then show ?case using Cons.prems(1) [of x] Cons.prems(2) [of x] by auto
qed

section \<open>Properties\<close>

definition acquire_fails :: "cexec_event \<Rightarrow> bool" where
  "acquire_fails e \<longleftrightarrow> (\<exists>j. e = C_acquire j Acquire_error)"

lemma filter_update_mono:
  "i < length xs \<Longrightarrow> (P (xs ! i) \<Longrightarrow> P y) \<Longrightarrow> length (filter P xs) \<le> length (filter P (xs[i := y]))"
  using filter_update_length [of i xs P y] by (auto simp: of_bool_def split: if_splits)

text \<open>No step ends a refusal, and only a failing \<open>acquire\<close> makes a job without a permit.\<close>

lemma cexec_step_refused:
  assumes "cexec_step s e = Some s'"
  shows "number refused s \<le> number refused s'" "permits_total s' = permits_total s"
    "\<not> acquire_fails e \<Longrightarrow> number unpaid s' \<le> number unpaid s"
proof -
  have m: "number refused s \<le> length (filter refused ((jobs s)[j := x]))" if "j < length (jobs s)" "\<not> refused (jobs s ! j)" for j x
    using filter_update_mono [of j "jobs s" refused x] that by simp
  have u: "length (filter unpaid ((jobs s)[j := x])) \<le> number unpaid s" if "j < length (jobs s)" "unpaid x \<Longrightarrow> unpaid (jobs s ! j)" for j x
    using filter_update_length [of j "jobs s" unpaid x] that by (auto simp: of_bool_def split: if_splits)
  show "number refused s \<le> number refused s'" "permits_total s' = permits_total s" using assms
    by (auto simp: cexec_ops split: cexec_event.splits if_splits job.splits acquired.splits intro!: m)
  show "\<not> acquire_fails e \<Longrightarrow> number unpaid s' \<le> number unpaid s" using assms
    by (auto simp: cexec_ops acquire_fails_def split: cexec_event.splits if_splits job.splits acquired.splits intro!: u)
qed

lemma run_refused:
  "run cexec_step s es = Some s' \<Longrightarrow> list_all (\<lambda>e. \<not> acquire_fails e) es \<Longrightarrow>
   number refused s \<le> number refused s' \<and> permits_total s' = permits_total s \<and> number unpaid s' \<le> number unpaid s"
proof (induction es arbitrary: s)
  case Nil
  then show ?case by simp
next
  case (Cons e es)
  then obtain s1 where s1: "cexec_step s e = Some s1" "run cexec_step s1 es = Some s'" by (auto split: option.splits)
  from Cons.IH [OF s1(2)] Cons.prems(2) cexec_step_refused [OF s1(1)] show ?case by fastforce
qed

lemma constrained_counts:
  assumes "cexec_inv s" "number unpaid s = 0"
  shows "sem_permits s = permits_total s - int (number holding s)" "number running s + number refused s \<le> number holding s"
proof -
  have z: "\<not> unpaid x" if "x \<in> set (jobs s)" for x using assms(2) that by (auto simp: filter_empty_conv)
  have "number overpaid s = 0" using z by (auto simp: filter_empty_conv elim!: overpaid.elims) (metis unpaid.simps(4))
  then show "sem_permits s = permits_total s - int (number holding s)" using assms(1) by (simp add: cexec_inv_def)
  show "number running s + number refused s \<le> number holding s"
  proof (rule filter_two_le)
    show "running x \<and> refused x \<Longrightarrow> False" for x by (cases x) auto
    show "running x \<or> refused x \<Longrightarrow> x \<in> set (jobs s) \<Longrightarrow> holding x" for x using z [of x] by (cases x) auto
  qed
qed

definition unpaid_events :: "cexec_event list" where
  "unpaid_events = [C_execute False, C_acquire 0 Acquire_error, C_run 0, C_finish 0 (Some 0), C_execute False, C_acquire 1 Acquired, C_run 1,
     C_execute False, C_acquire 2 Acquired, C_run 2]"

lemma unpaid_run: "map_option (\<lambda>s. (permits_total s, number running s)) (run cexec_step (ConstrainedExecutor_new 1) unpaid_events) = Some (1, 2)"
  by code_simp

text \<open>
  Claim C16.  \<open>ConstrainedExecutor\<close>.  As long as every job got its permit, the commands that run and those that were refused
  by the executor below are together at most as many as the permits, \<open>available\<close> is the number of permits less the jobs
  that hold one, and \<open>size\<close> the number of the latter.  But a refused job never gives its permit back: after as many refusals as
  there are permits, no \<open>execute\<close> gets one any more.  And a job whose \<open>acquire\<close> fails runs all the same and gives back a permit
  that it never had, so that with one permit two commands can run at a time.
\<close>

theorem constrained_bounded:
  assumes "reachable cexec_step (ConstrainedExecutor_new n) s"
  shows "(number unpaid s = 0 \<longrightarrow> int (number running s + number refused s) \<le> permits_total s \<and>
      int (available s) = permits_total s - int (number holding s) \<and> cexec_size s = number holding s) \<and>
    (number unpaid s = 0 \<and> int (number refused s) = permits_total s \<longrightarrow>
      (\<forall>es s' j. run cexec_step s es = Some s' \<and> list_all (\<lambda>e. \<not> acquire_fails e) es \<longrightarrow> cexec_step s' (C_acquire j Acquired) = None)) \<and>
    (\<exists>s. reachable cexec_step (ConstrainedExecutor_new 1) s \<and> permits_total s = 1 \<and> number running s = 2)"
proof -
  have inv: "cexec_inv s" using cexec_machine.reachable_inv [OF cexec_inv_new assms] .
  then have b: "0 \<le> sem_permits s" "1 \<le> permits_total s" "permits_total s \<le> INT_MAX" by (simp_all add: cexec_inv_def)
  have 1: "int (number running s + number refused s) \<le> permits_total s \<and>
      int (available s) = permits_total s - int (number holding s) \<and> cexec_size s = number holding s" if "number unpaid s = 0"
    using constrained_counts [OF inv that] b by (simp add: available_def cexec_size_def size_of_int_def INT_MAX_def)
  have 2: "cexec_step s' (C_acquire j Acquired) = None"
    if u: "number unpaid s = 0" "int (number refused s) = permits_total s" and r: "run cexec_step s es = Some s'" "list_all (\<lambda>e. \<not> acquire_fails e) es" for es s' j
  proof -
    have inv': "cexec_inv s'" using cexec_machine.run_inv [OF inv r(1)] .
    have rr: "number refused s \<le> number refused s'" "permits_total s' = permits_total s" "number unpaid s' = 0"
      using run_refused [OF r] u(1) by simp_all
    have "sem_permits s' \<le> 0" using constrained_counts [OF inv' rr(3)] rr(1,2) u(2) by linarith
    then show ?thesis by (simp add: cexec_step_def gate_acquire_def split: job.split)
  qed
  obtain s1 where "run cexec_step (ConstrainedExecutor_new 1) unpaid_events = Some s1" "permits_total s1 = 1" "number running s1 = 2"
    using unpaid_run by auto
  then have 3: "\<exists>s. reachable cexec_step (ConstrainedExecutor_new 1) s \<and> permits_total s = 1 \<and> number running s = 2"
    by (auto simp: reachable_def)
  show ?thesis using 1 2 3 by blast
qed

definition refused_events :: "cexec_event list" where
  "refused_events = [C_execute False, C_acquire 0 Acquired, C_refuse 0, C_execute False]"

theorem constrained_bounded_witness:
  "cexec_step (the (run cexec_step (ConstrainedExecutor_new 1) refused_events)) (C_acquire 1 Acquired) = None \<and>
   cexec_size (the (run cexec_step (ConstrainedExecutor_new 1) refused_events)) = 1"
proof -
  let ?s = "the (run cexec_step (ConstrainedExecutor_new 1) refused_events)"
  have r: "run cexec_step (ConstrainedExecutor_new 1) refused_events \<noteq> None" and u: "number unpaid ?s = 0"
    and f: "int (number refused ?s) = permits_total ?s" and h: "number holding ?s = 1"
    by code_simp+
  have e: "run cexec_step ?s [] = Some ?s" "list_all (\<lambda>e. \<not> acquire_fails e) []" by simp_all
  show ?thesis using constrained_bounded [OF reachable_run [OF r]] u f h e by metis
qed

end
