(* ===== verification/Shutdown.thy ===== *)
theory Shutdown
  imports Monitor_Rule
begin

text \<open>
  \<^verbatim>\<open>DAF::ShutdownHandler\<close> (\<^verbatim>\<open>daf/ShutdownHandler.h\<close>, \<^verbatim>\<open>.cpp\<close>): a flag with a monitor that tells threads that the
  process is to end.  The flag is written and first read without the mutex; a sender takes it afterwards, to wake
  the waiting threads.  \<open>pending\<close> is a history variable: the number of senders that have
  written the flag and not yet notified.
\<close>

section \<open>Model\<close>

record shutdown_data =
  shutdown_flag :: bool
  pending :: nat

datatype sd_pc =
    SD_idle
  | SD_test
  | SD_lock
  | SD_while
  | SD_wait
  | SD_woke wres
  | SD_set bool
  | SD_send
  | SD_notify
  | SD_sent
  | SD_return int
  | SD_throw daf_exception

text \<open>\<open>wait_shutdown\<close> starts at \<open>SD_test\<close>, \<open>send_shutdown\<close> at \<open>SD_set\<close>.\<close>

fun Shutdown_code :: "(shutdown_data, sd_pc) code" where
  "Shutdown_code SD_test c i w d = (d, Goto (if \<not> shutdown_flag d then SD_lock else SD_return 0))"
| "Shutdown_code SD_lock c i w d = (d, Lock SD_while)"
| "Shutdown_code SD_while c i w d = (if \<not> shutdown_flag d then (d, Goto SD_wait) else (d, Unlock (SD_return 0)))"
| "Shutdown_code SD_wait c i w d = (d, Wait SD_woke)"
| "Shutdown_code (SD_woke W_ok) c i w d = (d, Goto SD_while)"
| "Shutdown_code (SD_woke (W_error e)) c i w d = (if e = ETIME then (d, Unlock (SD_return (- 1))) else (d, Goto SD_while))"
| "Shutdown_code (SD_woke W_interrupted) c i w d = (d, Unlock (SD_throw InterruptedException))"
| "Shutdown_code (SD_set state) c i w d = (d\<lparr>shutdown_flag := state, pending := Suc (pending d)\<rparr>, Goto SD_send)"
| "Shutdown_code SD_send c i w d = (d, Lock SD_notify)"
| "Shutdown_code SD_notify c i w d = (d\<lparr>pending := pending d - 1\<rparr>, NotifyAll SD_sent)"
| "Shutdown_code SD_sent c i w d = (d, Unlock (SD_return 0))"
| "Shutdown_code _ c i w d = (d, Halt)"

text \<open>
  \<open>handle_signal\<close>: whether a shutdown is sent, and the result.  The arguments: the signal is one of the handler's,
  what \<open>handle_shutdown\<close> did (\<open>None\<close> if it threw), and the result of the base class.
\<close>

definition handle_signal :: "bool \<Rightarrow> int option \<Rightarrow> int \<Rightarrow> bool \<times> int" where
  "handle_signal member hook base =
     (if member then
        case hook of None \<Rightarrow> (True, - 1) | Some rc \<Rightarrow> if rc = 0 then (True, - 1) else (False, base)
      else (False, base))"

fun sd_entry :: "sd_pc \<Rightarrow> bool" where
  "sd_entry SD_test = True"
| "sd_entry (SD_set b) = True"
| "sd_entry _ = False"

fun sd_final :: "sd_pc \<Rightarrow> bool" where
  "sd_final SD_idle = True"
| "sd_final (SD_return r) = True"
| "sd_final (SD_throw e) = True"
| "sd_final _ = False"

fun sd_holds :: "sd_pc \<Rightarrow> bool" where
  "sd_holds SD_while = True"
| "sd_holds SD_wait = True"
| "sd_holds (SD_woke r) = True"
| "sd_holds SD_notify = True"
| "sd_holds SD_sent = True"
| "sd_holds _ = False"

definition sd_step :: "(shutdown_data, sd_pc) mon \<Rightarrow> sd_pc event \<Rightarrow> (shutdown_data, sd_pc) mon option" where
  "sd_step = mon_step Shutdown_code sd_entry sd_final"

definition sd_start :: "(shutdown_data, sd_pc) mon" where
  "sd_start = mon_init \<lparr>shutdown_flag = False, pending = 0\<rparr> SD_idle"

section \<open>Lemmas\<close>

fun sending :: "sd_pc \<Rightarrow> bool" where
  "sending SD_send = True"
| "sending SD_notify = True"
| "sending _ = False"

text \<open>Once the flag is set, a thread sleeps or goes to sleep only while a sender is still to notify.\<close>

fun sd_asn :: "(shutdown_data, sd_pc) assertion" where
  "sd_asn h d i a n \<longleftrightarrow>
     (shutdown_flag d \<and> (0 < a \<or> h = Some (Run SD_wait) \<or> (\<exists>k. h = Some (Entering k))) \<longrightarrow> 0 < pending d)"

fun sd_loc :: "bool \<Rightarrow> sd_pc tstate \<Rightarrow> bool" where
  "sd_loc i (Entering k) = (k = SD_woke)"
| "sd_loc i (Sleeping k) = (k = SD_woke)"
| "sd_loc i (Waking r k) = (k = SD_woke)"
| "sd_loc i _ = True"

lemma sd_loc_flag: "sd_loc i s = sd_loc j s"
  by (cases "(i, s)" rule: sd_loc.cases) auto

interpretation shutdown_client: monitor_client Shutdown_code sd_entry sd_final sd_holds
proof (rule monitor_clientI)
  show "act_ok sd_holds l (snd (Shutdown_code l c i w d))" for l c i w d
    by (induction l c i w d rule: Shutdown_code.induct) auto
  show "\<not> sd_holds l" if "sd_entry l \<or> sd_final l" for l
    using that by (cases l) auto
qed

interpretation shutdown_rule: monitor_proof Shutdown_code sd_entry sd_final sd_holds "\<lambda>_. sending" "\<lambda>_. pending"
  sd_asn "\<lambda>_. sd_loc" "\<lambda>_. True"
proof
  fix l c i w d d' x
  assume "Shutdown_code l c i w d = (d', x)" "x \<noteq> Halt" "\<And>j::nat. sending l \<Longrightarrow> 0 < pending d"
  then show "pending d' + of_bool (sending l) = pending d + of_bool (next_tagged sending x)"
    by (induction l c i w d rule: Shutdown_code.induct) (auto split: if_splits)
next
  fix l c i w d d' k r
  assume "Shutdown_code l c i w d = (d', Wait k)"
  then show "\<not> sending (k r)" by (induction l c i w d rule: Shutdown_code.induct) (auto split: if_splits)
next
  show "\<not> sending l" if "sd_entry l \<or> sd_final l" for l using that by (cases l) auto
next
  fix l c i a n d d' x
  assume h: "sd_holds l" "sd_loc i (Run l)" "\<And>j::nat. sending l \<Longrightarrow> 0 < pending d" "sd_asn (Some (Run l)) d i a n"
    and c: "Shutdown_code l c i (int a + int n) d = (d', x)"
  show "act_post sd_asn (sd_loc i) d' i a n x"
  proof (cases l)
    case (SD_woke r)
    then show ?thesis using h c by (cases r) (auto split: if_splits)
  qed (use h c in \<open>auto split: if_splits\<close>)
next
  fix l c i w d d' x h a n
  assume "\<not> sd_holds l" "sd_loc i (Run l)" "\<And>j::nat. sending l \<Longrightarrow> 0 < pending d" "sd_asn h d i a n" "Shutdown_code l c i w d = (d', x)"
  then show "act_outside sd_asn (sd_loc i) d i d' x" by (cases l) (auto split: if_splits)
qed (auto simp: sd_loc_flag [of False _ True] elim: sd_entry.elims plain.elims)

lemma sd_reachable:
  assumes "reachable sd_step sd_start m"
  shows "annotated sd_holds sd_asn (\<lambda>_. sd_loc) m" "tag_inv sending pending m"
proof -
  have r: "reachable (restrict_step (wake_in (\<lambda>_. True)) (mon_step Shutdown_code sd_entry sd_final))
      (mon_init \<lparr>shutdown_flag = False, pending = 0\<rparr> SD_idle) m"
    using assms by (simp add: restrict_step_all sd_step_def sd_start_def)
  show "annotated sd_holds sd_asn (\<lambda>_. sd_loc) m" by (rule shutdown_rule.reachable_annotated [OF r]) simp_all
  show "tag_inv sending pending m" using shutdown_rule.reachable_tags [OF r] by simp
qed

lemma sleeper_sees_shutdown:
  assumes "thr m t = Sleeping SD_woke" "mutex m = None" "\<not> interrupted m" "shutdown_flag (data m)"
  shows "\<exists>m'. run sd_step m [Wake t W_ok, Step t 0, Step t 0, Step t 0] = Some m' \<and> thr m' t = Run (SD_return 0)"
  using assms by (simp add: sd_step_def mon_step_def wait_wake_def thread_step_def wait_leave_def run_code_def)

lemma sender_notifies:
  assumes "thr m t = Run SD_send" "mutex m = None"
  shows "\<exists>m'. run sd_step m [Step t 0, Step t 0, Step t 0] = Some m' \<and> thr m' t = Run (SD_return 0) \<and> asleep m' = []"
  using assms by (simp add: sd_step_def mon_step_def thread_step_def run_code_def broadcast_def)

section \<open>Properties\<close>

text \<open>
  Claim C17.  No thread misses a shutdown.  In every interleaving of waiting and sending threads, with time-outs, spurious
  wake-ups, failing waits, interrupts and senders that reset the flag: while the flag is set, a thread is asleep unsignalled only if some
  sender has written the flag and is still to notify, and that sender, once it gets the mutex, wakes all and returns 0.  A waiting
  thread that runs while the flag is set returns 0 by steps of its own.  A \<open>wait_shutdown\<close> returns 0 only after it
  saw the flag, and -1 only from a wait that timed out.
\<close>

theorem shutdown_not_missed:
  assumes "reachable sd_step sd_start m"
  shows "(shutdown_flag (data m) \<and> asleep m \<noteq> [] \<longrightarrow> (\<exists>t. thr m t = Run SD_send \<or> thr m t = Run SD_notify)) \<and>
    (\<forall>t. thr m t = Run SD_send \<and> mutex m = None \<longrightarrow>
       (\<exists>m'. run sd_step m [Step t 0, Step t 0, Step t 0] = Some m' \<and> thr m' t = Run (SD_return 0) \<and> asleep m' = [])) \<and>
    (shutdown_flag (data m) \<and> \<not> interrupted m \<and> mutex m = None \<longrightarrow>
       (\<forall>t. sleeping (thr m t) \<longrightarrow>
          (\<exists>m'. run sd_step m [Wake t W_ok, Step t 0, Step t 0, Step t 0] = Some m' \<and> thr m' t = Run (SD_return 0)))) \<and>
    (\<forall>t pick l m' rc. thr m t = Run l \<and> \<not> sending l \<and> l \<noteq> SD_sent \<and> sd_step m (Step t pick) = Some m' \<and> thr m' t = Run (SD_return rc) \<longrightarrow>
       rc = 0 \<and> shutdown_flag (data m) \<or> rc = - 1 \<and> l = SD_woke (W_error ETIME))"
proof -
  note ok = sd_reachable [OF assms]
  have s: "thr m t = Sleeping SD_woke" if "sleeping (thr m t)" for t
    using annotatedD(2) [OF ok(1), of t] that by (cases "thr m t") auto
  have p: "\<exists>t. thr m t = Run SD_send \<or> thr m t = Run SD_notify" if "shutdown_flag (data m)" "asleep m \<noteq> []"
  proof -
    have "0 < pending (data m)" using annotatedD(4) [OF ok(1)] that by simp
    then have "tag_set sending m \<noteq> {}" using ok(2) by (auto simp: tag_inv_def)
    then obtain t where "tag_state sending (thr m t)" by (auto simp: tag_set_def)
    then show ?thesis by (cases "thr m t") (auto elim: sending.elims)
  qed
  have w: "\<exists>m'. run sd_step m [Wake t W_ok, Step t 0, Step t 0, Step t 0] = Some m' \<and> thr m' t = Run (SD_return 0)"
    if "shutdown_flag (data m)" "\<not> interrupted m" "mutex m = None" "sleeping (thr m t)" for t
    using sleeper_sees_shutdown [OF s [OF that(4)] that(3,2,1)] .
  have r: "rc = 0 \<and> shutdown_flag (data m) \<or> rc = - 1 \<and> l = SD_woke (W_error ETIME)"
    if "thr m t = Run l" "\<not> sending l" "l \<noteq> SD_sent" "sd_step m (Step t pick) = Some m'" "thr m' t = Run (SD_return rc)" for t pick l m' rc
    using that by (induction l pick "interrupted m" "waiters m" "data m" rule: Shutdown_code.induct)
      (auto simp: sd_step_def mon_step_def thread_step_def run_code_def wait_test_def split: if_splits)
  show ?thesis using p sender_notifies w r by blast
qed

definition sd_asleep :: "sd_pc event list" where
  "sd_asleep = [Call 0 SD_test, Step 0 0, Step 0 0, Step 0 0, Call 1 (SD_set True), Step 1 0, Step 0 0, Step 0 0]"

theorem shutdown_not_missed_witness:
  "\<exists>m'. run sd_step (the (run sd_step sd_start sd_asleep)) [Wake 0 W_ok, Step 0 0, Step 0 0, Step 0 0] = Some m' \<and>
     thr m' 0 = Run (SD_return 0)"
proof -
  let ?m = "the (run sd_step sd_start sd_asleep)"
  have r: "run sd_step sd_start sd_asleep \<noteq> None" and i: "\<not> interrupted ?m" and x: "mutex ?m = None"
    and f: "shutdown_flag (data ?m)" and s: "sleeping (thr ?m 0)"
    by code_simp+
  show ?thesis using shutdown_not_missed [OF reachable_run [OF r]] i x f s by blast
qed

end
