(* ===== verification/Naming.thy ===== *)
theory Naming
  imports DAF_Text
begin

text \<open>
  \<^verbatim>\<open>TAF::NamingContext\<close> (\<^verbatim>\<open>TAF/taf/NamingContext.h\<close>, \<^verbatim>\<open>.cpp\<close>): names of the form \<^verbatim>\<open>a/b/c\<close> over the CORBA naming service, which
  knows single names only.  The naming service is a parameter: the record \<open>cos\<close> of its operations over a state type
  \<open>'s\<close>, contexts \<open>'c\<close> and objects \<open>'o\<close>.  The operations that walk along a path recurse on the rest of the text,
  which gets shorter.
\<close>

section \<open>The naming service\<close>

datatype cos_error = NotFound | BAD_PARAM | INV_OBJREF | Cos_other nat

text \<open>A reference is to a context or to another object.\<close>

datatype ('c, 'o) ref = Cxt 'c | Obj 'o

record ('s, 'c, 'o) cos =
  cos_root :: 'c
  cos_resolve :: "'s \<Rightarrow> 'c \<Rightarrow> string \<Rightarrow> cos_error + ('c, 'o) ref"
  cos_bind_new :: "'s \<Rightarrow> 'c \<Rightarrow> string \<Rightarrow> cos_error + ('s \<times> 'c)"
  cos_rebind :: "'s \<Rightarrow> 'c \<Rightarrow> string \<Rightarrow> ('c, 'o) ref \<Rightarrow> cos_error + 's"
  cos_unbind :: "'s \<Rightarrow> 'c \<Rightarrow> string \<Rightarrow> cos_error + 's"

section \<open>Model\<close>

abbreviation slash :: char where
  "slash \<equiv> CHR ''/''"

text \<open>\<open>std::string::find_last_of\<close> for one character.\<close>

definition find_last :: "char \<Rightarrow> string \<Rightarrow> nat option" where
  "find_last c s = (if c \<in> set s then Some (length s - Suc (length (takeWhile (\<lambda>d. d \<noteq> c) (rev s)))) else None)"

definition trim_context :: "string \<Rightarrow> string" where
  "trim_context context =
     (if find_from slash context 0 = Some 0 then [slash] @ trim_string slash (drop 1 context) else trim_string slash context)"

lemma trim_string_length: "length (trim_string c s) \<le> length s"
  using trim_string_core [of s c] by (metis length_append length_map le_add2 le_add1 trans_le_add2)

lemma trim_context_length: "length (trim_context s) \<le> length s"
proof (cases "find_from slash s 0 = Some 0")
  case True
  then have "s \<noteq> []" by (auto simp: find_from_def)
  then have "Suc (length (drop 1 s)) = length s" by (cases s) auto
  then show ?thesis using True trim_string_length [of slash "drop 1 s"] by (simp add: trim_context_def)
next
  case False
  then show ?thesis using trim_string_length [of slash s] by (simp add: trim_context_def)
qed

lemma found_length: "find_from c (trim_context s) 0 = Some p \<Longrightarrow> length (drop (Suc p) (trim_context s)) < length s"
  using find_from_bounds [of c "trim_context s" 0 p] trim_context_length [of s] by auto

text \<open>\<open>_narrow\<close> of what was found gives a context or nil.\<close>

function find_context :: "('s, 'c, 'o) cos \<Rightarrow> 's \<Rightarrow> 'c \<Rightarrow> string \<Rightarrow> cos_error + 'c" where
  "find_context N s this path =
     (let cxt_path = trim_context path in
      case find_from slash cxt_path 0 of
        Some pos \<Rightarrow>
          if pos = 0 then find_context N s (cos_root N) (drop 1 cxt_path)
          else let cxt_name = trim_context (take pos cxt_path) in
            if cxt_name = [] then Inr this
            else (case cos_resolve N s this cxt_name of
                Inl e \<Rightarrow> Inl e
              | Inr (Cxt c) \<Rightarrow> find_context N s c (drop (Suc pos) cxt_path)
              | Inr (Obj x) \<Rightarrow> Inl NotFound)
      | None \<Rightarrow>
          let cxt_name = trim_context cxt_path in
          if cxt_name = [] then Inr this
          else (case cos_resolve N s this cxt_name of
              Inl e \<Rightarrow> Inl e
            | Inr (Cxt c) \<Rightarrow> Inr c
            | Inr (Obj x) \<Rightarrow> Inl NotFound))"
  by pat_completeness auto
termination
proof (relation "measure (\<lambda>(N, s, this, path). length path)", goal_cases)
  case (2 N s this path x pos)
  then show ?case using found_length [of slash path pos] by simp
next
  case (3 N s this path x pos)
  then show ?case using found_length [of slash path pos] by simp
qed simp

declare find_context.simps [simp del]

text \<open>
  An object in the place of a context makes the next context nil, on which nothing can be called.  The state that comes back with an
  error has the contexts that were created before the call that threw.
\<close>

function bind_context :: "('s, 'c, 'o) cos \<Rightarrow> 's \<Rightarrow> 'c option \<Rightarrow> string \<Rightarrow> 's \<times> (cos_error + 'c option)" where
  "bind_context N s this path =
     (let cxt_path = trim_context path in
      case find_from slash cxt_path 0 of
        Some pos \<Rightarrow>
          if pos = 0 then bind_context N s (Some (cos_root N)) (drop 1 cxt_path)
          else let cxt_name = trim_context (take pos cxt_path) in
            if cxt_name = [] then (s, Inr this)
            else (case this of
                None \<Rightarrow> (s, Inl INV_OBJREF)
              | Some t \<Rightarrow>
                  (case cos_resolve N s t cxt_name of
                     Inr (Cxt c) \<Rightarrow> bind_context N s (Some c) (drop (Suc pos) cxt_path)
                   | Inr (Obj x) \<Rightarrow> bind_context N s None (drop (Suc pos) cxt_path)
                   | Inl e \<Rightarrow>
                       if e = NotFound then
                         (case cos_bind_new N s t cxt_name of
                            Inl e' \<Rightarrow> (s, Inl e')
                          | Inr (s', c) \<Rightarrow> bind_context N s' (Some c) (drop (Suc pos) cxt_path))
                       else (s, Inl e)))
      | None \<Rightarrow>
          let cxt_name = trim_context cxt_path in
          if cxt_name = [] then (s, Inr this)
          else (case this of
              None \<Rightarrow> (s, Inl INV_OBJREF)
            | Some t \<Rightarrow>
                (case cos_resolve N s t cxt_name of
                   Inr (Cxt c) \<Rightarrow> (s, Inr (Some c))
                 | Inr (Obj x) \<Rightarrow> (s, Inr None)
                 | Inl e \<Rightarrow>
                     if e = NotFound then
                       (case cos_bind_new N s t cxt_name of Inl e' \<Rightarrow> (s, Inl e') | Inr (s', c) \<Rightarrow> (s', Inr (Some c)))
                     else (s, Inl e))))"
  by pat_completeness auto
termination
proof (relation "measure (\<lambda>(N, s, this, path). length path)", goal_cases)
  case (2 N s this path x pos)
  then show ?case using found_length [of slash path pos] by simp
next
  case (3 N s this path x pos)
  then show ?case using found_length [of slash path pos] by simp
next
  case (4 N s this path x pos)
  then show ?case using found_length [of slash path pos] by simp
next
  case (5 N s this path x pos)
  then show ?case using found_length [of slash path pos] by simp
qed simp

declare bind_context.simps [simp del]

lemma last_length: "find_last c (trim_context s) = Some p \<Longrightarrow> length (drop (Suc p) (trim_context s)) < length s"
  using trim_context_length [of s] by (auto simp: find_last_def split: if_splits)
    (metis Suc_le_lessD diff_less length_greater_0_conv length_pos_if_in_set less_Suc_eq_le not_less_eq_eq order_less_le_trans zero_less_Suc)

function bind_name :: "('s, 'c, 'o) cos \<Rightarrow> 's \<Rightarrow> 'c option \<Rightarrow> string \<Rightarrow> ('c, 'o) ref option \<Rightarrow> 's \<times> (cos_error + unit)" where
  "bind_name N s this path obj =
     (let obj_name = trim_context path in
      if obj_name = [] then (s, Inl BAD_PARAM)
      else case find_last slash obj_name of
        Some pos \<Rightarrow>
          if pos > 0 then
            (case bind_context N s this (take (Suc pos) obj_name) of
               (s', Inl e) \<Rightarrow> (s', Inl e)
             | (s', Inr c) \<Rightarrow> bind_name N s' c (drop (Suc pos) obj_name) obj)
          else bind_name N s (Some (cos_root N)) (drop 1 obj_name) obj
      | None \<Rightarrow>
          (case obj of
             None \<Rightarrow> (s, Inr ())
           | Some x \<Rightarrow>
               (case this of
                  None \<Rightarrow> (s, Inl INV_OBJREF)
                | Some t \<Rightarrow> (case cos_rebind N s t obj_name x of Inl e \<Rightarrow> (s, Inl e) | Inr s' \<Rightarrow> (s', Inr ())))))"
  by pat_completeness auto
termination
proof (relation "measure (\<lambda>(N, s, this, path, obj). length path)", goal_cases)
  case (2 N s this path obj x pos)
  then show ?case using last_length [of slash path pos] by simp
next
  case (3 N s this path obj x pos)
  then show ?case using last_length [of slash path pos] by simp
qed simp

declare bind_name.simps [simp del]

function unbind_name :: "('s, 'c, 'o) cos \<Rightarrow> 's \<Rightarrow> 'c \<Rightarrow> string \<Rightarrow> cos_error + 's" where
  "unbind_name N s this path =
     (let obj_name = trim_context path in
      if obj_name = [] then Inl BAD_PARAM
      else case find_last slash obj_name of
        Some pos \<Rightarrow>
          if pos > 0 then
            (case find_context N s this (take (Suc pos) obj_name) of
               Inl e \<Rightarrow> Inl e
             | Inr c \<Rightarrow> unbind_name N s c (drop (Suc pos) obj_name))
          else unbind_name N s (cos_root N) (drop 1 obj_name)
      | None \<Rightarrow> cos_unbind N s this obj_name)"
  by pat_completeness auto
termination
proof (relation "measure (\<lambda>(N, s, this, path). length path)", goal_cases)
  case (2 N s this path x pos)
  then show ?case using last_length [of slash path pos] by simp
next
  case (3 N s this path x pos)
  then show ?case using last_length [of slash path pos] by simp
qed simp

declare unbind_name.simps [simp del]

function resolve_name :: "('s, 'c, 'o) cos \<Rightarrow> 's \<Rightarrow> 'c \<Rightarrow> string \<Rightarrow> cos_error + ('c, 'o) ref" where
  "resolve_name N s this path =
     (let obj_name = trim_context path in
      if obj_name = [] then Inl NotFound
      else case find_last slash obj_name of
        Some pos \<Rightarrow>
          if pos > 0 then
            (case find_context N s this (take pos obj_name) of
               Inl e \<Rightarrow> Inl e
             | Inr c \<Rightarrow> resolve_name N s c (drop (Suc pos) obj_name))
          else resolve_name N s (cos_root N) (drop 1 obj_name)
      | None \<Rightarrow> cos_resolve N s this obj_name)"
  by pat_completeness auto
termination
proof (relation "measure (\<lambda>(N, s, this, path). length path)", goal_cases)
  case (2 N s this path x pos)
  then show ?case using last_length [of slash path pos] by simp
next
  case (3 N s this path x pos)
  then show ?case using last_length [of slash path pos] by simp
qed simp

declare resolve_name.simps [simp del]

definition list_context_max :: "nat \<Rightarrow> int" where
  "list_context_max k = ace_range 1 100 (c_int k)"

section \<open>Paths\<close>

lemma find_last_fresh: "c \<notin> set b \<Longrightarrow> find_last c (a @ c # b) = Some (length a)" "c \<notin> set b \<Longrightarrow> find_last c b = None"
proof -
  have "takeWhile (\<lambda>d. d \<noteq> c) (rev b @ c # rev a) = rev b" if "c \<notin> set b" using that by (induction b rule: rev_induct) auto
  then show "c \<notin> set b \<Longrightarrow> find_last c (a @ c # b) = Some (length a)" "c \<notin> set b \<Longrightarrow> find_last c b = None"
    by (auto simp: find_last_def)
qed

text \<open>The text of a name without separators, and of a path of such names, each followed by a separator.\<close>

definition plain_name :: "string \<Rightarrow> bool" where
  "plain_name n \<longleftrightarrow> n \<noteq> [] \<and> slash \<notin> set n \<and> \<not> blank (hd n) \<and> \<not> blank (last n) \<and> list_all (\<lambda>c. \<not> c_iscntrl c) n"

definition path_of :: "string list \<Rightarrow> string" where
  "path_of cs = concat (map (\<lambda>n. n @ [slash]) cs)"

lemma path_of_simps [simp]: "path_of [] = []" "path_of (n # cs) = n @ slash # path_of cs" "path_of (cs @ ds) = path_of cs @ path_of ds"
  by (simp_all add: path_of_def)

definition tidy :: "string \<Rightarrow> bool" where
  "tidy t \<longleftrightarrow> (t \<noteq> [] \<longrightarrow> hd t \<noteq> slash \<and> \<not> blank (hd t) \<and> \<not> blank (last t)) \<and> list_all (\<lambda>c. \<not> c_iscntrl c) t"

lemma slash_char: "\<not> blank slash" "\<not> c_iscntrl slash"
  by code_simp+

lemma tidy_trim: "tidy t \<Longrightarrow> trim_string slash t = t"
  by (rule trim_string_fixed) (auto simp: tidy_def trimmed_def list_all_iff)

lemma tidy_context: "tidy t \<Longrightarrow> trim_context t = t" "tidy t \<Longrightarrow> trim_context (slash # t) = slash # t"
proof -
  assume t: "tidy t"
  have "find_from slash t 0 \<noteq> Some 0" using t find_from_bounds [of slash t 0 0] by (cases t) (auto simp: tidy_def)
  then show "trim_context t = t" using tidy_trim [OF t] by (simp add: trim_context_def)
  show "trim_context (slash # t) = slash # t" using tidy_trim [OF t] by (simp add: trim_context_def find_from_def)
qed

lemma tidy_plain: "plain_name n \<Longrightarrow> tidy n"
  by (cases n) (auto simp: plain_name_def tidy_def)

lemma tidy_path: "list_all plain_name cs \<Longrightarrow> t = [] \<or> plain_name t \<Longrightarrow> tidy (path_of cs @ t)"
proof (induction cs)
  case Nil
  then show ?case using tidy_plain by (auto simp: tidy_def)
next
  case (Cons n cs)
  then have n: "plain_name n" and r: "tidy (path_of cs @ t)" by auto
  have "last (slash # path_of cs @ t) = (if path_of cs @ t = [] then slash else last (path_of cs @ t))" by simp
  then show ?case using tidy_plain [OF n] r n slash_char
    by (auto simp: tidy_def plain_name_def hd_append)
qed

section \<open>Walking along a path\<close>

fun walk :: "('s, 'c, 'o) cos \<Rightarrow> 's \<Rightarrow> 'c \<Rightarrow> string list \<Rightarrow> cos_error + 'c" where
  "walk N s c [] = Inr c"
| "walk N s c (n # ns) =
     (case cos_resolve N s c n of
        Inl e \<Rightarrow> Inl e | Inr (Cxt c') \<Rightarrow> walk N s c' ns | Inr (Obj x) \<Rightarrow> Inl NotFound)"

lemma find_context_step:
  assumes "plain_name n" "tidy (n @ slash # t)"
  shows "find_context N s c (n @ slash # t) =
    (case cos_resolve N s c n of Inl e \<Rightarrow> Inl e | Inr (Cxt c') \<Rightarrow> find_context N s c' t | Inr (Obj x) \<Rightarrow> Inl NotFound)"
proof -
  have n: "slash \<notin> set n" "n \<noteq> []" "trim_context n = n" using assms(1) tidy_context(1) [OF tidy_plain] by (auto simp: plain_name_def)
  show ?thesis
    by (subst find_context.simps) (simp add: tidy_context [OF assms(2)] find_from_fresh(1) [OF n(1)] n(2,3) Let_def split: sum.split ref.split)
qed

lemma find_context_name:
  assumes "plain_name n"
  shows "find_context N s c n = walk N s c [n]" "find_context N s c [] = Inr c"
proof -
  have n: "slash \<notin> set n" "n \<noteq> []" "trim_context n = n" using assms tidy_context(1) [OF tidy_plain] by (auto simp: plain_name_def)
  show "find_context N s c n = walk N s c [n]"
    by (subst find_context.simps) (auto simp: n find_from_fresh(2) [OF n(1)] Let_def split: sum.split ref.split)
  have e: "trim_context [] = []" by code_simp
  show "find_context N s c [] = Inr c" by (subst find_context.simps) (simp add: e find_from_def Let_def)
qed

lemma find_context_empty: "find_context N s c [] = Inr c"
proof -
  have "plain_name ''a''" by code_simp
  then show ?thesis by (rule find_context_name)
qed

lemma find_context_walk:
  "list_all plain_name cs \<Longrightarrow> find_context N s c (path_of cs) = walk N s c cs"
  "list_all plain_name cs \<Longrightarrow> plain_name n \<Longrightarrow> find_context N s c (path_of cs @ n) = walk N s c (cs @ [n])"
proof -
  show "list_all plain_name cs \<Longrightarrow> find_context N s c (path_of cs) = walk N s c cs"
  proof (induction cs arbitrary: c)
    case Nil
    then show ?case by (simp add: find_context_empty)
  next
    case (Cons n cs)
    then have "tidy (n @ slash # path_of cs)" using tidy_path [of "n # cs" "[]"] by simp
    with Cons show ?case by (auto simp: find_context_step split: sum.split ref.split)
  qed
  show "list_all plain_name cs \<Longrightarrow> plain_name n \<Longrightarrow> find_context N s c (path_of cs @ n) = walk N s c (cs @ [n])"
  proof (induction cs arbitrary: c)
    case Nil
    then show ?case using find_context_name(1) by simp
  next
    case (Cons m cs)
    then have "tidy (m @ slash # path_of cs @ n)" using tidy_path [of "m # cs" n] by simp
    with Cons show ?case by (auto simp: find_context_step split: sum.split ref.split)
  qed
qed

lemma find_context_absolute: "tidy t \<Longrightarrow> find_context N s c (slash # t) = find_context N s (cos_root N) t"
  by (subst find_context.simps) (simp add: tidy_context find_from_def Let_def)

text \<open>Splitting at the last separator.\<close>

lemma last_split:
  assumes "list_all plain_name cs" "plain_name n" "cs \<noteq> []"
  obtains ds m where "cs = ds @ [m]" "find_last slash (path_of cs @ n) = Some (length (path_of ds @ m))" "0 < length (path_of ds @ m)"
    "take (length (path_of ds @ m)) (path_of cs @ n) = path_of ds @ m" "take (Suc (length (path_of ds @ m))) (path_of cs @ n) = path_of cs"
    "drop (Suc (length (path_of ds @ m))) (path_of cs @ n) = n" "list_all plain_name ds" "plain_name m"
proof -
  obtain ds m where cs: "cs = ds @ [m]" using assms(3) by (cases cs rule: rev_cases) auto
  have n: "slash \<notin> set n" "m \<noteq> []" using assms cs by (auto simp: plain_name_def)
  have "find_last slash ((path_of ds @ m) @ slash # n) = Some (length (path_of ds @ m))" by (rule find_last_fresh [OF n(1)])
  then show thesis using n(2) assms(1) by (intro that [OF cs]) (auto simp: cs)
qed

lemma last_none: "plain_name n \<Longrightarrow> find_last slash n = None \<and> trim_context n = n \<and> n \<noteq> []"
  using find_last_fresh(2) [of slash n] tidy_context(1) [OF tidy_plain] by (auto simp: plain_name_def)

lemma resolve_name_walk:
  assumes "list_all plain_name cs" "plain_name n"
  shows "resolve_name N s c (path_of cs @ n) = (case walk N s c cs of Inl e \<Rightarrow> Inl e | Inr c' \<Rightarrow> cos_resolve N s c' n)"
proof -
  have b: "resolve_name N s c' n = cos_resolve N s c' n" for c'
    using last_none [OF assms(2)] by (subst resolve_name.simps) (simp add: Let_def)
  show ?thesis
  proof (cases "cs = []")
    case True
    then show ?thesis using b by simp
  next
    case False
    obtain ds m where l: "cs = ds @ [m]" "find_last slash (path_of cs @ n) = Some (length (path_of ds @ m))" "0 < length (path_of ds @ m)"
      "take (length (path_of ds @ m)) (path_of cs @ n) = path_of ds @ m" "drop (Suc (length (path_of ds @ m))) (path_of cs @ n) = n"
      "list_all plain_name ds" "plain_name m"
      using last_split [OF assms False] by blast
    have t: "trim_context (path_of cs @ n) = path_of cs @ n" "path_of cs @ n \<noteq> []"
      using tidy_context(1) [OF tidy_path [OF assms(1)]] assms(2) by (auto simp: plain_name_def)
    have "resolve_name N s c (path_of cs @ n) =
      (case find_context N s c (path_of ds @ m) of Inl e \<Rightarrow> Inl e | Inr c \<Rightarrow> resolve_name N s c n)"
      by (subst resolve_name.simps) (use t l(2-5) in \<open>simp only: Let_def option.case if_True if_False\<close>)
    then show ?thesis by (simp only: find_context_walk(2) [OF l(6,7)] l(1) [symmetric] b)
  qed
qed

lemma resolve_name_absolute:
  assumes "list_all plain_name cs" "plain_name n"
  shows "resolve_name N s c (slash # path_of cs @ n) = resolve_name N s (cos_root N) (path_of cs @ n)"
proof -
  note td = tidy_path [OF assms(1), of n]
  have b: "resolve_name N s c' n = cos_resolve N s c' n" for c'
    using last_none [OF assms(2)] by (subst resolve_name.simps) (simp add: Let_def)
  have t: "trim_context (slash # path_of cs @ n) = slash # path_of cs @ n" using tidy_context(2) [OF td] assms(2) by simp
  show ?thesis
  proof (cases "cs = []")
    case True
    have "find_last slash (slash # n) = Some 0" using find_last_fresh(1) [of slash n "[]"] assms(2) by (simp add: plain_name_def)
    then show ?thesis using t True by (subst resolve_name.simps) (simp add: Let_def)
  next
    case False
    obtain ds m where l: "cs = ds @ [m]" "list_all plain_name ds" "plain_name m"
      using last_split [OF assms False] by blast
    have p: "slash # path_of cs @ n = (slash # path_of ds @ m) @ slash # n" by (simp add: l(1))
    have f: "find_last slash ((slash # path_of ds @ m) @ slash # n) = Some (length (slash # path_of ds @ m))"
      by (rule find_last_fresh) (use assms(2) in \<open>simp add: plain_name_def\<close>)
    have d: "take (length (slash # path_of ds @ m)) ((slash # path_of ds @ m) @ slash # n) = slash # path_of ds @ m"
      "drop (Suc (length (slash # path_of ds @ m))) ((slash # path_of ds @ m) @ slash # n) = n" by simp_all
    have q: "(slash # path_of ds @ m) @ slash # n \<noteq> []" "0 < length (slash # path_of ds @ m)" by simp_all
    have "resolve_name N s c (slash # path_of cs @ n) =
      (case find_context N s c (slash # path_of ds @ m) of Inl e \<Rightarrow> Inl e | Inr c \<Rightarrow> resolve_name N s c n)"
      unfolding p by (subst resolve_name.simps) (use q in \<open>simp only: Let_def t [unfolded p] f d option.case if_True if_False\<close>)
    also have "find_context N s c (slash # path_of ds @ m) = walk N s (cos_root N) cs"
      using find_context_absolute [OF tidy_path [OF l(2), of m], of N s c] find_context_walk(2) [OF l(2,3), of N s "cos_root N"] l(1,3) by simp
    finally show ?thesis by (simp only: resolve_name_walk [OF assms] b)
  qed
qed

section \<open>Binding\<close>

text \<open>
  The documented behaviour of the naming service: it is a table from contexts and names to references, and a new context
  is entered where no binding was.
\<close>

definition cos_ok :: "('s, 'c, 'o) cos \<Rightarrow> bool" where
  "cos_ok N \<longleftrightarrow>
     (\<forall>s c n s' c'. cos_resolve N s c n = Inl NotFound \<and> cos_bind_new N s c n = Inr (s', c') \<longrightarrow>
        (\<forall>d m. cos_resolve N s' d m = (if d = c \<and> m = n then Inr (Cxt c') else cos_resolve N s d m))) \<and>
     (\<forall>s c n x s'. cos_rebind N s c n x = Inr s' \<longrightarrow>
        (\<forall>d m. cos_resolve N s' d m = (if d = c \<and> m = n then Inr x else cos_resolve N s d m))) \<and>
     (\<forall>s c n s'. cos_unbind N s c n = Inr s' \<longrightarrow>
        (\<forall>d m. cos_resolve N s' d m = (if d = c \<and> m = n then Inl NotFound else cos_resolve N s d m)))"

lemma cos_okD:
  assumes "cos_ok N"
  shows "cos_resolve N s c n = Inl NotFound \<Longrightarrow> cos_bind_new N s c n = Inr (s', c') \<Longrightarrow>
      cos_resolve N s' d m = (if d = c \<and> m = n then Inr (Cxt c') else cos_resolve N s d m)"
    "cos_rebind N s c n x = Inr s' \<Longrightarrow> cos_resolve N s' d m = (if d = c \<and> m = n then Inr x else cos_resolve N s d m)"
    "cos_unbind N s c n = Inr s' \<Longrightarrow> cos_resolve N s' d m = (if d = c \<and> m = n then Inl NotFound else cos_resolve N s d m)"
  using assms unfolding cos_ok_def by blast+

text \<open>The bindings that a walk uses.\<close>

fun edges :: "('s, 'c, 'o) cos \<Rightarrow> 's \<Rightarrow> 'c \<Rightarrow> string list \<Rightarrow> ('c \<times> string) list" where
  "edges N s c [] = []"
| "edges N s c (n # ns) = (c, n) # (case cos_resolve N s c n of Inr (Cxt c') \<Rightarrow> edges N s c' ns | _ \<Rightarrow> [])"

lemma walk_cong:
  "(\<And>d m. (d, m) \<in> set (edges N s c cs) \<Longrightarrow> cos_resolve N s' d m = cos_resolve N s d m) \<Longrightarrow> walk N s' c cs = walk N s c cs"
proof (induction cs arbitrary: c)
  case Nil
  then show ?case by simp
next
  case (Cons n cs)
  have e: "cos_resolve N s' c n = cos_resolve N s c n" by (rule Cons.prems) simp
  show ?case
  proof (cases "cos_resolve N s c n")
    case (Inr r)
    then show ?thesis using e Cons.IH Cons.prems by (cases r) auto
  qed (simp add: e)
qed

lemma walk_mono:
  "(\<And>d m x. cos_resolve N s d m = Inr x \<Longrightarrow> cos_resolve N s' d m = Inr x) \<Longrightarrow> walk N s c cs = Inr c' \<Longrightarrow> walk N s' c cs = Inr c'"
proof (induction cs arbitrary: c)
  case Nil
  then show ?case by simp
next
  case (Cons n cs)
  then obtain c1 where c1: "cos_resolve N s c n = Inr (Cxt c1)" "walk N s c1 cs = Inr c'" by (auto split: sum.splits ref.splits)
  then show ?case using Cons.IH [of c1] Cons.prems(1) by simp
qed

lemma bind_context_step:
  assumes "plain_name n" "tidy (n @ slash # t)"
  shows "bind_context N s None (n @ slash # t) = (s, Inl INV_OBJREF)"
    "bind_context N s (Some c) (n @ slash # t) =
      (case cos_resolve N s c n of
         Inr (Cxt c') \<Rightarrow> bind_context N s (Some c') t
       | Inr (Obj x) \<Rightarrow> bind_context N s None t
       | Inl e \<Rightarrow>
           if e = NotFound then
             (case cos_bind_new N s c n of Inl e' \<Rightarrow> (s, Inl e') | Inr (s', c') \<Rightarrow> bind_context N s' (Some c') t)
           else (s, Inl e))"
proof -
  have n: "slash \<notin> set n" "n \<noteq> []" "trim_context n = n" using assms(1) tidy_context(1) [OF tidy_plain] by (auto simp: plain_name_def)
  note f = tidy_context [OF assms(2)] find_from_fresh(1) [OF n(1)] n(2,3) Let_def
  show "bind_context N s None (n @ slash # t) = (s, Inl INV_OBJREF)" by (subst bind_context.simps) (simp add: f)
  show "bind_context N s (Some c) (n @ slash # t) =
      (case cos_resolve N s c n of
         Inr (Cxt c') \<Rightarrow> bind_context N s (Some c') t
       | Inr (Obj x) \<Rightarrow> bind_context N s None t
       | Inl e \<Rightarrow>
           if e = NotFound then
             (case cos_bind_new N s c n of Inl e' \<Rightarrow> (s, Inl e') | Inr (s', c') \<Rightarrow> bind_context N s' (Some c') t)
           else (s, Inl e))"
    by (subst bind_context.simps) (simp add: f split: sum.split ref.split)
qed

lemma bind_context_empty: "bind_context N s c [] = (s, Inr c)"
proof -
  have e: "trim_context [] = []" by code_simp
  show ?thesis by (subst bind_context.simps) (simp add: e find_from_def Let_def)
qed

text \<open>\<open>bind_context\<close> keeps all bindings and makes the path walkable; over a nil context it does nothing or fails.\<close>

lemma bind_context_nil: "list_all plain_name cs \<Longrightarrow> bind_context N s None (path_of cs) = (s, if cs = [] then Inr None else Inl INV_OBJREF)"
proof (cases cs)
  case (Cons n ds)
  moreover assume "list_all plain_name cs"
  ultimately show ?thesis using tidy_path [of cs "[]"] by (simp add: bind_context_step)
qed (simp add: bind_context_empty)

lemma bind_context_walk:
  assumes "cos_ok N" "list_all plain_name cs" "bind_context N s (Some c) (path_of cs) = (s', Inr r)"
  shows "(\<forall>d m x. cos_resolve N s d m = Inr x \<longrightarrow> cos_resolve N s' d m = Inr x) \<and> (\<forall>c'. r = Some c' \<longrightarrow> walk N s' c cs = Inr c')"
  using assms(2,3)
proof (induction cs arbitrary: s c)
  case Nil
  then show ?case by (auto simp: bind_context_empty)
next
  case (Cons n cs)
  then have n: "plain_name n" "list_all plain_name cs" and td: "tidy (n @ slash # path_of cs)"
    using tidy_path [of "n # cs" "[]"] by auto
  note st = bind_context_step [OF n(1) td]
  show ?case
  proof (cases "cos_resolve N s c n")
    case (Inl e)
    then obtain s1 c1 where b: "e = NotFound" "cos_bind_new N s c n = Inr (s1, c1)" "bind_context N s1 (Some c1) (path_of cs) = (s', Inr r)"
      using Cons.prems(2) Inl st(2) [of N s c] by (auto split: if_splits sum.splits)
    note l = cos_okD(1) [OF assms(1) Inl [unfolded b(1)] b(2)] and ih = Cons.IH [OF n(2) b(3)]
    have 1: "cos_resolve N s' c n = Inr (Cxt c1)" using ih l [of c n] by simp
    have 2: "cos_resolve N s1 d m = Inr x" if "cos_resolve N s d m = Inr x" for d m x using that Inl l [of d m] by auto
    show ?thesis using ih 1 2 by simp
  next
    case (Inr x)
    show ?thesis
    proof (cases x)
      case (Cxt c1)
      then have "bind_context N s (Some c1) (path_of cs) = (s', Inr r)" using Cons.prems(2) st(2) [of N s c] Inr by simp
      from Cons.IH [OF n(2) this] show ?thesis using Inr Cxt by simp
    next
      case (Obj y)
      then have "bind_context N s None (path_of cs) = (s', Inr r)" using Cons.prems(2) st(2) [of N s c] Inr by simp
      then show ?thesis using bind_context_nil [OF n(2), of N s] by (simp split: if_splits)
    qed
  qed
qed

lemma bind_name_parts:
  assumes "list_all plain_name cs" "plain_name n" "bind_name N s (Some c) (path_of cs @ n) (Some x) = (s'', Inr ())"
  obtains s' c' where "bind_context N s (Some c) (path_of cs) = (s', Inr (Some c'))" "cos_rebind N s' c' n x = Inr s''"
proof -
  have b: "bind_name N s' r n (Some x) = 
      (case r of None \<Rightarrow> (s', Inl INV_OBJREF) | Some t \<Rightarrow> (case cos_rebind N s' t n x of Inl e \<Rightarrow> (s', Inl e) | Inr u \<Rightarrow> (u, Inr ())))" for s' r
    using last_none [OF assms(2)] by (subst bind_name.simps) (simp add: Let_def)
  show thesis
  proof (cases "cs = []")
    case True
    then show thesis using that assms(3) b by (auto simp: bind_context_empty split: sum.splits)
  next
    case False
    obtain ds m where l: "find_last slash (path_of cs @ n) = Some (length (path_of ds @ m))" "0 < length (path_of ds @ m)"
      "take (Suc (length (path_of ds @ m))) (path_of cs @ n) = path_of cs" "drop (Suc (length (path_of ds @ m))) (path_of cs @ n) = n"
      using last_split [OF assms(1,2) False] by blast
    have t: "trim_context (path_of cs @ n) = path_of cs @ n" "path_of cs @ n \<noteq> []"
      using tidy_context(1) [OF tidy_path [OF assms(1)]] assms(2) by (auto simp: plain_name_def)
    have "bind_name N s (Some c) (path_of cs @ n) (Some x) =
      (case bind_context N s (Some c) (path_of cs) of (s', Inl e) \<Rightarrow> (s', Inl e) | (s', Inr r) \<Rightarrow> bind_name N s' r n (Some x))"
      by (subst bind_name.simps) (use t l in \<open>simp only: Let_def option.case if_True if_False\<close>)
    then show thesis using that assms(3) b by (auto split: sum.splits option.splits prod.splits)
  qed
qed

lemma unbind_name_walk:
  assumes "list_all plain_name cs" "plain_name n"
  shows "unbind_name N s c (path_of cs @ n) = (case walk N s c cs of Inl e \<Rightarrow> Inl e | Inr c' \<Rightarrow> cos_unbind N s c' n)"
proof -
  have b: "unbind_name N s c' n = cos_unbind N s c' n" for c'
    using last_none [OF assms(2)] by (subst unbind_name.simps) (simp add: Let_def)
  show ?thesis
  proof (cases "cs = []")
    case True
    then show ?thesis using b by simp
  next
    case False
    obtain ds m where l: "find_last slash (path_of cs @ n) = Some (length (path_of ds @ m))" "0 < length (path_of ds @ m)"
      "take (Suc (length (path_of ds @ m))) (path_of cs @ n) = path_of cs" "drop (Suc (length (path_of ds @ m))) (path_of cs @ n) = n"
      using last_split [OF assms False] by blast
    have t: "trim_context (path_of cs @ n) = path_of cs @ n" "path_of cs @ n \<noteq> []"
      using tidy_context(1) [OF tidy_path [OF assms(1)]] assms(2) by (auto simp: plain_name_def)
    have "unbind_name N s c (path_of cs @ n) =
      (case find_context N s c (path_of cs) of Inl e \<Rightarrow> Inl e | Inr c \<Rightarrow> unbind_name N s c n)"
      by (subst unbind_name.simps) (use t l in \<open>simp only: Let_def option.case if_True if_False\<close>)
    then show ?thesis by (simp only: find_context_walk(1) [OF assms(1)] b)
  qed
qed

section \<open>Properties\<close>

text \<open>
  Claim C27.  Names with paths over the naming service, for a path of names without separators and blanks at their ends.  Looking up a path is
  walking along it name by name, from the root if it starts with a separator.  Binding an object keeps every binding there was, makes the path
  walkable and enters the object at its end, and nothing else changes; so looking the path up gives the object, unless the binding
  that was replaced is part of the path itself.  Unbinding removes the binding at the end of the path and no other.
\<close>

theorem naming_round_trip:
  assumes "cos_ok N" "list_all plain_name cs" "plain_name n"
  shows "resolve_name N s c (path_of cs @ n) = (case walk N s c cs of Inl e \<Rightarrow> Inl e | Inr c' \<Rightarrow> cos_resolve N s c' n) \<and>
    resolve_name N s c ([slash] @ path_of cs @ n) = resolve_name N s (cos_root N) (path_of cs @ n) \<and>
    (\<forall>x s''. bind_name N s (Some c) (path_of cs @ n) (Some x) = (s'', Inr ()) \<longrightarrow>
       (\<exists>s' c'. walk N s' c cs = Inr c' \<and> (\<forall>d m y. cos_resolve N s d m = Inr y \<longrightarrow> cos_resolve N s' d m = Inr y) \<and>
          (\<forall>d m. cos_resolve N s'' d m = (if d = c' \<and> m = n then Inr x else cos_resolve N s' d m)) \<and>
          ((c', n) \<notin> set (edges N s' c cs) \<longrightarrow> resolve_name N s'' c (path_of cs @ n) = Inr x))) \<and>
    (\<forall>s''. unbind_name N s c (path_of cs @ n) = Inr s'' \<longrightarrow>
       (\<exists>c'. walk N s c cs = Inr c' \<and>
          (\<forall>d m. cos_resolve N s'' d m = (if d = c' \<and> m = n then Inl NotFound else cos_resolve N s d m))))"
proof -
  note rn = resolve_name_walk [OF assms(2,3)]
  have b: "\<exists>s' c'. walk N s' c cs = Inr c' \<and> (\<forall>d m y. cos_resolve N s d m = Inr y \<longrightarrow> cos_resolve N s' d m = Inr y) \<and>
          (\<forall>d m. cos_resolve N s'' d m = (if d = c' \<and> m = n then Inr x else cos_resolve N s' d m)) \<and>
          ((c', n) \<notin> set (edges N s' c cs) \<longrightarrow> resolve_name N s'' c (path_of cs @ n) = Inr x)"
    if bn: "bind_name N s (Some c) (path_of cs @ n) (Some x) = (s'', Inr ())" for x s''
  proof -
    obtain s' c' where p: "bind_context N s (Some c) (path_of cs) = (s', Inr (Some c'))" "cos_rebind N s' c' n x = Inr s''"
      using bind_name_parts [OF assms(2,3) bn] .
    note w = bind_context_walk [OF assms(1,2) p(1)] and r = cos_okD(2) [OF assms(1) p(2)]
    have "resolve_name N s'' c (path_of cs @ n) = Inr x" if e: "(c', n) \<notin> set (edges N s' c cs)"
    proof -
      have "walk N s'' c cs = walk N s' c cs" by (rule walk_cong) (use e r in auto)
      then show ?thesis using w r [of c' n] by (simp add: rn)
    qed
    then show ?thesis using w r by (intro exI [of _ s'] exI [of _ c']) simp
  qed
  have u: "\<exists>c'. walk N s c cs = Inr c' \<and> (\<forall>d m. cos_resolve N s'' d m = (if d = c' \<and> m = n then Inl NotFound else cos_resolve N s d m))"
    if "unbind_name N s c (path_of cs @ n) = Inr s''" for s''
    using that cos_okD(3) [OF assms(1)] by (auto simp: unbind_name_walk [OF assms(2,3)] split: sum.splits)
  show ?thesis by (intro conjI allI impI rn b u) (simp_all add: resolve_name_absolute [OF assms(2,3)])
qed

text \<open>A table of bindings as a naming service: contexts and objects are numbers, and a new context gets the next number.\<close>

type_synonym sample_ns = "nat \<times> ((nat \<times> string) \<times> (nat, nat) ref) list"

definition sample_cos :: "(sample_ns, nat, nat) cos" where
  "sample_cos =
     \<lparr>cos_root = 0,
      cos_resolve = (\<lambda>(k, t) c n. case map_of t (c, n) of Some r \<Rightarrow> Inr r | None \<Rightarrow> Inl NotFound),
      cos_bind_new = (\<lambda>(k, t) c n. Inr ((Suc k, ((c, n), Cxt k) # t), k)),
      cos_rebind = (\<lambda>(k, t) c n x. Inr (k, ((c, n), x) # t)),
      cos_unbind = (\<lambda>(k, t) c n. if map_of t (c, n) = None then Inl NotFound else Inr (k, filter (\<lambda>e. fst e \<noteq> (c, n)) t))\<rparr>"

lemma map_of_unbound: "map_of (filter (\<lambda>e. fst e \<noteq> k) t) j = (if j = k then None else map_of t j)"
  by (induction t) auto

lemma sample_cos_ok: "cos_ok sample_cos"
  unfolding cos_ok_def by (auto simp: sample_cos_def map_of_unbound split: if_splits)

theorem naming_round_trip_witness:
  "\<exists>s''. bind_name sample_cos (1, []) (Some 0) (path_of [''a'', ''b''] @ ''x'') (Some (Obj 7)) = (s'', Inr ()) \<and>
     (\<exists>c'. cos_resolve sample_cos s'' c' ''x'' = Inr (Obj 7))"
proof -
  have a: "list_all plain_name [''a'', ''b'']" "plain_name ''x''" by code_simp+
  let ?p = "path_of [''a'', ''b''] @ ''x''"
  have r: "bind_name sample_cos (1, []) (Some 0) ?p (Some (Obj 7)) =
      ((3, [((2, ''x''), Obj 7), ((1, ''b''), Cxt 2), ((0, ''a''), Cxt 1)]), Inr ())" (is "_ = (?s, _)") by code_simp
  note t = naming_round_trip [OF sample_cos_ok a, of "(1, [])" 0]
  have "\<exists>c'. \<forall>d m. m = ''x'' \<and> d = c' \<longrightarrow> cos_resolve sample_cos ?s d m = Inr (Obj 7)"
    using t [THEN conjunct2, THEN conjunct2, THEN conjunct1, THEN spec, THEN spec, THEN mp, OF r] by metis
  then have "\<exists>c'. cos_resolve sample_cos ?s c' ''x'' = Inr (Obj 7)" by blast
  with r show ?thesis by blast
qed

text \<open>An object in the place of a context: a lookup reports it as not found, but binding works on a nil context.\<close>

lemma bind_through_object:
  assumes "plain_name a" "plain_name b" "plain_name n" "cos_resolve N s c a = Inr (Obj y)"
  shows "bind_name N s (Some c) (path_of [a, b] @ n) (Some x) = (s, Inl INV_OBJREF)" "find_context N s c (path_of [a, b]) = Inl NotFound"
proof -
  have p: "list_all plain_name [a, b]" using assms by simp
  have bc: "bind_context N s (Some c) (path_of [a, b]) = (s, Inl INV_OBJREF)"
    using bind_context_step(2) [OF assms(1), of "path_of [b]" N s c] tidy_path [OF p, of "[]"] bind_context_nil [of "[b]" N s] assms(2,4) by simp
  show "find_context N s c (path_of [a, b]) = Inl NotFound" using find_context_walk(1) [OF p, of N s c] assms(4) by simp
  obtain ds m where l: "find_last slash (path_of [a, b] @ n) = Some (length (path_of ds @ m))" "0 < length (path_of ds @ m)"
      "take (Suc (length (path_of ds @ m))) (path_of [a, b] @ n) = path_of [a, b]"
    using last_split [OF p assms(3)] by blast
  have t: "trim_context (path_of [a, b] @ n) = path_of [a, b] @ n" "path_of [a, b] @ n \<noteq> []"
    using tidy_context(1) [OF tidy_path [OF p]] assms(3) by auto
  show "bind_name N s (Some c) (path_of [a, b] @ n) (Some x) = (s, Inl INV_OBJREF)"
    by (subst bind_name.simps) (use t l bc in \<open>simp only: Let_def option.case sum.case prod.case if_True if_False\<close>)
qed

end
