(* ===== verification/LDBC_SQLite.thy ===== *)
theory LDBC_SQLite
  imports Date_Time "HOL-Library.Word"
begin

text \<open>
  Parameters and queries of the database layer: \<^verbatim>\<open>LDBC/Exception.h\<close>, \<^verbatim>\<open>LDBC/SQLite/SQLiteDefs.h\<close>,
  \<^verbatim>\<open>SQLiteParameter.cpp\<close> and \<^verbatim>\<open>SQLiteQuery.cpp\<close>, with the handle of \<^verbatim>\<open>daf/RefCountHandler_T.h\<close> that a query is.

  SQLite's C interface is a parameter: the record \<open>sqlite3\<close> of the calls the code makes, over a state \<open>'s\<close> of the
  library.  A statement handle is a number, the null pointer is \<open>None\<close>.  Doubles (\<open>'f\<close>) and floats (\<open>'g\<close>) are opaque;
  the two conversions between them are part of the record.  The overloads of \<open>bind\<close> and \<open>getData\<close> are one
  function each, on the value and on the type that selects the overload.
\<close>

section \<open>The interface of SQLite\<close>

type_synonym stmt = nat
type_synonym db = nat

datatype ldbc_exception =
    LdbcException
  | LdbcInternalException
  | InvalidConfiguration
  | LdbcInitializationException
  | LdbcIllegalArgumentException
  | IllegalUseException
  | RecordNotFound
  | LdbcIndexOutOfRange

text \<open>What an operation of the layer can end with other than a result; an exception that leaves a destructor ends the program.\<close>

datatype ldbc_error = Ldbc ldbc_exception | Of_DAF daf_exception | Undefined_behaviour | Terminated

abbreviation (input) SQLITE_OK :: int where "SQLITE_OK \<equiv> 0"
abbreviation (input) SQLITE_ERROR :: int where "SQLITE_ERROR \<equiv> 1"
abbreviation (input) SQLITE_MISUSE :: int where "SQLITE_MISUSE \<equiv> 21"
abbreviation (input) SQLITE_ROW :: int where "SQLITE_ROW \<equiv> 100"
abbreviation (input) SQLITE_DONE :: int where "SQLITE_DONE \<equiv> 101"

record ('s, 'f, 'g) sqlite3 =
  sqlite3_threadsafe :: bool
  sqlite3_open_v2 :: "'s \<Rightarrow> string \<Rightarrow> int \<Rightarrow> string option \<Rightarrow> int \<times> db option \<times> 's"
  sqlite3_interrupt :: "'s \<Rightarrow> db \<Rightarrow> 's"
  sqlite3_close_v2 :: "'s \<Rightarrow> db \<Rightarrow> 's"
  sqlite3_changes :: "'s \<Rightarrow> db option \<Rightarrow> int"
  sqlite3_last_insert_rowid :: "'s \<Rightarrow> db option \<Rightarrow> int"
  sqlite3_prepare_v2 :: "'s \<Rightarrow> db option \<Rightarrow> string \<Rightarrow> int \<times> stmt option \<times> 's"
  sqlite3_reset :: "'s \<Rightarrow> stmt option \<Rightarrow> int \<times> 's"
  sqlite3_step :: "'s \<Rightarrow> stmt option \<Rightarrow> int \<times> 's"
  sqlite3_finalize :: "'s \<Rightarrow> stmt \<Rightarrow> 's"
  sqlite3_bind_parameter_count :: "'s \<Rightarrow> stmt option \<Rightarrow> int"
  sqlite3_bind_parameter_name :: "'s \<Rightarrow> stmt \<Rightarrow> int \<Rightarrow> string option"
  sqlite3_bind_parameter_index :: "'s \<Rightarrow> stmt option \<Rightarrow> string \<Rightarrow> int"
  sqlite3_bind_null :: "'s \<Rightarrow> stmt \<Rightarrow> int \<Rightarrow> int \<times> 's"
  sqlite3_bind_int :: "'s \<Rightarrow> stmt \<Rightarrow> int \<Rightarrow> 32 word \<Rightarrow> int \<times> 's"
  sqlite3_bind_int64 :: "'s \<Rightarrow> stmt \<Rightarrow> int \<Rightarrow> 64 word \<Rightarrow> int \<times> 's"
  sqlite3_bind_double :: "'s \<Rightarrow> stmt \<Rightarrow> int \<Rightarrow> 'f \<Rightarrow> int \<times> 's"
  sqlite3_bind_text :: "'s \<Rightarrow> stmt \<Rightarrow> int \<Rightarrow> string \<Rightarrow> int \<Rightarrow> int \<times> 's"
  sqlite3_bind_blob :: "'s \<Rightarrow> stmt \<Rightarrow> int \<Rightarrow> string \<Rightarrow> int \<Rightarrow> int \<times> 's"
  sqlite3_column_count :: "'s \<Rightarrow> stmt option \<Rightarrow> int"
  sqlite3_column_name :: "'s \<Rightarrow> stmt option \<Rightarrow> int \<Rightarrow> string option"
  sqlite3_column_type :: "'s \<Rightarrow> stmt option \<Rightarrow> int \<Rightarrow> int"
  sqlite3_column_int :: "'s \<Rightarrow> stmt \<Rightarrow> int \<Rightarrow> 32 word"
  sqlite3_column_int64 :: "'s \<Rightarrow> stmt \<Rightarrow> int \<Rightarrow> 64 word"
  sqlite3_column_double :: "'s \<Rightarrow> stmt \<Rightarrow> int \<Rightarrow> 'f"
  sqlite3_column_text :: "'s \<Rightarrow> stmt \<Rightarrow> int \<Rightarrow> string option"
  sqlite3_column_bytes :: "'s \<Rightarrow> stmt \<Rightarrow> int \<Rightarrow> int"
  sqlite3_column_blob :: "'s \<Rightarrow> stmt \<Rightarrow> int \<Rightarrow> string option"
  float_to_double :: "'g \<Rightarrow> 'f"
  double_to_float :: "'f \<Rightarrow> 'g"
  double_is_nan :: "'f \<Rightarrow> bool"
  double_zero :: 'f

section \<open>Parameters\<close>

datatype DATA_type = DT_UNKNOWN | DT_INTEGER | DT_FLOAT | DT_BLOB | DT_NULL | DT_TEXT

datatype PARAMETER_type =
    PT_UNKNOWN | PT_BOOL | PT_CHAR | PT_BYTE | PT_SHORT | PT_USHORT | PT_LONG | PT_ULONG | PT_LONGLONG | PT_ULONGLONG
  | PT_FLOAT | PT_DOUBLE | PT_DATETIME | PT_STRING | PT_BLOB

text \<open>A value of one of the argument types.  A blob is a pointer to a buffer, or null, and a size.\<close>

datatype ('f, 'g) ldbc_value =
    BOOL_type bool
  | CHAR_type char
  | BYTE_type "8 word"
  | SHORT_type "16 word"
  | USHORT_type "16 word"
  | LONG_type "32 word"
  | ULONG_type "32 word"
  | LONGLONG_type "64 word"
  | ULONGLONG_type "64 word"
  | FLOAT_type 'g
  | DOUBLE_type 'f
  | DATETIME_type date_time
  | STRING_type string
  | BLOB_type "string option" nat

record parameter =
  par_null :: bool
  par_index :: int
  par_type :: PARAMETER_type
  par_name :: string

definition Parameter_new :: "('s, 'f, 'g) sqlite3 \<Rightarrow> 's \<Rightarrow> stmt option \<Rightarrow> int \<Rightarrow> parameter" where
  "Parameter_new S s h i =
     \<lparr>par_null = False, par_index = i, par_type = PT_UNKNOWN,
      par_name = (case h of
          Some x \<Rightarrow> if i > 0 then (case sqlite3_bind_parameter_name S s x i of Some n \<Rightarrow> n | None \<Rightarrow> []) else []
        | None \<Rightarrow> [])\<rparr>"

type_synonym ('s, 'a) ldbc = "(ldbc_error + 'a) \<times> 's"

definition bindNull :: "('s, 'f, 'g) sqlite3 \<Rightarrow> 's \<Rightarrow> stmt option \<Rightarrow> parameter \<Rightarrow> ('s, parameter) ldbc" where
  "bindNull S s h p =
     (case h of
        None \<Rightarrow> (Inl (Ldbc IllegalUseException), s)
      | Some x \<Rightarrow>
          let (rc, s') = sqlite3_bind_null S s x (par_index p) in
          if rc \<noteq> 0 then (Inl (Ldbc LdbcInternalException), s')
          else (Inr (p\<lparr>par_type := PT_UNKNOWN, par_null := True\<rparr>), s'))"

text \<open>The end of every other overload: an error code is an exception, success sets the type.\<close>

definition bound_as :: "PARAMETER_type \<Rightarrow> parameter \<Rightarrow> int \<times> 's \<Rightarrow> ('s, parameter) ldbc" where
  "bound_as ty p r =
     (if fst r \<noteq> 0 then (Inl (Ldbc LdbcInternalException), snd r)
      else (Inr (p\<lparr>par_type := ty, par_null := False\<rparr>), snd r))"

text \<open>The overloads that call \<open>sqlite3_bind_int\<close>; a plain \<open>char\<close> is signed.\<close>

fun int_of_value :: "('f, 'g) ldbc_value \<Rightarrow> (PARAMETER_type \<times> 32 word) option" where
  "int_of_value (BOOL_type v) = Some (PT_BOOL, if v then 1 else 0)"
| "int_of_value (CHAR_type v) = Some (PT_CHAR, scast (of_char v :: 8 word))"
| "int_of_value (BYTE_type v) = Some (PT_BYTE, ucast v)"
| "int_of_value (SHORT_type v) = Some (PT_SHORT, scast v)"
| "int_of_value (USHORT_type v) = Some (PT_USHORT, ucast v)"
| "int_of_value (LONG_type v) = Some (PT_LONG, v)"
| "int_of_value (ULONG_type v) = Some (PT_ULONG, v)"
| "int_of_value _ = None"

definition bind_datetime :: "('s, 'f, 'g) sqlite3 \<Rightarrow> 's \<Rightarrow> stmt \<Rightarrow> parameter \<Rightarrow> date_time \<Rightarrow> ('s, parameter) ldbc" where
  "bind_datetime S s x p v =
     (case and_then (Date_Time_of v) (\<lambda>d. toDateString d False) of
        Throws e \<Rightarrow> (Inl (if e = DateTimeException then Ldbc LdbcIllegalArgumentException else Of_DAF e), s)
      | Undefined \<Rightarrow> (Inl Undefined_behaviour, s)
      | Returns t \<Rightarrow>
          if t \<noteq> [] then bound_as PT_DATETIME p (sqlite3_bind_text S s x (par_index p) t (c_int (length t)))
          else bindNull S s (Some x) p)"

definition bind_string :: "('s, 'f, 'g) sqlite3 \<Rightarrow> 's \<Rightarrow> stmt \<Rightarrow> parameter \<Rightarrow> string \<Rightarrow> ('s, parameter) ldbc" where
  "bind_string S s x p v =
     (if v \<noteq> [] then bound_as PT_STRING p (sqlite3_bind_text S s x (par_index p) v (c_int (length v)))
      else bindNull S s (Some x) p)"

text \<open>SQLite copies the bytes, so a length beyond the buffer reads past it.\<close>

definition bind_blob :: "('s, 'f, 'g) sqlite3 \<Rightarrow> 's \<Rightarrow> stmt \<Rightarrow> parameter \<Rightarrow> string option \<Rightarrow> nat \<Rightarrow> ('s, parameter) ldbc" where
  "bind_blob S s x p v n =
     (let len = c_int n in
      case v of
        Some b \<Rightarrow>
          if len \<ge> 0 then
            if nat len \<le> length b then bound_as PT_BLOB p (sqlite3_bind_blob S s x (par_index p) b len)
            else (Inl Undefined_behaviour, s)
          else bindNull S s (Some x) p
      | None \<Rightarrow> bindNull S s (Some x) p)"

definition bind :: "('s, 'f, 'g) sqlite3 \<Rightarrow> 's \<Rightarrow> stmt option \<Rightarrow> parameter \<Rightarrow> ('f, 'g) ldbc_value \<Rightarrow> ('s, parameter) ldbc" where
  "bind S s h p v =
     (case h of
        None \<Rightarrow> (Inl (Ldbc IllegalUseException), s)
      | Some x \<Rightarrow>
          (case v of
             LONGLONG_type w \<Rightarrow> bound_as PT_LONGLONG p (sqlite3_bind_int64 S s x (par_index p) w)
           | ULONGLONG_type w \<Rightarrow> bound_as PT_ULONGLONG p (sqlite3_bind_int64 S s x (par_index p) w)
           | FLOAT_type f \<Rightarrow> bound_as PT_FLOAT p (sqlite3_bind_double S s x (par_index p) (float_to_double S f))
           | DOUBLE_type f \<Rightarrow> bound_as PT_DOUBLE p (sqlite3_bind_double S s x (par_index p) f)
           | DATETIME_type d \<Rightarrow> bind_datetime S s x p d
           | STRING_type t \<Rightarrow> bind_string S s x p t
           | BLOB_type b n \<Rightarrow> bind_blob S s x p b n
           | _ \<Rightarrow> (case int_of_value v of
                 Some (ty, w) \<Rightarrow> bound_as ty p (sqlite3_bind_int S s x (par_index p) w)
               | None \<Rightarrow> (Inl Undefined_behaviour, s))))"

section \<open>Queries\<close>

record query =
  query_handle :: "stmt option"
  query_state :: int
  query_params :: "parameter option list"

definition Query_new :: query where
  "Query_new = \<lparr>query_handle = None, query_state = SQLITE_OK, query_params = []\<rparr>"

definition assertErrorState :: "int \<Rightarrow> ldbc_error + int" where
  "assertErrorState state =
     (if state = SQLITE_ERROR \<or> state = SQLITE_MISUSE then Inl (Ldbc IllegalUseException) else Inr state)"

definition column_name :: "('s, 'f, 'g) sqlite3 \<Rightarrow> 's \<Rightarrow> query \<Rightarrow> int \<Rightarrow> ldbc_error + string" where
  "column_name S s q c =
     (case sqlite3_column_name S s (query_handle q) c of Some n \<Rightarrow> Inr n | None \<Rightarrow> Inl (Ldbc LdbcIndexOutOfRange))"

definition column_type :: "('s, 'f, 'g) sqlite3 \<Rightarrow> 's \<Rightarrow> query \<Rightarrow> int \<Rightarrow> ldbc_error + DATA_type" where
  "column_type S s q c =
     (let t = sqlite3_column_type S s (query_handle q) c in
      if t = 0 then Inl (Ldbc LdbcIndexOutOfRange)
      else Inr (if t = 1 then DT_INTEGER else if t = 2 then DT_FLOAT else if t = 4 then DT_BLOB else if t = 5 then DT_NULL
                else if t = 3 then DT_TEXT else DT_UNKNOWN))"

definition column_count :: "('s, 'f, 'g) sqlite3 \<Rightarrow> 's \<Rightarrow> query \<Rightarrow> int" where
  "column_count S s q = ace_max 0 (sqlite3_column_count S s (query_handle q))"

definition bind_count :: "('s, 'f, 'g) sqlite3 \<Rightarrow> 's \<Rightarrow> query \<Rightarrow> int" where
  "bind_count S s q = ace_max 0 (sqlite3_bind_parameter_count S s (query_handle q))"

text \<open>\<open>_finalize\<close> steps the statement once before it lets it go.\<close>

definition query_finalize :: "('s, 'f, 'g) sqlite3 \<Rightarrow> 's \<Rightarrow> query \<Rightarrow> 's \<times> query" where
  "query_finalize S s q =
     (case query_handle q of
        Some x \<Rightarrow>
          let s1 = snd (sqlite3_step S s (Some x)); s2 = sqlite3_finalize S s1 x
          in (s2, q\<lparr>query_handle := None, query_params := []\<rparr>)
      | None \<Rightarrow> (s, q\<lparr>query_params := []\<rparr>))"

definition handle_out :: "('s, 'f, 'g) sqlite3 \<Rightarrow> 's \<Rightarrow> query \<Rightarrow> 's \<times> query" where
  "handle_out S s q = (let (s', q') = query_finalize S s q in (s', q'\<lparr>query_handle := None\<rparr>))"

text \<open>The vector is resized, and filled from its end.\<close>

definition resize :: "nat \<Rightarrow> 'a option list \<Rightarrow> 'a option list" where
  "resize n ps = take n ps @ replicate (n - length ps) None"

primrec fill_params :: "('s, 'f, 'g) sqlite3 \<Rightarrow> 's \<Rightarrow> stmt option \<Rightarrow> nat \<Rightarrow> parameter option list \<Rightarrow> parameter option list" where
  "fill_params S s h 0 ps = ps"
| "fill_params S s h (Suc j) ps = fill_params S s h j (ps[j := Some (Parameter_new S s h (int j + 1))])"

definition c_string :: "string \<Rightarrow> string" where
  "c_string t = takeWhile (\<lambda>c. c \<noteq> char_of (0::nat)) t"

definition execute_query ::
  "('s, 'f, 'g) sqlite3 \<Rightarrow> db option \<Rightarrow> 's \<Rightarrow> query \<Rightarrow> string \<Rightarrow> (ldbc_error + int) \<times> 's \<times> query" where
  "execute_query S d s q sql =
     (if sql \<noteq> [] then
        let (s1, q1) = handle_out S s q;
            (rc, h, s2) = sqlite3_prepare_v2 S s1 d (c_string sql);
            q2 = q1\<lparr>query_handle := h\<rparr>;
            (rc', s3) = (if rc = SQLITE_OK then sqlite3_reset S s2 h else (rc, s2));
            i = sqlite3_bind_parameter_count S s3 h;
            q3 = (if rc = SQLITE_OK \<and> i > 0
                  then q2\<lparr>query_params := fill_params S s3 h (nat i) (resize (nat i) (query_params q2))\<rparr> else q2)
        in (assertErrorState rc', s3, q3\<lparr>query_state := rc'\<rparr>)
      else let (s1, q1) = query_finalize S s q in (Inl (Ldbc LdbcIllegalArgumentException), s1, q1))"

definition getNext :: "('s, 'f, 'g) sqlite3 \<Rightarrow> 's \<Rightarrow> query \<Rightarrow> (ldbc_error + bool) \<times> 's \<times> query" where
  "getNext S s q =
     (let (rc, s') = sqlite3_step S s (query_handle q); q' = q\<lparr>query_state := rc\<rparr>
      in (case assertErrorState rc of Inl e \<Rightarrow> (Inl e, s', q') | Inr st \<Rightarrow> (Inr (st = SQLITE_ROW), s', q')))"

text \<open>\<open>*s\<close> of a C string.\<close>

definition c_first :: "string \<Rightarrow> char" where
  "c_first t = (case t of [] \<Rightarrow> char_of (0::nat) | c # _ \<Rightarrow> c)"

definition get_datetime :: "string option \<Rightarrow> ldbc_error + ('f, 'g) ldbc_value" where
  "get_datetime t =
     (case t of
        None \<Rightarrow> Inl (Ldbc IllegalUseException)
      | Some u \<Rightarrow>
          (case Date_Time_parse (c_string u) of
             Returns d \<Rightarrow> Inr (DATETIME_type d) | Throws e \<Rightarrow> Inl (Ldbc IllegalUseException) | Undefined \<Rightarrow> Inl Undefined_behaviour))"

fun get_value :: "('s, 'f, 'g) sqlite3 \<Rightarrow> 's \<Rightarrow> stmt \<Rightarrow> int \<Rightarrow> PARAMETER_type \<Rightarrow> ldbc_error + ('f, 'g) ldbc_value" where
  "get_value S s x c PT_BOOL = Inr (BOOL_type (sqlite3_column_int S s x c \<noteq> 0))"
| "get_value S s x c PT_CHAR =
     (case sqlite3_column_text S s x c of Some t \<Rightarrow> Inr (CHAR_type (c_first t)) | None \<Rightarrow> Inl (Ldbc IllegalUseException))"
| "get_value S s x c PT_BYTE =
     (case sqlite3_column_text S s x c of Some t \<Rightarrow> Inr (BYTE_type (of_char (c_first t))) | None \<Rightarrow> Inl (Ldbc IllegalUseException))"
| "get_value S s x c PT_SHORT = Inr (SHORT_type (ucast (sqlite3_column_int S s x c)))"
| "get_value S s x c PT_USHORT = Inr (USHORT_type (ucast (sqlite3_column_int S s x c)))"
| "get_value S s x c PT_LONG = Inr (LONG_type (sqlite3_column_int S s x c))"
| "get_value S s x c PT_ULONG = Inr (ULONG_type (sqlite3_column_int S s x c))"
| "get_value S s x c PT_LONGLONG = Inr (LONGLONG_type (sqlite3_column_int64 S s x c))"
| "get_value S s x c PT_ULONGLONG = Inr (ULONGLONG_type (sqlite3_column_int64 S s x c))"
| "get_value S s x c PT_FLOAT = Inr (FLOAT_type (double_to_float S (sqlite3_column_double S s x c)))"
| "get_value S s x c PT_DOUBLE = Inr (DOUBLE_type (sqlite3_column_double S s x c))"
| "get_value S s x c PT_DATETIME = get_datetime (sqlite3_column_text S s x c)"
| "get_value S s x c PT_STRING =
     (let len = sqlite3_column_bytes S s x c in
      case sqlite3_column_text S s x c of
        Some t \<Rightarrow> Inr (STRING_type (if len > 0 then take (nat len) t else []))
      | None \<Rightarrow> Inr (STRING_type []))"
| "get_value S s x c PT_BLOB =
     (let size = sqlite3_column_bytes S s x c in
      if size \<ge> 0 then
        (case sqlite3_column_blob S s x c of Some b \<Rightarrow> Inr (BLOB_type (Some b) (nat size)) | None \<Rightarrow> Inr (BLOB_type None 0))
      else Inr (BLOB_type None 0))"
| "get_value S s x c PT_UNKNOWN = Inl Undefined_behaviour"

definition getData :: "('s, 'f, 'g) sqlite3 \<Rightarrow> 's \<Rightarrow> query \<Rightarrow> int \<Rightarrow> PARAMETER_type \<Rightarrow> ldbc_error + ('f, 'g) ldbc_value" where
  "getData S s q c ty =
     (case query_handle q of
        Some x \<Rightarrow> if query_state q = SQLITE_ROW then get_value S s x c ty else Inl (Ldbc IllegalUseException)
      | None \<Rightarrow> Inl (Ldbc IllegalUseException))"

definition query_at :: "query \<Rightarrow> int \<Rightarrow> ldbc_error + parameter" where
  "query_at q i =
     (if i > 0 \<and> i \<le> c_int (length (query_params q)) then
        (case query_params q ! nat (i - 1) of Some p \<Rightarrow> Inr p | None \<Rightarrow> Inl (Ldbc LdbcInternalException))
      else Inl (Ldbc LdbcIndexOutOfRange))"

definition query_named :: "('s, 'f, 'g) sqlite3 \<Rightarrow> 's \<Rightarrow> query \<Rightarrow> string \<Rightarrow> ldbc_error + parameter" where
  "query_named S s q n = query_at q (sqlite3_bind_parameter_index S s (query_handle q) (c_string n))"

text \<open>\<open>query[i]->bind(v)\<close>: the parameter object in the vector is the one that is changed.\<close>

definition query_bind ::
  "('s, 'f, 'g) sqlite3 \<Rightarrow> 's \<Rightarrow> query \<Rightarrow> int \<Rightarrow> ('f, 'g) ldbc_value \<Rightarrow> (ldbc_error + unit) \<times> 's \<times> query" where
  "query_bind S s q i v =
     (case query_at q i of
        Inl e \<Rightarrow> (Inl e, s, q)
      | Inr p \<Rightarrow>
          (case bind S s (query_handle q) p v of
             (Inl e, s') \<Rightarrow> (Inl e, s', q)
           | (Inr p', s') \<Rightarrow> (Inr (), s', q\<lparr>query_params := (query_params q)[nat (i - 1) := Some p']\<rparr>)))"

section \<open>Parameters of a query\<close>

lemma fill_params_nth:
  "length ps = n \<Longrightarrow> j \<le> n \<Longrightarrow> length (fill_params S s h j ps) = n \<and>
    (\<forall>i < n. fill_params S s h j ps ! i = (if i < j then Some (Parameter_new S s h (int i + 1)) else ps ! i))"
  by (induction j arbitrary: ps) (auto simp: nth_list_update less_Suc_eq)

lemma Parameter_new_index [simp]: "par_index (Parameter_new S s h i) = i" "par_null (Parameter_new S s h i) = False"
  "par_type (Parameter_new S s h i) = PT_UNKNOWN"
  by (simp_all add: Parameter_new_def)

lemma resize_Nil [simp]: "resize n [] = replicate n None" "length (resize n ps) = n"
  by (simp_all add: resize_def min_def)

text \<open>Every parameter of a query knows its place, counted from 1; a query without a statement has none.\<close>

definition params_ok :: "query \<Rightarrow> bool" where
  "params_ok q \<longleftrightarrow> (\<forall>i < length (query_params q). \<exists>p. query_params q ! i = Some p \<and> par_index p = int i + 1) \<and>
     (query_handle q = None \<longrightarrow> query_params q = [])"

lemma params_ok_new: "params_ok Query_new"
  by (simp add: params_ok_def Query_new_def)

lemma query_finalize_q:
  "snd (query_finalize S s q) = q\<lparr>query_handle := None, query_params := []\<rparr>"
  "handle_out S s q = query_finalize S s q"
  by (cases "query_handle q"; simp add: query_finalize_def handle_out_def Let_def)+

text \<open>The laws of the null statement and of the number of parameters, an \<open>int\<close>.\<close>

definition null_laws :: "('s, 'f, 'g) sqlite3 \<Rightarrow> bool" where
  "null_laws S \<longleftrightarrow> (\<forall>s. sqlite3_step S s None = (SQLITE_MISUSE, s) \<and> sqlite3_reset S s None = (SQLITE_OK, s) \<and>
     sqlite3_bind_parameter_count S s None = 0) \<and>
     (\<forall>s h. 0 \<le> sqlite3_bind_parameter_count S s h \<and> sqlite3_bind_parameter_count S s h \<le> INT_MAX)"

lemma null_lawsD:
  assumes "null_laws S"
  shows "sqlite3_step S s None = (SQLITE_MISUSE, s)" "sqlite3_reset S s None = (SQLITE_OK, s)"
    "sqlite3_bind_parameter_count S s None = 0"
    "0 \<le> sqlite3_bind_parameter_count S s h" "sqlite3_bind_parameter_count S s h \<le> INT_MAX"
  using assms by (auto simp: null_laws_def)

text \<open>What \<open>execute_query\<close> does on a sql, in terms of the calls it makes.\<close>

lemma execute_query_steps:
  assumes "sql \<noteq> []" "query_finalize S s q = (s1, q1)" "sqlite3_prepare_v2 S s1 d (c_string sql) = (rc, h, s2)"
    "(rc', s3) = (if rc = SQLITE_OK then sqlite3_reset S s2 h else (rc, s2))"
  shows "execute_query S d s q sql =
    (assertErrorState rc', s3,
     \<lparr>query_handle = h, query_state = rc',
      query_params = (if rc = SQLITE_OK
        then map (\<lambda>i. Some (Parameter_new S s3 h (int i + 1))) [0..<nat (sqlite3_bind_parameter_count S s3 h)] else [])\<rparr>)"
proof -
  let ?n = "nat (sqlite3_bind_parameter_count S s3 h)"
  have q1: "q1 = q\<lparr>query_handle := None, query_params := []\<rparr>" using assms(2) query_finalize_q(1) [of S s q] by simp
  have "fill_params S s3 h ?n (replicate ?n None) = map (\<lambda>i. Some (Parameter_new S s3 h (int i + 1))) [0..<?n]"
    using fill_params_nth [of "replicate ?n None" ?n ?n S s3 h] by (intro nth_equalityI) auto
  then show ?thesis
    using assms by (cases q) (auto simp: execute_query_def query_finalize_q(2) q1 Let_def split: prod.splits)
qed

lemma execute_query_cases:
  obtains s1 q1 rc h s2 rc' s3 where "query_finalize S s q = (s1, q1)" "sqlite3_prepare_v2 S s1 d (c_string sql) = (rc, h, s2)"
    "(rc', s3) = (if rc = SQLITE_OK then sqlite3_reset S s2 h else (rc, s2))"
  by (metis prod.exhaust)

lemma params_ok_execute:
  assumes "null_laws S" "execute_query S d s q sql = (r, s', q')"
    "\<And>s1. fst (sqlite3_prepare_v2 S s1 d (c_string sql)) \<noteq> SQLITE_OK \<Longrightarrow> fst (snd (sqlite3_prepare_v2 S s1 d (c_string sql))) = None"
  shows "params_ok q'"
proof (cases "sql = []")
  case True
  then show ?thesis
    using assms(2) query_finalize_q(1) [of S s q] by (auto simp: execute_query_def params_ok_def split: prod.splits)
next
  case False
  obtain s1 q1 rc h s2 rc' s3 where c: "query_finalize S s q = (s1, q1)" "sqlite3_prepare_v2 S s1 d (c_string sql) = (rc, h, s2)"
    "(rc', s3) = (if rc = SQLITE_OK then sqlite3_reset S s2 h else (rc, s2))"
    using execute_query_cases [of S s q d sql] by blast
  show ?thesis
    using assms(2) null_lawsD(3) [OF assms(1)] unfolding execute_query_steps [OF False c]
    by (auto simp: params_ok_def)
qed

text \<open>\<open>sqlite3_prepare_v2\<close> gives no statement with an error code; neither it nor \<open>sqlite3_reset\<close> reports a row.\<close>

definition prepare_laws :: "('s, 'f, 'g) sqlite3 \<Rightarrow> bool" where
  "prepare_laws S \<longleftrightarrow>
     (\<forall>s d t rc h s'. sqlite3_prepare_v2 S s d t = (rc, h, s') \<longrightarrow> rc \<noteq> SQLITE_ROW \<and> (rc \<noteq> SQLITE_OK \<longrightarrow> h = None)) \<and>
     (\<forall>s h. fst (sqlite3_reset S s h) \<noteq> SQLITE_ROW)"

lemma prepare_lawsD:
  assumes "prepare_laws S"
  shows "sqlite3_prepare_v2 S s d t = (rc, h, s') \<Longrightarrow> rc \<noteq> SQLITE_ROW"
    "sqlite3_prepare_v2 S s d t = (rc, h, s') \<Longrightarrow> rc \<noteq> SQLITE_OK \<Longrightarrow> h = None"
    "fst (sqlite3_reset S s h) \<noteq> SQLITE_ROW"
  using assms unfolding prepare_laws_def by blast+

lemma params_ok_executed:
  assumes "null_laws S" "prepare_laws S" "execute_query S d s q sql = (r, s', q')"
  shows "params_ok q'"
proof (rule params_ok_execute [OF assms(1,3)])
  show "fst (snd (sqlite3_prepare_v2 S s1 d (c_string sql))) = None" if "fst (sqlite3_prepare_v2 S s1 d (c_string sql)) \<noteq> SQLITE_OK" for s1
    using that prepare_lawsD(2) [OF assms(2)] by (cases "sqlite3_prepare_v2 S s1 d (c_string sql)") auto
qed

lemma query_at_params:
  assumes "length (query_params q) = n" "int n \<le> INT_MAX" "\<And>i. i < n \<Longrightarrow> query_params q ! i = Some (f (int i + 1))"
  shows "query_at q i = (if 1 \<le> i \<and> i \<le> int n then Inr (f i) else Inl (Ldbc LdbcIndexOutOfRange))"
proof (cases "1 \<le> i \<and> i \<le> int n")
  case True
  then show ?thesis using assms(3) [of "nat (i - 1)"] assms(1,2) by (auto simp: query_at_def c_int_small)
qed (use assms in \<open>auto simp: query_at_def c_int_small\<close>)

lemma execute_query_params:
  assumes "null_laws S" "prepare_laws S" "execute_query S d s q sql = (Inr SQLITE_OK, s', q')"
  shows "int (length (query_params q')) = bind_count S s' q'" "sql \<noteq> []" "query_state q' = SQLITE_OK"
    "query_at q' i = (if 1 \<le> i \<and> i \<le> bind_count S s' q' then Inr (Parameter_new S s' (query_handle q') i)
       else Inl (Ldbc LdbcIndexOutOfRange))"
proof -
  show sql: "sql \<noteq> []" using assms(3) by (auto simp: execute_query_def split: prod.splits)
  obtain s1 q1 rc h s2 rc' s3 where c: "query_finalize S s q = (s1, q1)" "sqlite3_prepare_v2 S s1 d (c_string sql) = (rc, h, s2)"
    "(rc', s3) = (if rc = SQLITE_OK then sqlite3_reset S s2 h else (rc, s2))"
    using execute_query_cases [of S s q d sql] by blast
  note e = assms(3) [unfolded execute_query_steps [OF sql c]]
  have ok: "rc' = SQLITE_OK" "rc = SQLITE_OK" using e c(3) by (auto simp: assertErrorState_def split: if_splits)
  have q': "query_handle q' = h" "s3 = s'" "query_state q' = SQLITE_OK"
    "query_params q' = map (\<lambda>i. Some (Parameter_new S s' h (int i + 1))) [0..<nat (sqlite3_bind_parameter_count S s' h)]"
    using e ok by auto
  show "query_state q' = SQLITE_OK" by (rule q'(3))
  have n: "bind_count S s' q' = sqlite3_bind_parameter_count S s' h" using null_lawsD(4) [OF assms(1)] by (simp add: bind_count_def q')
  show l: "int (length (query_params q')) = bind_count S s' q'" using null_lawsD(4) [OF assms(1)] by (simp add: n q'(4))
  show "query_at q' i = (if 1 \<le> i \<and> i \<le> bind_count S s' q' then Inr (Parameter_new S s' (query_handle q') i)
       else Inl (Ldbc LdbcIndexOutOfRange))"
    using query_at_params [of q' "length (query_params q')" "Parameter_new S s' h" i] null_lawsD(5) [OF assms(1)] l n
    by (simp add: q')
qed

lemma execute_query_state:
  assumes "prepare_laws S" "execute_query S d s q sql = (r, s', q')"
  shows "query_state q' = SQLITE_ROW \<longrightarrow> query_handle q' = None"
proof (cases "sql = []")
  case True
  then show ?thesis using assms(2) query_finalize_q(1) [of S s q] by (auto simp: execute_query_def split: prod.splits)
next
  case False
  obtain s1 q1 rc h s2 rc' s3 where c: "query_finalize S s q = (s1, q1)" "sqlite3_prepare_v2 S s1 d (c_string sql) = (rc, h, s2)"
    "(rc', s3) = (if rc = SQLITE_OK then sqlite3_reset S s2 h else (rc, s2))"
    using execute_query_cases [of S s q d sql] by blast
  have "rc' \<noteq> SQLITE_ROW" using c(3) prepare_lawsD(1) [OF assms(1) c(2)] prepare_lawsD(3) [OF assms(1), of s2 h]
    by (auto split: if_splits dest!: sym [of "(_, _)"])
  then show ?thesis using assms(2) [unfolded execute_query_steps [OF False c]] by auto
qed

lemma getData_only_row: "query_state q = SQLITE_ROW \<longrightarrow> query_handle q = None \<Longrightarrow> getData S s q c ty = Inl (Ldbc IllegalUseException)"
  by (auto simp: getData_def split: option.split)

lemma getNext_row:
  assumes "null_laws S" "getNext S s q = (r, s', q')"
  shows "r = Inr True \<Longrightarrow> query_state q' = SQLITE_ROW \<and> query_handle q' \<noteq> None"
    "r \<noteq> Inr True \<Longrightarrow> query_state q' \<noteq> SQLITE_ROW" "query_handle q' = query_handle q" "query_params q' = query_params q"
  using assms(2) null_lawsD(1) [OF assms(1)]
  by (cases "query_handle q"; auto simp: getNext_def assertErrorState_def Let_def split: prod.splits if_splits)+

section \<open>Values\<close>

text \<open>
  What SQLite stores, and its documented conversions for the values the code reads back.  A floating-point number that
  is not a number is stored as null (\<^verbatim>\<open>sqlite3VdbeMemSetDouble\<close>), and a null is read as the number zero.
\<close>

datatype 'f sql_value = V_null | V_int "64 word" | V_real 'f | V_text string | V_blob string

definition sql_real :: "('s, 'f, 'g) sqlite3 \<Rightarrow> 'f \<Rightarrow> 'f sql_value" where
  "sql_real S v = (if double_is_nan S v then V_null else V_real v)"

definition bytes_given :: "string \<Rightarrow> int \<Rightarrow> string" where
  "bytes_given t n = (if n < 0 then c_string t else take (nat n) t)"

definition bind_laws :: "('s, 'f, 'g) sqlite3 \<Rightarrow> ('s \<Rightarrow> stmt \<Rightarrow> int \<Rightarrow> 'f sql_value) \<Rightarrow> bool" where
  "bind_laws S bound \<longleftrightarrow>
     (\<forall>s x i s'. sqlite3_bind_null S s x i = (0, s') \<longrightarrow> bound s' x i = V_null) \<and>
     (\<forall>s x i v s'. sqlite3_bind_int S s x i v = (0, s') \<longrightarrow> bound s' x i = V_int (scast v)) \<and>
     (\<forall>s x i v s'. sqlite3_bind_int64 S s x i v = (0, s') \<longrightarrow> bound s' x i = V_int v) \<and>
     (\<forall>s x i v s'. sqlite3_bind_double S s x i v = (0, s') \<longrightarrow> bound s' x i = sql_real S v) \<and>
     (\<forall>s x i t n s'. sqlite3_bind_text S s x i t n = (0, s') \<longrightarrow> bound s' x i = V_text (bytes_given t n)) \<and>
     (\<forall>s x i t n s'. sqlite3_bind_blob S s x i t n = (0, s') \<longrightarrow> bound s' x i = V_blob (bytes_given t n))"

definition column_laws :: "('s, 'f, 'g) sqlite3 \<Rightarrow> ('s \<Rightarrow> stmt \<Rightarrow> int \<Rightarrow> 'f sql_value) \<Rightarrow> bool" where
  "column_laws S cell \<longleftrightarrow>
     (\<forall>s x c w. cell s x c = V_int w \<longrightarrow> sqlite3_column_int S s x c = ucast w \<and> sqlite3_column_int64 S s x c = w \<and>
        sqlite3_column_text S s x c = Some (print_d (sint w))) \<and>
     (\<forall>s x c v. cell s x c = V_real v \<longrightarrow> sqlite3_column_double S s x c = v) \<and>
     (\<forall>s x c t. cell s x c = V_text t \<longrightarrow> sqlite3_column_text S s x c = Some t \<and> sqlite3_column_bytes S s x c = int (length t)) \<and>
     (\<forall>s x c b. cell s x c = V_blob b \<longrightarrow> sqlite3_column_bytes S s x c = int (length b) \<and>
        sqlite3_column_blob S s x c = (if b = [] then None else Some b)) \<and>
     (\<forall>s x c. cell s x c = V_null \<longrightarrow> sqlite3_column_text S s x c = None \<and> sqlite3_column_blob S s x c = None \<and>
        sqlite3_column_bytes S s x c = 0 \<and> sqlite3_column_double S s x c = double_zero S) \<and>
     (\<forall>v. \<not> double_is_nan S (float_to_double S v) \<longrightarrow> double_to_float S (float_to_double S v) = v)"

lemma bind_lawsD:
  assumes "bind_laws S bound"
  shows "sqlite3_bind_null S s x i = (0, s') \<Longrightarrow> bound s' x i = V_null"
    "sqlite3_bind_int S s x i v = (0, s') \<Longrightarrow> bound s' x i = V_int (scast v)"
    "sqlite3_bind_int64 S s x i w = (0, s') \<Longrightarrow> bound s' x i = V_int w"
    "sqlite3_bind_double S s x i f = (0, s') \<Longrightarrow> bound s' x i = sql_real S f"
    "sqlite3_bind_text S s x i t n = (0, s') \<Longrightarrow> bound s' x i = V_text (bytes_given t n)"
    "sqlite3_bind_blob S s x i t n = (0, s') \<Longrightarrow> bound s' x i = V_blob (bytes_given t n)"
  using assms by (simp_all add: bind_laws_def)

lemma column_lawsD:
  assumes "column_laws S cell"
  shows "cell s x c = V_int w \<Longrightarrow> sqlite3_column_int S s x c = ucast w" "cell s x c = V_int w \<Longrightarrow> sqlite3_column_int64 S s x c = w"
    "cell s x c = V_int w \<Longrightarrow> sqlite3_column_text S s x c = Some (print_d (sint w))"
    "cell s x c = V_real f \<Longrightarrow> sqlite3_column_double S s x c = f"
    "cell s x c = V_text t \<Longrightarrow> sqlite3_column_text S s x c = Some t" "cell s x c = V_text t \<Longrightarrow> sqlite3_column_bytes S s x c = int (length t)"
    "cell s x c = V_blob t \<Longrightarrow> sqlite3_column_bytes S s x c = int (length t)"
    "cell s x c = V_blob t \<Longrightarrow> sqlite3_column_blob S s x c = (if t = [] then None else Some t)"
    "cell s x c = V_null \<Longrightarrow> sqlite3_column_text S s x c = None" "cell s x c = V_null \<Longrightarrow> sqlite3_column_blob S s x c = None"
    "cell s x c = V_null \<Longrightarrow> sqlite3_column_bytes S s x c = 0" "cell s x c = V_null \<Longrightarrow> sqlite3_column_double S s x c = double_zero S"
    "\<not> double_is_nan S (float_to_double S g) \<Longrightarrow> double_to_float S (float_to_double S g) = g"
  using assms unfolding column_laws_def by blast+

fun type_of_value :: "('f, 'g) ldbc_value \<Rightarrow> PARAMETER_type" where
  "type_of_value (LONGLONG_type _) = PT_LONGLONG"
| "type_of_value (ULONGLONG_type _) = PT_ULONGLONG"
| "type_of_value (FLOAT_type _) = PT_FLOAT"
| "type_of_value (DOUBLE_type _) = PT_DOUBLE"
| "type_of_value (DATETIME_type _) = PT_DATETIME"
| "type_of_value (STRING_type _) = PT_STRING"
| "type_of_value (BLOB_type _ _) = PT_BLOB"
| "type_of_value v = (case int_of_value v of Some (ty, _) \<Rightarrow> ty | None \<Rightarrow> PT_UNKNOWN)"

text \<open>
  What comes back for a bound value.  A character or a byte is stored as a number and read as text, a date
  loses its microseconds, a blob is as long as its size cut to an \<open>int\<close>, and what is not a number becomes zero.
\<close>

fun read_back :: "('s, 'f, 'g) sqlite3 \<Rightarrow> ('f, 'g) ldbc_value \<Rightarrow> ('f, 'g) ldbc_value" where
  "read_back S (CHAR_type c) = CHAR_type (c_first (print_d (sint (of_char c :: 8 word))))"
| "read_back S (BYTE_type b) = BYTE_type (of_char (c_first (print_d (uint b))))"
| "read_back S (DATETIME_type d) = DATETIME_type (d\<lparr>microsec := 0, weekday := WEEKDay (day_of d)\<rparr>)"
| "read_back S (BLOB_type (Some b) n) =
     (if c_int n > 0 then BLOB_type (Some (take (nat (c_int n)) b)) (nat (c_int n)) else BLOB_type None 0)"
| "read_back S (BLOB_type None n) = BLOB_type None 0"
| "read_back S (FLOAT_type f) = (if double_is_nan S (float_to_double S f) then FLOAT_type (double_to_float S (double_zero S)) else FLOAT_type f)"
| "read_back S (DOUBLE_type f) = (if double_is_nan S f then DOUBLE_type (double_zero S) else DOUBLE_type f)"
| "read_back S v = v"

text \<open>What \<open>bind\<close> stores for each value it accepts.\<close>

fun stored :: "('s, 'f, 'g) sqlite3 \<Rightarrow> ('f, 'g) ldbc_value \<Rightarrow> 'f sql_value" where
  "stored S (LONGLONG_type w) = V_int w"
| "stored S (ULONGLONG_type w) = V_int w"
| "stored S (FLOAT_type f) = sql_real S (float_to_double S f)"
| "stored S (DOUBLE_type f) = sql_real S f"
| "stored S (DATETIME_type d) = (case toDateString d False of Returns t \<Rightarrow> V_text t | _ \<Rightarrow> V_null)"
| "stored S (STRING_type t) = (if t = [] then V_null else V_text t)"
| "stored S (BLOB_type b n) =
     (case b of Some u \<Rightarrow> if c_int n \<ge> 0 then V_blob (take (nat (c_int n)) u) else V_null | None \<Rightarrow> V_null)"
| "stored S v = (case int_of_value v of Some (_, w) \<Rightarrow> V_int (scast w) | None \<Rightarrow> V_null)"

lemma bound_as_ok: "bound_as ty p r = (Inr p', s') \<longleftrightarrow> r = (0, s') \<and> p' = p\<lparr>par_type := ty, par_null := False\<rparr>"
  by (cases r) (auto simp: bound_as_def)

lemma bindNull_ok: "bindNull S s (Some x) p = (Inr p', s') \<longleftrightarrow>
    sqlite3_bind_null S s x (par_index p) = (0, s') \<and> p' = p\<lparr>par_type := PT_UNKNOWN, par_null := True\<rparr>"
  by (auto simp: bindNull_def split: prod.splits)

lemma date_string_plain:
  assumes "valid_dt d" "toDateString d False = Returns t"
  shows "c_string t = t" "t \<noteq> []" "c_int (length t) = int (length t)"
proof -
  note b = valid_dt_bounds [OF assms(1)]
  have t: "t = print_0d 4 (year d) @ ''-'' @ print_0d 2 (month d) @ ''-'' @ print_0d 2 (day d) @ '' '' @
       print_0d 2 (hour d) @ '':'' @ print_0d 2 (minute d) @ '':'' @ print_0d 2 (second d)"
    using assms by (simp add: toDateString_default)
  have len: "length (print_0d 4 (year d)) = 4" "length (print_0d 2 (month d)) = 2" "length (print_0d 2 (day d)) = 2"
    "length (print_0d 2 (hour d)) = 2" "length (print_0d 2 (minute d)) = 2" "length (print_0d 2 (second d)) = 2"
    using b by (simp_all add: print_0d_props)
  then have "length t = 19" by (simp add: t)
  then show "t \<noteq> []" "c_int (length t) = int (length t)" by (auto simp: c_int_def)
  have "\<not> c_isdigit (char_of (0::nat))" by code_simp
  then have "char_of (0::nat) \<notin> set (print_0d w i)" if "0 < w" "0 \<le> i" "i < 10 ^ w" for w i
    using print_0d_props(2) [OF that] by blast
  then have "char_of (0::nat) \<notin> set (print_0d 4 (year d))" "char_of (0::nat) \<notin> set (print_0d 2 (month d))"
    "char_of (0::nat) \<notin> set (print_0d 2 (day d))" "char_of (0::nat) \<notin> set (print_0d 2 (hour d))"
    "char_of (0::nat) \<notin> set (print_0d 2 (minute d))" "char_of (0::nat) \<notin> set (print_0d 2 (second d))"
    using b by simp_all
  moreover have "CHR ''-'' \<noteq> char_of (0::nat)" "CHR '' '' \<noteq> char_of (0::nat)" "CHR '':'' \<noteq> char_of (0::nat)" by code_simp+
  ultimately have "char_of (0::nat) \<notin> set t" by (simp add: t)
  then show "c_string t = t" by (auto simp: c_string_def takeWhile_eq_all_conv)
qed

lemma date_time_printed:
  assumes "and_then (Date_Time_of d) (\<lambda>d. toDateString d False) = Returns t"
  shows "valid_dt d" "toDateString d False = Returns t"
proof -
  obtain d' where d': "Date_Time_of d = Returns d'" "toDateString d' False = Returns t"
    using assms by (cases "Date_Time_of d") auto
  then show v: "valid_dt d" using Date_Time_of_ok by blast
  have "d' = d\<lparr>weekday := WEEKDay_dmy (day d) (month d) (year d)\<rparr>" "valid_dt d'"
    using d'(1) Date_Time_of_ok [of d d'] by (auto simp: valid_dt_def valid_time_def)
  then show "toDateString d False = Returns t" using d'(2) v by (simp add: toDateString_default)
qed

text \<open>The text given to SQLite is as long as an \<open>int\<close> can say.\<close>

fun text_fits :: "('f, 'g) ldbc_value \<Rightarrow> bool" where
  "text_fits (STRING_type t) \<longleftrightarrow> int (length t) \<le> INT_MAX"
| "text_fits _ \<longleftrightarrow> True"

lemma bytes_given_all [simp]: "int (length t) \<le> INT_MAX \<Longrightarrow> bytes_given t (c_int (length t)) = t"
  by (simp add: bytes_given_def c_int_small)

lemma bind_datetime_stored:
  assumes "bind_laws S bound" "bind_datetime S s x p d = (Inr p', s')"
  shows "bound s' x (par_index p) = stored S (DATETIME_type d)" "valid_dt d"
proof -
  obtain t where t: "and_then (Date_Time_of d) (\<lambda>d. toDateString d False) = Returns t"
    using assms(2) by (auto simp: bind_datetime_def split: outcome.splits)
  note d = date_time_printed [OF t]
  note dp = date_string_plain [OF d]
  show "valid_dt d" by (rule d(1))
  show "bound s' x (par_index p) = stored S (DATETIME_type d)"
    using assms(2) bind_lawsD(5) [OF assms(1)] t d(2) dp by (auto simp: bind_datetime_def bound_as_ok bytes_given_def)
qed

lemma bind_stored:
  assumes "bind_laws S bound" "bind S s (Some x) p v = (Inr p', s')" "text_fits v"
  shows "bound s' x (par_index p) = stored S v"
proof (cases v)
  case (DATETIME_type d)
  then show ?thesis using bind_datetime_stored(1) [OF assms(1)] assms(2) by (simp add: bind_def)
next
  case (BLOB_type b n)
  then show ?thesis using assms(2) bind_lawsD(1,6) [OF assms(1)]
    by (auto simp: bind_def bind_blob_def bound_as_ok bindNull_ok bytes_given_def Let_def split: option.splits if_splits)
next
  case (STRING_type t)
  then show ?thesis using assms(2,3) bind_lawsD(1,5) [OF assms(1)]
    by (auto simp: bind_def bind_string_def bound_as_ok bindNull_ok split: if_splits)
qed (use assms(2) bind_lawsD(2-4) [OF assms(1)] in \<open>auto simp: bind_def bound_as_ok\<close>)

lemma bind_blob_size: "bind S s (Some x) p (BLOB_type (Some b) n) = (Inr p', s') \<Longrightarrow> c_int n \<le> int (length b)"
  by (auto simp: bind_def bind_blob_def Let_def split: if_splits)

section \<open>Words\<close>

lemma word_casts:
  "ucast (scast (w :: 32 word) :: 64 word) = w" "ucast (scast (v :: 16 word) :: 32 word) = v" "ucast (ucast (v :: 16 word) :: 32 word) = v"
  by (rule bit_word_eqI; simp add: bit_simps)+

lemma word_values:
  "sint (scast (scast (c :: 8 word) :: 32 word) :: 64 word) = sint c" "sint (scast (ucast (c :: 8 word) :: 32 word) :: 64 word) = uint c"
  by (rule bit_eqI; simp add: bit_simps; auto simp: min_def dest: bit_imp_le_length)+

section \<open>Reading back\<close>

lemma get_value_stored:
  assumes "column_laws S cell" "cell t y c = stored S v"
    "\<And>d. v = DATETIME_type d \<Longrightarrow> valid_dt d" "\<And>b n. v = BLOB_type (Some b) n \<Longrightarrow> c_int n \<le> int (length b)"
  shows "get_value S t y c (type_of_value v) = Inr (read_back S v)"
proof (cases v)
  case (DATETIME_type d)
  then have d: "valid_dt d" using assms(3) by simp
  then obtain u where u: "toDateString d False = Returns u" using toDateString_default by blast
  then show ?thesis
    using DATETIME_type assms(2) column_lawsD(5) [OF assms(1), of t y c u] date_string_plain(1) [OF d u] parse_date_string [OF d u]
    by (simp add: get_datetime_def)
next
  case (BLOB_type b n)
  then show ?thesis
    using assms(2,4) column_lawsD(7,8,10,11) [OF assms(1), of t y c] by (cases b) (auto simp: Let_def split: if_splits)
next
  case (STRING_type u)
  then show ?thesis
    using assms(2) column_lawsD(5,6,9,11) [OF assms(1), of t y c] by (auto simp: Let_def split: if_splits)
next
  case (CHAR_type k)
  then show ?thesis using assms(2) column_lawsD(3) [OF assms(1), of t y c] by (simp add: word_values)
next
  case (BYTE_type k)
  then show ?thesis using assms(2) column_lawsD(3) [OF assms(1), of t y c] by (simp add: word_values)
qed (use assms(2) column_lawsD(1,2,4,12,13) [OF assms(1)] in \<open>auto simp: word_casts sql_real_def split: if_splits\<close>)

text \<open>The only character that is the first digit of its own code is \<open>5\<close>.\<close>

lemma first_digit_isdigit: "0 \<le> i \<Longrightarrow> c_isdigit (c_first (print_d i))"
  using dec_digits_isdigit [of "hd (dec_digits (nat i))" "nat i"]
  by (cases "dec_digits (nat i)") (auto simp: print_d_def c_first_def)

lemma digit_codes:
  "\<forall>n \<in> set [48..<58]. (c_first (print_d (int n)) = char_of n \<longleftrightarrow> n = 53) \<and> sint (of_char (char_of n) :: 8 word) = int n \<and>
     uint (of_char (char_of n) :: 8 word) = int n"
  by code_simp

lemma digit_code: "c_isdigit c \<Longrightarrow> c_code c \<in> set [48..<58] \<and> c = char_of (c_code c)"
  by (simp only: set_upt atLeastLessThan_iff) (simp add: c_isdigit_def c_code_def)

lemma char_own_code: "c_first (print_d (sint (of_char c :: 8 word))) = c \<longleftrightarrow> c = CHR ''5''"
proof
  assume e: "c_first (print_d (sint (of_char c :: 8 word))) = c"
  have "0 \<le> sint (of_char c :: 8 word)"
  proof (rule ccontr)
    assume "\<not> 0 \<le> sint (of_char c :: 8 word)"
    then have "c = CHR ''-''" using e by (simp add: print_d_def c_first_def)
    moreover have "0 \<le> sint (of_char (CHR ''-'') :: 8 word)" by code_simp
    ultimately show False using \<open>\<not> 0 \<le> sint (of_char c :: 8 word)\<close> by simp
  qed
  then have d: "c_isdigit c" using e first_digit_isdigit by metis
  then have "c_code c = 53" using digit_code [OF d] digit_codes e by metis
  moreover have "char_of (53::nat) = CHR ''5''" by code_simp
  ultimately show "c = CHR ''5''" using digit_code [OF d] by simp
next
  have "c_first (print_d (sint (of_char (CHR ''5'') :: 8 word))) = CHR ''5''" by code_simp
  then show "c = CHR ''5'' \<Longrightarrow> c_first (print_d (sint (of_char c :: 8 word))) = c" by simp
qed

lemma byte_own_code: "of_char (c_first (print_d (uint b))) = b \<longleftrightarrow> b = (53 :: 8 word)"
proof
  assume e: "of_char (c_first (print_d (uint b))) = b"
  let ?c = "c_first (print_d (uint b))"
  have d: "c_isdigit ?c" by (rule first_digit_isdigit) simp
  have n: "c_code ?c \<in> set [48..<58]" "?c = char_of (c_code ?c)" using digit_code [OF d] by auto
  then have b: "uint b = int (c_code ?c)" using digit_codes e by metis
  then have "c_code ?c = 53" using digit_codes n by metis
  then have "uint b = uint (53 :: 8 word)" using b by simp
  then show "b = 53" by (simp only: word_uint_eq_iff)
next
  have "of_char (c_first (print_d (uint (53 :: 8 word)))) = (53 :: 8 word)" by code_simp
  then show "b = 53 \<Longrightarrow> of_char (c_first (print_d (uint b))) = b" by simp
qed

section \<open>Statements of the library\<close>

text \<open>Which statements exist: \<open>sqlite3_prepare_v2\<close> makes one, \<open>sqlite3_finalize\<close> removes it, nothing else does.\<close>

definition stmt_laws :: "('s, 'f, 'g) sqlite3 \<Rightarrow> ('s \<Rightarrow> stmt set) \<Rightarrow> bool" where
  "stmt_laws S live \<longleftrightarrow>
     (\<forall>s d t rc h s'. sqlite3_prepare_v2 S s d t = (rc, h, s') \<longrightarrow>
        (case h of None \<Rightarrow> live s' = live s | Some x \<Rightarrow> x \<notin> live s \<and> live s' = insert x (live s))) \<and>
     (\<forall>s x. live (sqlite3_finalize S s x) = live s - {x}) \<and>
     (\<forall>s h. live (snd (sqlite3_reset S s h)) = live s \<and> live (snd (sqlite3_step S s h)) = live s) \<and>
     (\<forall>s x i. live (snd (sqlite3_bind_null S s x i)) = live s) \<and>
     (\<forall>s x i v. live (snd (sqlite3_bind_int S s x i v)) = live s) \<and>
     (\<forall>s x i v. live (snd (sqlite3_bind_int64 S s x i v)) = live s) \<and>
     (\<forall>s x i v. live (snd (sqlite3_bind_double S s x i v)) = live s) \<and>
     (\<forall>s x i t n. live (snd (sqlite3_bind_text S s x i t n)) = live s) \<and>
     (\<forall>s x i t n. live (snd (sqlite3_bind_blob S s x i t n)) = live s) \<and>
     (\<forall>s n f v. live (snd (snd (sqlite3_open_v2 S s n f v))) = live s) \<and>
     (\<forall>s d. live (sqlite3_interrupt S s d) = live s \<and> live (sqlite3_close_v2 S s d) = live s)"

lemma stmt_lawsD:
  assumes "stmt_laws S live"
  shows "sqlite3_prepare_v2 S s d t = (rc, None, s') \<Longrightarrow> live s' = live s"
    "sqlite3_prepare_v2 S s d t = (rc, Some x, s') \<Longrightarrow> x \<notin> live s \<and> live s' = insert x (live s)"
    "live (sqlite3_finalize S s x) = live s - {x}" "live (snd (sqlite3_reset S s h)) = live s" "live (snd (sqlite3_step S s h)) = live s"
    "live (snd (snd (sqlite3_open_v2 S s n f v))) = live s" "live (sqlite3_interrupt S s d') = live s" "live (sqlite3_close_v2 S s d') = live s"
proof -
  have "case h of None \<Rightarrow> live s' = live s | Some x \<Rightarrow> x \<notin> live s \<and> live s' = insert x (live s)"
    if "sqlite3_prepare_v2 S s d t = (rc, h, s')" for h
    using conjunct1 [OF assms [unfolded stmt_laws_def], rule_format, OF that] .
  from this [of None] this [of "Some x"]
  show "sqlite3_prepare_v2 S s d t = (rc, None, s') \<Longrightarrow> live s' = live s"
    "sqlite3_prepare_v2 S s d t = (rc, Some x, s') \<Longrightarrow> x \<notin> live s \<and> live s' = insert x (live s)" by simp_all
qed (use assms in \<open>simp_all add: stmt_laws_def\<close>)

lemma stmt_laws_bind:
  assumes "stmt_laws S live"
  shows "live (snd (sqlite3_bind_null S s x i)) = live s" "live (snd (sqlite3_bind_int S s x i v)) = live s"
    "live (snd (sqlite3_bind_int64 S s x i w)) = live s" "live (snd (sqlite3_bind_double S s x i f)) = live s"
    "live (snd (sqlite3_bind_text S s x i t n)) = live s" "live (snd (sqlite3_bind_blob S s x i t n)) = live s"
  using assms by (simp_all add: stmt_laws_def)

text \<open>
  Executions: a step on a statement that is not between rows begins to execute it, whether it was just prepared, was reset
  or had finished before (a finished statement is reset by the next step).
\<close>

definition execution_laws :: "('s, 'f, 'g) sqlite3 \<Rightarrow> ('s \<Rightarrow> stmt set) \<Rightarrow> ('s \<Rightarrow> stmt \<Rightarrow> bool) \<Rightarrow> ('s \<Rightarrow> nat) \<Rightarrow> bool" where
  "execution_laws S live between_rows executed \<longleftrightarrow>
     (\<forall>s x rc s'. x \<in> live s \<and> sqlite3_step S s (Some x) = (rc, s') \<longrightarrow>
        executed s' = (if between_rows s x then executed s else Suc (executed s)) \<and> between_rows s' x = (rc = SQLITE_ROW)) \<and>
     (\<forall>s x rc s'. x \<in> live s \<and> sqlite3_reset S s (Some x) = (rc, s') \<longrightarrow> executed s' = executed s \<and> \<not> between_rows s' x) \<and>
     (\<forall>s x. executed (sqlite3_finalize S s x) = executed s)"

lemma execution_lawsD:
  assumes "execution_laws S live between_rows executed"
  shows "x \<in> live s \<Longrightarrow> sqlite3_step S s (Some x) = (rc, s') \<Longrightarrow>
      executed s' = (if between_rows s x then executed s else Suc (executed s)) \<and> between_rows s' x = (rc = SQLITE_ROW)"
    "x \<in> live s \<Longrightarrow> sqlite3_reset S s (Some x) = (rc, s') \<Longrightarrow> executed s' = executed s \<and> \<not> between_rows s' x"
    "executed (sqlite3_finalize S s x) = executed s"
  using assms by (simp_all add: execution_laws_def)

lemma finalize_executes:
  assumes "execution_laws S live between_rows executed" "query_handle q = Some x" "x \<in> live s"
  shows "executed (fst (query_finalize S s q)) = (if between_rows s x then executed s else Suc (executed s))"
proof -
  obtain rc s1 where "sqlite3_step S s (Some x) = (rc, s1)" by fastforce
  then show ?thesis using execution_lawsD(1,3) [OF assms(1)] assms(2,3) by (simp add: query_finalize_def Let_def)
qed

lemma executed_ready:
  assumes "stmt_laws S live" "execution_laws S live between_rows executed" "prepare_laws S"
    "execute_query S d s q sql = (Inr SQLITE_OK, s1, q1)" "query_handle q1 = Some x"
  shows "x \<in> live s1" "\<not> between_rows s1 x"
proof -
  have sql: "sql \<noteq> []" using assms(4) by (auto simp: execute_query_def split: prod.splits)
  obtain s0 q0 rc h s2 rc' s3 where c: "query_finalize S s q = (s0, q0)" "sqlite3_prepare_v2 S s0 d (c_string sql) = (rc, h, s2)"
    "(rc', s3) = (if rc = SQLITE_OK then sqlite3_reset S s2 h else (rc, s2))"
    using execute_query_cases [of S s q d sql] by blast
  note e = assms(4) [unfolded execute_query_steps [OF sql c]]
  have h: "h = Some x" "s3 = s1" using e assms(5) by auto
  have "rc = SQLITE_OK" using prepare_lawsD(2) [OF assms(3) c(2)] h(1) by (cases "rc = SQLITE_OK") auto
  note h = h this
  have "x \<in> live s2" using stmt_lawsD(2) [OF assms(1)] c(2) h(1) by blast
  moreover have r: "sqlite3_reset S s2 (Some x) = (rc', s1)" using c(3) h by simp
  ultimately show "x \<in> live s1" "\<not> between_rows s1 x"
    using stmt_lawsD(4) [OF assms(1), of s2 "Some x"] execution_lawsD(2) [OF assms(2)] by auto
qed

lemma getNext_step:
  assumes "stmt_laws S live" "execution_laws S live between_rows executed" "query_handle q = Some x" "x \<in> live s"
    "getNext S s q = (Inr False, s', q')"
  shows "x \<in> live s'" "\<not> between_rows s' x" "executed s' = (if between_rows s x then executed s else Suc (executed s))"
    "query_handle q' = Some x"
proof -
  obtain rc s1 where st: "sqlite3_step S s (Some x) = (rc, s1)" by fastforce
  have r: "rc \<noteq> SQLITE_ROW" "s1 = s'" "query_handle q' = Some x"
    using assms(3,5) st by (auto simp: getNext_def assertErrorState_def Let_def split: if_splits)
  then show "query_handle q' = Some x" "\<not> between_rows s' x"
    "executed s' = (if between_rows s x then executed s else Suc (executed s))" "x \<in> live s'"
    using execution_lawsD(1) [OF assms(2,4) st] stmt_lawsD(5) [OF assms(1), of s "Some x"] st assms(4) by auto
qed

section \<open>A small library\<close>

text \<open>
  An instance of the interface: it keeps what is bound, and a \<open>SELECT\<close> has one row, the bound values.  Floating-point numbers
  are integers here, and \<open>- 1\<close> plays the part of a NaN.
\<close>

record estmt =
  e_vals :: "int sql_value list"
  e_row :: bool
  e_select :: bool

record engine =
  e_stmts :: "stmt \<Rightarrow> estmt option"
  e_next :: nat
  e_ran :: nat

definition engine_empty :: engine where
  "engine_empty = \<lparr>e_stmts = (\<lambda>_. None), e_next = 0, e_ran = 0\<rparr>"

definition e_prepare :: "engine \<Rightarrow> db option \<Rightarrow> string \<Rightarrow> int \<times> stmt option \<times> engine" where
  "e_prepare e d t =
     (if take 6 t = ''SELECT'' \<or> take 6 t = ''INSERT'' then
        (0, Some (e_next e),
         e\<lparr>e_stmts := (e_stmts e)(e_next e \<mapsto>
             \<lparr>e_vals = replicate (count_list t (CHR ''?'')) V_null, e_row = False, e_select = (take 6 t = ''SELECT'')\<rparr>),
           e_next := Suc (e_next e)\<rparr>)
      else (SQLITE_ERROR, None, e))"

definition e_step :: "engine \<Rightarrow> stmt option \<Rightarrow> int \<times> engine" where
  "e_step e h =
     (case h of
        None \<Rightarrow> (SQLITE_MISUSE, e)
      | Some x \<Rightarrow>
          (case e_stmts e x of
             None \<Rightarrow> (SQLITE_MISUSE, e)
           | Some m \<Rightarrow>
               if e_row m then (SQLITE_DONE, e\<lparr>e_stmts := (e_stmts e)(x \<mapsto> m\<lparr>e_row := False\<rparr>)\<rparr>)
               else if e_select m then (SQLITE_ROW, e\<lparr>e_stmts := (e_stmts e)(x \<mapsto> m\<lparr>e_row := True\<rparr>), e_ran := Suc (e_ran e)\<rparr>)
               else (SQLITE_DONE, e\<lparr>e_ran := Suc (e_ran e)\<rparr>)))"

definition e_reset :: "engine \<Rightarrow> stmt option \<Rightarrow> int \<times> engine" where
  "e_reset e h =
     (case h of
        None \<Rightarrow> (0, e)
      | Some x \<Rightarrow>
          (case e_stmts e x of None \<Rightarrow> (0, e) | Some m \<Rightarrow> (0, e\<lparr>e_stmts := (e_stmts e)(x \<mapsto> m\<lparr>e_row := False\<rparr>)\<rparr>)))"

definition e_bind :: "engine \<Rightarrow> stmt \<Rightarrow> int \<Rightarrow> int sql_value \<Rightarrow> int \<times> engine" where
  "e_bind e x i v =
     (case e_stmts e x of
        None \<Rightarrow> (SQLITE_MISUSE, e)
      | Some m \<Rightarrow>
          if 1 \<le> i \<and> i \<le> int (length (e_vals m))
          then (0, e\<lparr>e_stmts := (e_stmts e)(x \<mapsto> m\<lparr>e_vals := (e_vals m)[nat (i - 1) := v]\<rparr>)\<rparr>)
          else (25, e))"

definition e_bound :: "engine \<Rightarrow> stmt \<Rightarrow> int \<Rightarrow> int sql_value" where
  "e_bound e x i =
     (case e_stmts e x of None \<Rightarrow> V_null | Some m \<Rightarrow> if 1 \<le> i \<and> i \<le> int (length (e_vals m)) then e_vals m ! nat (i - 1) else V_null)"

definition e_cell :: "engine \<Rightarrow> stmt \<Rightarrow> int \<Rightarrow> int sql_value" where
  "e_cell e x c = e_bound e x (c + 1)"

definition e_count :: "engine \<Rightarrow> stmt option \<Rightarrow> int" where
  "e_count e h =
     (case h of None \<Rightarrow> 0 | Some x \<Rightarrow> (case e_stmts e x of None \<Rightarrow> 0 | Some m \<Rightarrow> min INT_MAX (int (length (e_vals m)))))"

definition engine_api :: "(engine, int, int) sqlite3" where
  "engine_api =
     \<lparr>sqlite3_threadsafe = True, sqlite3_open_v2 = (\<lambda>e _ _ _. (0, Some 0, e)), sqlite3_interrupt = (\<lambda>e _. e),
      sqlite3_close_v2 = (\<lambda>e _. e), sqlite3_changes = (\<lambda>e _. int (e_ran e)), sqlite3_last_insert_rowid = (\<lambda>e _. int (e_ran e)),
      sqlite3_prepare_v2 = e_prepare, sqlite3_reset = e_reset, sqlite3_step = e_step,
      sqlite3_finalize = (\<lambda>e x. e\<lparr>e_stmts := (e_stmts e)(x := None)\<rparr>),
      sqlite3_bind_parameter_count = e_count, sqlite3_bind_parameter_name = (\<lambda>_ _ _. None),
      sqlite3_bind_parameter_index = (\<lambda>_ _ _. 0),
      sqlite3_bind_null = (\<lambda>e x i. e_bind e x i V_null), sqlite3_bind_int = (\<lambda>e x i w. e_bind e x i (V_int (scast w))),
      sqlite3_bind_int64 = (\<lambda>e x i w. e_bind e x i (V_int w)), 
      sqlite3_bind_double = (\<lambda>e x i v. e_bind e x i (if v = - 1 then V_null else V_real v)),
      sqlite3_bind_text = (\<lambda>e x i t n. e_bind e x i (V_text (bytes_given t n))),
      sqlite3_bind_blob = (\<lambda>e x i t n. e_bind e x i (V_blob (bytes_given t n))),
      sqlite3_column_count = e_count, sqlite3_column_name = (\<lambda>_ _ _. None), sqlite3_column_type = (\<lambda>_ _ _. 0),
      sqlite3_column_int = (\<lambda>e x c. case e_cell e x c of V_int w \<Rightarrow> ucast w | _ \<Rightarrow> 0),
      sqlite3_column_int64 = (\<lambda>e x c. case e_cell e x c of V_int w \<Rightarrow> w | _ \<Rightarrow> 0),
      sqlite3_column_double = (\<lambda>e x c. case e_cell e x c of V_real v \<Rightarrow> v | _ \<Rightarrow> 0),
      sqlite3_column_text = (\<lambda>e x c. case e_cell e x c of V_int w \<Rightarrow> Some (print_d (sint w)) | V_text t \<Rightarrow> Some t | _ \<Rightarrow> None),
      sqlite3_column_bytes = (\<lambda>e x c. case e_cell e x c of V_text t \<Rightarrow> int (length t) | V_blob t \<Rightarrow> int (length t) | _ \<Rightarrow> 0),
      sqlite3_column_blob = (\<lambda>e x c. case e_cell e x c of V_blob t \<Rightarrow> if t = [] then None else Some t | _ \<Rightarrow> None),
      float_to_double = (\<lambda>v. v), double_to_float = (\<lambda>v. v), double_is_nan = (\<lambda>v. v = - 1), double_zero = 0\<rparr>"

text \<open>Statements are numbered upwards.\<close>

definition e_live :: "engine \<Rightarrow> stmt set" where
  "e_live e = {x. x < e_next e \<and> e_stmts e x \<noteq> None}"

definition e_between :: "engine \<Rightarrow> stmt \<Rightarrow> bool" where
  "e_between e x = (case e_stmts e x of None \<Rightarrow> False | Some m \<Rightarrow> e_row m)"

lemma e_live_simps:
  "e_live (snd (snd (e_prepare e d t))) = (case fst (snd (e_prepare e d t)) of None \<Rightarrow> e_live e | Some x \<Rightarrow> insert x (e_live e))"
  "fst (snd (e_prepare e d t)) = Some x \<Longrightarrow> x \<notin> e_live e"
  "e_live (snd (e_step e h)) = e_live e" "e_live (snd (e_reset e h)) = e_live e" "e_live (snd (e_bind e y i v)) = e_live e"
  "e_live (e\<lparr>e_stmts := (e_stmts e)(y := None)\<rparr>) = e_live e - {y}"
  by (auto simp: e_live_def e_prepare_def e_step_def e_reset_def e_bind_def split: option.splits if_splits)

lemma engine_stmt_laws: "stmt_laws engine_api e_live"
proof -
  have "case h of None \<Rightarrow> e_live s' = e_live s | Some x \<Rightarrow> x \<notin> e_live s \<and> e_live s' = insert x (e_live s)"
    if "e_prepare s d t = (rc, h, s')" for s d t rc h s'
    using that e_live_simps(1,2) [of s d t] by (cases h) auto
  then show ?thesis by (simp add: stmt_laws_def engine_api_def e_live_simps)
qed

lemma engine_null_laws: "null_laws engine_api"
  by (auto simp: null_laws_def engine_api_def e_step_def e_reset_def e_count_def INT_MAX_def split: option.split)

lemma engine_prepare_laws: "prepare_laws engine_api"
  by (auto simp: prepare_laws_def engine_api_def e_prepare_def e_reset_def split: option.split if_splits)

lemma e_bind_bound: "e_bind e x i v = (0, e') \<Longrightarrow> e_bound e' x i = v"
  by (auto simp: e_bind_def e_bound_def split: option.splits if_splits)

lemma engine_bind_laws: "bind_laws engine_api e_bound"
  by (simp add: bind_laws_def engine_api_def e_bind_bound sql_real_def)

lemma engine_column_laws: "column_laws engine_api e_cell"
  by (simp add: column_laws_def engine_api_def)

lemma engine_execution_laws: "execution_laws engine_api e_live e_between e_ran"
  by (auto simp: execution_laws_def engine_api_def e_step_def e_reset_def e_live_def e_between_def split: if_splits)

section \<open>Properties\<close>

text \<open>
  Claim C26.  A query follows its protocol: an empty text is an illegal argument and leaves no statement; after a successful
  \<open>execute_query\<close> there is one unbound parameter for every place holder, found under its index counted from 1 and under no other,
  and no data; data can be read exactly after a \<open>getNext\<close> that returned true, and without a statement \<open>getNext\<close> is illegal use.
\<close>

theorem query_protocol:
  assumes "null_laws S" "prepare_laws S" "execute_query S d s q sql = (r, s1, q1)"
  shows "(sql = [] \<longrightarrow> r = Inl (Ldbc LdbcIllegalArgumentException) \<and> query_handle q1 = None) \<and> params_ok q1 \<and>
    (r = Inr SQLITE_OK \<longrightarrow> (\<forall>i. query_at q1 i =
       (if 1 \<le> i \<and> i \<le> bind_count S s1 q1 then Inr (Parameter_new S s1 (query_handle q1) i) else Inl (Ldbc LdbcIndexOutOfRange)))) \<and>
    (\<forall>c ty. getData S s1 q1 c ty = Inl (Ldbc IllegalUseException)) \<and>
    (\<forall>t r2 s2 q2. getNext S t q1 = (r2, s2, q2) \<longrightarrow>
       (query_handle q1 = None \<longrightarrow> r2 = Inl (Ldbc IllegalUseException)) \<and>
       (\<forall>c ty. getData S s2 q2 c ty =
          (if r2 = Inr True then get_value S s2 (the (query_handle q1)) c ty else Inl (Ldbc IllegalUseException))))"
proof (intro conjI allI impI)
  show "r = Inl (Ldbc LdbcIllegalArgumentException)" "query_handle q1 = None" if "sql = []"
    using assms(3) that query_finalize_q(1) [of S s q] by (auto simp: execute_query_def split: prod.splits)
  show "params_ok q1" by (rule params_ok_executed [OF assms])
  show "query_at q1 i = (if 1 \<le> i \<and> i \<le> bind_count S s1 q1 then Inr (Parameter_new S s1 (query_handle q1) i)
      else Inl (Ldbc LdbcIndexOutOfRange))" if "r = Inr SQLITE_OK" for i
    using execute_query_params(4) [OF assms(1,2)] assms(3) that by blast
  show "getData S s1 q1 c ty = Inl (Ldbc IllegalUseException)" for c ty
    by (rule getData_only_row [OF execute_query_state [OF assms(2,3)]])
next
  fix t r2 s2 q2 assume n: "getNext S t q1 = (r2, s2, q2)"
  note g = getNext_row [OF assms(1) n]
  show "r2 = Inl (Ldbc IllegalUseException)" if "query_handle q1 = None"
    using n that null_lawsD(1) [OF assms(1)] by (simp add: getNext_def assertErrorState_def)
  show "getData S s2 q2 c ty = (if r2 = Inr True then get_value S s2 (the (query_handle q1)) c ty else Inl (Ldbc IllegalUseException))"
    for c ty using g by (auto simp: getData_def split: option.split)
qed

definition sample_insert :: "engine \<times> query" where
  "sample_insert = snd (execute_query engine_api (Some 0) engine_empty Query_new ''INSERT ?'')"

definition sample_select :: "engine \<times> query" where
  "sample_select = snd (execute_query engine_api (Some 0) engine_empty Query_new ''SELECT ?'')"

lemma sample_executed:
  "execute_query engine_api (Some 0) engine_empty Query_new ''INSERT ?'' = (Inr SQLITE_OK, fst sample_insert, snd sample_insert)"
  "execute_query engine_api (Some 0) engine_empty Query_new ''SELECT ?'' = (Inr SQLITE_OK, fst sample_select, snd sample_select)"
  by (simp_all add: sample_insert_def sample_select_def prod_eq_iff) code_simp+

theorem query_protocol_witness:
  "bind_count engine_api (fst sample_select) (snd sample_select) = 1 \<and>
   query_at (snd sample_select) 1 = Inr (Parameter_new engine_api (fst sample_select) (Some 0) 1) \<and>
   query_at (snd sample_select) 2 = Inl (Ldbc LdbcIndexOutOfRange)"
proof -
  have "bind_count engine_api (fst sample_select) (snd sample_select) = 1" "query_handle (snd sample_select) = Some 0" by code_simp+
  then show ?thesis
    using query_protocol [OF engine_null_laws engine_prepare_laws sample_executed(2)] by auto
qed

text \<open>
  Claim C25.  What is bound to a parameter and comes back in a column is read as it was bound, for booleans, all integer widths,
  floating-point numbers other than a NaN and texts (an empty text is stored as null and read as empty).  A NaN is stored as null and read
  as zero, a date loses its microseconds, a blob has the length given with it, and
  characters and bytes are stored as numbers and read back as the first character of a text: of all of them only \<open>5\<close> survives.
\<close>

theorem value_round_trip:
  assumes "bind_laws S bound" "column_laws S cell" "text_fits v" "bind S s (Some x) p v = (Inr p', s')"
    "cell t y c = bound s' x (par_index p)" "query_handle q = Some y" "query_state q = SQLITE_ROW"
  shows "getData S t q c (type_of_value v) = Inr (read_back S v) \<and>
    (case v of
       CHAR_type k \<Rightarrow> read_back S v = v \<longleftrightarrow> k = CHR ''5''
     | BYTE_type b \<Rightarrow> read_back S v = v \<longleftrightarrow> b = 53
     | FLOAT_type f \<Rightarrow> read_back S v = (if double_is_nan S (float_to_double S f) then FLOAT_type (double_to_float S (double_zero S)) else v)
     | DOUBLE_type f \<Rightarrow> read_back S v = (if double_is_nan S f then DOUBLE_type (double_zero S) else v)
     | DATETIME_type d \<Rightarrow> read_back S v = DATETIME_type (d\<lparr>microsec := 0, weekday := WEEKDay (day_of d)\<rparr>)
     | BLOB_type b n \<Rightarrow> b \<noteq> None \<and> 0 < c_int n \<longrightarrow> read_back S v = BLOB_type (Some (take (nat (c_int n)) (the b))) (nat (c_int n))
     | _ \<Rightarrow> read_back S v = v)"
proof
  have "cell t y c = stored S v" using assms(5) bind_stored [OF assms(1,4,3)] by simp
  moreover have "valid_dt d" if "v = DATETIME_type d" for d
    using assms(4) that bind_datetime_stored(2) [OF assms(1)] by (simp add: bind_def)
  moreover have "c_int n \<le> int (length b)" if "v = BLOB_type (Some b) n" for b n using assms(4) unfolding that by (rule bind_blob_size)
  ultimately have "get_value S t y c (type_of_value v) = Inr (read_back S v)" by (rule get_value_stored [OF assms(2)])
  then show "getData S t q c (type_of_value v) = Inr (read_back S v)" using assms(6,7) by (simp add: getData_def)
qed (auto simp: char_own_code byte_own_code split: ldbc_value.split)

definition sample_bound :: "(int, int) ldbc_value \<Rightarrow> engine" where
  "sample_bound v = snd (bind engine_api (fst sample_select) (Some 0) (Parameter_new engine_api (fst sample_select) (Some 0) 1) v)"

theorem value_round_trip_witness:
  "getData engine_api (sample_bound (CHAR_type (CHR ''A''))) \<lparr>query_handle = Some 0, query_state = SQLITE_ROW, query_params = []\<rparr> 0 PT_CHAR
     = Inr (CHAR_type (CHR ''6'')) \<and>
   getData engine_api (sample_bound (ULONG_type 4000000000)) \<lparr>query_handle = Some 0, query_state = SQLITE_ROW, query_params = []\<rparr> 0 PT_ULONG
     = Inr (ULONG_type 4000000000) \<and>
   getData engine_api (sample_bound (DOUBLE_type 7)) \<lparr>query_handle = Some 0, query_state = SQLITE_ROW, query_params = []\<rparr> 0 PT_DOUBLE
     = Inr (DOUBLE_type 7) \<and>
   getData engine_api (sample_bound (DOUBLE_type (- 1))) \<lparr>query_handle = Some 0, query_state = SQLITE_ROW, query_params = []\<rparr> 0 PT_DOUBLE
     = Inr (DOUBLE_type 0)"
proof -
  let ?q = "\<lparr>query_handle = Some 0, query_state = SQLITE_ROW, query_params = []\<rparr>"
  let ?p = "Parameter_new engine_api (fst sample_select) (Some 0) 1"
  have r: "getData engine_api (sample_bound v) ?q 0 (type_of_value v) = Inr (read_back engine_api v)"
    if "fst (bind engine_api (fst sample_select) (Some 0) ?p v) = Inr p'" "text_fits v" for v p'
  proof -
    have b: "bind engine_api (fst sample_select) (Some 0) ?p v = (Inr p', sample_bound v)"
      using that(1) by (simp add: sample_bound_def prod_eq_iff)
    show ?thesis
      using value_round_trip [OF engine_bind_laws engine_column_laws that(2) b, of "sample_bound v" 0 0 ?q]
      by (simp add: e_cell_def)
  qed
  have "fst (bind engine_api (fst sample_select) (Some 0) ?p (CHAR_type (CHR ''A''))) = Inr (?p\<lparr>par_type := PT_CHAR\<rparr>)"
    "fst (bind engine_api (fst sample_select) (Some 0) ?p (ULONG_type 4000000000)) = Inr (?p\<lparr>par_type := PT_ULONG\<rparr>)"
    "fst (bind engine_api (fst sample_select) (Some 0) ?p (DOUBLE_type 7)) = Inr (?p\<lparr>par_type := PT_DOUBLE\<rparr>)"
    "fst (bind engine_api (fst sample_select) (Some 0) ?p (DOUBLE_type (- 1))) = Inr (?p\<lparr>par_type := PT_DOUBLE\<rparr>)"
    by code_simp+
  moreover have "read_back engine_api (CHAR_type (CHR ''A'')) = CHAR_type (CHR ''6'')" by code_simp
  moreover have "read_back engine_api (DOUBLE_type 7) = DOUBLE_type 7" "read_back engine_api (DOUBLE_type (- 1)) = DOUBLE_type 0" by code_simp+
  ultimately show ?thesis
    using r [of "CHAR_type (CHR ''A'')"] r [of "ULONG_type 4000000000"] r [of "DOUBLE_type 7"] r [of "DOUBLE_type (- 1)"] by simp
qed

text \<open>
  Claim C24.  Letting go of a query executes its statement: one that was never stepped is executed then and only then, and one
  that \<open>getNext\<close> has already run to its end is executed a second time.
\<close>

theorem finalize_executes_again:
  assumes "stmt_laws S live" "execution_laws S live between_rows executed" "prepare_laws S"
    "execute_query S d s q sql = (Inr SQLITE_OK, s1, q1)" "query_handle q1 \<noteq> None"
  shows "executed (fst (query_finalize S s1 q1)) = executed s1 + 1 \<and>
    (\<forall>s2 q2. getNext S s1 q1 = (Inr False, s2, q2) \<longrightarrow>
       executed s2 = executed s1 + 1 \<and> executed (fst (query_finalize S s2 q2)) = executed s1 + 2)"
proof -
  obtain x where x: "query_handle q1 = Some x" using assms(5) by blast
  note rd = executed_ready [OF assms(1-4) x]
  have "executed (fst (query_finalize S s1 q1)) = executed s1 + 1" using finalize_executes [OF assms(2) x rd(1)] rd(2) by simp
  moreover have "executed s2 = executed s1 + 1 \<and> executed (fst (query_finalize S s2 q2)) = executed s1 + 2"
    if "getNext S s1 q1 = (Inr False, s2, q2)" for s2 q2
  proof -
    note n = getNext_step [OF assms(1,2) x rd(1) that]
    show ?thesis using finalize_executes [OF assms(2) n(4,1)] n(2,3) rd(2) by simp
  qed
  ultimately show ?thesis by blast
qed

theorem finalize_executes_again_witness:
  "e_ran (fst sample_insert) = 0 \<and> e_ran (fst (query_finalize engine_api (fst sample_insert) (snd sample_insert))) = 1 \<and>
   (case getNext engine_api (fst sample_insert) (snd sample_insert) of
      (_, s2, q2) \<Rightarrow> e_ran (fst (query_finalize engine_api s2 q2)) = 2)"
proof -
  have h: "query_handle (snd sample_insert) \<noteq> None" "e_ran (fst sample_insert) = 0"
    "fst (getNext engine_api (fst sample_insert) (snd sample_insert)) = Inr False" by code_simp+
  then obtain s2 q2 where g: "getNext engine_api (fst sample_insert) (snd sample_insert) = (Inr False, s2, q2)" by (metis prod.exhaust_sel)
  then show ?thesis
    using finalize_executes_again [OF engine_stmt_laws engine_execution_laws engine_prepare_laws sample_executed(1) h(1)] h(2)
    by simp
qed

end
