(* ===== verification/LDBC_Connection.thy ===== *)
theory LDBC_Connection
  imports LDBC_SQLite DAF_Text
begin

text \<open>
  \<^verbatim>\<open>LDBC/SQLite/SQLiteConnection.cpp\<close>: a connection owns a database handle and a list of plain pointers to the queries
  made through it; a query removes itself from the list when it is destroyed, and closing the connection finalizes
  the statements of all queries on the list.  The state has the queries that exist, by number, and the state of
  the library.  Every acquisition of the connection's mutex succeeds or fails by an argument of the operation.
\<close>

section \<open>Model\<close>

record 's connection =
  con_sql :: 's
  con_handle :: "db option"
  con_name :: string
  con_list :: "nat list"
  con_queries :: "nat \<Rightarrow> query option"
  con_next :: nat

definition Connection_new :: "('s, 'f, 'g) sqlite3 \<Rightarrow> 's \<Rightarrow> ldbc_error + 's connection" where
  "Connection_new S s =
     (if sqlite3_threadsafe S
      then Inr \<lparr>con_sql = s, con_handle = None, con_name = [], con_list = [], con_queries = (\<lambda>_. None), con_next = 0\<rparr>
      else Inl (Ldbc InvalidConfiguration))"

definition connection_finalize :: "('s, 'f, 'g) sqlite3 \<Rightarrow> 's connection \<Rightarrow> 's connection" where
  "connection_finalize S c =
     (case con_handle c of
        Some d \<Rightarrow> c\<lparr>con_sql := sqlite3_close_v2 S (sqlite3_interrupt S (con_sql c) d) d, con_handle := None\<rparr>
      | None \<Rightarrow> c)"

definition con_open :: "('s, 'f, 'g) sqlite3 \<Rightarrow> 's connection \<Rightarrow> string \<Rightarrow> int \<Rightarrow> string option \<Rightarrow> int \<times> 's connection" where
  "con_open S c name flags vfs =
     (let c1 = connection_finalize S c;
          (retval, h, s) = sqlite3_open_v2 S (con_sql c1) (c_string name) flags vfs;
          c2 = c1\<lparr>con_sql := s, con_handle := h\<rparr>
      in if retval \<noteq> 0 then (retval, c2\<lparr>con_name := []\<rparr>) else (0, c2\<lparr>con_name := name\<rparr>))"

text \<open>
  The constructor that opens.  When it throws, only the base class is destroyed, whose \<open>_finalize\<close> forgets the handle; what
  is left is the state of the library.
\<close>

definition Connection_open ::
  "('s, 'f, 'g) sqlite3 \<Rightarrow> 's \<Rightarrow> string \<Rightarrow> int \<Rightarrow> string option \<Rightarrow> (ldbc_error \<times> 's) + 's connection" where
  "Connection_open S s name flags vfs =
     (case Connection_new S s of
        Inl e \<Rightarrow> Inl (e, s)
      | Inr c \<Rightarrow>
          let (rc, c1) = con_open S c name flags vfs in
          if rc \<noteq> 0 then Inl (Ldbc LdbcInitializationException, con_sql c1) else Inr c1)"

definition remove_query :: "bool \<Rightarrow> nat \<Rightarrow> 's connection \<Rightarrow> ldbc_error + int \<times> 's connection" where
  "remove_query lk i c =
     (if lk then Inr (if i \<in> set (con_list c) then (0, c\<lparr>con_list := remove1 i (con_list c)\<rparr>) else (-1, c))
      else Inl (Of_DAF ResourceExhaustionException))"

text \<open>\<open>~Query\<close>.\<close>

definition destroy_query :: "('s, 'f, 'g) sqlite3 \<Rightarrow> bool \<Rightarrow> nat \<Rightarrow> query \<Rightarrow> 's connection \<Rightarrow> ldbc_error + 's connection" where
  "destroy_query S lk i q c =
     (let (s, q') = query_finalize S (con_sql c) q in
      case remove_query lk i (c\<lparr>con_sql := s, con_queries := (con_queries c)(i := None)\<rparr>) of
        Inr (_, c') \<Rightarrow> Inr c' | Inl e \<Rightarrow> Inl Terminated)"

primrec close_loop :: "('s, 'f, 'g) sqlite3 \<Rightarrow> nat list \<Rightarrow> 's \<times> (nat \<Rightarrow> query option) \<Rightarrow> 's \<times> (nat \<Rightarrow> query option)" where
  "close_loop S [] st = st"
| "close_loop S (i # js) st =
     (case snd st i of
        Some q \<Rightarrow>
          close_loop S js
            (if query_handle q \<noteq> None
             then let (s, q') = query_finalize S (fst st) q in (s, (snd st)(i \<mapsto> q')) else st)
      | None \<Rightarrow> close_loop S js st)"

definition con_close :: "('s, 'f, 'g) sqlite3 \<Rightarrow> bool \<Rightarrow> 's connection \<Rightarrow> 's connection" where
  "con_close S lk c =
     (let c1 = (if con_list c \<noteq> [] \<and> lk
          then let (s, Q) = close_loop S (rev (con_list c)) (con_sql c, con_queries c)
               in c\<lparr>con_sql := s, con_queries := Q, con_list := []\<rparr>
          else c)
      in connection_finalize S c1)"

definition con_execute ::
  "('s, 'f, 'g) sqlite3 \<Rightarrow> bool \<Rightarrow> bool \<Rightarrow> 's connection \<Rightarrow> string \<Rightarrow> (ldbc_error + nat) \<times> 's connection" where
  "con_execute S lk lk' c sql =
     (let i = con_next c; c1 = c\<lparr>con_next := Suc i\<rparr> in
      if lk then
        let (r, s, q) = execute_query S (con_handle c) (con_sql c) Query_new (trim_string (CHR '' '') sql);
            c2 = c1\<lparr>con_sql := s, con_list := con_list c @ [i], con_queries := (con_queries c)(i \<mapsto> q)\<rparr>;
            fail = (\<lambda>e. case destroy_query S lk' i q c2 of Inr c3 \<Rightarrow> (Inl e, c3) | Inl e' \<Rightarrow> (Inl e', c2))
        in (case r of
              Inl e \<Rightarrow> fail e
            | Inr n \<Rightarrow> if n \<noteq> 0 then fail (Ldbc IllegalUseException) else (Inr i, c2))
      else (case destroy_query S lk' i Query_new c1 of
          Inr c2 \<Rightarrow> (Inl (Of_DAF ResourceExhaustionException), c2) | Inl e' \<Rightarrow> (Inl e', c1)))"

definition query_changes :: "('s, 'f, 'g) sqlite3 \<Rightarrow> 's connection \<Rightarrow> int" where
  "query_changes S c = ace_max 0 (sqlite3_changes S (con_sql c) (con_handle c))"

definition last_insert_id :: "('s, 'f, 'g) sqlite3 \<Rightarrow> 's connection \<Rightarrow> int" where
  "last_insert_id S c = sqlite3_last_insert_rowid S (con_sql c) (con_handle c)"

text \<open>What a client does, one call after the other.\<close>

datatype ('f, 'g) con_op =
    Con_execute bool bool string
  | Con_open string int "string option"
  | Con_close bool
  | Query_execute nat string
  | Query_next nat
  | Query_bind nat int "('f, 'g) ldbc_value"
  | Query_destroy nat bool

definition set_query :: "nat \<Rightarrow> 's \<Rightarrow> query \<Rightarrow> 's connection \<Rightarrow> 's connection" where
  "set_query i s q c = c\<lparr>con_sql := s, con_queries := (con_queries c)(i \<mapsto> q)\<rparr>"

fun con_step :: "('s, 'f, 'g) sqlite3 \<Rightarrow> 's connection \<Rightarrow> ('f, 'g) con_op \<Rightarrow> 's connection option" where
  "con_step S c (Con_execute lk lk' sql) =
     (case con_execute S lk lk' c sql of (r, c') \<Rightarrow> if r = Inl Terminated then None else Some c')"
| "con_step S c (Con_open name flags vfs) = Some (snd (con_open S c name flags vfs))"
| "con_step S c (Con_close lk) = Some (con_close S lk c)"
| "con_step S c (Query_execute i sql) =
     (case con_queries c i of
        None \<Rightarrow> None
      | Some q \<Rightarrow> (case execute_query S (con_handle c) (con_sql c) q sql of (r, s, q') \<Rightarrow> Some (set_query i s q' c)))"
| "con_step S c (Query_next i) =
     (case con_queries c i of
        None \<Rightarrow> None | Some q \<Rightarrow> (case getNext S (con_sql c) q of (r, s, q') \<Rightarrow> Some (set_query i s q' c)))"
| "con_step S c (Query_bind i k v) =
     (case con_queries c i of
        None \<Rightarrow> None | Some q \<Rightarrow> (case query_bind S (con_sql c) q k v of (r, s, q') \<Rightarrow> Some (set_query i s q' c)))"
| "con_step S c (Query_destroy i lk) =
     (case con_queries c i of
        None \<Rightarrow> None | Some q \<Rightarrow> (case destroy_query S lk i q c of Inr c' \<Rightarrow> Some c' | Inl e \<Rightarrow> None))"

section \<open>Exact statements\<close>

definition holds :: "(nat \<Rightarrow> query option) \<Rightarrow> nat \<Rightarrow> stmt \<Rightarrow> bool" where
  "holds Q i x \<longleftrightarrow> (\<exists>q. Q i = Some q \<and> query_handle q = Some x)"

text \<open>The statements of the library are those the queries hold, each held by one query.\<close>

definition stmts_exact :: "stmt set \<Rightarrow> (nat \<Rightarrow> query option) \<Rightarrow> bool" where
  "stmts_exact X Q \<longleftrightarrow> (\<forall>x. x \<in> X \<longleftrightarrow> (\<exists>i. holds Q i x)) \<and> (\<forall>x i j. holds Q i x \<and> holds Q j x \<longrightarrow> i = j)"

definition handle_set :: "query option \<Rightarrow> stmt set" where
  "handle_set p = (case p of None \<Rightarrow> {} | Some q \<Rightarrow> set_option (query_handle q))"

lemma holds_upd: "holds (Q(i := p)) j x \<longleftrightarrow> (if j = i then x \<in> handle_set p else holds Q j x)"
  by (auto simp: holds_def handle_set_def split: option.split)

lemma holds_handle_set: "holds Q i x \<longleftrightarrow> x \<in> handle_set (Q i)"
  by (auto simp: holds_def handle_set_def split: option.split)

lemma handle_set_simps [simp]: "handle_set None = {}" "handle_set (Some q) = set_option (query_handle q)"
  by (simp_all add: handle_set_def)

text \<open>One query changes its statement: the old one is gone, the new one is new.\<close>

lemma stmts_exact_upd:
  assumes "stmts_exact X Q" "Y = (X - handle_set (Q i)) \<union> handle_set p" "handle_set p \<inter> (X - handle_set (Q i)) = {}"
  shows "stmts_exact Y (Q(i := p))"
proof -
  have one: "holds Q j x \<Longrightarrow> x \<in> X" "holds Q j x \<Longrightarrow> holds Q k x \<Longrightarrow> j = k" for j k x
    using assms(1) by (auto simp: stmts_exact_def)
  have some: "x \<in> X \<Longrightarrow> \<exists>j. holds Q j x" for x using assms(1) by (auto simp: stmts_exact_def)
  have oth: "j \<noteq> i \<Longrightarrow> holds Q j x \<Longrightarrow> x \<in> X - handle_set (Q i)" for j x
    using one(1) [of j x] one(2) [of j x i] by (auto simp: holds_handle_set)
  have "x \<in> Y \<longleftrightarrow> (\<exists>j. holds (Q(i := p)) j x)" for x
  proof
    assume "x \<in> Y"
    then consider "x \<in> handle_set p" | "x \<in> X" "x \<notin> handle_set (Q i)" using assms(2) by blast
    then show "\<exists>j. holds (Q(i := p)) j x"
    proof cases
      case 1
      then show ?thesis by (intro exI [of _ i]) (simp add: holds_upd)
    next
      case 2
      then obtain j where "holds Q j x" "j \<noteq> i" using some [of x] by (auto simp: holds_handle_set)
      then show ?thesis by (intro exI [of _ j]) (simp add: holds_upd)
    qed
  next
    assume "\<exists>j. holds (Q(i := p)) j x"
    then show "x \<in> Y" using oth assms(2) by (auto simp: holds_upd split: if_splits)
  qed
  moreover have "j = k" if "holds (Q(i := p)) j x" "holds (Q(i := p)) k x" for j k x
    using that oth [of j x] oth [of k x] one(2) [of j x k] assms(3) by (auto simp: holds_upd split: if_splits)
  ultimately show ?thesis unfolding stmts_exact_def by blast
qed

text \<open>The effect of the operations of a query on the statements.\<close>

lemma finalize_live:
  assumes "stmt_laws S live"
  shows "live (fst (query_finalize S s q)) = live s - set_option (query_handle q)"
  using stmt_lawsD(3,5) [OF assms] by (cases "query_handle q") (auto simp: query_finalize_def Let_def)

lemma execute_live:
  assumes "stmt_laws S live" "execute_query S d s q sql = (r, s', q')"
  shows "live s' = (live s - set_option (query_handle q)) \<union> set_option (query_handle q')"
    "set_option (query_handle q') \<inter> (live s - set_option (query_handle q)) = {}"
proof -
  have "live s' = (live s - set_option (query_handle q)) \<union> set_option (query_handle q') \<and>
    set_option (query_handle q') \<inter> (live s - set_option (query_handle q)) = {}"
  proof (cases "sql = []")
    case True
    then show ?thesis using assms(2) finalize_live [OF assms(1), of s q] query_finalize_q(1) [of S s q]
      by (auto simp: execute_query_def split: prod.splits)
  next
    case False
    obtain s1 q1 rc h s2 rc' s3 where c: "query_finalize S s q = (s1, q1)" "sqlite3_prepare_v2 S s1 d (c_string sql) = (rc, h, s2)"
      "(rc', s3) = (if rc = SQLITE_OK then sqlite3_reset S s2 h else (rc, s2))"
      using execute_query_cases [of S s q d sql] by blast
    have s1: "live s1 = live s - set_option (query_handle q)" using finalize_live [OF assms(1), of s q] c(1) by simp
    have s3: "live s3 = live s2"
    proof (cases "rc = SQLITE_OK")
      case True
      then have "sqlite3_reset S s2 h = (rc', s3)" using c(3) by simp
      then show ?thesis using stmt_lawsD(4) [OF assms(1), of s2 h] by simp
    qed (use c(3) in simp)
    have e: "s' = s3" "query_handle q' = h" using assms(2) [unfolded execute_query_steps [OF False c]] by auto
    show ?thesis
    proof (cases h)
      case None
      then have "live s2 = live s1" using stmt_lawsD(1) [OF assms(1)] c(2) by blast
      then show ?thesis using None s1 s3 e by simp
    next
      case (Some x)
      then have "x \<notin> live s1 \<and> live s2 = insert x (live s1)" using stmt_lawsD(2) [OF assms(1)] c(2) by blast
      then show ?thesis using Some s1 s3 e by simp
    qed
  qed
  then show "live s' = (live s - set_option (query_handle q)) \<union> set_option (query_handle q')"
    "set_option (query_handle q') \<inter> (live s - set_option (query_handle q)) = {}" by blast+
qed

lemma getNext_live:
  assumes "stmt_laws S live" "getNext S s q = (r, s', q')"
  shows "live s' = live s" "query_handle q' = query_handle q" "query_params q' = query_params q"
  using assms(2) stmt_lawsD(5) [OF assms(1), of s "query_handle q"]
  by (auto simp: getNext_def assertErrorState_def Let_def split: prod.splits if_splits)

lemma bound_as_live: "snd (bound_as ty p r) = snd r"
  by (simp add: bound_as_def)

lemma bindNull_live: "stmt_laws S live \<Longrightarrow> live (snd (bindNull S s h p)) = live s"
  using stmt_laws_bind(1) [of S live s _ "par_index p"]
  by (cases h) (simp_all add: bindNull_def case_prod_beta Let_def)

lemma bind_live:
  assumes "stmt_laws S live"
  shows "live (snd (bind S s h p v)) = live s"
proof (cases h)
  case None
  then show ?thesis by (simp add: bind_def)
next
  case (Some x)
  note b = stmt_laws_bind [OF assms] bindNull_live [OF assms] bound_as_live
  have "live (snd (bind_datetime S s x p d)) = live s" for d
    by (auto simp: bind_datetime_def b split: outcome.split)
  moreover have "live (snd (bind_string S s x p t)) = live s" "live (snd (bind_blob S s x p u n)) = live s" for t u n
    by (auto simp: bind_string_def bind_blob_def b Let_def split: option.split)
  ultimately show ?thesis using Some by (cases v) (simp_all add: bind_def b)
qed

lemma query_bind_live:
  assumes "stmt_laws S live" "query_bind S s q i v = (r, s', q')"
  shows "live s' = live s" "query_handle q' = query_handle q"
proof -
  have "live s' = live s \<and> query_handle q' = query_handle q"
  proof (cases "query_at q i")
    case (Inl e)
    then show ?thesis using assms(2) by (simp add: query_bind_def)
  next
    case (Inr p)
    obtain b s1 where b: "bind S s (query_handle q) p v = (b, s1)" by fastforce
    then have "live s1 = live s" using bind_live [OF assms(1), of s "query_handle q" p v] by simp
    then show ?thesis using assms(2) Inr b by (cases b) (auto simp: query_bind_def)
  qed
  then show "live s' = live s" "query_handle q' = query_handle q" by simp_all
qed

section \<open>The invariant\<close>

definition con_ok :: "('s \<Rightarrow> stmt set) \<Rightarrow> 's connection \<Rightarrow> bool" where
  "con_ok live c \<longleftrightarrow> stmts_exact (live (con_sql c)) (con_queries c) \<and> distinct (con_list c) \<and>
     (\<forall>i \<in> set (con_list c). con_queries c i \<noteq> None) \<and> (\<forall>i \<ge> con_next c. con_queries c i = None) \<and>
     (\<forall>i q. con_queries c i = Some q \<longrightarrow> params_ok q)"

text \<open>Every query with a statement is on the list.\<close>

definition registered :: "'s connection \<Rightarrow> bool" where
  "registered c \<longleftrightarrow> (\<forall>i q. con_queries c i = Some q \<and> query_handle q \<noteq> None \<longrightarrow> i \<in> set (con_list c))"

lemma con_okD:
  assumes "con_ok live c"
  shows "stmts_exact (live (con_sql c)) (con_queries c)" "distinct (con_list c)" "i \<in> set (con_list c) \<Longrightarrow> con_queries c i \<noteq> None"
    "con_next c \<le> i \<Longrightarrow> con_queries c i = None" "con_queries c i = Some q \<Longrightarrow> params_ok q"
  using assms by (auto simp: con_ok_def)

lemma con_ok_set_query:
  assumes "con_ok live c" "con_queries c i \<noteq> None"
    "live s = (live (con_sql c) - handle_set (con_queries c i)) \<union> set_option (query_handle q)"
    "set_option (query_handle q) \<inter> (live (con_sql c) - handle_set (con_queries c i)) = {}" "params_ok q"
  shows "con_ok live (set_query i s q c)"
proof -
  have "stmts_exact (live s) ((con_queries c)(i \<mapsto> q))"
    using stmts_exact_upd [OF con_okD(1) [OF assms(1)], of "live s" i "Some q"] assms(3,4) by simp
  then show ?thesis using assms(1,2,5) by (auto simp: con_ok_def set_query_def)
qed

text \<open>The same statement, the same library: reading a row, binding a value.\<close>

lemma con_ok_same:
  assumes "con_ok live c" "con_queries c i = Some q" "live s = live (con_sql c)" "query_handle q' = query_handle q" "params_ok q'"
  shows "con_ok live (set_query i s q' c)"
proof (rule con_ok_set_query [OF assms(1)])
  have "set_option (query_handle q) \<subseteq> live (con_sql c)"
    using con_okD(1) [OF assms(1)] assms(2) by (cases "query_handle q") (auto simp: stmts_exact_def holds_def)
  then show "live s = (live (con_sql c) - handle_set (con_queries c i)) \<union> set_option (query_handle q')"
    using assms(2-4) by auto
qed (use assms in auto)

lemma params_ok_bind:
  assumes "params_ok q" "query_bind S s q i v = (r, s', q')"
  shows "params_ok q'"
proof -
  have idx: "par_index p' = par_index p" if "bind S s h p v = (Inr p', s1)" for p p' h s1
    using that by (cases v; cases h)
      (auto simp: bind_def bound_as_ok bind_datetime_def bind_string_def bind_blob_def bindNull_ok Let_def
        split: outcome.splits option.splits if_splits)
  show ?thesis
  proof (cases "query_at q i")
    case (Inl e)
    then show ?thesis using assms by (simp add: query_bind_def)
  next
    case (Inr p)
    have p: "query_params q ! nat (i - 1) = Some p" using Inr by (auto simp: query_at_def split: if_splits option.splits)
    obtain b s1 where b: "bind S s (query_handle q) p v = (b, s1)" by fastforce
    show ?thesis
    proof (cases b)
      case (Inl e)
      then show ?thesis using assms b \<open>query_at q i = Inr p\<close> by (simp add: query_bind_def)
    next
      case (Inr p')
      have "q' = q\<lparr>query_params := (query_params q)[nat (i - 1) := Some p']\<rparr>"
        using assms(2) b Inr \<open>query_at q i = Inr p\<close> by (simp add: query_bind_def)
      moreover have e: "par_index p' = par_index p" using idx b Inr by blast
      have "\<exists>r. (query_params q)[nat (i - 1) := Some p'] ! j = Some r \<and> par_index r = int j + 1" if j: "j < length (query_params q)" for j
      proof -
        obtain r where "query_params q ! j = Some r" "par_index r = int j + 1" using assms(1) j unfolding params_ok_def by blast
        then show ?thesis using p e j by (cases "j = nat (i - 1)") auto
      qed
      moreover have "query_handle q = None \<longrightarrow> query_params q = []" using assms(1) by (simp add: params_ok_def)
      ultimately show ?thesis by (simp add: params_ok_def)
    qed
  qed
qed

lemma con_ok_destroy:
  assumes "stmt_laws S live" "stmts_exact (live (con_sql c)) (con_queries c)" "distinct (con_list c)"
    "\<And>j. j \<in> set (con_list c) \<Longrightarrow> j \<noteq> i \<Longrightarrow> con_queries c j \<noteq> None" "\<And>j. con_next c \<le> j \<Longrightarrow> j \<noteq> i \<Longrightarrow> con_queries c j = None"
    "\<And>j q. con_queries c j = Some q \<Longrightarrow> j \<noteq> i \<Longrightarrow> params_ok q"
    "handle_set (con_queries c i) = set_option (query_handle q)" "destroy_query S lk i q c = Inr c'"
  shows "con_ok live c'"
proof -
  obtain s q' where f: "query_finalize S (con_sql c) q = (s, q')" by fastforce
  have s: "live s = live (con_sql c) - set_option (query_handle q)" using finalize_live [OF assms(1), of "con_sql c" q] f by simp
  have "stmts_exact (live s) ((con_queries c)(i := None))"
    using stmts_exact_upd [OF assms(2), of "live s" i None] s assms(7) by simp
  moreover have "con_sql c' = s" "con_queries c' = (con_queries c)(i := None)" "con_next c' = con_next c"
    "con_list c' = remove1 i (con_list c)"
    using assms(8) f by (auto simp: destroy_query_def remove_query_def remove1_idem split: if_splits)
  ultimately show ?thesis
    using assms(3-6) by (auto simp: con_ok_def)
qed

lemma registeredD: "registered c \<Longrightarrow> con_queries c i = Some q \<Longrightarrow> i \<notin> set (con_list c) \<Longrightarrow> query_handle q = None"
  unfolding registered_def by blast

text \<open>Closing.\<close>

lemma close_loop_ok:
  assumes "stmt_laws S live" "stmts_exact (live s) Q" "\<forall>i q. Q i = Some q \<longrightarrow> params_ok q" "close_loop S js (s, Q) = (s', Q')"
  shows "stmts_exact (live s') Q' \<and> (\<forall>i. (Q' i = None) = (Q i = None)) \<and> (\<forall>i q. Q' i = Some q \<longrightarrow> params_ok q) \<and>
    (\<forall>i q. Q' i = Some q \<longrightarrow> (if i \<in> set js then query_handle q = None else Q i = Some q))"
  using assms(2-4)
proof (induction js arbitrary: s Q)
  case Nil
  then show ?case by simp
next
  case (Cons i js)
  show ?case
  proof (cases "\<exists>q x. Q i = Some q \<and> query_handle q = Some x")
    case True
    then obtain q x where q: "Q i = Some q" "query_handle q = Some x" by blast
    let ?q = "q\<lparr>query_handle := None, query_params := []\<rparr>"
    obtain s1 where f: "query_finalize S s q = (s1, ?q)" using query_finalize_q(1) [of S s q] by (metis prod.collapse)
    have ex: "stmts_exact (live s1) (Q(i \<mapsto> ?q))"
      using stmts_exact_upd [OF Cons.prems(1), of "live s1" i "Some ?q"] finalize_live [OF assms(1), of s q] q f by simp
    have ps: "\<forall>j r. (Q(i \<mapsto> ?q)) j = Some r \<longrightarrow> params_ok r"
      using Cons.prems(2) by (auto simp: params_ok_def split: if_splits)
    have "close_loop S js (s1, Q(i \<mapsto> ?q)) = (s', Q')"
      using Cons.prems(3) q f by simp
    note ih = Cons.IH [OF ex ps this]
    have "if j \<in> set js then query_handle r = None else (Q(i \<mapsto> ?q)) j = Some r" if "Q' j = Some r" for j r
      using ih that by blast
    then have "if j \<in> set (i # js) then query_handle r = None else Q j = Some r" if "Q' j = Some r" for j r
      using that by (fastforce split: if_splits)
    moreover have "(Q' j = None) = ((Q(i \<mapsto> ?q)) j = None)" for j using ih by blast
    then have "(Q' j = None) = (Q j = None)" for j using q(1) by (cases "j = i") simp_all
    ultimately show ?thesis using ih by (intro conjI allI impI) simp_all
  next
    case False
    then have "close_loop S js (s, Q) = (s', Q')" using Cons.prems(3) by (auto split: option.splits)
    note ih = Cons.IH [OF Cons.prems(1,2) this]
    have l: "if j \<in> set js then query_handle r = None else Q j = Some r" if "Q' j = Some r" for j r
      using ih that by blast
    have nh: "query_handle r = None" if "Q i = Some r" for r using False that by (cases "query_handle r") auto
    have "if j \<in> set (i # js) then query_handle r = None else Q j = Some r" if "Q' j = Some r" for j r
      using l [OF that] nh [of r] by (cases "j = i"; cases "j \<in> set js") simp_all
    then show ?thesis using ih by (intro conjI allI impI) simp_all
  qed
qed

lemma con_finalize_ok:
  assumes "stmt_laws S live"
  shows "con_ok live (connection_finalize S c) = con_ok live c" "con_handle (connection_finalize S c) = None"
    "live (con_sql (connection_finalize S c)) = live (con_sql c)" "con_queries (connection_finalize S c) = con_queries c"
    "con_list (connection_finalize S c) = con_list c"
  using stmt_lawsD(7,8) [OF assms] by (auto simp: connection_finalize_def con_ok_def split: option.split)

lemma con_close_ok:
  assumes "stmt_laws S live" "con_ok live c"
  shows "con_ok live (con_close S lk c)"
    "lk \<Longrightarrow> registered c \<Longrightarrow> con_queries (con_close S lk c) i = Some q \<Longrightarrow> query_handle q = None"
    "registered c \<Longrightarrow> registered (con_close S lk c)"
    "con_handle (con_close S lk c) = None"
proof -
  obtain s Q where l: "close_loop S (rev (con_list c)) (con_sql c, con_queries c) = (s, Q)" by fastforce
  have po: "\<forall>i q. con_queries c i = Some q \<longrightarrow> params_ok q" using con_okD(5) [OF assms(2)] by blast
  note cl = close_loop_ok [OF assms(1) con_okD(1) [OF assms(2)] po l, unfolded set_rev]
  have cl: "stmts_exact (live s) Q" "\<And>i. (Q i = None) = (con_queries c i = None)" "\<And>i q. Q i = Some q \<Longrightarrow> params_ok q"
    "\<And>i q. Q i = Some q \<Longrightarrow> if i \<in> set (con_list c) then query_handle q = None else con_queries c i = Some q"
    using cl by blast+
  let ?c = "if con_list c \<noteq> [] \<and> lk then c\<lparr>con_sql := s, con_queries := Q, con_list := []\<rparr> else c"
  have e: "con_close S lk c = connection_finalize S ?c" using l by (simp add: con_close_def)
  have "con_ok live ?c" using assms(2) cl(1-3) by (auto simp: con_ok_def)
  then show "con_ok live (con_close S lk c)" by (simp only: e con_finalize_ok [OF assms(1)])
  show "con_handle (con_close S lk c) = None" by (simp only: e con_finalize_ok [OF assms(1)])
  have n: "query_handle q = None" if "registered c" "Q i = Some q" for i q
    using registeredD [OF that(1), of i q] cl(4) [OF that(2)] by (cases "i \<in> set (con_list c)") auto
  have f: "con_queries (con_close S lk c) = (if con_list c \<noteq> [] \<and> lk then Q else con_queries c)"
    "con_list (con_close S lk c) = (if con_list c \<noteq> [] \<and> lk then [] else con_list c)"
    by (simp_all add: e con_finalize_ok [OF assms(1)])
  show "query_handle q = None" if "lk" "registered c" "con_queries (con_close S lk c) i = Some q"
    using that(1,3) n [OF that(2), of i q] registeredD [OF that(2), of i q] unfolding f by (cases "con_list c = []") auto
  show "registered (con_close S lk c)" if r: "registered c"
    using r n [OF r] unfolding registered_def f by (cases "con_list c \<noteq> [] \<and> lk") auto
qed

text \<open>Executing through the connection.\<close>

lemma Query_new_handle [simp]: "query_handle Query_new = None"
  by (simp add: Query_new_def)

lemma con_execute_ok:
  assumes "stmt_laws S live" "null_laws S" "prepare_laws S" "con_ok live c" "con_execute S lk lk' c sql = (r, c')" "r \<noteq> Inl Terminated"
  shows "con_ok live c'"
proof (cases lk)
  case True
  obtain r0 s q where e: "execute_query S (con_handle c) (con_sql c) Query_new (trim_string (CHR '' '') sql) = (r0, s, q)"
    using prod_cases3 by blast
  let ?i = "con_next c"
  let ?c = "c\<lparr>con_next := Suc ?i, con_sql := s, con_list := con_list c @ [?i], con_queries := (con_queries c)(?i \<mapsto> q)\<rparr>"
  note el = execute_live [OF assms(1) e, simplified]
  have ni: "con_queries c ?i = None" using con_okD(4) [OF assms(4), of ?i] by simp
  have ex: "stmts_exact (live s) ((con_queries c)(?i \<mapsto> q))"
    using stmts_exact_upd [OF con_okD(1) [OF assms(4)], of "live s" ?i "Some q"] el ni by simp
  have po: "params_ok q" by (rule params_ok_executed [OF assms(2,3) e])
  have ok: "con_ok live ?c"
    using assms(4) ex po ni con_okD(3) [OF assms(4), of ?i] by (auto simp: con_ok_def Suc_le_eq)
  have d: "con_ok live c''" if "destroy_query S lk' ?i q ?c = Inr c''" for c''
    by (rule con_ok_destroy [OF assms(1) con_okD(1,2) [OF ok] _ _ _ _ that])
      (erule con_okD(3) [OF ok], erule con_okD(4) [OF ok], erule con_okD(5) [OF ok], simp)
  consider "c' = ?c" | "destroy_query S lk' ?i q ?c = Inr c'"
    using assms(5,6) True e by (auto simp: con_execute_def Let_def destroy_query_def split: sum.splits if_splits prod.splits)
  then show ?thesis using ok d by cases auto
next
  case False
  let ?i = "con_next c" and ?c = "c\<lparr>con_next := Suc (con_next c)\<rparr>"
  have "destroy_query S lk' ?i Query_new ?c = Inr c'"
    using assms(5,6) False by (auto simp: con_execute_def Let_def destroy_query_def split: sum.splits if_splits prod.splits)
  then show ?thesis
    by (rule con_ok_destroy [OF assms(1), rotated -1]) (use assms(4) con_okD(4) [OF assms(4), of ?i] in \<open>auto simp: con_ok_def\<close>)
qed

section \<open>Runs\<close>

abbreviation sqlite_laws :: "('s, 'f, 'g) sqlite3 \<Rightarrow> ('s \<Rightarrow> stmt set) \<Rightarrow> bool" where
  "sqlite_laws S live \<equiv> stmt_laws S live \<and> null_laws S \<and> prepare_laws S"

lemma con_open_ok:
  assumes "stmt_laws S live" "con_open S c name flags vfs = (r, c')"
  shows "con_ok live c' = con_ok live c" "con_queries c' = con_queries c" "con_list c' = con_list c" "live (con_sql c') = live (con_sql c)"
proof -
  let ?c = "connection_finalize S c"
  obtain rc h s where o: "sqlite3_open_v2 S (con_sql ?c) (c_string name) flags vfs = (rc, h, s)" using prod_cases3 by blast
  then have s: "live s = live (con_sql c)"
    using stmt_lawsD(6) [OF assms(1), of "con_sql ?c" "c_string name" flags vfs] con_finalize_ok(3) [OF assms(1), of c] by simp
  have c': "con_sql c' = s" "con_list c' = con_list ?c" "con_queries c' = con_queries ?c" "con_next c' = con_next ?c"
    using assms(2) o by (auto simp: con_open_def Let_def split: if_splits)
  moreover have "con_next ?c = con_next c" by (simp add: connection_finalize_def split: option.split)
  ultimately show "con_ok live c' = con_ok live c" "con_queries c' = con_queries c" "con_list c' = con_list c"
    "live (con_sql c') = live (con_sql c)"
    using s by (simp_all add: con_ok_def con_finalize_ok(4,5) [OF assms(1)])
qed

lemma con_step_ok:
  assumes "sqlite_laws S live" "con_ok live c" "con_step S c op = Some c'"
  shows "con_ok live c'"
proof -
  have l: "stmt_laws S live" "null_laws S" "prepare_laws S" using assms(1) by auto
  show ?thesis
  proof (cases op)
    case (Con_execute lk lk' sql)
    then show ?thesis using assms(3) con_execute_ok [OF l assms(2)] by (auto split: prod.splits if_splits)
  next
    case (Con_open name flags vfs)
    then show ?thesis
      using assms(2,3) con_open_ok(1) [OF l(1)] by (cases "con_open S c name flags vfs") auto
  next
    case (Con_close lk)
    then show ?thesis using assms(3) con_close_ok(1) [OF l(1) assms(2)] by auto
  next
    case (Query_execute i sql)
    then obtain q r s q' where q: "con_queries c i = Some q" "execute_query S (con_handle c) (con_sql c) q sql = (r, s, q')"
      "c' = set_query i s q' c" using assms(3) by (auto split: option.splits prod.splits)
    show ?thesis unfolding q(3)
      using execute_live [OF l(1) q(2)] params_ok_executed [OF l(2,3) q(2)] q(1) by (intro con_ok_set_query [OF assms(2)]) auto
  next
    case (Query_next i)
    then obtain q r s q' where q: "con_queries c i = Some q" "getNext S (con_sql c) q = (r, s, q')" "c' = set_query i s q' c"
      using assms(3) by (auto split: option.splits prod.splits)
    note g = getNext_live [OF l(1) q(2)]
    have "params_ok q'" using con_okD(5) [OF assms(2) q(1)] g(2,3) by (simp add: params_ok_def)
    then show ?thesis unfolding q(3) by (rule con_ok_same [OF assms(2) q(1) g(1,2)])
  next
    case (Query_bind i k v)
    then obtain q r s q' where q: "con_queries c i = Some q" "query_bind S (con_sql c) q k v = (r, s, q')" "c' = set_query i s q' c"
      using assms(3) by (auto split: option.splits prod.splits)
    show ?thesis unfolding q(3)
      by (rule con_ok_same [OF assms(2) q(1) query_bind_live [OF l(1) q(2)] params_ok_bind [OF con_okD(5) [OF assms(2) q(1)] q(2)]])
  next
    case (Query_destroy i lk)
    then obtain q where q: "con_queries c i = Some q" "destroy_query S lk i q c = Inr c'"
      using assms(3) by (auto split: option.splits sum.splits)
    show ?thesis
      by (rule con_ok_destroy [OF l(1) con_okD(1,2) [OF assms(2)] _ _ _ _ q(2)])
        (erule con_okD(3) [OF assms(2)], erule con_okD(4) [OF assms(2)], erule con_okD(5) [OF assms(2)], simp add: q(1))
  qed
qed

interpretation conn: event_invariant "con_step S" "\<lambda>c. sqlite_laws S live \<and> con_ok live c" for S live
  by unfold_locales (use con_step_ok in blast)

text \<open>Only executing a query that the connection no longer lists lets a statement escape the list.\<close>

definition lists :: "'s connection \<Rightarrow> ('f, 'g) con_op \<Rightarrow> bool" where
  "lists c op \<longleftrightarrow> (case op of Query_execute i sql \<Rightarrow> i \<in> set (con_list c) | _ \<Rightarrow> True)"

lemma registered_set_query:
  assumes "registered c" "con_queries c i = Some q" "query_handle q' = query_handle q \<or> i \<in> set (con_list c)"
  shows "registered (set_query i s q' c)"
  using assms unfolding registered_def set_query_def by auto

lemma registered_destroy:
  assumes "registered c" "destroy_query S lk i q c = Inr c'"
  shows "registered c'"
proof -
  have "con_list c' = remove1 i (con_list c)" "con_queries c' = (con_queries c)(i := None)"
    using assms(2) by (auto simp: destroy_query_def remove_query_def remove1_idem split: if_splits prod.splits)
  then show ?thesis using assms(1) unfolding registered_def by (auto simp: in_set_remove1)
qed

lemma registered_execute:
  assumes "registered c" "con_execute S lk lk' c sql = (r, c')" "r \<noteq> Inl Terminated"
  shows "registered c'"
proof (cases lk)
  case True
  obtain r0 s q where e: "execute_query S (con_handle c) (con_sql c) Query_new (trim_string (CHR '' '') sql) = (r0, s, q)"
    using prod_cases3 by blast
  let ?i = "con_next c"
  let ?c = "c\<lparr>con_next := Suc ?i, con_sql := s, con_list := con_list c @ [?i], con_queries := (con_queries c)(?i \<mapsto> q)\<rparr>"
  have ok: "registered ?c" using assms(1) unfolding registered_def by auto
  consider "c' = ?c" | "destroy_query S lk' ?i q ?c = Inr c'"
    using assms(2,3) True e by (auto simp: con_execute_def Let_def destroy_query_def split: sum.splits if_splits prod.splits)
  then show ?thesis using ok registered_destroy [OF ok] by cases auto
next
  case False
  have "registered (c\<lparr>con_next := Suc (con_next c)\<rparr>)" using assms(1) by (simp add: registered_def)
  moreover have "destroy_query S lk' (con_next c) Query_new (c\<lparr>con_next := Suc (con_next c)\<rparr>) = Inr c'"
    using assms(2,3) False by (auto simp: con_execute_def Let_def destroy_query_def split: sum.splits if_splits prod.splits)
  ultimately show ?thesis by (rule registered_destroy)
qed

lemma registered_step:
  assumes "sqlite_laws S live" "con_ok live c" "registered c" "lists c op" "con_step S c op = Some c'"
  shows "registered c'"
proof -
  have l: "stmt_laws S live" using assms(1) by auto
  show ?thesis
  proof (cases op)
    case (Con_execute lk lk' sql)
    then show ?thesis using assms(5) registered_execute [OF assms(3)] by (auto split: prod.splits if_splits)
  next
    case (Con_open name flags vfs)
    then show ?thesis
      using assms(3,5) con_open_ok(2,3) [OF l] by (cases "con_open S c name flags vfs") (auto simp: registered_def)
  next
    case (Con_close lk)
    then show ?thesis using assms(3,5) con_close_ok(3) [OF l assms(2)] by auto
  next
    case (Query_execute i sql)
    then show ?thesis using assms(4,5) registered_set_query [OF assms(3)] by (auto simp: lists_def split: option.splits prod.splits)
  next
    case (Query_next i)
    then show ?thesis using assms(5) registered_set_query [OF assms(3)] getNext_live(2) [OF l] by (auto split: option.splits prod.splits)
  next
    case (Query_bind i k v)
    then show ?thesis using assms(5) registered_set_query [OF assms(3)] query_bind_live(2) [OF l] by (auto split: option.splits prod.splits)
  next
    case (Query_destroy i lk)
    then show ?thesis using assms(5) registered_destroy [OF assms(3)] by (auto split: option.splits sum.splits)
  qed
qed

section \<open>Properties\<close>

lemma Connection_new_ok: "Connection_new S s = Inr c \<Longrightarrow> live s = {} \<Longrightarrow> con_ok live c \<and> registered c"
  by (auto simp: Connection_new_def con_ok_def registered_def stmts_exact_def holds_def split: if_splits)

lemma no_handle_illegal:
  assumes "null_laws S" "params_ok q" "query_handle q = None"
  shows "fst (getNext S s q) = Inl (Ldbc IllegalUseException)" "getData S s q c ty = Inl (Ldbc IllegalUseException)"
    "fst (query_bind S s q i v) = Inl (Ldbc LdbcIndexOutOfRange)"
proof -
  have "query_params q = []" using assms(2,3) by (simp add: params_ok_def)
  then have "query_at q i = Inl (Ldbc LdbcIndexOutOfRange)" by (auto simp: query_at_def c_int_def)
  then show "fst (query_bind S s q i v) = Inl (Ldbc LdbcIndexOutOfRange)" by (simp add: query_bind_def)
  show "fst (getNext S s q) = Inl (Ldbc IllegalUseException)" "getData S s q c ty = Inl (Ldbc IllegalUseException)"
    using assms(3) null_lawsD(1) [OF assms(1)] by (simp_all add: getNext_def assertErrorState_def getData_def)
qed

text \<open>
  Claim C23.  However a client uses a connection, the statements SQLite has open are exactly those held by existing
  queries, each by one (none leaks, none is used after it was finalized), and every pointer on the connection's list is to an
  existing query.  If every query with a statement is on the list, \<open>close\<close> finalizes them all and every query that is left
  refuses to be used; only the execution of a query that is no longer listed ends that state.
\<close>

theorem statements_exact:
  assumes "stmt_laws S live" "null_laws S" "prepare_laws S" "Connection_new S s0 = Inr c0" "live s0 = {}"
    "reachable (con_step S) c0 c"
  shows "stmts_exact (live (con_sql c)) (con_queries c) \<and> distinct (con_list c) \<and>
    (\<forall>i \<in> set (con_list c). con_queries c i \<noteq> None) \<and> registered c0 \<and>
    (\<forall>op c'. registered c \<and> lists c op \<and> con_step S c op = Some c' \<longrightarrow> registered c') \<and>
    (registered c \<longrightarrow> live (con_sql (con_close S True c)) = {} \<and> con_handle (con_close S True c) = None \<and>
      (\<forall>i q. con_queries (con_close S True c) i = Some q \<longrightarrow>
        (\<forall>s. fst (getNext S s q) = Inl (Ldbc IllegalUseException) \<and>
          (\<forall>k ty. getData S s q k ty = Inl (Ldbc IllegalUseException)) \<and>
          (\<forall>k v. fst (query_bind S s q k v) = Inl (Ldbc LdbcIndexOutOfRange)))))"
proof -
  have l: "sqlite_laws S live" using assms(1-3) by simp
  have c0: "con_ok live c0" "registered c0" using Connection_new_ok [OF assms(4), of live] assms(5) by auto
  then have ok: "con_ok live c" using conn.reachable_inv [of S live c0 c] l assms(6) by blast
  let ?c = "con_close S True c"
  have cl: "con_ok live ?c" "con_handle ?c = None" using con_close_ok(1,4) [OF assms(1) ok] by auto
  have nh: "query_handle q = None" if "registered c" "con_queries ?c i = Some q" for i q
    using con_close_ok(2) [OF assms(1) ok _ that] by simp
  have em: "live (con_sql ?c) = {}" if "registered c"
    using con_okD(1) [OF cl(1)] nh [OF that] by (fastforce simp: stmts_exact_def holds_def)
  have il: "fst (getNext S s q) = Inl (Ldbc IllegalUseException) \<and> (\<forall>k ty. getData S s q k ty = Inl (Ldbc IllegalUseException)) \<and>
      (\<forall>k v. fst (query_bind S s q k v) = Inl (Ldbc LdbcIndexOutOfRange))" if "registered c" "con_queries ?c i = Some q" for i q s
    using no_handle_illegal [OF assms(2) con_okD(5) [OF cl(1) that(2)] nh [OF that]] by blast
  have "registered c'" if "registered c" "lists c op" "con_step S c op = Some c'" for op c'
    using registered_step [OF l ok that] .
  then show ?thesis using con_okD(1-3) [OF ok] c0(2) cl(2) em il by (intro conjI allI impI ballI) blast+
qed

definition sample_run :: "(int, int) con_op list" where
  "sample_run = [Con_open ''a.db'' 6 None, Con_execute True True '' SELECT ? '', Query_bind 0 1 (LONG_type 7), Query_next 0,
     Con_execute True True ''INSERT'', Query_destroy 1 True, Con_execute True True ''DROP'']"

definition sample_con :: "engine connection" where
  "sample_con = \<lparr>con_sql = engine_empty, con_handle = None, con_name = [], con_list = [], con_queries = (\<lambda>_. None), con_next = 0\<rparr>"

definition sample_end :: "engine connection" where
  "sample_end = the (run (con_step engine_api) sample_con sample_run)"

theorem statements_exact_witness:
  "con_list sample_end = [0] \<and> e_ran (con_sql sample_end) = 2 \<and> e_stmts (con_sql sample_end) 0 \<noteq> None \<and>
   stmts_exact (e_live (con_sql sample_end)) (con_queries sample_end)"
proof -
  have n: "Connection_new engine_api engine_empty = Inr sample_con" by (simp add: Connection_new_def sample_con_def engine_api_def)
  have e: "e_live engine_empty = {}" by (simp add: e_live_def engine_empty_def)
  have "run (con_step engine_api) sample_con sample_run \<noteq> None" by code_simp
  then have r: "reachable (con_step engine_api) sample_con sample_end" unfolding sample_end_def by (rule reachable_run)
  have "con_list sample_end = [0]" "e_ran (con_sql sample_end) = 2" "e_stmts (con_sql sample_end) 0 \<noteq> None" by code_simp+
  then show ?thesis
    using conjunct1 [OF statements_exact [OF engine_stmt_laws engine_null_laws engine_prepare_laws n e r]] by blast
qed

text \<open>
  A query that outlives \<open>close\<close> can be executed again once the connection is open again; it is not on the list then, and
  the next \<open>close\<close> leaves its statement open.
\<close>

lemma reexecuted_query_escapes:
  "(case run (con_step engine_api) sample_con
       [Con_open ''a.db'' 6 None, Con_execute True True ''SELECT'', Con_close True, Con_open ''a.db'' 6 None,
        Query_execute 0 ''SELECT'', Con_close True :: (int, int) con_op] of
      Some c \<Rightarrow> con_handle c = None \<and> e_stmts (con_sql c) 1 \<noteq> None | None \<Rightarrow> False)"
  by code_simp

text \<open>
  A constructor that cannot open its database throws and leaves the handle that SQLite made for it open, whereas \<open>open\<close>
  keeps the handle for \<open>close\<close>.
\<close>

lemma failed_constructor_leaks:
  assumes "sqlite3_threadsafe S" "sqlite3_open_v2 S s (c_string name) flags vfs = (rc, Some d, s')" "rc \<noteq> 0"
  shows "Connection_open S s name flags vfs = Inl (Ldbc LdbcInitializationException, s')"
    "Connection_new S s = Inr c \<Longrightarrow> con_handle (snd (con_open S c name flags vfs)) = Some d"
  using assms by (auto simp: Connection_open_def Connection_new_def con_open_def connection_finalize_def Let_def)

end
