(* ===== verification/IOR_Binder.thy ===== *)
theory IOR_Binder
  imports Naming
begin

text \<open>
  How a TAF object is made known and found: \<^verbatim>\<open>TAF/taf/IORQueryServant.cpp\<close> and \<^verbatim>\<open>IORQueryRepository.cpp\<close> (the list of
  objects that answer queries), \<^verbatim>\<open>IORBinder.cpp\<close> (the ways to publish a reference, and their sequence),
  \<^verbatim>\<open>CORBAInterfaceHandler_T.cpp\<close> (a servant that is activated and published) and the file names of
  \<^verbatim>\<open>IORResolver_T.cpp\<close>.

  The object request broker is a parameter: the record \<open>orb\<close> of the calls the code makes, over a state \<open>'s\<close>; a call that
  throws gives \<open>None\<close>.  The naming service is the parameter of \<open>Naming\<close>.  A nil reference is \<open>None\<close>.
\<close>

section \<open>The query repository\<close>

text \<open>An \<open>IORQueryServant\<close>: an object and the name it is registered under.\<close>

record 'o servant =
  sv_obj :: "'o option"
  sv_ident :: string

type_synonym 'o repository = "'o servant list"

text \<open>The loop over the list: the first entry of the name gets the new object.\<close>

fun replace_servant :: "'o option \<Rightarrow> string \<Rightarrow> 'o repository \<Rightarrow> 'o repository option" where
  "replace_servant p ident [] = None"
| "replace_servant p ident (it # its) =
     (if ident = sv_ident it then Some (it\<lparr>sv_obj := p\<rparr> # its)
      else map_option ((#) it) (replace_servant p ident its))"

definition registerQueryService :: "'o repository \<Rightarrow> 'o option \<Rightarrow> string \<Rightarrow> int \<times> 'o repository" where
  "registerQueryService R p name =
     (let ident = trim_string (CHR '' '') name in
      if p \<noteq> None \<and> ident \<noteq> [] then
        (case replace_servant p ident R of
           Some R' \<Rightarrow> (0, R') | None \<Rightarrow> (0, R @ [\<lparr>sv_obj = p, sv_ident = ident\<rparr>]))
      else (-1, R))"

fun erase_servant :: "string \<Rightarrow> 'o repository \<Rightarrow> 'o repository option" where
  "erase_servant ident [] = None"
| "erase_servant ident (it # its) =
     (if ident = sv_ident it then Some its else map_option ((#) it) (erase_servant ident its))"

definition unregisterQueryService :: "'o repository \<Rightarrow> string \<Rightarrow> int \<times> 'o repository" where
  "unregisterQueryService R name =
     (let ident = trim_string (CHR '' '') name in
      if ident \<noteq> [] then (case erase_servant ident R of Some R' \<Rightarrow> (0, R') | None \<Rightarrow> (-1, R)) else (-1, R))"

text \<open>\<open>is_ident\<close>: nil throws \<open>INV_OBJREF\<close>, and asking the object for its type may throw.\<close>

definition is_ident :: "('o \<Rightarrow> string \<Rightarrow> cos_error + bool) \<Rightarrow> 'o servant \<Rightarrow> string \<Rightarrow> cos_error + bool" where
  "is_ident is_a sv ident =
     (if ident \<noteq> [] then
        (case sv_obj sv of
           None \<Rightarrow> Inl INV_OBJREF
         | Some p \<Rightarrow> if ident = sv_ident sv then Inr True else is_a p ident)
      else Inr False)"

section \<open>Ways to publish\<close>

record ('s, 'o) orb =
  orb_to_string :: "'s \<Rightarrow> 'o option \<Rightarrow> string option"
  table_rebind :: "'s \<Rightarrow> string \<Rightarrow> string \<Rightarrow> 's option"
  table_unbind :: "'s \<Rightarrow> string \<Rightarrow> 's option"
  init_register :: "'s \<Rightarrow> string \<Rightarrow> 'o option \<Rightarrow> 's option"
  init_unregister :: "'s \<Rightarrow> string \<Rightarrow> 's option"

record ('s, 'n, 'o) world =
  w_orb :: 's
  w_naming :: 'n
  w_repo :: "'o repository"
  w_files :: "string \<Rightarrow> string option"

text \<open>The classes derived from \<open>IORBinder\<close>; that for files has its directory and the file it wrote.\<close>

datatype 'c ior_binding =
    RegisterIORTableBinder
  | RegisterInitReferenceBinder
  | RegisterIORQueryBinder
  | NamingServiceBinder 'c
  | IORFileBinder string string

text \<open>
  The constructor of \<open>IORFileBinder\<close> on its formatted argument: the loop runs once and removes one trailing delimiter.
\<close>

definition bind_directory :: "string \<Rightarrow> string" where
  "bind_directory dir =
     (if dir \<noteq> [] then
        (if last dir = CHR 0x5C \<or> last dir = slash then butlast dir else dir) @ [slash]
      else [])"

definition file_name :: "string \<Rightarrow> string" where
  "file_name name = (case find_from (CHR ''.'') name 0 of Some pos \<Rightarrow> if pos > 0 then name else name @ ''.ior'' | None \<Rightarrow> name @ ''.ior'')"

fun make_bind_name :: "'c ior_binding \<Rightarrow> string \<Rightarrow> string" where
  "make_bind_name (IORFileBinder d f) name = file_name name"
| "make_bind_name b name = name"

text \<open>A name with a space is put into quotes, which become part of the name of the file.\<close>

definition quoted_name :: "string \<Rightarrow> string" where
  "quoted_name filename =
     (case find_from (CHR '' '') filename 0 of
        Some pos \<Rightarrow> if pos > 0 then [CHR 0x27] @ filename @ [CHR 0x27] else filename
      | None \<Rightarrow> filename)"

text \<open>The result of a virtual \<open>init_bind\<close> or \<open>fini_bind\<close>: a number, or \<open>None\<close> for an exception.\<close>

definition file_init ::
  "('s, 'o) orb \<Rightarrow> (string \<Rightarrow> bool) \<Rightarrow> string \<Rightarrow> string \<Rightarrow> string \<Rightarrow> 'o option \<Rightarrow> ('s, 'n, 'o) world \<Rightarrow>
     int option \<times> 'c ior_binding \<times> ('s, 'n, 'o) world" where
  "file_init B writable d f name p w =
     (if p \<noteq> None \<and> name \<noteq> [] then
        let filename = trim_string (CHR '' '') (d @ name) in
        if filename \<noteq> [] then
          let q = quoted_name filename in
          if writable q then
            (case orb_to_string B (w_orb w) p of
               Some t \<Rightarrow> (Some 0, IORFileBinder d q, w\<lparr>w_files := (w_files w)(q \<mapsto> t)\<rparr>)
             | None \<Rightarrow> (Some (-1), IORFileBinder d q, w\<lparr>w_files := (w_files w)(q \<mapsto> [])\<rparr>))
          else (Some (-1), IORFileBinder d f, w)
        else (Some (-1), IORFileBinder d f, w)
      else (Some (-1), IORFileBinder d f, w))"

definition naming_init ::
  "('n, 'c, 'o) cos \<Rightarrow> 'c \<Rightarrow> string \<Rightarrow> 'o option \<Rightarrow> ('s, 'n, 'o) world \<Rightarrow> int option \<times> ('s, 'n, 'o) world" where
  "naming_init N c name p w =
     (case p of
        None \<Rightarrow> (Some (-1), w)
      | Some x \<Rightarrow>
          (case bind_name N (w_naming w) (Some c) name (Some (Obj x)) of
             (n, Inl e) \<Rightarrow> (None, w\<lparr>w_naming := n\<rparr>)
           | (n, Inr _) \<Rightarrow> (Some 0, w\<lparr>w_naming := n\<rparr>)))"

fun init_bind ::
  "('s, 'o) orb \<Rightarrow> ('n, 'c, 'o) cos \<Rightarrow> (string \<Rightarrow> bool) \<Rightarrow> 'c ior_binding \<Rightarrow> string \<Rightarrow> 'o option \<Rightarrow> ('s, 'n, 'o) world \<Rightarrow>
     int option \<times> 'c ior_binding \<times> ('s, 'n, 'o) world" where
  "init_bind B N writable RegisterIORTableBinder name p w =
     (case orb_to_string B (w_orb w) p of
        None \<Rightarrow> (None, RegisterIORTableBinder, w)
      | Some t \<Rightarrow>
          (case table_rebind B (w_orb w) name t of
             None \<Rightarrow> (None, RegisterIORTableBinder, w)
           | Some s \<Rightarrow> (Some 0, RegisterIORTableBinder, w\<lparr>w_orb := s\<rparr>)))"
| "init_bind B N writable RegisterInitReferenceBinder name p w =
     (case init_register B (w_orb w) name p of
        None \<Rightarrow> (None, RegisterInitReferenceBinder, w)
      | Some s \<Rightarrow> (Some 0, RegisterInitReferenceBinder, w\<lparr>w_orb := s\<rparr>))"
| "init_bind B N writable RegisterIORQueryBinder name p w =
     (Some 0, RegisterIORQueryBinder, w\<lparr>w_repo := snd (registerQueryService (w_repo w) p name)\<rparr>)"
| "init_bind B N writable (NamingServiceBinder c) name p w =
     (let (r, w') = naming_init N c name p w in (r, NamingServiceBinder c, w'))"
| "init_bind B N writable (IORFileBinder d f) name p w = file_init B writable d f name p w"

definition naming_fini ::
  "('n, 'c, 'o) cos \<Rightarrow> 'c \<Rightarrow> string \<Rightarrow> ('s, 'n, 'o) world \<Rightarrow> int option \<times> ('s, 'n, 'o) world" where
  "naming_fini N c name w =
     (case unbind_name N (w_naming w) c name of Inl e \<Rightarrow> (None, w) | Inr n \<Rightarrow> (Some 0, w\<lparr>w_naming := n\<rparr>))"

fun fini_bind ::
  "('s, 'o) orb \<Rightarrow> ('n, 'c, 'o) cos \<Rightarrow> 'c ior_binding \<Rightarrow> string \<Rightarrow> ('s, 'n, 'o) world \<Rightarrow> int option \<times> ('s, 'n, 'o) world" where
  "fini_bind B N RegisterIORTableBinder name w =
     (case table_unbind B (w_orb w) name of None \<Rightarrow> (None, w) | Some s \<Rightarrow> (Some 0, w\<lparr>w_orb := s\<rparr>))"
| "fini_bind B N RegisterInitReferenceBinder name w =
     (case init_unregister B (w_orb w) name of None \<Rightarrow> (None, w) | Some s \<Rightarrow> (Some 0, w\<lparr>w_orb := s\<rparr>))"
| "fini_bind B N RegisterIORQueryBinder name w =
     (Some 0, w\<lparr>w_repo := snd (unregisterQueryService (w_repo w) name)\<rparr>)"
| "fini_bind B N (NamingServiceBinder c) name w = naming_fini N c name w"
| "fini_bind B N (IORFileBinder d f) name w =
     (if f \<noteq> [] then
        (case w_files w f of Some t \<Rightarrow> (Some 0, w\<lparr>w_files := (w_files w)(f := None)\<rparr>) | None \<Rightarrow> (Some (-1), w))
      else (Some 0, w))"

section \<open>Sequences\<close>

record 'c ior_sequence =
  bs_list :: "'c ior_binding option list"
  bs_name :: string

definition add_binding :: "'c ior_binding option \<Rightarrow> 'c ior_sequence \<Rightarrow> 'c ior_sequence" where
  "add_binding b q = (if b \<noteq> None then q\<lparr>bs_list := bs_list q @ [b]\<rparr> else q)"

definition DEFAULT_IOR_BINDER :: "'c ior_sequence" where
  "DEFAULT_IOR_BINDER =
     add_binding (Some RegisterIORQueryBinder)
       (add_binding (Some RegisterInitReferenceBinder) (add_binding (Some RegisterIORTableBinder) \<lparr>bs_list = [], bs_name = []\<rparr>))"

text \<open>The loop of \<open>init_bind\<close>: the number of errors, those that are kept, and the world.\<close>

fun init_loop ::
  "('s, 'o) orb \<Rightarrow> ('n, 'c, 'o) cos \<Rightarrow> (string \<Rightarrow> bool) \<Rightarrow> string \<Rightarrow> 'o option \<Rightarrow> 'c ior_binding option list \<Rightarrow> ('s, 'n, 'o) world \<Rightarrow>
     int \<times> 'c ior_binding option list \<times> ('s, 'n, 'o) world" where
  "init_loop B N writable name p [] w = (0, [], w)"
| "init_loop B N writable name p (None # bs) w = init_loop B N writable name p bs w"
| "init_loop B N writable name p (Some b # bs) w =
     (let (r, b', w') = init_bind B N writable b (make_bind_name b name) p w in
      if r = Some 0 then
        let (errors, kept, w'') = init_loop B N writable name p bs w' in (errors, Some b' # kept, w'')
      else
        let (errors, kept, w'') = init_loop B N writable name p bs w' in (errors + 1, kept, w''))"

definition seq_init_bind ::
  "('s, 'o) orb \<Rightarrow> ('n, 'c, 'o) cos \<Rightarrow> (string \<Rightarrow> bool) \<Rightarrow> string \<Rightarrow> 'o option \<Rightarrow> 'c ior_sequence \<Rightarrow> ('s, 'n, 'o) world \<Rightarrow>
     int \<times> 'c ior_sequence \<times> ('s, 'n, 'o) world" where
  "seq_init_bind B N writable name p q w =
     (let n = trim_string (CHR '' '') name; (errors, kept, w') = init_loop B N writable n p (bs_list q) w
      in (errors, \<lparr>bs_list = kept, bs_name = n\<rparr>, w'))"

text \<open>The loop of \<open>fini_bind\<close> on the reversed list; a null reference makes the call throw, which is an error like any other.\<close>

fun fini_loop ::
  "('s, 'o) orb \<Rightarrow> ('n, 'c, 'o) cos \<Rightarrow> string \<Rightarrow> 'c ior_binding option list \<Rightarrow> ('s, 'n, 'o) world \<Rightarrow> int \<times> ('s, 'n, 'o) world" where
  "fini_loop B N name [] w = (0, w)"
| "fini_loop B N name (b # bs) w =
     (let (r, w') = (case b of Some x \<Rightarrow> fini_bind B N x (make_bind_name x name) w | None \<Rightarrow> (None, w));
          (errors, w'') = fini_loop B N name bs w'
      in (if r = Some 0 then errors else errors + 1, w''))"

definition seq_fini_bind ::
  "('s, 'o) orb \<Rightarrow> ('n, 'c, 'o) cos \<Rightarrow> 'c ior_sequence \<Rightarrow> ('s, 'n, 'o) world \<Rightarrow> int \<times> ('s, 'n, 'o) world" where
  "seq_fini_bind B N q w = fini_loop B N (bs_name q) (rev (bs_list q)) w"

section \<open>Servants\<close>

text \<open>\<open>CORBAInterfaceHandler_T\<close>; activating and deactivating are calls of the broker, which may throw.\<close>

record ('c, 'o) handler =
  ior_bindings :: "'c ior_sequence"
  stub_reference :: "'o option"
  stub_activated :: bool

definition handler_init ::
  "('s, 'o) orb \<Rightarrow> ('n, 'c, 'o) cos \<Rightarrow> (string \<Rightarrow> bool) \<Rightarrow> ('s \<Rightarrow> ('o option \<times> 's) option) \<Rightarrow> string \<Rightarrow> ('c, 'o) handler \<Rightarrow>
     ('s, 'n, 'o) world \<Rightarrow> int \<times> ('c, 'o) handler \<times> ('s, 'n, 'o) world" where
  "handler_init B N writable activate name h w =
     (if \<not> stub_activated h then
        (case activate (w_orb w) of
           None \<Rightarrow> (-1, h, w)
         | Some (None, s) \<Rightarrow> (-1, h\<lparr>stub_reference := None\<rparr>, w\<lparr>w_orb := s\<rparr>)
         | Some (Some p, s) \<Rightarrow>
             let (errors, q, w') = seq_init_bind B N writable name (Some p) (ior_bindings h) (w\<lparr>w_orb := s\<rparr>)
             in (errors, \<lparr>ior_bindings = q, stub_reference = Some p, stub_activated = True\<rparr>, w'))
      else (-1, h, w))"

definition handler_fini ::
  "('s, 'o) orb \<Rightarrow> ('n, 'c, 'o) cos \<Rightarrow> ('s \<Rightarrow> 's option) \<Rightarrow> ('c, 'o) handler \<Rightarrow> ('s, 'n, 'o) world \<Rightarrow>
     int \<times> ('c, 'o) handler \<times> ('s, 'n, 'o) world" where
  "handler_fini B N deactivate h w =
     (if stub_activated h then
        let (rtn, w') = seq_fini_bind B N (ior_bindings h) w
        in (rtn, h\<lparr>stub_activated := False\<rparr>, (case deactivate (w_orb w') of Some s \<Rightarrow> w'\<lparr>w_orb := s\<rparr> | None \<Rightarrow> w'))
      else (-1, h, w))"

section \<open>The repository is a table\<close>

definition registered_as :: "'o repository \<Rightarrow> string \<Rightarrow> 'o option" where
  "registered_as R n = (case map_of (map (\<lambda>sv. (sv_ident sv, sv_obj sv)) R) n of Some p \<Rightarrow> p | None \<Rightarrow> None)"

definition repo_ok :: "'o repository \<Rightarrow> bool" where
  "repo_ok R \<longleftrightarrow> distinct (map sv_ident R) \<and> (\<forall>sv \<in> set R. sv_obj sv \<noteq> None)"

lemma registered_as_simps [simp]:
  "registered_as [] n = None"
  "registered_as (sv # R) n = (if n = sv_ident sv then sv_obj sv else registered_as R n)"
  by (simp_all add: registered_as_def)

lemma replace_servant_None: "replace_servant p n R = None \<longleftrightarrow> n \<notin> sv_ident ` set R"
  by (induction R) auto

lemma replace_servant_Some:
  "replace_servant p n R = Some R' \<Longrightarrow> map sv_ident R' = map sv_ident R \<and>
     (\<forall>m. registered_as R' m = (if m = n then p else registered_as R m)) \<and> (\<forall>sv \<in> set R'. sv_obj sv = p \<or> sv \<in> set R)"
proof (induction R arbitrary: R')
  case (Cons it its)
  show ?case
  proof (cases "n = sv_ident it")
    case False
    then obtain S where "replace_servant p n its = Some S" "R' = it # S" using Cons.prems by auto
    then show ?thesis using Cons.IH False by auto
  qed (use Cons.prems in auto)
qed simp

lemma registered_append: "n \<notin> sv_ident ` set R \<Longrightarrow> registered_as (R @ [sv]) m = (if m = sv_ident sv \<and> m = n then sv_obj sv
    else if m \<in> sv_ident ` set R then registered_as R m else if m = sv_ident sv then sv_obj sv else None)"
  by (induction R) auto

lemma registered_none: "m \<notin> sv_ident ` set R \<Longrightarrow> registered_as R m = None"
  by (induction R) auto

lemma register_ok:
  assumes "repo_ok R" "p \<noteq> None" "trim_string (CHR '' '') name \<noteq> []"
  shows "fst (registerQueryService R p name) = 0" "repo_ok (snd (registerQueryService R p name))"
    "registered_as (snd (registerQueryService R p name)) m = (if m = trim_string (CHR '' '') name then p else registered_as R m)"
proof -
  let ?n = "trim_string (CHR '' '') name"
  have "fst (registerQueryService R p name) = 0 \<and> repo_ok (snd (registerQueryService R p name)) \<and>
    registered_as (snd (registerQueryService R p name)) m = (if m = ?n then p else registered_as R m)"
  proof (cases "replace_servant p ?n R")
    case None
    then have n: "?n \<notin> sv_ident ` set R" by (simp add: replace_servant_None)
    then show ?thesis using assms None registered_append [OF n, of "\<lparr>sv_obj = p, sv_ident = ?n\<rparr>" m] registered_none [of m R]
      by (auto simp: registerQueryService_def repo_ok_def)
  next
    case (Some R')
    note r = replace_servant_Some [OF Some]
    have "repo_ok R'" using assms(1,2) r by (auto simp: repo_ok_def)
    then show ?thesis using assms Some r by (auto simp: registerQueryService_def)
  qed
  then show "fst (registerQueryService R p name) = 0" "repo_ok (snd (registerQueryService R p name))"
    "registered_as (snd (registerQueryService R p name)) m = (if m = ?n then p else registered_as R m)" by auto
qed

lemma erase_servant_eq:
  "distinct (map sv_ident R) \<Longrightarrow> erase_servant n R = (if n \<in> sv_ident ` set R then Some (filter (\<lambda>sv. sv_ident sv \<noteq> n) R) else None)"
proof (induction R)
  case (Cons it its)
  have "\<forall>sv \<in> set its. sv_ident sv \<noteq> sv_ident it" using Cons.prems by (auto simp: rev_image_eqI)
  then have "filter (\<lambda>sv. sv_ident sv \<noteq> n) its = its" if "n = sv_ident it" using that by simp
  then show ?case using Cons by auto
qed simp

lemma registered_filter: "registered_as (filter (\<lambda>sv. sv_ident sv \<noteq> n) R) m = (if m = n then None else registered_as R m)"
  by (induction R) auto

lemma unregister_ok:
  assumes "repo_ok R"
  shows "repo_ok (snd (unregisterQueryService R name))"
    "registered_as (snd (unregisterQueryService R name)) m =
       (if m = trim_string (CHR '' '') name \<and> m \<noteq> [] then None else registered_as R m)"
    "fst (unregisterQueryService R name) = 0 \<longleftrightarrow> trim_string (CHR '' '') name \<noteq> [] \<and> registered_as R (trim_string (CHR '' '') name) \<noteq> None"
proof -
  let ?n = "trim_string (CHR '' '') name"
  have d: "distinct (map sv_ident R)" using assms by (simp add: repo_ok_def)
  have i: "registered_as R ?n \<noteq> None \<longleftrightarrow> ?n \<in> sv_ident ` set R"
    using assms by (induction R) (auto simp: repo_ok_def)
  show "repo_ok (snd (unregisterQueryService R name))"
    using assms by (auto simp: unregisterQueryService_def Let_def erase_servant_eq [OF d] repo_ok_def distinct_map_filter)
  show "registered_as (snd (unregisterQueryService R name)) m = (if m = ?n \<and> m \<noteq> [] then None else registered_as R m)"
    using registered_none [of m R] by (auto simp: unregisterQueryService_def Let_def erase_servant_eq [OF d] registered_filter)
  show "fst (unregisterQueryService R name) = 0 \<longleftrightarrow> ?n \<noteq> [] \<and> registered_as R ?n \<noteq> None"
    using i by (auto simp: unregisterQueryService_def Let_def erase_servant_eq [OF d])
qed

text \<open>Trimming twice is trimming once.\<close>

lemma trim_twice: "trim_string c (trim_string c s) = trim_string c s"
  by (rule trim_string_fixed) (use trim_string_trimmed in auto)

section \<open>Publishing and withdrawing\<close>

text \<open>The tables of the broker: the calls change them as they say, and removing what is there does not throw.\<close>

definition orb_ok :: "('s, 'o) orb \<Rightarrow> ('s \<Rightarrow> string \<Rightarrow> string option) \<Rightarrow> ('s \<Rightarrow> string \<Rightarrow> 'o option) \<Rightarrow> bool" where
  "orb_ok B table refs \<longleftrightarrow>
     (\<forall>s n t s'. table_rebind B s n t = Some s' \<longrightarrow> table s' = (table s)(n \<mapsto> t) \<and> refs s' = refs s) \<and>
     (\<forall>s n p s'. init_register B s n p = Some s' \<longrightarrow> table s' = table s \<and> refs s' = (refs s)(n := p)) \<and>
     (\<forall>s n s'. table_unbind B s n = Some s' \<longrightarrow> table s' = (table s)(n := None) \<and> refs s' = refs s) \<and>
     (\<forall>s n s'. init_unregister B s n = Some s' \<longrightarrow> table s' = table s \<and> refs s' = (refs s)(n := None)) \<and>
     (\<forall>s n. table s n \<noteq> None \<longrightarrow> table_unbind B s n \<noteq> None) \<and> (\<forall>s n. refs s n \<noteq> None \<longrightarrow> init_unregister B s n \<noteq> None)"

lemma orb_okD:
  assumes "orb_ok B table refs"
  shows "table_rebind B s n t = Some s' \<Longrightarrow> table s' = (table s)(n \<mapsto> t) \<and> refs s' = refs s"
    "init_register B s n p = Some s' \<Longrightarrow> table s' = table s \<and> refs s' = (refs s)(n := p)"
    "table_unbind B s n = Some s' \<Longrightarrow> table s' = (table s)(n := None) \<and> refs s' = refs s"
    "init_unregister B s n = Some s' \<Longrightarrow> table s' = table s \<and> refs s' = (refs s)(n := None)"
    "table s n \<noteq> None \<Longrightarrow> table_unbind B s n \<noteq> None" "refs s n \<noteq> None \<Longrightarrow> init_unregister B s n \<noteq> None"
  using assms by (simp_all add: orb_ok_def)

lemma init_loop_counts:
  "init_loop B N writable name p bs w = (errors, kept, w') \<Longrightarrow> None \<notin> set bs \<Longrightarrow>
     int (length kept) + errors = int (length bs) \<and> 0 \<le> errors \<and> None \<notin> set kept"
proof (induction B N writable name p bs w arbitrary: errors kept w' rule: init_loop.induct)
  case (3 B N writable name p b bs w)
  obtain r b' w1 where i: "init_bind B N writable b (make_bind_name b name) p w = (r, b', w1)" using prod_cases3 by blast
  obtain e k w2 where l: "init_loop B N writable name p bs w1 = (e, k, w2)" using prod_cases3 by blast
  have n: "None \<notin> set bs" using "3.prems"(2) by simp
  show ?case
  proof (cases "r = Some 0")
    case True
    then show ?thesis using "3.prems"(1) "3.IH"(1) [OF i [symmetric] refl refl True l n] i l by auto
  next
    case False
    then show ?thesis using "3.prems"(1) "3.IH"(2) [OF i [symmetric] refl refl False l n] i l by simp
  qed
qed simp_all

text \<open>A servant with the default sequence, published and withdrawn.\<close>

lemma default_list: "bs_list DEFAULT_IOR_BINDER = [Some RegisterIORTableBinder, Some RegisterInitReferenceBinder, Some RegisterIORQueryBinder]"
  by (simp add: DEFAULT_IOR_BINDER_def add_binding_def)

lemma default_init:
  assumes "orb_to_string B s (Some p) = Some t" "table_rebind B s n t = Some s1" "init_register B s1 n (Some p) = Some s2"
    "n = trim_string (CHR '' '') name" "w_orb w = s"
  shows "seq_init_bind B N writable name (Some p) DEFAULT_IOR_BINDER w =
    (0, \<lparr>bs_list = bs_list DEFAULT_IOR_BINDER, bs_name = n\<rparr>, w\<lparr>w_orb := s2, w_repo := snd (registerQueryService (w_repo w) (Some p) n)\<rparr>)"
  using assms by (simp add: seq_init_bind_def default_list Let_def)

lemma default_fini:
  assumes "init_unregister B s n = Some s1" "table_unbind B s1 n = Some s2" "w_orb w = s"
  shows "seq_fini_bind B N \<lparr>bs_list = bs_list DEFAULT_IOR_BINDER, bs_name = n\<rparr> w =
    (0, w\<lparr>w_orb := s2, w_repo := snd (unregisterQueryService (w_repo w) n)\<rparr>)"
  using assms by (simp add: seq_fini_bind_def default_list)

section \<open>Properties\<close>

text \<open>
  Claim C28.  Publishing and withdrawing a servant.  When the broker refuses nothing, a servant with the default sequence is known
  after \<open>init_bind\<close> under its trimmed name in the table of references, among the initial references and in the query
  repository, and \<open>fini_bind\<close> takes it out of all three and touches no other name; a second \<open>init_bind\<close> or \<open>fini_bind\<close> in a row is
  refused.  Whatever fails, the sequence keeps exactly the entries that did not fail, and reports the number of the others.
\<close>

theorem publish_withdraw:
  assumes "orb_ok B table refs" "repo_ok (w_repo w)" "activate (w_orb w) = Some (Some p, s)" "orb_to_string B s (Some p) = Some t"
    "trim_string (CHR '' '') name = n" "n \<noteq> []" "table_rebind B s n t = Some s1" "init_register B s1 n (Some p) = Some s2"
    "\<not> stub_activated h" "ior_bindings h = DEFAULT_IOR_BINDER"
  shows "\<exists>h1 w1. handler_init B N writable activate name h w = (0, h1, w1) \<and> repo_ok (w_repo w1) \<and>
    table (w_orb w1) = (table s)(n \<mapsto> t) \<and> refs (w_orb w1) = (refs s)(n \<mapsto> p) \<and>
    (\<forall>m. registered_as (w_repo w1) m = (if m = n then Some p else registered_as (w_repo w) m)) \<and>
    fst (handler_init B N writable activate name h1 w1) = -1 \<and>
    (\<exists>h2 w2. handler_fini B N Some h1 w1 = (0, h2, w2) \<and> repo_ok (w_repo w2) \<and>
       table (w_orb w2) = (table s)(n := None) \<and> refs (w_orb w2) = (refs s)(n := None) \<and>
       (\<forall>m. registered_as (w_repo w2) m = (if m = n then None else registered_as (w_repo w) m)) \<and>
       fst (handler_fini B N Some h2 w2) = -1) \<and>
    (\<forall>q w' p' errors q' w''. None \<notin> set (bs_list q) \<and> seq_init_bind B N writable name p' q w' = (errors, q', w'') \<longrightarrow>
       int (length (bs_list q')) + errors = int (length (bs_list q)) \<and> 0 \<le> errors)"
proof -
  let ?q = "\<lparr>bs_list = bs_list DEFAULT_IOR_BINDER, bs_name = n\<rparr>"
  let ?w1 = "w\<lparr>w_orb := s2, w_repo := snd (registerQueryService (w_repo w) (Some p) n)\<rparr>"
  let ?h1 = "\<lparr>ior_bindings = ?q, stub_reference = Some p, stub_activated = True\<rparr>"
  have i: "handler_init B N writable activate name h w = (0, ?h1, ?w1)"
    using default_init [OF assms(4,7,8), of name "w\<lparr>w_orb := s\<rparr>" N writable] assms(3,5,9,10)
    by (simp add: handler_init_def)
  have tn: "trim_string (CHR '' '') n = n" using trim_twice [of "CHR '' ''" name] assms(5) by simp
  note r = register_ok [OF assms(2), of "Some p" n, simplified tn, OF _ assms(6), simplified]
  have t2: "table s2 = (table s)(n \<mapsto> t)" "refs s2 = (refs s)(n \<mapsto> p)"
    using orb_okD(1) [OF assms(1,7)] orb_okD(2) [OF assms(1,8)] by auto
  obtain s3 where s3: "init_unregister B s2 n = Some s3" using orb_okD(6) [OF assms(1), of s2 n] t2 by auto
  have t3: "table s3 = (table s)(n \<mapsto> t)" "refs s3 = (refs s)(n := None)" using orb_okD(4) [OF assms(1) s3] t2 by auto
  obtain s4 where s4: "table_unbind B s3 n = Some s4" using orb_okD(5) [OF assms(1), of s3 n] t3 by auto
  have t4: "table s4 = (table s)(n := None)" "refs s4 = (refs s)(n := None)" using orb_okD(3) [OF assms(1) s4] t3 by auto
  let ?w2 = "?w1\<lparr>w_orb := s4, w_repo := snd (unregisterQueryService (w_repo ?w1) n)\<rparr>"
  have f: "handler_fini B N Some ?h1 ?w1 = (0, ?h1\<lparr>stub_activated := False\<rparr>, ?w2)"
    using default_fini [OF s3 s4, of ?w1 N] by (simp add: handler_fini_def)
  have u: "repo_ok (w_repo ?w2)" "registered_as (w_repo ?w2) m = (if m = n then None else registered_as (w_repo w) m)" for m
    using unregister_ok(1,2) [OF r(2), of n] r(3) assms(6) by (auto simp: tn)
  have "fst (handler_init B N writable activate name ?h1 ?w1) = -1" "fst (handler_fini B N Some (?h1\<lparr>stub_activated := False\<rparr>) ?w2) = -1"
    by (simp_all add: handler_init_def handler_fini_def)
  moreover have "int (length (bs_list q')) + errors = int (length (bs_list q)) \<and> 0 \<le> errors"
    if "None \<notin> set (bs_list q) \<and> seq_init_bind B N writable name p' q w' = (errors, q', w'')" for q w' p' errors q' w''
    using that init_loop_counts [of B N writable _ p' "bs_list q" w'] by (auto simp: seq_init_bind_def Let_def split: prod.splits)
  ultimately show ?thesis using i f r(2,3) t2 t4 u
    by (intro exI [of _ ?h1] exI [of _ ?w1] conjI allI impI exI [of _ "?h1\<lparr>stub_activated := False\<rparr>"] exI [of _ ?w2]) simp_all
qed

text \<open>A broker with two tables, which writes an object as a digit.\<close>

definition sample_orb :: "((string \<Rightarrow> string option) \<times> (string \<Rightarrow> nat option), nat) orb" where
  "sample_orb =
     \<lparr>orb_to_string = (\<lambda>s p. case p of None \<Rightarrow> None | Some k \<Rightarrow> Some (dec_digits k)),
      table_rebind = (\<lambda>s n t. Some ((fst s)(n \<mapsto> t), snd s)),
      table_unbind = (\<lambda>s n. if fst s n = None then None else Some ((fst s)(n := None), snd s)),
      init_register = (\<lambda>s n p. Some (fst s, (snd s)(n := p))),
      init_unregister = (\<lambda>s n. if snd s n = None then None else Some (fst s, (snd s)(n := None)))\<rparr>"

lemma sample_orb_ok: "orb_ok sample_orb fst snd"
  by (auto simp: orb_ok_def sample_orb_def split: if_splits)

definition sample_world :: "((string \<Rightarrow> string option) \<times> (string \<Rightarrow> nat option), unit, nat) world" where
  "sample_world = \<lparr>w_orb = (\<lambda>_. None, \<lambda>_. None), w_naming = (), w_repo = [\<lparr>sv_obj = Some 3, sv_ident = ''b''\<rparr>], w_files = (\<lambda>_. None)\<rparr>"

definition no_naming :: "(unit, unit, nat) cos" where
  "no_naming = \<lparr>cos_root = (), cos_resolve = (\<lambda>_ _ _. Inl NotFound), cos_bind_new = (\<lambda>_ _ _. Inl (Cos_other 0)),
     cos_rebind = (\<lambda>_ _ _ _. Inl (Cos_other 0)), cos_unbind = (\<lambda>_ _ _. Inl NotFound)\<rparr>"

definition sample_handler :: "(unit, nat) handler" where
  "sample_handler = \<lparr>ior_bindings = DEFAULT_IOR_BINDER, stub_reference = None, stub_activated = False\<rparr>"

theorem publish_withdraw_witness:
  "\<exists>h1 w1. handler_init sample_orb no_naming (\<lambda>_. True) (\<lambda>s. Some (Some 7, s)) '' a '' sample_handler sample_world = (0, h1, w1) \<and>
     registered_as (w_repo w1) ''a'' = Some 7 \<and>
     (\<exists>h2 w2. handler_fini sample_orb no_naming Some h1 w1 = (0, h2, w2) \<and> registered_as (w_repo w2) ''a'' = None \<and>
        registered_as (w_repo w2) ''b'' = Some 3)"
proof -
  have t: "trim_string (CHR '' '') '' a '' = ''a''" by code_simp
  have r: "repo_ok (w_repo sample_world)" "registered_as (w_repo sample_world) ''b'' = Some 3" by (simp_all add: sample_world_def repo_ok_def)
  have o: "orb_to_string sample_orb (w_orb sample_world) (Some 7) = Some (dec_digits 7)" by (simp add: sample_orb_def)
  let ?s = "w_orb sample_world"
  have s: "table_rebind sample_orb ?s ''a'' (dec_digits 7) = Some ((fst ?s)(''a'' \<mapsto> dec_digits 7), snd ?s)"
    "init_register sample_orb ((fst ?s)(''a'' \<mapsto> dec_digits 7), snd ?s) ''a'' (Some 7) = Some ((fst ?s)(''a'' \<mapsto> dec_digits 7), (snd ?s)(''a'' \<mapsto> 7))"
    by (simp_all add: sample_orb_def)
  have h: "\<not> stub_activated sample_handler" "ior_bindings sample_handler = DEFAULT_IOR_BINDER" by (simp_all add: sample_handler_def)
  have a: "''a'' \<noteq> []" by simp
  have act: "(\<lambda>s. Some (Some (7::nat), s)) (w_orb sample_world) = Some (Some 7, ?s)" by simp
  obtain h1 w1 where "handler_init sample_orb no_naming (\<lambda>_. True) (\<lambda>s. Some (Some 7, s)) '' a '' sample_handler sample_world = (0, h1, w1)"
    "registered_as (w_repo w1) ''a'' = Some 7"
    "\<exists>h2 w2. handler_fini sample_orb no_naming Some h1 w1 = (0, h2, w2) \<and>
       (\<forall>m. registered_as (w_repo w2) m = (if m = ''a'' then None else registered_as (w_repo sample_world) m))"
    using publish_withdraw [where activate = "\<lambda>s. Some (Some 7, s)" and N = no_naming and writable = "\<lambda>_. True",
        OF sample_orb_ok r(1) _ o t a s h] by auto
  then show ?thesis using r(2) by fastforce
qed

end
