(* ===== verification/IOR_Resolver.thy ===== *)
theory IOR_Resolver
  imports IOR_Binder Monitor_Rule
begin

text \<open>
  \<^verbatim>\<open>TAF/taf/IORResolver_T.h\<close>, \<^verbatim>\<open>.cpp\<close>: resolvers that look for the reference of a service (in a file, among the initial
  references, in the naming service) run side by side on an executor; \<open>resolve\<close> of the chain waits in a
  monitor until one of them signals.
\<close>

section \<open>The file resolver\<close>

text \<open>
  The loop of \<open>run\<close> reads the whole file through an \<open>istreambuf_iterator\<close>, which leaves the state of the stream as it is: a
  second round finds the stream good and its buffer empty.  \<open>parse\<close> stands for \<open>TAFStringToObject\<close> and \<open>_narrow\<close>: \<open>None\<close> is a CORBA
  exception, a reference that cannot be narrowed is nil.  A loop that does not end has the result \<open>None\<close>.
  The file is the text it has when it is opened: nobody writes it while it is read.
\<close>

partial_function (option) file_loop :: "(string \<Rightarrow> 'o option option) \<Rightarrow> string \<Rightarrow> 'o option option" where
  "file_loop parse content =
     (if content \<noteq> [] then
        (case parse content of Some r \<Rightarrow> Some r | None \<Rightarrow> file_loop parse [])
      else file_loop parse [])"

definition resolver_file :: "string \<Rightarrow> string \<Rightarrow> string" where
  "resolver_file dir name = trim_string (CHR '' '') (bind_directory dir @ file_name name)"

text \<open>The result of \<open>run\<close> with the reference it found and signalled.\<close>

definition file_run :: "(string \<Rightarrow> 'o option option) \<Rightarrow> (string \<Rightarrow> string option) \<Rightarrow> string \<Rightarrow> string \<Rightarrow> (int \<times> 'o option) option" where
  "file_run parse files dir name =
     (let filename = resolver_file dir name in
      if filename \<noteq> [] then
        (case files filename of
           Some content \<Rightarrow> map_option (Pair 0) (file_loop parse content)
         | None \<Rightarrow> Some (-1, None))
      else Some (-1, None))"

section \<open>The other resolvers\<close>

text \<open>The reference a resolver stores, and whether it signals the monitor; \<open>None\<close> is an exception.\<close>

definition initial_run :: "'o option option \<Rightarrow> 'o option \<times> bool" where
  "initial_run found = (case found of Some (Some x) \<Rightarrow> (Some x, True) | _ \<Rightarrow> (None, False))"

definition naming_run :: "('n, 'c, 'o) cos \<Rightarrow> ('o \<Rightarrow> 'o option) \<Rightarrow> 'n \<Rightarrow> 'c \<Rightarrow> string \<Rightarrow> 'o option \<times> bool" where
  "naming_run N narrow s c name =
     (case resolve_name N s c name of
        Inr (Obj x) \<Rightarrow> (case narrow x of Some y \<Rightarrow> (Some y, True) | None \<Rightarrow> (None, False))
      | _ \<Rightarrow> (None, False))"

section \<open>The chain\<close>

record 'o chain_data =
  results :: "nat \<Rightarrow> 'o option"

datatype 'o rs_pc =
    RS_idle
  | RS_run nat
  | RS_lock
  | RS_signal
  | RS_unlock
  | RS_return int
  | RV_loop
  | RV_wait
  | RV_woke wres
  | RV_result "'o option"

primrec chain_scan :: "(nat \<Rightarrow> 'o option) \<Rightarrow> nat list \<Rightarrow> 'o option" where
  "chain_scan rs [] = None"
| "chain_scan rs (k # ks) = (case rs k of Some x \<Rightarrow> Some x | None \<Rightarrow> chain_scan rs ks)"

text \<open>
  A chain of \<open>n\<close> resolvers; \<open>res k\<close> is what resolver \<open>k\<close> does.  The threads of the executor start at \<open>RS_run\<close>, \<open>resolve\<close> at \<open>RV_loop\<close>,
  after it has handed the resolvers to the executor.
\<close>

fun Chain_code :: "nat \<Rightarrow> (nat \<Rightarrow> 'o option \<times> bool) \<Rightarrow> ('o chain_data, 'o rs_pc) code" where
  "Chain_code n res (RS_run k) c i w d =
     (d\<lparr>results := (results d)(k := fst (res k))\<rparr>, Goto (if snd (res k) then RS_lock else RS_return (-1)))"
| "Chain_code n res RS_lock c i w d = (d, Lock RS_signal)"
| "Chain_code n res RS_signal c i w d = (d, Notify RS_unlock)"
| "Chain_code n res RS_unlock c i w d = (d, Unlock (RS_return 0))"
| "Chain_code n res RV_loop c i w d = (d, Lock RV_wait)"
| "Chain_code n res RV_wait c i w d = (d, Wait RV_woke)"
| "Chain_code n res (RV_woke W_ok) c i w d =
     (case chain_scan (results d) [0..<n] of
        Some x \<Rightarrow> (d, Unlock (RV_result (Some x)))
      | None \<Rightarrow> (d, Unlock RV_loop))"
| "Chain_code n res (RV_woke (W_error e)) c i w d = (d, Unlock (RV_result None))"
| "Chain_code n res (RV_woke W_interrupted) c i w d = (d, Unlock (RV_result None))"
| "Chain_code n res _ c i w d = (d, Halt)"

fun chain_entry :: "'o rs_pc \<Rightarrow> bool" where
  "chain_entry (RS_run k) = True"
| "chain_entry RV_loop = True"
| "chain_entry _ = False"

fun chain_final :: "'o rs_pc \<Rightarrow> bool" where
  "chain_final RS_idle = True"
| "chain_final (RS_return r) = True"
| "chain_final (RV_result r) = True"
| "chain_final _ = False"

fun chain_holds :: "'o rs_pc \<Rightarrow> bool" where
  "chain_holds RS_signal = True"
| "chain_holds RS_unlock = True"
| "chain_holds RV_wait = True"
| "chain_holds (RV_woke r) = True"
| "chain_holds _ = False"

definition chain_step :: "nat \<Rightarrow> (nat \<Rightarrow> 'o option \<times> bool) \<Rightarrow> ('o chain_data, 'o rs_pc) mon \<Rightarrow> 'o rs_pc event \<Rightarrow> ('o chain_data, 'o rs_pc) mon option" where
  "chain_step n res = mon_step (Chain_code n res) chain_entry chain_final"

definition chain_start :: "('o chain_data, 'o rs_pc) mon" where
  "chain_start = mon_init \<lparr>results = (\<lambda>_. None)\<rparr> RS_idle"

section \<open>Reading what was published\<close>

lemma file_loop_Some: "file_loop parse content = Some r \<Longrightarrow> content \<noteq> [] \<and> parse content = Some r"
proof (rule file_loop.raw_induct [where P = "\<lambda>p c r. c \<noteq> [] \<and> p c = Some r"])
  fix rec :: "(string \<Rightarrow> 'a option option) \<Rightarrow> string \<Rightarrow> 'a option option" and p c r
  assume ih: "\<And>p c r. rec p c = Some r \<Longrightarrow> c \<noteq> [] \<and> p c = Some r"
    and "(if c \<noteq> [] then case p c of None \<Rightarrow> rec p [] | Some r \<Rightarrow> Some r else rec p []) = Some r"
  then show "c \<noteq> [] \<and> p c = Some r" using ih [of p "[]"] by (auto split: if_splits option.splits)
qed

lemma file_loop_eq: "file_loop parse content = (if content = [] then None else parse content)"
proof -
  have n: "file_loop parse [] = None" using file_loop_Some [of parse "[]"] by (cases "file_loop parse []") auto
  show ?thesis
  proof (cases "content = []")
    case True
    then show ?thesis using n by simp
  next
    case False
    have "file_loop parse content = (case parse content of Some r \<Rightarrow> Some r | None \<Rightarrow> file_loop parse [])"
      by (subst file_loop.simps) (simp add: False)
    then show ?thesis using False n by (simp split: option.split)
  qed
qed

lemma quoted_name_eq:
  assumes "trimmed (CHR '' '') f"
  shows "quoted_name f = (if CHR '' '' \<in> set f then CHR 0x27 # f @ [CHR 0x27] else f)"
proof (cases "CHR '' '' \<in> set f")
  case True
  have b: "blank (CHR '' '')" by code_simp
  have "hd f \<noteq> CHR '' ''" using assms True b by (auto simp: trimmed_def)
  then have "takeWhile (\<lambda>d. d \<noteq> CHR '' '') f \<noteq> []" using True by (cases f) auto
  then show ?thesis using True by (simp add: quoted_name_def find_from_def)
qed (simp add: quoted_name_def find_from_def)

lemma file_name_nonempty: "file_name name \<noteq> []"
  using find_from_bounds [of "CHR ''.''" name 0] by (auto simp: file_name_def split: option.split)

lemma file_init_writes:
  assumes "orb_to_string B (w_orb w) (Some p) = Some t" "resolver_file dir name \<noteq> []" "writable (quoted_name (resolver_file dir name))"
  shows "file_init B writable (bind_directory dir) f (file_name name) (Some p) w =
    (Some 0, IORFileBinder (bind_directory dir) (quoted_name (resolver_file dir name)),
     w\<lparr>w_files := (w_files w)(quoted_name (resolver_file dir name) \<mapsto> t)\<rparr>)"
  using assms by (simp add: file_init_def file_name_nonempty resolver_file_def Let_def)

section \<open>The chain in steps\<close>

interpretation chain_client: monitor_client "Chain_code n res" chain_entry chain_final chain_holds for n res
proof (rule monitor_clientI)
  show "act_ok chain_holds l (snd (Chain_code n res l c i w d))" for l c i w d
    by (induction n res l c i w d rule: Chain_code.induct) (auto split: option.split)
  show "\<not> chain_holds l" if "chain_entry l \<or> chain_final l" for l
    using that by (cases l) auto
qed

lemma chain_scan_Some: "chain_scan rs ks = Some x \<Longrightarrow> \<exists>k \<in> set ks. rs k = Some x"
  by (induction ks) (auto split: option.splits)

lemma chain_scan_found: "k \<in> set ks \<Longrightarrow> rs k \<noteq> None \<Longrightarrow> chain_scan rs ks \<noteq> None"
  by (induction ks) (auto split: option.split)

text \<open>Nothing but what the resolvers found is ever stored or returned.\<close>

fun chain_loc :: "nat \<Rightarrow> (nat \<Rightarrow> 'o option \<times> bool) \<Rightarrow> 'o rs_pc tstate \<Rightarrow> bool" where
  "chain_loc n res (Run (RV_result (Some x))) = (\<exists>k < n. fst (res k) = Some x)"
| "chain_loc n res (Run _) = True"
| "chain_loc n res (Entering k) = (k = RV_woke)"
| "chain_loc n res (Sleeping k) = (k = RV_woke)"
| "chain_loc n res (Waking r k) = (k = RV_woke)"
| "chain_loc n res _ = True"

definition chain_inv :: "nat \<Rightarrow> (nat \<Rightarrow> 'o option \<times> bool) \<Rightarrow> ('o chain_data, 'o rs_pc) mon \<Rightarrow> bool" where
  "chain_inv n res m \<longleftrightarrow> (\<forall>k. results (data m) k = None \<or> results (data m) k = fst (res k)) \<and> (\<forall>t. chain_loc n res (thr m t))"

lemma chain_loc_plain: "(\<And>x. l \<noteq> RV_result (Some x)) \<Longrightarrow> chain_loc n res (Run l)"
  by (cases "(n, res, Run l)" rule: chain_loc.cases) auto

lemma chain_inv_step:
  assumes "chain_inv n res m" "chain_step n res m e = Some m'"
  shows "chain_inv n res m'"
proof -
  have d: "results (data m) k = None \<or> results (data m) k = fst (res k)" and l: "chain_loc n res (thr m t)" for k t
    using assms(1) by (auto simp: chain_inv_def)
  have upd: "chain_inv n res m'" if "data m' = data m" "thr m' = (thr m)(t := s)" "chain_loc n res s" for t s
    using that d l by (auto simp: chain_inv_def)
  show ?thesis
  proof (cases e)
    case (Call t l0)
    then have "thr m' = (thr m)(t := Run l0)" "data m' = data m" "chain_entry l0"
      using assms(2) by (auto simp: chain_step_def mon_step_def split: if_splits)
    then show ?thesis by (intro upd [of t "Run l0"] chain_loc_plain) auto
  next
    case (Interrupt t)
    then show ?thesis using assms(2) by (intro upd [of t Interrupting]) (auto simp: chain_step_def mon_step_def split: if_splits)
  next
    case (Wake t r)
    then obtain k where k: "thr m t = Sleeping k" "m' = wait_wake t r k m"
      using assms(2) by (auto simp: chain_step_def mon_step_def split: tstate.splits if_splits)
    then show ?thesis using l [of t] by (intro upd [of t "Waking r k"]) (auto simp: wait_wake_def)
  next
    case (Step t pick)
    then have s: "thread_step (Chain_code n res) t pick m = Some m'" using assms(2) by (simp add: chain_step_def mon_step_def)
    show ?thesis
    proof (cases "thr m t")
      case (Run p)
      show ?thesis
      proof (cases p)
        case (RS_run k)
        then have "data m' = (data m)\<lparr>results := (results (data m))(k := fst (res k))\<rparr>"
          "thr m' = (thr m)(t := Run (if snd (res k) then RS_lock else RS_return (-1)))"
          using s Run by (auto simp: thread_step_def run_code_def)
        then show ?thesis using d l by (auto simp: chain_inv_def)
      next
        case (RV_woke r)
        have "\<exists>k < n. fst (res k) = Some x" if f: "chain_scan (results (data m)) [0..<n] = Some x" for x
        proof -
          obtain k where "k \<in> set [0..<n]" "results (data m) k = Some x" using chain_scan_Some [OF f] by blast
          then show ?thesis using d [of k] by (intro exI [of _ k]) auto
        qed
        then show ?thesis
          using s Run RV_woke by (cases r; intro upd [of t "thr m' t"])
            (auto simp: thread_step_def run_code_def split: option.splits)
      qed (use s Run in \<open>intro upd [of t "thr m' t"]; auto simp: thread_step_def run_code_def wait_test_def split: if_splits\<close>)+
    next
      case (Entering k)
      then show ?thesis using s l [of t] by (intro upd [of t "Sleeping k"]) (auto simp: thread_step_def wait_sleep_def)
    next
      case (Waking r k)
      then show ?thesis using s l [of t] by (intro upd [of t "thr m' t"]) (auto simp: thread_step_def wait_leave_def)
    next
      case Interrupting
      then show ?thesis using s by (intro upd [of t "thr m' t"]) (auto simp: thread_step_def interrupt_start_def)
    next
      case (Removing i)
      then show ?thesis using s by (intro upd [of t "thr m' t"]) (auto simp: thread_step_def interrupt_round_def split: nat.splits)
    next
      case (Broadcasting i)
      then show ?thesis using s by (intro upd [of t "thr m' t"]) (auto simp: thread_step_def broadcast_def split: if_splits)
    qed (use s in \<open>simp_all add: thread_step_def\<close>)
  qed
qed

interpretation chain: event_invariant "chain_step n res" "chain_inv n res" for n res
  by unfold_locales (rule chain_inv_step)

section \<open>Properties\<close>

text \<open>
  Claim C29.  A reference that is published in a file is found by the file resolver of the same directory and name if the path has
  no space in it; with a space it is written to another file, and the resolver sees what it saw before.  A file that
  is there but is empty, or does not hold a reference, makes the resolver loop for ever.
\<close>

theorem ior_file_round_trip:
  assumes "orb_to_string B (w_orb w) (Some p) = Some t" "t \<noteq> []" "parse t = Some (Some p)" "resolver_file dir name \<noteq> []"
    "writable (quoted_name (resolver_file dir name))"
  shows "\<exists>b w'. file_init B writable (bind_directory dir) f (file_name name) (Some p) w = (Some 0, b, w') \<and>
    (CHR '' '' \<notin> set (resolver_file dir name) \<longrightarrow> file_run parse (w_files w') dir name = Some (0, Some p)) \<and>
    (CHR '' '' \<in> set (resolver_file dir name) \<longrightarrow> file_run parse (w_files w') dir name = file_run parse (w_files w) dir name) \<and>
    (\<forall>files content. files (resolver_file dir name) = Some content \<longrightarrow>
       (file_run parse files dir name = None \<longleftrightarrow> content = [] \<or> parse content = None))"
proof -
  let ?f = "resolver_file dir name"
  note i = file_init_writes [where f = f and dir = dir and name = name and writable = writable, OF assms(1,4,5)]
  have q: "quoted_name ?f = (if CHR '' '' \<in> set ?f then CHR 0x27 # ?f @ [CHR 0x27] else ?f)"
    by (rule quoted_name_eq) (simp add: resolver_file_def trim_string_trimmed(1))
  have "length (CHR 0x27 # ?f @ [CHR 0x27]) \<noteq> length ?f" by simp
  then have ne: "CHR 0x27 # ?f @ [CHR 0x27] \<noteq> ?f" by metis
  have a: "file_run parse ((w_files w)(quoted_name ?f \<mapsto> t)) dir name = Some (0, Some p)" if "CHR '' '' \<notin> set ?f"
    using that assms(2-4) q by (simp add: file_run_def file_loop_eq Let_def)
  have b: "file_run parse ((w_files w)(quoted_name ?f \<mapsto> t)) dir name = file_run parse (w_files w) dir name" if "CHR '' '' \<in> set ?f"
    using that q ne by (simp add: file_run_def Let_def)
  have c: "file_run parse files dir name = None \<longleftrightarrow> content = [] \<or> parse content = None"
    if "files ?f = Some content" for files content
    using that assms(4) by (simp add: file_run_def file_loop_eq Let_def)
  show ?thesis using a b c by (intro exI conjI allI impI) (rule i, simp_all)
qed

theorem ior_file_round_trip_witness:
  "resolver_file ''/tmp'' ''srv'' = ''/tmp/srv.ior'' \<and>
   file_run (\<lambda>t. Some (Some (length t))) (w_files (snd (snd (file_init sample_orb (\<lambda>_. True) (bind_directory ''/tmp'') [] (file_name ''srv'') (Some 1) sample_world :: _ \<times> unit ior_binding \<times> _))))
     ''/tmp'' ''srv'' = Some (0, Some 1) \<and>
   file_run (\<lambda>t. Some (Some (length t))) ([''/tmp/srv.ior'' \<mapsto> []]) ''/tmp'' ''srv'' = None"
proof -
  have n: "resolver_file ''/tmp'' ''srv'' = ''/tmp/srv.ior''" by code_simp
  have o: "orb_to_string sample_orb (w_orb sample_world) (Some 1) = Some (dec_digits 1)" by (simp add: sample_orb_def)
  have l: "dec_digits 1 \<noteq> []" "(\<lambda>t. Some (Some (length t))) (dec_digits 1) = Some (Some 1)" by (simp_all add: dec_digits.simps)
  have m: "resolver_file ''/tmp'' ''srv'' \<noteq> []" using n by simp
  have sp: "CHR '' '' \<notin> set (resolver_file ''/tmp'' ''srv'')" unfolding n by simp
  note r = ior_file_round_trip [where f = "[]" and dir = "''/tmp''" and name = "''srv''" and writable = "\<lambda>_. True" and
      parse = "\<lambda>t. Some (Some (length t))", OF o l m TrueI]
  obtain b :: "unit ior_binding" and w' where "file_init sample_orb (\<lambda>_. True) (bind_directory ''/tmp'') [] (file_name ''srv'') (Some 1) sample_world = (Some 0, b, w')"
    "file_run (\<lambda>t. Some (Some (length t))) (w_files w') ''/tmp'' ''srv'' = Some (0, Some 1)" using r sp by blast
  moreover have "file_run (\<lambda>t. Some (Some (length t))) ([''/tmp/srv.ior'' \<mapsto> []]) ''/tmp'' ''srv'' = None"
    using r n by (auto simp: n)
  ultimately show ?thesis using n by simp
qed

text \<open>
  Claim C30.  The chain returns only what one of its resolvers found, and a thread that waits in \<open>resolve\<close> while a reference is
  stored takes it when it is woken.  But \<open>resolve\<close> waits before it looks: when the resolvers have signalled before it waits, it
  sleeps with the reference in its hands and nobody left to wake it, and returns nil when the wait times out.
\<close>

theorem resolve_misses_early_result:
  fixes x :: 'o
  assumes "k < n" "res k = (Some x, True)"
  shows "(\<forall>m t y. reachable (chain_step n res) chain_start m \<and> thr m t = Run (RV_result (Some y)) \<longrightarrow> (\<exists>j < n. fst (res j) = Some y)) \<and>
    (\<forall>(m :: ('o chain_data, 'o rs_pc) mon) t. thr m t = Sleeping RV_woke \<and> mutex m = None \<and> \<not> interrupted m \<and> results (data m) k \<noteq> None \<longrightarrow>
       (\<exists>m' y. run (chain_step n res) m [Wake t W_ok, Step t 0, Step t 0] = Some m' \<and> thr m' t = Run (RV_result (Some y)))) \<and>
    (\<exists>m. run (chain_step n res) chain_start
          [Call 1 (RS_run k), Step 1 0, Step 1 0, Step 1 0, Step 1 0, Call 0 RV_loop, Step 0 0, Step 0 0, Step 0 0] = Some m \<and>
       results (data m) k = Some x \<and> thr m 1 = Run (RS_return 0) \<and> asleep m = [0] \<and> (\<forall>t pick. chain_step n res m (Step t pick) = None) \<and>
       (\<exists>m'. run (chain_step n res) m [Wake 0 (W_error ETIME), Step 0 0, Step 0 0] = Some m' \<and> thr m' 0 = Run (RV_result None)))"
proof (intro conjI allI impI)
  fix m t y assume a: "reachable (chain_step n res) chain_start m \<and> thr m t = Run (RV_result (Some y))"
  have "chain_inv n res chain_start" by (simp add: chain_inv_def chain_start_def mon_init_def)
  then have "chain_inv n res m" using chain.reachable_inv a by blast
  then have "chain_loc n res (thr m t)" by (simp add: chain_inv_def)
  then show "\<exists>j < n. fst (res j) = Some y" using a by simp
next
  fix m :: "('o chain_data, 'o rs_pc) mon" and t assume a: "thr m t = Sleeping RV_woke \<and> mutex m = None \<and> \<not> interrupted m \<and> results (data m) k \<noteq> None"
  obtain y where "chain_scan (results (data m)) [0..<n] = Some y"
    using chain_scan_found [of k "[0..<n]" "results (data m)"] assms(1) a by (cases "chain_scan (results (data m)) [0..<n]") auto
  then show "\<exists>m' y. run (chain_step n res) m [Wake t W_ok, Step t 0, Step t 0] = Some m' \<and> thr m' t = Run (RV_result (Some y))"
    using a by (simp add: chain_step_def mon_step_def wait_wake_def thread_step_def wait_leave_def run_code_def)
next
  let ?es = "[Call 1 (RS_run k), Step 1 0, Step 1 0, Step 1 0, Step 1 0, Call 0 RV_loop, Step 0 0, Step 0 0, Step 0 0]"
  let ?m = "\<lparr>data = \<lparr>results = (\<lambda>_. None)(k \<mapsto> x)\<rparr>, mutex = None, waiters = 1, interrupted = False, asleep = [0], notified = [],
      thr = (\<lambda>_. Run RS_idle)(1 := Run (RS_return 0), 0 := Sleeping RV_woke)\<rparr>"
  have r: "run (chain_step n res) chain_start ?es = Some ?m"
    using assms(2) by (simp add: chain_step_def chain_start_def mon_init_def mon_step_def is_idle_def thread_step_def run_code_def
        signal_def wait_test_def wait_sleep_def fun_upd_def, intro ext, simp)
  have s: "chain_step n res ?m (Step t pick) = None" for t pick
    by (simp add: chain_step_def mon_step_def thread_step_def run_code_def)
  have w: "\<exists>m'. run (chain_step n res) ?m [Wake 0 (W_error ETIME), Step 0 0, Step 0 0] = Some m' \<and> thr m' 0 = Run (RV_result None)"
    by (simp add: chain_step_def mon_step_def wait_wake_def thread_step_def wait_leave_def run_code_def)
  show "\<exists>m. run (chain_step n res) chain_start ?es = Some m \<and> results (data m) k = Some x \<and> thr m 1 = Run (RS_return 0) \<and> asleep m = [0] \<and>
      (\<forall>t pick. chain_step n res m (Step t pick) = None) \<and>
      (\<exists>m'. run (chain_step n res) m [Wake 0 (W_error ETIME), Step 0 0, Step 0 0] = Some m' \<and> thr m' 0 = Run (RV_result None))"
    using r s w by (intro exI [of _ ?m]) simp
qed

theorem resolve_misses_early_result_witness:
  "\<exists>m. run (chain_step 2 (\<lambda>k. if k = 1 then (Some True, True) else (None, False))) chain_start
        [Call 1 (RS_run 1), Step 1 0, Step 1 0, Step 1 0, Step 1 0, Call 0 RV_loop, Step 0 0, Step 0 0, Step 0 0] = Some m \<and>
     results (data m) 1 = Some True \<and> asleep m = [0]"
  using resolve_misses_early_result [of 1 2 "\<lambda>k. if k = 1 then (Some True, True) else (None, False)" True] by auto

end
