(* ===== verification/TAF_Servers.thy ===== *)
theory TAF_Servers
  imports Service_Loader
begin

text \<open>
  The servants through which remote clients reach the core library: \<^verbatim>\<open>TAF/taf/PropertyServer_impl.cpp\<close> over the properties and
  \<^verbatim>\<open>TAF/taf/GestaltService_impl.cpp\<close> over the container of services, and the description a \<^verbatim>\<open>TAFServer_impl\<close> gives of
  itself.  Both turn exceptions and error numbers of the library into CORBA exceptions.

  A string argument may be a null pointer, \<open>None\<close>.  A reply is a CORBA exception or a value; what the code does not catch
  is an exception of the library, as in \<open>Properties\<close>.
\<close>

section \<open>The property server\<close>

datatype corba_exception =
    CORBA_TIMEOUT
  | CORBA_BAD_PARAM
  | CORBA_INV_IDENT
  | CORBA_OBJECT_NOT_EXIST
  | CORBA_NO_IMPLEMENT
  | CORBA_NO_RESOURCES
  | CORBA_NO_PERMISSION
  | CORBA_INVALID_ACTIVITY
  | CORBA_BAD_OPERATION

definition has_text :: "string option \<Rightarrow> bool" where
  "has_text s \<longleftrightarrow> (case s of Some t \<Rightarrow> t \<noteq> [] | None \<Rightarrow> False)"

text \<open>The handlers of \<open>get_property\<close> in their order; the first one falls through to \<open>INV_IDENT\<close>.\<close>

definition get_handler :: "daf_exception \<Rightarrow> corba_exception" where
  "get_handler e =
     (if catches (Daf NotFoundException) e then CORBA_INV_IDENT
      else if catches (Daf IllegalArgumentException) e then CORBA_BAD_PARAM
      else if catches (Daf IllegalThreadStateException) e then CORBA_BAD_OPERATION
      else CORBA_INVALID_ACTIVITY)"

definition set_handler :: "daf_exception \<Rightarrow> corba_exception" where
  "set_handler e =
     (if catches (Daf IllegalThreadStateException) e then CORBA_BAD_OPERATION
      else if catches (Daf IllegalArgumentException) e then CORBA_BAD_PARAM
      else CORBA_INVALID_ACTIVITY)"

definition ps_get_property ::
  "nat \<Rightarrow> host \<Rightarrow> props \<Rightarrow> string option \<Rightarrow> (props \<times> (corba_exception + string)) option" where
  "ps_get_property n h ps ident =
     (if has_text ident then
        (case get_property n h ps (the ident) True of
           Some (ps', Returns v) \<Rightarrow> Some (ps', Inr (c_str v))
         | Some (ps', Throws e) \<Rightarrow> Some (ps', Inl (get_handler e))
         | _ \<Rightarrow> None)
      else Some (ps, Inl CORBA_INV_IDENT))"

definition ps_set_property :: "props \<Rightarrow> string option \<Rightarrow> string option \<Rightarrow> props \<times> (corba_exception + unit)" where
  "ps_set_property ps ident value =
     (if has_text ident then
        (case set_property ps (the ident) (case value of Some v \<Rightarrow> v | None \<Rightarrow> []) of
           (ps', Returns rc) \<Rightarrow> (ps', if rc = 0 then Inr () else Inl CORBA_INV_IDENT)
         | (ps', Throws e) \<Rightarrow> (ps', Inl (set_handler e))
         | (ps', Undefined) \<Rightarrow> (ps', Inl CORBA_INVALID_ACTIVITY))
      else (ps, Inl CORBA_INV_IDENT))"

definition ps_del_property :: "props \<Rightarrow> string option \<Rightarrow> props \<times> (corba_exception + unit)" where
  "ps_del_property ps ident =
     (if has_text ident then
        (case del_property ps (the ident) of
           (ps', Returns _) \<Rightarrow> (ps', Inr ())
         | (ps', Throws e) \<Rightarrow> (ps', Inl (set_handler e))
         | (ps', Undefined) \<Rightarrow> (ps', Inl CORBA_INVALID_ACTIVITY))
      else (ps, Inl CORBA_INV_IDENT))"

text \<open>
  The sequence is sized by the number of entries the listing returns; the loop copies while there is room.
\<close>

fun copy_entries :: "nat \<Rightarrow> nat \<Rightarrow> props \<Rightarrow> props" where
  "copy_entries max_len len [] = []"
| "copy_entries max_len len (p # ps) = (if len \<ge> max_len then [] else (c_str (fst p), c_str (snd p)) # copy_entries max_len (Suc len) ps)"

definition ps_list_properties :: "nat \<Rightarrow> host \<Rightarrow> props \<Rightarrow> (props \<times> props) option" where
  "ps_list_properties n h ps =
     (case list_properties n h ps of
        Some (ps', vs) \<Rightarrow> Some (ps', copy_entries (length vs) 0 vs)
      | None \<Rightarrow> None)"

section \<open>The gestalt service: requests\<close>

fun throw_last_error :: "errno \<Rightarrow> corba_exception option" where
  "throw_last_error E_NONE = None"
| "throw_last_error ETIME = Some CORBA_TIMEOUT"
| "throw_last_error EINVAL = Some CORBA_BAD_PARAM"
| "throw_last_error ENOENT = Some CORBA_INV_IDENT"
| "throw_last_error EEXIST = Some CORBA_OBJECT_NOT_EXIST"
| "throw_last_error ENOLCK = Some CORBA_NO_RESOURCES"
| "throw_last_error EACCES = Some CORBA_NO_PERMISSION"
| "throw_last_error ENOEXEC = Some CORBA_INVALID_ACTIVITY"
| "throw_last_error e = Some (if e = ENOTSUP then CORBA_NO_IMPLEMENT else CORBA_BAD_OPERATION)"

text \<open>After a request: nothing to report for 0, otherwise whatever the error number stands for.\<close>

definition reply :: "'r gestalt \<times> int \<times> errno \<Rightarrow> 'r gestalt \<times> (corba_exception + unit)" where
  "reply x =
     (case x of (g, rc, e) \<Rightarrow>
        (g, if rc = 0 then Inr () else case throw_last_error e of Some c \<Rightarrow> Inl c | None \<Rightarrow> Inr ()))"

definition gestalt_suspend ::
  "'r ace \<Rightarrow> bool \<Rightarrow> chance \<Rightarrow> string option \<Rightarrow> errno \<Rightarrow> 'r gestalt \<Rightarrow> 'r gestalt \<times> (corba_exception + unit)" where
  "gestalt_suspend R cl ch ident err g =
     (if has_text ident then reply (suspendService R cl ch (the ident) err g) else reply (g, - 1, EINVAL))"

definition gestalt_resume ::
  "'r ace \<Rightarrow> bool \<Rightarrow> chance \<Rightarrow> string option \<Rightarrow> errno \<Rightarrow> 'r gestalt \<Rightarrow> 'r gestalt \<times> (corba_exception + unit)" where
  "gestalt_resume R cl ch ident err g =
     (if has_text ident then reply (resumeService R cl ch (the ident) err g) else reply (g, - 1, EINVAL))"

definition gestalt_remove ::
  "'r ace \<Rightarrow> bool \<Rightarrow> chance \<Rightarrow> string option \<Rightarrow> errno \<Rightarrow> 'r gestalt \<Rightarrow> 'r gestalt \<times> (corba_exception + unit)" where
  "gestalt_remove R cl ch ident err g =
     (if has_text ident then reply (removeService R cl ch (the ident) err g) else reply (g, - 1, EINVAL))"

definition gestalt_loadStatic ::
  "nat \<Rightarrow> host \<Rightarrow> props \<Rightarrow> 'r ace \<Rightarrow> bool \<Rightarrow> chance \<Rightarrow> string option \<Rightarrow> string option \<Rightarrow> errno \<Rightarrow> 'r gestalt \<Rightarrow>
     ('r gestalt \<times> (corba_exception + unit)) run_result" where
  "gestalt_loadStatic n h ps R cl ch ident params err g =
     (if has_text ident then
        (case loadStatic n h ps R cl ch (the ident) (case params of Some p \<Rightarrow> p | None \<Rightarrow> []) err g of
           None \<Rightarrow> None
         | Some (ps', r) \<Rightarrow> Some (ps', and_then r (\<lambda>x. Returns (reply x))))
      else Some (ps, Returns (reply (g, - 1, EINVAL))))"

definition gestalt_loadDynamic ::
  "nat \<Rightarrow> host \<Rightarrow> props \<Rightarrow> 'r ace \<Rightarrow> bool \<Rightarrow> chance \<Rightarrow> string option \<Rightarrow> string \<Rightarrow> string \<Rightarrow> string option \<Rightarrow> errno \<Rightarrow> 'r gestalt \<Rightarrow>
     ('r gestalt \<times> (corba_exception + unit)) run_result" where
  "gestalt_loadDynamic n h ps R cl ch ident lib cls params err g =
     (if has_text ident then
        (case loadDynamic n h ps R cl ch (the ident) lib cls (case params of Some p \<Rightarrow> p | None \<Rightarrow> []) err g of
           None \<Rightarrow> None
         | Some (ps', r) \<Rightarrow> Some (ps', and_then r (\<lambda>x. Returns (reply x))))
      else Some (ps, Returns (reply (g, - 1, EINVAL))))"

definition gestalt_suspend_all :: "'r ace \<Rightarrow> bool \<Rightarrow> (string \<Rightarrow> chance) \<Rightarrow> errno \<Rightarrow> 'r gestalt \<Rightarrow> 'r gestalt \<times> int" where
  "gestalt_suspend_all R cl ch err g = (case suspendServiceAll R cl ch err g of (g', fails) \<Rightarrow> (g', c_int fails))"

definition gestalt_resume_all :: "'r ace \<Rightarrow> bool \<Rightarrow> (string \<Rightarrow> chance) \<Rightarrow> errno \<Rightarrow> 'r gestalt \<Rightarrow> 'r gestalt \<times> int" where
  "gestalt_resume_all R cl ch err g = (case resumeServiceAll R cl ch err g of (g', fails) \<Rightarrow> (g', c_int fails))"

definition gestalt_remove_all :: "'r ace \<Rightarrow> bool \<Rightarrow> (string \<Rightarrow> chance) \<Rightarrow> errno \<Rightarrow> 'r gestalt \<Rightarrow> 'r gestalt \<times> int" where
  "gestalt_remove_all R cl ch err g = (case removeServiceAll R cl ch err g of (g', fails) \<Rightarrow> (g', c_int fails))"

section \<open>The gestalt service: descriptors\<close>

text \<open>
  What ACE and the broker tell of a service: the kind of its implementation, the text of \<open>info\<close>, and the reference of the
  servant; \<open>None\<close> inside the last two is an exception.
\<close>

datatype svc_kind = MODULE | STREAM | SERVICE_OBJECT

record ('r, 'o) svc_facts =
  svc_kind :: "'r \<Rightarrow> string \<Rightarrow> svc_kind option"
  svc_info :: "'r \<Rightarrow> string \<Rightarrow> string option"
  svc_servant :: "'r \<Rightarrow> string \<Rightarrow> 'o option option"

record 'o entity_descriptor =
  ed_ident :: string
  ed_libpathname :: string
  ed_objectclass :: string
  ed_parameters :: string
  ed_info :: string
  ed_obj :: "'o option"
  ed_loadTime :: "64 word \<times> 32 word"
  ed_flags :: "16 word"

definition SVC_EXECUTE :: "16 word" where "SVC_EXECUTE = push_bit 0 1"

definition SVC_STATIC :: "16 word" where "SVC_STATIC = push_bit 1 1"

definition SVC_DYNAMIC :: "16 word" where "SVC_DYNAMIC = push_bit 2 1"

definition SVC_OBJECT :: "16 word" where "SVC_OBJECT = push_bit 3 1"

definition SVC_MODULE :: "16 word" where "SVC_MODULE = push_bit 4 1"

definition SVC_STREAM :: "16 word" where "SVC_STREAM = push_bit 5 1"

definition SVC_ACTIVE :: "16 word" where "SVC_ACTIVE = push_bit 6 1"

definition SVC_FINIED :: "16 word" where "SVC_FINIED = push_bit 7 1"

definition LOAD_EXECUTE :: "32 word" where "LOAD_EXECUTE = push_bit 0 1"

definition set_flag :: "bool \<Rightarrow> 16 word \<Rightarrow> 'o entity_descriptor \<Rightarrow> 'o entity_descriptor" where
  "set_flag b f ed = (if b then ed\<lparr>ed_flags := ed_flags ed OR f\<rparr> else ed)"

definition load_flags :: "svc_desc \<Rightarrow> 'o entity_descriptor \<Rightarrow> 'o entity_descriptor" where
  "load_flags d ed =
     set_flag (loadflags d AND LOAD_DYNAMIC \<noteq> 0) SVC_DYNAMIC
       (set_flag (loadflags d AND LOAD_STATIC \<noteq> 0) SVC_STATIC
         (set_flag (loadflags d AND LOAD_EXECUTE \<noteq> 0) SVC_EXECUTE ed))"

text \<open>\<open>info\<close> and the reference are asked in one \<open>try\<close>: when the first throws, the second is not asked.\<close>

definition describe_object :: "('r, 'o) svc_facts \<Rightarrow> 'r \<Rightarrow> string \<Rightarrow> 'o entity_descriptor \<Rightarrow> 'o entity_descriptor" where
  "describe_object F r ident ed =
     (case svc_info F r ident of
        None \<Rightarrow> ed
      | Some t \<Rightarrow> ed\<lparr>ed_info := t, ed_obj := (case svc_servant F r ident of Some p \<Rightarrow> p | None \<Rightarrow> None)\<rparr>)"

definition describe_type :: "('r, 'o) svc_facts \<Rightarrow> 'r \<Rightarrow> svc_type \<Rightarrow> 'o entity_descriptor \<Rightarrow> 'o entity_descriptor" where
  "describe_type F r ty ed =
     (let ed' = set_flag (fini_called ty) SVC_FINIED (set_flag (active ty) SVC_ACTIVE ed) in
      case svc_kind F r (ed_ident ed) of
        None \<Rightarrow> ed'
      | Some MODULE \<Rightarrow> set_flag True SVC_MODULE ed'
      | Some STREAM \<Rightarrow> set_flag True SVC_STREAM ed'
      | Some SERVICE_OBJECT \<Rightarrow> describe_object F r (ed_ident ed) (set_flag True SVC_OBJECT ed'))"

text \<open>The two forms of \<open>makeEntityDescriptor\<close>; \<open>locked\<close> false is a failure of a lock.  The gestalt has a repository, as
  ACE gives it one when it is opened.\<close>

definition describe ::
  "'r ace \<Rightarrow> ('r, 'o) svc_facts \<Rightarrow> bool \<Rightarrow> 'r gestalt \<Rightarrow> svc_desc \<Rightarrow> corba_exception + 'o entity_descriptor" where
  "describe R F locked g d =
     (let ed = load_flags d
        \<lparr>ed_ident = c_str (svc_ident d), ed_libpathname = c_str (libpathname d), ed_objectclass = c_str (objectclass d),
         ed_parameters = c_str (parameters d), ed_info = [], ed_obj = None,
         ed_loadTime = (word_of_int (fst (loadtime d)), word_of_int (snd (loadtime d))), ed_flags = 0\<rparr>
      in if locked then
           (case ace_find R (repo g) (ed_ident ed) of
              None \<Rightarrow> Inr ed
            | Some ty \<Rightarrow> Inr (describe_type F (repo g) ty ed))
         else Inl CORBA_NO_RESOURCES)"

definition makeEntityDescriptor ::
  "'r ace \<Rightarrow> ('r, 'o) svc_facts \<Rightarrow> bool \<Rightarrow> bool \<Rightarrow> 'r gestalt \<Rightarrow> string \<Rightarrow> corba_exception + 'o entity_descriptor" where
  "makeEntityDescriptor R F locked repo_locked g ident =
     (if locked then
        (case svc_descriptors g ident of
           Some d \<Rightarrow> describe R F repo_locked g d
         | None \<Rightarrow> Inl CORBA_OBJECT_NOT_EXIST)
      else Inl CORBA_NO_RESOURCES)"

definition findService ::
  "'r ace \<Rightarrow> ('r, 'o) svc_facts \<Rightarrow> bool \<Rightarrow> bool \<Rightarrow> 'r gestalt \<Rightarrow> string option \<Rightarrow> corba_exception + 'o entity_descriptor" where
  "findService R F locked repo_locked g ident =
     (if has_text ident then makeEntityDescriptor R F locked repo_locked g (the ident) else Inl CORBA_BAD_PARAM)"

text \<open>The loop of \<open>listServices\<close>: an exception of one descriptor leaves the whole listing.\<close>

fun describe_all :: "('d \<Rightarrow> corba_exception + 'e) \<Rightarrow> 'd list \<Rightarrow> corba_exception + 'e list" where
  "describe_all f [] = Inr []"
| "describe_all f (d # ds) =
     (case f d of
        Inl x \<Rightarrow> Inl x
      | Inr e \<Rightarrow> (case describe_all f ds of Inl x \<Rightarrow> Inl x | Inr es \<Rightarrow> Inr (e # es)))"

definition listServices ::
  "'r ace \<Rightarrow> ('r, 'o) svc_facts \<Rightarrow> bool \<Rightarrow> 'r gestalt \<Rightarrow> corba_exception + 'o entity_descriptor list" where
  "listServices R F repo_locked g = describe_all (describe R F repo_locked g) (list_service_repository R False g)"

section \<open>The description of a server\<close>

text \<open>The last position of either separator; a name without one, or with one in front only, is all class.\<close>

definition find_last_sep :: "string \<Rightarrow> nat option" where
  "find_last_sep s =
     (case filter (\<lambda>i. s ! i = CHR 0x2F \<or> s ! i = CHR 0x5C) [0..<length s] of [] \<Rightarrow> None | ks \<Rightarrow> Some (last ks))"

definition program_parts :: "string \<Rightarrow> string \<times> string" where
  "program_parts argv0 =
     (case find_last_sep argv0 of
        Some pos \<Rightarrow> if pos > 0 then (take pos argv0, drop (Suc pos) argv0) else ([], argv0)
      | None \<Rightarrow> ([], argv0))"


section \<open>Lemmas\<close>

lemma c_str_word: "simple_word v \<Longrightarrow> c_str v = v"
proof -
  assume "simple_word v"
  moreover have "blank (CHR 0x00)" by code_simp
  ultimately have "c \<noteq> CHR 0x00" if "c \<in> set v" for c
    using that unfolding simple_word_def list_all_iff simple_char_def by blast
  then show "c_str v = v" by (simp add: c_str_def takeWhile_eq_all_conv)
qed

lemma c_str_good: "good_ident i \<Longrightarrow> c_str i = i"
  by (auto simp: c_str_def takeWhile_eq_all_conv good_ident_chars(3))

text \<open>The room in the sequence is always enough.\<close>

lemma copy_entries_all: "len + length ps \<le> max_len \<Longrightarrow> copy_entries max_len len ps = map (\<lambda>p. (c_str (fst p), c_str (snd p))) ps"
  by (induction ps arbitrary: len) auto

lemma ps_list_complete: "ps_list_properties n h ps = map_option (\<lambda>(ps', vs). (ps', map (\<lambda>p. (c_str (fst p), c_str (snd p))) vs)) (list_properties n h ps)"
  by (simp add: ps_list_properties_def copy_entries_all split: option.splits)

lemma handlers [simp]:
  "get_handler NotFoundException = CORBA_INV_IDENT" "get_handler IllegalPropertyException = CORBA_BAD_PARAM"
  "set_handler IllegalPropertyException = CORBA_BAD_PARAM"
  by code_simp+

lemma has_text_simps [simp]: "has_text None = False" "has_text (Some t) = (t \<noteq> [])"
  by (simp_all add: has_text_def)

lemma trim_nonempty: "trim_string c t \<noteq> [] \<Longrightarrow> t \<noteq> []"
  by (auto simp: trim_string_fixed trimmed_def)

text \<open>What a request answers, by what happens to it.\<close>

lemma svc_request_chances:
  "svc_request R cl Refused a err g = (g, - 1, ENOEXEC)"
  "svc_request R cl No_lock a err g = (g, - 1, ENOLCK)"
  "svc_request R cl Late a err g = (fst (activity_run R cl a ENOEXEC g), - 1, ETIME)"
  "activity_run R cl a ENOEXEC g = (g', rc, e) \<Longrightarrow> svc_request R cl In_time a err g = (g', if rc \<noteq> 0 then - 1 else 0, if rc \<noteq> 0 then e else err)"
  by (auto simp: svc_request_def process_svc_action_def wait_result_def split: prod.splits)

lemma reply_simps [simp]:
  "reply (g, 0, e) = (g, Inr ())"
  "reply (g, - 1, e) = (g, case throw_last_error e of Some c \<Rightarrow> Inl c | None \<Rightarrow> Inr ())"
  by (simp_all add: reply_def)

lemma throw_none: "throw_last_error e = None \<longleftrightarrow> e = E_NONE"
  by (cases e) auto

text \<open>The three requests on a loaded service have one shape.\<close>

lemma gestalt_ops:
  assumes "(f, act) \<in> {(gestalt_suspend, Suspend), (gestalt_resume, Resume), (gestalt_remove, Remove)}"
  shows "f R cl ch ident err g =
    (if has_text ident \<and> \<not> bad_ident (trim_string (CHR '' '') (the ident))
     then reply (svc_request R cl ch (act (trim_string (CHR '' '') (the ident))) err g) else (g, Inl CORBA_BAD_PARAM))"
  using assms
  by (auto simp: gestalt_suspend_def gestalt_resume_def gestalt_remove_def suspendService_def resumeService_def removeService_def Let_def)

lemma activity_refused:
  assumes "act \<in> {Suspend, Resume, Remove}"
  shows "ace_find R (repo g) i = None \<Longrightarrow> activity_run R cl (act i) err g = (g, - 1, EEXIST)"
    "ace_find R (repo g) i = Some ty \<Longrightarrow> fini_called ty \<Longrightarrow> activity_run R cl (act i) err g = (g, - 1, EACCES)"
  using assms by (auto simp: toggle_run_def toggle_test_def remove_run_def)

text \<open>The flags of a description: how a service was loaded is taken from its descriptor, its state from ACE.\<close>

lemma single_bit: "bit (push_bit n 1 :: 'a::len word) k \<longleftrightarrow> n < LENGTH('a) \<and> k = n"
  unfolding push_bit_of_1 bit_exp_iff possible_bit_word by auto

lemma svc_flag_bits:
  "bit SVC_EXECUTE k \<longleftrightarrow> k = 0" "bit SVC_STATIC k \<longleftrightarrow> k = 1" "bit SVC_DYNAMIC k \<longleftrightarrow> k = 2" "bit SVC_OBJECT k \<longleftrightarrow> k = 3"
  "bit SVC_MODULE k \<longleftrightarrow> k = 4" "bit SVC_STREAM k \<longleftrightarrow> k = 5" "bit SVC_ACTIVE k \<longleftrightarrow> k = 6" "bit SVC_FINIED k \<longleftrightarrow> k = 7"
  unfolding SVC_EXECUTE_def SVC_STATIC_def SVC_DYNAMIC_def SVC_OBJECT_def SVC_MODULE_def SVC_STREAM_def SVC_ACTIVE_def SVC_FINIED_def single_bit
  by auto

lemma load_flag_bits: "bit LOAD_EXECUTE k \<longleftrightarrow> k = 0" "bit LOAD_STATIC k \<longleftrightarrow> k = 1" "bit LOAD_DYNAMIC k \<longleftrightarrow> k = 2"
  unfolding LOAD_EXECUTE_def LOAD_STATIC_def LOAD_DYNAMIC_def single_bit by auto

lemma bit_set_flag: "bit (ed_flags (set_flag b f ed)) k \<longleftrightarrow> bit (ed_flags ed) k \<or> b \<and> bit f k"
  by (simp add: set_flag_def bit_or_iff)

lemma set_flag_fields [simp]:
  "ed_ident (set_flag b f ed) = ed_ident ed" "ed_parameters (set_flag b f ed) = ed_parameters ed"
  "ed_libpathname (set_flag b f ed) = ed_libpathname ed" "ed_objectclass (set_flag b f ed) = ed_objectclass ed"
  by (simp_all add: set_flag_def)

lemma describe_object_fields [simp]:
  "ed_flags (describe_object F r i ed) = ed_flags ed" "ed_ident (describe_object F r i ed) = ed_ident ed"
  "ed_parameters (describe_object F r i ed) = ed_parameters ed"
  by (simp_all add: describe_object_def split: option.split)

lemma describe_type_flags:
  "k \<notin> {3, 4, 5} \<Longrightarrow> bit (ed_flags (describe_type F r ty ed)) k \<longleftrightarrow> bit (ed_flags ed) k \<or> k = 6 \<and> active ty \<or> k = 7 \<and> fini_called ty"
  "ed_ident (describe_type F r ty ed) = ed_ident ed" "ed_parameters (describe_type F r ty ed) = ed_parameters ed"
  by (auto simp: describe_type_def Let_def svc_flag_bits bit_set_flag split: option.split svc_kind.split)

lemma word_test:
  fixes w :: "32 word"
  assumes "\<And>j. bit m j \<longleftrightarrow> j = k"
  shows "w AND m \<noteq> 0 \<longleftrightarrow> bit w k"
proof -
  have "bit (w AND m) j \<longleftrightarrow> j = k \<and> bit w k" for j using assms by (auto simp: bit_and_iff)
  then show ?thesis by (metis bit_0_eq bot_apply bot_bool_def bit_word_eqI)
qed

lemma load_flags_bits:
  "bit (ed_flags (load_flags d ed)) k \<longleftrightarrow> bit (ed_flags ed) k \<or> k < 3 \<and> bit (loadflags d) k"
proof -
  have "k < 3 \<longleftrightarrow> k = 0 \<or> k = 1 \<or> k = 2" by auto
  then show ?thesis
    by (auto simp: load_flags_def svc_flag_bits bit_set_flag word_test [OF load_flag_bits(1)] word_test [OF load_flag_bits(2)]
        word_test [OF load_flag_bits(3)])
qed

lemma load_flags_fields [simp]:
  "ed_ident (load_flags d ed) = ed_ident ed" "ed_parameters (load_flags d ed) = ed_parameters ed"
  by (simp_all add: load_flags_def)

lemma describe_found:
  assumes "ace_find R (repo g) (c_str (svc_ident d)) = Some ty"
  shows "\<exists>ed. describe R F True g d = Inr ed \<and> ed_ident ed = c_str (svc_ident d) \<and> ed_parameters ed = c_str (parameters d) \<and>
    (\<forall>k < 3. bit (ed_flags ed) k \<longleftrightarrow> bit (loadflags d) k) \<and> (bit (ed_flags ed) 6 \<longleftrightarrow> active ty) \<and> (bit (ed_flags ed) 7 \<longleftrightarrow> fini_called ty)"
  using assms by (auto simp: describe_def Let_def describe_type_flags load_flags_bits)

lemma static_flags_bits:
  "bit (LOAD_STATIC OR LOAD_OBJECT OR LOAD_ACTIVE) 1" "\<not> bit (LOAD_STATIC OR LOAD_OBJECT OR LOAD_ACTIVE) 2"
  by code_simp+

text \<open>A service that was loaded is described as static, under its name and with its parameters.\<close>

lemma loaded_found:
  fixes F :: "('r, 'o) svc_facts"
  assumes "ace_find R (repo g) i = None" "svc_descriptors g i = None" "ace_find R r' i = Some ty"
    "ace_directive R (c_str (load_directive cl False (static_desc h i p))) ENOEXEC (repo g) = (0, e, r')" "c_str i = i" "i \<noteq> []"
    "g' = g\<lparr>repo := r', svc_descriptors := (svc_descriptors g)(i \<mapsto> (static_desc h i p)\<lparr>loadflags := LOAD_STATIC OR LOAD_OBJECT OR LOAD_ACTIVE\<rparr>)\<rparr>"
  shows "svc_request R cl In_time (LoadStatic (static_desc h i p)) err g = (g', 0, err)"
    "\<exists>ed. findService R F True True g' (Some i) = Inr ed \<and> ed_ident ed = i \<and> ed_parameters ed = c_str p \<and>
       bit (ed_flags ed) 1 \<and> \<not> bit (ed_flags ed) 2 \<and> (bit (ed_flags ed) 6 \<longleftrightarrow> active ty)"
proof -
  let ?d = "(static_desc h i p)\<lparr>loadflags := LOAD_STATIC OR LOAD_OBJECT OR LOAD_ACTIVE\<rparr>"
  have d: "svc_ident (static_desc h i p) = i" "loadflags (static_desc h i p) OR LOAD_ACTIVE = LOAD_STATIC OR LOAD_OBJECT OR LOAD_ACTIVE"
    "parameters (static_desc h i p) = p"
    by (simp_all add: static_desc_def or.assoc)
  have "activity_run R cl (LoadStatic (static_desc h i p)) ENOEXEC g = (g', 0, e)"
    using assms(1,2,4) by (simp add: load_run_def d assms(7))
  from svc_request_chances(4) [OF this] show "svc_request R cl In_time (LoadStatic (static_desc h i p)) err g = (g', 0, err)" by simp
  have r: "repo g' = r'" "svc_descriptors g' i = Some ?d" by (simp_all add: assms(7))
  have "ace_find R (repo g') (c_str (svc_ident ?d)) = Some ty" using assms(3,5) by (simp add: r d)
  from describe_found [OF this, of F] show "\<exists>ed. findService R F True True g' (Some i) = Inr ed \<and> ed_ident ed = i \<and> ed_parameters ed = c_str p \<and>
       bit (ed_flags ed) 1 \<and> \<not> bit (ed_flags ed) 2 \<and> (bit (ed_flags ed) 6 \<longleftrightarrow> active ty)"
    using static_flags_bits assms(5,6) by (auto simp: findService_def makeEntityDescriptor_def r d)
qed


section \<open>Properties\<close>



text \<open>
  Claim C31.  What a client of the gestalt service is told.  A missing or malformed name answers \<open>BAD_PARAM\<close> and changes nothing; a request
  the executor refuses, one that cannot lock the container and one that is not finished in time each have an exception of their
  own, and the last takes effect all the same.  A service that is unknown answers \<open>OBJECT_NOT_EXIST\<close> to suspend, resume and remove, but so
  does the load of one that exists; only an error without an error number is taken for success.  A service that was loaded is found,
  described by how it was loaded and by its state in ACE's repository.
\<close>

theorem gestalt_service_replies:
  fixes R :: "'r ace" and g :: "'r gestalt" and t :: string
  defines "i \<equiv> trim_string (CHR '' '') t"
  assumes "(f, act) \<in> {(gestalt_suspend, Suspend), (gestalt_resume, Resume), (gestalt_remove, Remove)}" "\<not> bad_ident i"
  shows "f R cl ch None err g = (g, Inl CORBA_BAD_PARAM) \<and>
    (\<forall>u. bad_ident (trim_string (CHR '' '') u) \<longrightarrow> f R cl ch (Some u) err g = (g, Inl CORBA_BAD_PARAM)) \<and>
    f R cl Refused (Some t) err g = (g, Inl CORBA_INVALID_ACTIVITY) \<and> f R cl No_lock (Some t) err g = (g, Inl CORBA_NO_RESOURCES) \<and>
    f R cl Late (Some t) err g = (fst (activity_run R cl (act i) ENOEXEC g), Inl CORBA_TIMEOUT) \<and>
    (ace_find R (repo g) i = None \<longrightarrow> f R cl In_time (Some t) err g = (g, Inl CORBA_OBJECT_NOT_EXIST)) \<and>
    (\<forall>ty. ace_find R (repo g) i = Some ty \<and> fini_called ty \<longrightarrow> f R cl In_time (Some t) err g = (g, Inl CORBA_NO_PERMISSION)) \<and>
    (\<forall>g' rc e. activity_run R cl (act i) ENOEXEC g = (g', rc, e) \<longrightarrow>
       fst (f R cl In_time (Some t) err g) = g' \<and> (snd (f R cl In_time (Some t) err g) = Inr () \<longleftrightarrow> rc = 0 \<or> e = E_NONE)) \<and>
    (\<forall>n h ps params ps' p. format_args n h ps params True True = Some (ps', Returns p) \<longrightarrow>
       (ace_find R (repo g) i \<noteq> None \<longrightarrow>
          gestalt_loadStatic n h ps R cl In_time (Some t) (Some params) err g = Some (ps', Returns (g, Inl CORBA_OBJECT_NOT_EXIST))) \<and>
       (\<forall>e r' ty. ace_find R (repo g) i = None \<and> svc_descriptors g i = None \<and> ace_find R r' i = Some ty \<and>
          ace_directive R (c_str (load_directive cl False (static_desc h i p))) ENOEXEC (repo g) = (0, e, r') \<longrightarrow>
          (\<exists>g'. gestalt_loadStatic n h ps R cl In_time (Some t) (Some params) err g = Some (ps', Returns (g', Inr ())) \<and>
             (\<forall>F :: ('r, 'o) svc_facts. \<exists>ed. findService R F True True g' (Some i) = Inr ed \<and> ed_ident ed = i \<and> ed_parameters ed = c_str p \<and>
                bit (ed_flags ed) 1 \<and> \<not> bit (ed_flags ed) 2 \<and> (bit (ed_flags ed) 6 \<longleftrightarrow> active ty)))))"
proof -
  have i0: "i \<noteq> []" using assms(3) by (auto simp: bad_ident_def)
  then have t: "t \<noteq> []" unfolding i_def by (rule trim_nonempty)
  have ci: "c_str i = i" by (rule c_str_good) (use assms(3) good_ident_trim in \<open>simp add: i_def\<close>)
  have o: "f R cl ch (Some t) err g = reply (svc_request R cl ch (act i) err g)" for ch
    using gestalt_ops [OF assms(2)] t assms(3) by (simp add: i_def)
  have act: "act \<in> {Suspend, Resume, Remove}" using assms(2) by auto
  note refused = activity_refused [OF act]
  have bad: "f R cl ch None err g = (g, Inl CORBA_BAD_PARAM)" "bad_ident (trim_string (CHR '' '') u) \<Longrightarrow> f R cl ch (Some u) err g = (g, Inl CORBA_BAD_PARAM)" for u
    using gestalt_ops [OF assms(2)] by simp_all
  have late: "f R cl Refused (Some t) err g = (g, Inl CORBA_INVALID_ACTIVITY)" "f R cl No_lock (Some t) err g = (g, Inl CORBA_NO_RESOURCES)"
    "f R cl Late (Some t) err g = (fst (activity_run R cl (act i) ENOEXEC g), Inl CORBA_TIMEOUT)"
    by (simp_all add: o svc_request_chances)
  have none: "f R cl In_time (Some t) err g = (g, Inl CORBA_OBJECT_NOT_EXIST)" if "ace_find R (repo g) i = None"
    using svc_request_chances(4) [OF refused(1) [OF that]] by (simp add: o)
  have fini: "f R cl In_time (Some t) err g = (g, Inl CORBA_NO_PERMISSION)" if "ace_find R (repo g) i = Some ty" "fini_called ty" for ty
    using svc_request_chances(4) [OF refused(2) [OF that]] by (simp add: o)
  have answers: "fst (f R cl In_time (Some t) err g) = g' \<and> (snd (f R cl In_time (Some t) err g) = Inr () \<longleftrightarrow> rc = 0 \<or> e = E_NONE)"
    if "activity_run R cl (act i) ENOEXEC g = (g', rc, e)" for g' rc e
    using svc_request_chances(4) [OF that] throw_none [of e] by (auto simp: o split: option.split)
  have load: "gestalt_loadStatic n h ps R cl In_time (Some t) (Some params) err g =
      Some (ps', Returns (reply (svc_request R cl In_time (LoadStatic (static_desc h i p)) err g)))"
    if "format_args n h ps params True True = Some (ps', Returns p)" for n h ps params ps' p
    using that t assms(3) by (simp add: gestalt_loadStatic_def loadStatic_def i_def Let_def)
  have again: "svc_request R cl In_time (LoadStatic (static_desc h i p)) err g = (g, - 1, EEXIST)" if "ace_find R (repo g) i \<noteq> None" for h p
    using that svc_request_chances(4) [of R cl "LoadStatic (static_desc h i p)" g g "- 1" EEXIST] by (auto simp: load_run_def static_desc_def)
  have new: "\<exists>g'. reply (svc_request R cl In_time (LoadStatic (static_desc h i p)) err g) = (g', Inr ()) \<and>
      (\<forall>F :: ('r, 'o) svc_facts. \<exists>ed. findService R F True True g' (Some i) = Inr ed \<and> ed_ident ed = i \<and> ed_parameters ed = c_str p \<and>
         bit (ed_flags ed) 1 \<and> \<not> bit (ed_flags ed) 2 \<and> (bit (ed_flags ed) 6 \<longleftrightarrow> active ty))"
    if "ace_find R (repo g) i = None" "svc_descriptors g i = None" "ace_find R r' i = Some ty"
      "ace_directive R (c_str (load_directive cl False (static_desc h i p))) ENOEXEC (repo g) = (0, e, r')" for h p e r' ty
  proof -
    obtain g' where g': "g' = g\<lparr>repo := r', svc_descriptors := (svc_descriptors g)(i \<mapsto> (static_desc h i p)\<lparr>loadflags := LOAD_STATIC OR LOAD_OBJECT OR LOAD_ACTIVE\<rparr>)\<rparr>" by blast
    show ?thesis using loaded_found(1) [OF that ci i0 g'] by (intro exI [of _ g'] conjI allI loaded_found(2) [OF that ci i0 g']) simp
  qed
  show ?thesis using bad late none fini answers load again new by (intro conjI allI impI) auto
qed

definition plain_facts :: "('r, unit) svc_facts" where
  "plain_facts = \<lparr>svc_kind = (\<lambda>r i. Some SERVICE_OBJECT), svc_info = (\<lambda>r i. Some i), svc_servant = (\<lambda>r i. Some (Some ()))\<rparr>"

lemma sample_empty_params: "format_args 9 sample_host [] [] True True = Some ([], Returns [])"
  by code_simp

theorem gestalt_service_replies_witness:
  "gestalt_suspend sample_ace True In_time (Some ''a'') E_NONE \<lparr>repo = [], svc_descriptors = Map.empty\<rparr> =
     (\<lparr>repo = [], svc_descriptors = Map.empty\<rparr>, Inl CORBA_OBJECT_NOT_EXIST) \<and>
   (\<exists>g' ed. gestalt_loadStatic 9 sample_host [] sample_ace True In_time (Some ''a'') (Some []) E_NONE \<lparr>repo = [], svc_descriptors = Map.empty\<rparr> =
       Some ([], Returns (g', Inr ())) \<and> findService sample_ace plain_facts True True g' (Some ''a'') = Inr ed \<and> bit (ed_flags ed) 1 \<and> \<not> bit (ed_flags ed) 2)"
proof -
  let ?g = "\<lparr>repo = [], svc_descriptors = Map.empty\<rparr> :: (string \<times> bool) list gestalt"
  have b: "\<not> bad_ident (trim_string (CHR '' '') ''a'')" using sample_a by simp
  have m: "(gestalt_suspend, Suspend) \<in> {(gestalt_suspend, Suspend), (gestalt_resume, Resume), (gestalt_remove, Remove)}" by simp
  note r = gestalt_service_replies [where t = "''a''" and R = sample_ace and g = ?g and cl = True and err = E_NONE and 'o = unit, OF m b, unfolded sample_a(1)]
  have n: "ace_find sample_ace (repo ?g) ''a'' = None" "ace_find sample_ace ((''a'', True) # repo ?g) ''a'' \<noteq> None" "svc_descriptors ?g ''a'' = None"
    by (simp_all add: sample_find)
  then obtain ty where ty: "ace_find sample_ace ((''a'', True) # repo ?g) ''a'' = Some ty" by blast
  have d: "ace_directive sample_ace (c_str (load_directive True False (static_desc sample_host ''a'' []))) ENOEXEC (repo ?g) = (0, ENOEXEC, (''a'', True) # repo ?g)"
    by (rule sample_directives_a(1))
  note l = r [THEN conjunct2, THEN conjunct2, THEN conjunct2, THEN conjunct2, THEN conjunct2, THEN conjunct2, THEN conjunct2, THEN conjunct2,
      THEN spec, THEN spec, THEN spec, THEN spec, THEN spec, THEN spec, THEN mp]
  have f: "gestalt_suspend sample_ace True In_time (Some ''a'') E_NONE ?g = (?g, Inl CORBA_OBJECT_NOT_EXIST)"
    using r n(1) by blast
  obtain g' where g: "gestalt_loadStatic 9 sample_host [] sample_ace True In_time (Some ''a'') (Some []) E_NONE ?g = Some ([], Returns (g', Inr ()))"
    "\<forall>F :: ((string \<times> bool) list, unit) svc_facts. \<exists>ed. findService sample_ace F True True g' (Some ''a'') = Inr ed \<and> ed_ident ed = ''a'' \<and> ed_parameters ed = c_str [] \<and>
       bit (ed_flags ed) 1 \<and> \<not> bit (ed_flags ed) 2 \<and> (bit (ed_flags ed) 6 \<longleftrightarrow> active ty)"
    using l [OF sample_empty_params, THEN conjunct2, rule_format, OF conjI [OF n(1) conjI [OF n(3) conjI [OF ty d]]]] by blast
  then show ?thesis using f by blast
qed

section \<open>The parts of a program's name\<close>

lemma sorted_le_last:
  fixes x :: nat
  shows "sorted xs \<Longrightarrow> x \<in> set xs \<Longrightarrow> x \<le> last xs"
  by (induction xs) auto

lemma find_last_sep_Some:
  assumes "find_last_sep s = Some pos"
  shows "pos < length s" "s ! pos = CHR 0x2F \<or> s ! pos = CHR 0x5C" "\<forall>c \<in> set (drop (Suc pos) s). c \<noteq> CHR 0x2F \<and> c \<noteq> CHR 0x5C"
proof -
  let ?P = "\<lambda>i. s ! i = CHR 0x2F \<or> s ! i = CHR 0x5C" and ?is = "filter (\<lambda>i. s ! i = CHR 0x2F \<or> s ! i = CHR 0x5C) [0..<length s]"
  have p: "?is \<noteq> []" "pos = last ?is" using assms by (auto simp: find_last_sep_def split: list.splits)
  have "pos \<in> set ?is" unfolding p(2) by (rule last_in_set [OF p(1)])
  then show "pos < length s" "?P pos" by simp_all
  have "i \<le> pos" if "i < length s" "?P i" for i
  proof -
    have "i \<in> set ?is" using that by simp
    moreover have "sorted ?is" by (rule sorted_wrt_filter) simp
    ultimately show ?thesis using sorted_le_last unfolding p(2) by blast
  qed
  note before = this
  show "\<forall>c \<in> set (drop (Suc pos) s). c \<noteq> CHR 0x2F \<and> c \<noteq> CHR 0x5C"
  proof
    fix c assume "c \<in> set (drop (Suc pos) s)"
    then obtain j where "j < length s - Suc pos" "c = s ! (Suc pos + j)" by (auto simp: in_set_conv_nth)
    moreover from this have "Suc pos + j < length s" by linarith
    ultimately show "c \<noteq> CHR 0x2F \<and> c \<noteq> CHR 0x5C" using before [of "Suc pos + j"] by auto
  qed
qed

lemma program_parts_join:
  assumes "program_parts argv0 = (lib, cls)"
  shows "lib = [] \<and> cls = argv0 \<or>
    (\<exists>c \<in> {CHR 0x2F, CHR 0x5C}. argv0 = lib @ c # cls \<and> (\<forall>c \<in> set cls. c \<noteq> CHR 0x2F \<and> c \<noteq> CHR 0x5C))"
proof (cases "\<exists>pos > 0. find_last_sep argv0 = Some pos")
  case True
  then obtain pos where p: "find_last_sep argv0 = Some pos" "pos > 0" by blast
  note l = find_last_sep_Some [OF p(1)]
  have a: "argv0 = lib @ argv0 ! pos # cls" "cls = drop (Suc pos) argv0"
    using assms p id_take_nth_drop [OF l(1)] by (auto simp: program_parts_def)
  show ?thesis using l(2,3) a by (intro disjI2 bexI [of _ "argv0 ! pos"]) auto
next
  case False
  then have "find_last_sep argv0 = None \<or> find_last_sep argv0 = Some 0" by (cases "find_last_sep argv0") auto
  then show ?thesis using assms by (auto simp: program_parts_def)
qed

end
