(* ===== verification/Object_Stub.thy ===== *)
theory Object_Stub
  imports Prelude
begin

text \<open>
  \<^verbatim>\<open>TAF/taf/ObjectStubRef_T.h\<close>, \<^verbatim>\<open>.cpp\<close>: activating and deactivating a servant in its object adapter, and the smart reference that
  activates the servant it is given and deactivates the one it lets go of.

  The adapter is a parameter, the record \<open>poa\<close> of the calls the code makes over a state \<open>'s\<close>; a call gives a value or throws.  Servants are
  \<open>'i\<close>, object ids \<open>'d\<close>, references \<open>'o\<close>; nil is \<open>None\<close>.  Counting references to the servant is the subject of \<open>Ref_Count\<close>.
\<close>

section \<open>Activation\<close>

datatype poa_error = ServantAlreadyActive | NoServant | Poa_error nat

record ('s, 'i, 'd, 'o) poa =
  default_POA :: "'s \<Rightarrow> 'i \<Rightarrow> bool"
  activate_object :: "'s \<Rightarrow> 'i \<Rightarrow> (poa_error + 'd) \<times> 's"
  activate_object_with_id :: "'s \<Rightarrow> 'd \<Rightarrow> 'i \<Rightarrow> poa_error option \<times> 's"
  id_to_reference :: "'s \<Rightarrow> 'd \<Rightarrow> poa_error + 'o"
  servant_to_reference :: "'s \<Rightarrow> 'i \<Rightarrow> (poa_error + 'o) \<times> 's"
  servant_to_id :: "'s \<Rightarrow> 'i \<Rightarrow> poa_error + 'd"
  deactivate_object :: "'s \<Rightarrow> 'd \<Rightarrow> poa_error + 's"
  stub_narrow :: "'o \<Rightarrow> poa_error + 'o option"

definition servant_stub :: "('s, 'i, 'd, 'o) poa \<Rightarrow> 's \<Rightarrow> 'i option \<Rightarrow> 'o option \<times> 's" where
  "servant_stub P s p =
     (case p of
        None \<Rightarrow> (None, s)
      | Some i \<Rightarrow>
          if default_POA P s i then
            (case servant_to_reference P s i of
               (Inr ob, s') \<Rightarrow> (case stub_narrow P ob of Inr r \<Rightarrow> r | Inl e \<Rightarrow> None, s')
             | (Inl e, s') \<Rightarrow> (None, s'))
          else (None, s))"

text \<open>The handler of \<open>ServantAlreadyActive\<close>; other exceptions leave.\<close>

definition already_active :: "('s, 'i, 'd, 'o) poa \<Rightarrow> 's \<Rightarrow> 'i \<Rightarrow> poa_error \<Rightarrow> (poa_error + 'o option) \<times> 's" where
  "already_active P s i e =
     (if e = ServantAlreadyActive then (case servant_stub P s (Some i) of (r, s') \<Rightarrow> (Inr r, s')) else (Inl e, s))"

definition narrowed_id :: "('s, 'i, 'd, 'o) poa \<Rightarrow> 's \<Rightarrow> 'i \<Rightarrow> 'd \<Rightarrow> (poa_error + 'o option) \<times> 's" where
  "narrowed_id P s i d =
     (case id_to_reference P s d of
        Inl e \<Rightarrow> already_active P s i e
      | Inr ob \<Rightarrow> (case stub_narrow P ob of Inl e \<Rightarrow> already_active P s i e | Inr r \<Rightarrow> (Inr r, s)))"

definition stub_activate :: "('s, 'i, 'd, 'o) poa \<Rightarrow> 's \<Rightarrow> 'i option \<Rightarrow> (poa_error + 'o option) \<times> 's" where
  "stub_activate P s p =
     (case p of
        None \<Rightarrow> (Inl NoServant, s)
      | Some i \<Rightarrow>
          if default_POA P s i then
            (case activate_object P s i of
               (Inl e, s') \<Rightarrow> already_active P s' i e
             | (Inr d, s') \<Rightarrow> narrowed_id P s' i d)
          else (Inl NoServant, s))"

definition stub_activate_with_id :: "('s, 'i, 'd, 'o) poa \<Rightarrow> 's \<Rightarrow> 'i option \<Rightarrow> 'd \<Rightarrow> (poa_error + 'o option) \<times> 's" where
  "stub_activate_with_id P s p d =
     (case p of
        None \<Rightarrow> (Inl NoServant, s)
      | Some i \<Rightarrow>
          if default_POA P s i then
            (case activate_object_with_id P s d i of
               (Some e, s') \<Rightarrow> already_active P s' i e
             | (None, s') \<Rightarrow> narrowed_id P s' i d)
          else (Inl NoServant, s))"

definition stub_deactivate :: "('s, 'i, 'd, 'o) poa \<Rightarrow> 's \<Rightarrow> 'i option \<Rightarrow> 's" where
  "stub_deactivate P s p =
     (case p of
        None \<Rightarrow> s
      | Some i \<Rightarrow>
          if default_POA P s i then
            (case servant_to_id P s i of
               Inl e \<Rightarrow> s
             | Inr d \<Rightarrow> (case deactivate_object P s d of Inl e \<Rightarrow> s | Inr s' \<Rightarrow> s'))
          else s)"

section \<open>The reference\<close>

record ('i, 'o) stub_ref =
  stub :: "'o option"
  auto_deactivate :: bool
  servant_ref :: "'i option"

text \<open>A constructor that throws makes no reference.\<close>

definition ObjectStubRef_new ::
  "('s, 'i, 'd, 'o) poa \<Rightarrow> 's \<Rightarrow> 'i option \<Rightarrow> bool \<Rightarrow> (poa_error + ('i, 'o) stub_ref) \<times> 's" where
  "ObjectStubRef_new P s impl a =
     (if impl \<noteq> None then
        (case stub_activate P s impl of
           (Inl e, s') \<Rightarrow> (Inl e, s')
         | (Inr r, s') \<Rightarrow> (Inr \<lparr>stub = r, auto_deactivate = a, servant_ref = impl\<rparr>, s'))
      else (Inr \<lparr>stub = None, auto_deactivate = a, servant_ref = None\<rparr>, s))"

definition ObjectStubRef_destroy :: "('s, 'i, 'd, 'o) poa \<Rightarrow> ('i, 'o) stub_ref \<Rightarrow> 's \<Rightarrow> 's" where
  "ObjectStubRef_destroy P r s =
     (if servant_ref r \<noteq> None \<and> auto_deactivate r then stub_deactivate P s (servant_ref r) else s)"

text \<open>
  \<open>reset\<close> stores the reference of the new servant by \<^verbatim>\<open>this->out() = activate(...)._retn()\<close>.  \<^verbatim>\<open>out()\<close> lets go of the old stub and leaves nil; whether
  it is evaluated before the activation is not specified by the language before C++17.  The parameter \<open>out_first\<close> is the
  compiler's choice, which shows only when the activation throws.
\<close>

definition stub_reset ::
  "bool \<Rightarrow> ('s, 'i, 'd, 'o) poa \<Rightarrow> 'i option \<Rightarrow> bool \<Rightarrow> ('i, 'o) stub_ref \<Rightarrow> 's \<Rightarrow> poa_error option \<times> ('i, 'o) stub_ref \<times> 's" where
  "stub_reset out_first P impl a r s =
     (if servant_ref r \<noteq> impl then
        let s1 = (if servant_ref r \<noteq> None \<and> auto_deactivate r then stub_deactivate P s (servant_ref r) else s) in
        if impl = None then (None, \<lparr>stub = None, auto_deactivate = a, servant_ref = None\<rparr>, s1)
        else (case stub_activate P s1 impl of
                (Inl e, s2) \<Rightarrow> (Some e, r\<lparr>servant_ref := impl, stub := (if out_first then None else stub r)\<rparr>, s2)
              | (Inr x, s2) \<Rightarrow> (None, \<lparr>stub = x, auto_deactivate = a, servant_ref = impl\<rparr>, s2))
      else (None, r\<lparr>auto_deactivate := a\<rparr>, s))"

text \<open>The servant is handed to the caller and stays active.\<close>

definition release_impl :: "('i, 'o) stub_ref \<Rightarrow> 'i option \<times> ('i, 'o) stub_ref" where
  "release_impl r = (servant_ref r, r\<lparr>servant_ref := None\<rparr>)"

text \<open>Resets one after the other, up to the first that throws.\<close>

fun reset_all ::
  "bool \<Rightarrow> ('s, 'i, 'd, 'o) poa \<Rightarrow> ('i option \<times> bool) list \<Rightarrow> ('i, 'o) stub_ref \<Rightarrow> 's \<Rightarrow> poa_error option \<times> ('i, 'o) stub_ref \<times> 's" where
  "reset_all out_first P [] r s = (None, r, s)"
| "reset_all out_first P ((impl, a) # ops) r s =
     (case stub_reset out_first P impl a r s of
        (Some e, r', s') \<Rightarrow> (Some e, r', s')
      | (None, r', s') \<Rightarrow> reset_all out_first P ops r' s')"

section \<open>Which servants are active\<close>

text \<open>
  The adapter with unique ids: \<open>act\<close> is the set of the servants in its map.  Activation enters a servant that is not there and throws \<open>ServantAlreadyActive\<close>
  for one that is; an active servant has a reference and an id, under which it is taken out.
\<close>

definition poa_ok :: "('s, 'i, 'd, 'o) poa \<Rightarrow> ('s \<Rightarrow> 'i set) \<Rightarrow> bool" where
  "poa_ok P act \<longleftrightarrow>
     (\<forall>s i. default_POA P s i) \<and>
     (\<forall>s i d s'. activate_object P s i = (Inr d, s') \<longrightarrow> i \<notin> act s \<and> act s' = insert i (act s)) \<and>
     (\<forall>s i e s'. activate_object P s i = (Inl e, s') \<longrightarrow> act s' = act s \<and> (e = ServantAlreadyActive \<longrightarrow> i \<in> act s)) \<and>
     (\<forall>s i x s'. i \<in> act s \<and> servant_to_reference P s i = (x, s') \<longrightarrow> act s' = act s) \<and>
     (\<forall>s i. i \<in> act s \<longrightarrow> (\<exists>d s'. servant_to_id P s i = Inr d \<and> deactivate_object P s d = Inr s' \<and> act s' = act s - {i})) \<and>
     (\<forall>s i. i \<notin> act s \<longrightarrow> (\<exists>e. servant_to_id P s i = Inl e)) \<and>
     (\<forall>s d. id_to_reference P s d \<noteq> Inl ServantAlreadyActive) \<and> (\<forall>x. stub_narrow P x \<noteq> Inl ServantAlreadyActive)"

lemma poa_okD:
  assumes "poa_ok P act"
  shows "default_POA P s i" "activate_object P s i = (Inr d, s') \<Longrightarrow> i \<notin> act s \<and> act s' = insert i (act s)"
    "activate_object P s i = (Inl e, s') \<Longrightarrow> act s' = act s \<and> (e = ServantAlreadyActive \<longrightarrow> i \<in> act s)"
    "i \<in> act s \<Longrightarrow> servant_to_reference P s i = (x, s') \<Longrightarrow> act s' = act s"
    "i \<in> act s \<Longrightarrow> \<exists>d s'. servant_to_id P s i = Inr d \<and> deactivate_object P s d = Inr s' \<and> act s' = act s - {i}"
    "i \<notin> act s \<Longrightarrow> \<exists>e. servant_to_id P s i = Inl e" "id_to_reference P s d \<noteq> Inl ServantAlreadyActive" "stub_narrow P y \<noteq> Inl ServantAlreadyActive"
proof -
  note a = assms [unfolded poa_ok_def]
  note b = conjunct2 [OF a] note c = conjunct2 [OF b] note d = conjunct2 [OF c] note e = conjunct2 [OF d] note f = conjunct2 [OF e] note g = conjunct2 [OF f]
  show "default_POA P s i" using conjunct1 [OF a] by simp
  show "activate_object P s i = (Inr d, s') \<Longrightarrow> i \<notin> act s \<and> act s' = insert i (act s)" using conjunct1 [OF b] by blast
  show "activate_object P s i = (Inl e, s') \<Longrightarrow> act s' = act s \<and> (e = ServantAlreadyActive \<longrightarrow> i \<in> act s)" using conjunct1 [OF c] by blast
  show "i \<in> act s \<Longrightarrow> servant_to_reference P s i = (x, s') \<Longrightarrow> act s' = act s" using conjunct1 [OF d] by blast
  show "i \<in> act s \<Longrightarrow> \<exists>d s'. servant_to_id P s i = Inr d \<and> deactivate_object P s d = Inr s' \<and> act s' = act s - {i}" using conjunct1 [OF e] by blast
  show "i \<notin> act s \<Longrightarrow> \<exists>e. servant_to_id P s i = Inl e" using conjunct1 [OF f] by blast
  show "id_to_reference P s d \<noteq> Inl ServantAlreadyActive" "stub_narrow P y \<noteq> Inl ServantAlreadyActive" using g by blast+
qed

lemma deactivate_act:
  assumes "poa_ok P act"
  shows "act (stub_deactivate P s (Some i)) = act s - {i}"
proof (cases "i \<in> act s")
  case True
  with poa_okD(5) [OF assms] obtain d s' where "servant_to_id P s i = Inr d" "deactivate_object P s d = Inr s'" "act s' = act s - {i}" by blast
  then show ?thesis using poa_okD(1) [OF assms, of s i] by (simp add: stub_deactivate_def)
next
  case False
  with poa_okD(6) [OF assms] obtain e where "servant_to_id P s i = Inl e" by blast
  then show ?thesis using False by (simp add: stub_deactivate_def)
qed

lemma servant_stub_act: "poa_ok P act \<Longrightarrow> i \<in> act s \<Longrightarrow> servant_stub P s (Some i) = (r, s') \<Longrightarrow> act s' = act s"
  using poa_okD(4) [of P act i s] by (auto simp: servant_stub_def split: prod.splits sum.splits if_splits)

text \<open>An activation that returns leaves the servant active; one that throws may leave it active as well, when it has no reference.\<close>

lemma stub_activate_act:
  assumes "poa_ok P act" "stub_activate P s (Some i) = (x, s')"
  shows "x = Inr r \<Longrightarrow> act s' = insert i (act s)"
    "x = Inl e \<Longrightarrow> act s' = act s \<or> act s' = insert i (act s) \<and> (\<exists>d. fst (activate_object P s i) = Inr d)"
proof -
  obtain a s1 where a: "activate_object P s i = (a, s1)" by (cases "activate_object P s i") auto
  have "(x = Inr r \<longrightarrow> act s' = insert i (act s)) \<and> (x = Inl e \<longrightarrow> act s' = act s \<or> act s' = insert i (act s) \<and> (\<exists>d. a = Inr d))"
  proof (cases a)
    case (Inl e1)
    note k = poa_okD(3) [OF assms(1) a [unfolded Inl]]
    show ?thesis using assms(2) a Inl k poa_okD(1) [OF assms(1), of s i] servant_stub_act [OF assms(1), of i s1]
      by (auto simp: stub_activate_def already_active_def split: if_splits prod.splits)
  next
    case (Inr d)
    note k = poa_okD(2) [OF assms(1) a [unfolded Inr]] and n = poa_okD(7,8) [OF assms(1)]
    show ?thesis using assms(2) a Inr k n poa_okD(1) [OF assms(1), of s i]
      by (auto simp: stub_activate_def narrowed_id_def already_active_def split: if_splits prod.splits sum.splits)
  qed
  then show "x = Inr r \<Longrightarrow> act s' = insert i (act s)"
    "x = Inl e \<Longrightarrow> act s' = act s \<or> act s' = insert i (act s) \<and> (\<exists>d. fst (activate_object P s i) = Inr d)" using a by auto
qed

lemma reset_act:
  assumes "poa_ok P act" "stub_reset out_first P impl a r s = (x, r', s')" "auto_deactivate r"
    "act s = B \<union> set_option (servant_ref r)" "set_option (servant_ref r) \<inter> B = {}"
  shows "x = None \<Longrightarrow> act s' = B \<union> set_option impl \<and> servant_ref r' = impl \<and> auto_deactivate r' = a"
    "x = Some e \<Longrightarrow> servant_ref r' = impl \<and> stub r' = (if out_first then None else stub r) \<and> impl \<noteq> servant_ref r \<and> impl \<noteq> None \<and> act s' \<subseteq> B \<union> set_option impl"
proof -
  let ?s1 = "if servant_ref r \<noteq> None \<and> auto_deactivate r then stub_deactivate P s (servant_ref r) else s"
  have s1: "act ?s1 = B"
  proof (cases "servant_ref r")
    case (Some p)
    then show ?thesis using deactivate_act [OF assms(1), of s p] assms(3,4,5) by auto
  qed (use assms(4) in simp)
  have "(x = None \<longrightarrow> act s' = B \<union> set_option impl \<and> servant_ref r' = impl \<and> auto_deactivate r' = a) \<and>
    (x = Some e \<longrightarrow> servant_ref r' = impl \<and> stub r' = (if out_first then None else stub r) \<and> impl \<noteq> servant_ref r \<and> impl \<noteq> None \<and> act s' \<subseteq> B \<union> set_option impl)"
  proof (cases "servant_ref r = impl")
    case True
    then show ?thesis using assms(2,4) by (auto simp: stub_reset_def)
  next
    case False
    show ?thesis
    proof (cases impl)
      case None
      then show ?thesis using assms(2) False s1 by (auto simp: stub_reset_def Let_def)
    next
      case (Some i)
      obtain y s2 where y: "stub_activate P ?s1 (Some i) = (y, s2)" by (cases "stub_activate P ?s1 (Some i)") auto
      note k = stub_activate_act [OF assms(1) y, unfolded s1]
      have "stub_reset out_first P impl a r s = (case y of Inl e \<Rightarrow> (Some e, r\<lparr>servant_ref := Some i, stub := (if out_first then None else stub r)\<rparr>, s2)
          | Inr x \<Rightarrow> (None, \<lparr>stub = x, auto_deactivate = a, servant_ref = Some i\<rparr>, s2))"
        using False Some y by (simp add: stub_reset_def Let_def)
      then show ?thesis using assms(2) Some False k by (cases y) auto
    qed
  qed
  then show "x = None \<Longrightarrow> act s' = B \<union> set_option impl \<and> servant_ref r' = impl \<and> auto_deactivate r' = a"
    "x = Some e \<Longrightarrow> servant_ref r' = impl \<and> stub r' = (if out_first then None else stub r) \<and> impl \<noteq> servant_ref r \<and> impl \<noteq> None \<and> act s' \<subseteq> B \<union> set_option impl" by auto
qed

lemma reset_all_act:
  assumes "poa_ok P act" "reset_all out_first P ops r s = (None, r', s')" "auto_deactivate r"
    "act s = B \<union> set_option (servant_ref r)" "set_option (servant_ref r) \<inter> B = {}" "\<forall>(p, a) \<in> set ops. a \<and> set_option p \<inter> B = {}"
  shows "act s' = B \<union> set_option (servant_ref r') \<and> auto_deactivate r' \<and> set_option (servant_ref r') \<inter> B = {} \<and>
    servant_ref r' = last (servant_ref r # map fst ops)"
  using assms(2-6)
proof (induction ops arbitrary: r s)
  case (Cons op ops)
  obtain p a where op: "op = (p, a)" by (cases op)
  obtain x r1 s1 where x: "stub_reset out_first P p a r s = (x, r1, s1)" by (metis prod_cases3)
  have "x = None" using Cons.prems(1) x op by (cases x) auto
  note k = reset_act(1) [OF assms(1) x Cons.prems(2-4) this]
  have "reset_all out_first P ops r1 s1 = (None, r', s')" using Cons.prems(1) x op \<open>x = None\<close> by simp
  from Cons.IH [OF this] show ?case using k Cons.prems(5) op by auto
qed simp

section \<open>Properties\<close>

text \<open>
  Claim C33.  With automatic deactivation a reference keeps exactly the servant it holds active: after any resets that return, the active servants are those that
  were active before the reference was made and the current one, and the destructor takes that one away.  A reset that throws has
  deactivated the old servant and holds the new one, but its stub is not that of the new one: it is still that of the old servant, or nil if the
  compiler evaluates \<^verbatim>\<open>out()\<close> before the activation.  The property holds for either order.
\<close>

theorem stub_reference_active:
  assumes "poa_ok P act" "ObjectStubRef_new P s0 impl True = (Inr r, s)" "reset_all out_first P ops r s = (None, r', s')"
    "\<forall>(p, a) \<in> set ((impl, True) # ops). a \<and> set_option p \<inter> act s0 = {}"
  shows "act s' = act s0 \<union> set_option (servant_ref r') \<and> servant_ref r' = last (impl # map fst ops) \<and>
    act (ObjectStubRef_destroy P r' s') = act s0 \<and> ObjectStubRef_destroy P (snd (release_impl r')) s' = s' \<and>
    (\<forall>first q a e r'' s''. stub_reset first P q a r' s' = (Some e, r'', s'') \<longrightarrow>
       servant_ref r'' = q \<and> q \<noteq> servant_ref r' \<and> stub r'' = (if first then None else stub r') \<and> set_option (servant_ref r') \<inter> act s'' = {})"
proof -
  have n: "act s = act s0 \<union> set_option (servant_ref r) \<and> auto_deactivate r \<and> servant_ref r = impl"
  proof (cases impl)
    case (Some i)
    then obtain x where "stub_activate P s0 (Some i) = (Inr x, s)" "r = \<lparr>stub = x, auto_deactivate = True, servant_ref = impl\<rparr>"
      using assms(2) by (auto simp: ObjectStubRef_new_def split: prod.splits sum.splits)
    then show ?thesis using stub_activate_act(1) [OF assms(1)] Some by simp
  qed (use assms(2) in \<open>auto simp: ObjectStubRef_new_def\<close>)
  then have k: "act s' = act s0 \<union> set_option (servant_ref r')" "auto_deactivate r'" "set_option (servant_ref r') \<inter> act s0 = {}"
    "servant_ref r' = last (impl # map fst ops)"
    using reset_all_act [OF assms(1,3), of "act s0"] assms(4) by auto
  have "act (ObjectStubRef_destroy P r' s') = act s0"
    using k deactivate_act [OF assms(1), of s'] by (cases "servant_ref r'") (auto simp: ObjectStubRef_destroy_def)
  moreover have "ObjectStubRef_destroy P (snd (release_impl r')) s' = s'" by (simp add: ObjectStubRef_destroy_def release_impl_def)
  moreover have "servant_ref r'' = q \<and> q \<noteq> servant_ref r' \<and> stub r'' = (if first then None else stub r') \<and> set_option (servant_ref r') \<inter> act s'' = {}"
    if "stub_reset first P q a r' s' = (Some e, r'', s'')" for first q a e r'' s''
    using reset_act(2) [OF assms(1) that k(2,1,3) refl] k(3) by (cases q; cases "servant_ref r'") auto
  ultimately show ?thesis using k(1,4) by blast
qed

text \<open>An adapter with unique ids that refuses the servant 9.\<close>

definition sample_poa :: "(nat list, nat, nat, nat) poa" where
  "sample_poa =
     \<lparr>default_POA = (\<lambda>s i. True),
      activate_object = (\<lambda>s i. if i = 9 then (Inl (Poa_error 0), s) else if i \<in> set s then (Inl ServantAlreadyActive, s) else (Inr i, i # s)),
      activate_object_with_id = (\<lambda>s d i. if i \<in> set s then (Some ServantAlreadyActive, s) else (None, i # s)),
      id_to_reference = (\<lambda>s d. Inr d), servant_to_reference = (\<lambda>s i. (Inr i, s)),
      servant_to_id = (\<lambda>s i. if i \<in> set s then Inr i else Inl (Poa_error 1)),
      deactivate_object = (\<lambda>s d. Inr (removeAll d s)), stub_narrow = (\<lambda>x. Inr (Some x))\<rparr>"

lemma sample_poa_ok: "poa_ok sample_poa set"
  unfolding poa_ok_def by (intro conjI allI impI) (auto simp: sample_poa_def split: if_splits)

theorem stub_reference_active_witness:
  "\<exists>r s r' s'. ObjectStubRef_new sample_poa [1] (Some 2) True = (Inr r, s) \<and> reset_all False sample_poa [(Some 3, True)] r s = (None, r', s') \<and>
     set s' = {1, 3} \<and> set (ObjectStubRef_destroy sample_poa r' s') = {1} \<and>
     (\<exists>e r'' s''. stub_reset False sample_poa (Some 9) True r' s' = (Some e, r'', s'') \<and> servant_ref r'' = Some 9 \<and> stub r'' = Some 3 \<and> 3 \<notin> set s'') \<and>
     (\<exists>e r'' s''. stub_reset True sample_poa (Some 9) True r' s' = (Some e, r'', s'') \<and> servant_ref r'' = Some 9 \<and> stub r'' = None \<and> 3 \<notin> set s'')"
proof -
  let ?r = "\<lparr>stub = Some 2, auto_deactivate = True, servant_ref = Some 2\<rparr> :: (nat, nat) stub_ref"
  let ?r' = "\<lparr>stub = Some 3, auto_deactivate = True, servant_ref = Some 3\<rparr> :: (nat, nat) stub_ref"
  have n: "ObjectStubRef_new sample_poa [1] (Some 2) True = (Inr ?r, [2, 1])" by code_simp
  have a: "reset_all b sample_poa [(Some 3, True)] ?r [2, 1] = (None, ?r', [3, 1])" for b by (cases b) code_simp+
  have t: "\<forall>(p, a) \<in> set ((Some 2, True) # [(Some 3, True)]). a \<and> set_option p \<inter> set [1::nat] = {}" by simp
  note k = stub_reference_active [OF sample_poa_ok n a [of False] t]
  have "\<exists>e r'' s''. stub_reset b sample_poa (Some 9) True ?r' [3, 1] = (Some e, r'', s'') \<and> servant_ref r'' = Some 9 \<and>
      stub r'' = (if b then None else Some 3) \<and> 3 \<notin> set s''" for b
  proof -
    have "fst (stub_reset b sample_poa (Some 9) True ?r' [3, 1]) = Some (Poa_error 0)" by (cases b) code_simp+
    then obtain r'' s'' where f: "stub_reset b sample_poa (Some 9) True ?r' [3, 1] = (Some (Poa_error 0), r'', s'')"
      by (cases "stub_reset b sample_poa (Some 9) True ?r' [3, 1]") auto
    then show ?thesis using k by fastforce
  qed
  note r = this [of False] this [of True]
  have "set [3, 1] = {1, 3 :: nat} \<and> set (ObjectStubRef_destroy sample_poa ?r' [3, 1]) = {1}" using k by auto
  then show ?thesis using n a [of False] r by simp
qed

end
