(* ===== verification/Spec2Isabelle.thy ===== *)
theory Spec2Isabelle
  imports Bitset Properties Count_Down_Semaphore Barrier Rendezvous Channels Future_Result Synch_Value
    Ref_Count Synchronous_Channel Task_Executor Service_Loader
    Executors Shutdown Naming LDBC_Connection IOR_Resolver TAF_Servers
    Object_Stub
begin

text \<open>
  \<^bold>\<open>A verification of the LASAGNE core library (\<^verbatim>\<open>DAF\<close>, directory \<^verbatim>\<open>daf\<close>).\<close>

  \<^bold>\<open>The program.\<close>  LASAGNE is a C++ framework on top of ACE: \<^verbatim>\<open>daf\<close> holds threads, synchronisers,
  channels, executors, properties and services; \<^verbatim>\<open>TAF\<close> puts CORBA servers on top of it,
  \<^verbatim>\<open>LDBC\<close> wraps a data base (with a vendored SQLite), and further directories hold tests,
  training material and bindings.  This development models the core of \<^verbatim>\<open>daf\<close>,
  the naming, publication and resolution of objects and the remote interfaces in \<^verbatim>\<open>TAF\<close>, and the data base classes of \<^verbatim>\<open>LDBC\<close>.

  \<^bold>\<open>Theories, and what they model.\<close>
  \<^item> \<open>Prelude\<close>: casts between C integer types, ACE's numeric templates, runs of a machine with
    labelled steps, reachability, the locale \<open>event_invariant\<close>.
  \<^item> \<open>Exceptions\<close>: the exception hierarchy of \<^verbatim>\<open>Exception.h\<close>, error numbers, deadlines (\<^verbatim>\<open>OS.cpp\<close>).
  \<^item> \<open>Bitset\<close>: \<^verbatim>\<open>Bitset.h/.cpp\<close>, a bit vector in bytes; every operator against a list of booleans.
  \<^item> \<open>C_Text\<close>, \<open>DAF_Text\<close>: the parts of \<^verbatim>\<open>printf\<close>/\<^verbatim>\<open>scanf\<close> that are used, and the text utilities of \<^verbatim>\<open>DAF.cpp\<close>.
  \<^item> \<open>Date_Time\<close>: \<^verbatim>\<open>DateTime.h/.cpp\<close>, calendar arithmetic, comparison and text forms.
  \<^item> \<open>Properties\<close>: \<^verbatim>\<open>ARGV\<close>, \<^verbatim>\<open>format_args\<close>, \<^verbatim>\<open>PropertyManager\<close> and \<^verbatim>\<open>Configurator\<close>; a lookup expands
    \<^verbatim>\<open>%p{...}\<close> recursively, so the recursion has fuel, and the theorems say when it returns.
  \<^item> \<open>Monitor\<close>: \<^verbatim>\<open>SYNCHCondition_T.h\<close>, \<^verbatim>\<open>Monitor.h\<close>.  A synchroniser is a function from program points to
    actions; \<open>mon_step\<close> interleaves the threads that run it, with spurious wake-ups,
    time-outs, failing waits and interrupts as events.
  \<^item> \<open>Monitor_Rule\<close>: a proof rule for such code.  Annotations of single program points give an
    invariant of all interleavings (locale \<open>monitor_proof\<close>).
  \<^item> \<open>Monitor_History\<close>: the calls of a run, with their arguments, and the locale \<open>call_history\<close>, by which a program point belongs to the
    last call of its thread; so properties speak of what a call was given and what it returns.
  \<^item> \<open>Semaphore\<close>, \<open>Gate\<close>, \<open>Count_Down_Semaphore\<close>, \<open>Barrier\<close>, \<open>Rendezvous\<close>, \<open>Future_Result\<close>,
    \<open>Synch_Value\<close>, \<open>Channels\<close>: the synchronisers of the same names (\<open>Channels\<close> covers
    \<^verbatim>\<open>Channel_T.h\<close> and the three \<^verbatim>\<open>SemaphoreControlled...\<close> classes), each an interpretation of the monitor locales;
    \<open>Gate\<close> is the semaphore as the others use it, whose \<open>acquire\<close> and \<open>release\<close> are one step each, with a specification \<open>gate_step\<close> of the
    semaphore and its callers and the forward simulation that shows that \<^verbatim>\<open>Semaphore.cpp\<close> implements it.
  \<^item> \<open>Synchronous_Channel\<close>: \<^verbatim>\<open>SynchronousChannel_T.h/.cpp\<close>, nodes with a monitor each in an explicit store; the
    steps are the sections under a mutex, and the hand-off of values is exactly once.
  \<^item> \<open>Ref_Count\<close>: \<^verbatim>\<open>RefCount.h/.cpp\<close> and the smart pointers of \<^verbatim>\<open>ObjectRef_T.h/.cpp\<close> over a store of counts and
    variables; the count of every object is exact.
  \<^item> \<open>Task_Executor\<close>: \<^verbatim>\<open>TaskExecutor.h/.cpp\<close>, the thread pool.  Its state contains the state of the synchronous
    channel and its steps contain the channel's, so the hand-off of commands rests on the theorems there.
    Threads that overstay the end of the pool and are cancelled are not modelled.
  \<^item> \<open>Executors\<close>: the direct, the locked and the constrained executor; the last is a step system over its jobs
    with the semaphore of \<open>Gate\<close>.
  \<^item> \<open>Shutdown\<close>: \<^verbatim>\<open>ShutdownHandler.h/.cpp\<close>, a flag that is set outside the mutex of its monitor; no waiting thread misses it.
  \<^item> \<open>Service_Gestalt\<close>, \<open>Service_Loader\<close>: \<^verbatim>\<open>ServiceGestalt.h/.cpp\<close> and \<^verbatim>\<open>ServiceGestaltLoader.h/.cpp\<close>, the container of services, its
    activities under a readers-writer lock, and the loader of service entries.  ACE's repository of services is
    a parameter; the laws it is relied upon for are \<open>ace_ok\<close>, \<open>ace_removes\<close> and \<open>ace_tracks\<close>, and \<open>sample_ace\<close> satisfies them.
  \<^item> \<open>Naming\<close>: \<^verbatim>\<open>TAF/taf/NamingContext.h/.cpp\<close>, names with paths over the CORBA naming service, which is a parameter with the
    law \<open>cos_ok\<close>.
  \<^item> \<open>IOR_Binder\<close>, \<open>IOR_Resolver\<close>: the ways to publish a reference (\<^verbatim>\<open>IORQueryRepository.cpp\<close>, \<^verbatim>\<open>IORBinder.cpp\<close>,
    \<^verbatim>\<open>CORBAInterfaceHandler_T.cpp\<close>) and to find one (\<^verbatim>\<open>IORResolver_T.cpp\<close>, whose chain of resolvers is an
    instance of the monitor locale).  The request broker is a parameter with the law \<open>orb_ok\<close>; files are a map from names to texts.
  \<^item> \<open>TAF_Servers\<close>: the remote interfaces of properties and services (\<^verbatim>\<open>PropertyServer_impl.cpp\<close>, \<^verbatim>\<open>GestaltService_impl.cpp\<close>) over
    \<open>Properties\<close> and \<open>Service_Gestalt\<close>: which CORBA exception stands for which outcome, and the descriptors of services.
  \<^item> \<open>Object_Stub\<close>: \<^verbatim>\<open>ObjectStubRef_T.h/.cpp\<close>, references that activate and deactivate their servant; the object adapter is a parameter
    with the law \<open>poa_ok\<close>.
  \<^item> \<open>LDBC_SQLite\<close>, \<open>LDBC_Connection\<close>: \<^verbatim>\<open>LDBC/SQLite\<close>, parameters, queries and connections.  The interface of SQLite is a
    parameter, a record of its calls, with laws for what its documentation promises (a NaN is stored as null and read as zero); the connection is a step system over
    the calls of a client, and every statement that is prepared is finalized exactly once.

  \<^bold>\<open>Conventions.\<close>  A class is a record, an operation a function on it, an exception a value.  Code
  of the client (functors, comparisons, barrier commands), the file system, the clock and
  ACE's tokenisers are parameters.  History variables are fields that no code reads.  A
  thread's local variables are arguments of its program point; a section under one mutex
  that does not wait may be several program points, and every read of a variable that is
  shared without a mutex is a point of its own.

  \<^bold>\<open>What is shown.\<close>  For the data types: refinement of abstract operations, round trips and
  bounds.  For the synchronisers: invariants of all interleavings, no lost wake-up, what a call may return in terms of its arguments
  and of the calls before it, and that a thread whose condition holds leaves by steps of its own; where the code does not keep
  its promise (\<open>barrier_dies\<close>, \<open>set_same_value_hangs\<close>, \<open>semaphore_interrupt_race\<close>, \<open>interrupt_strands_waiters\<close>,
  \<open>constrained_bounded\<close>, \<open>suspend_resume_race\<close>, \<open>service_entry_parsed\<close>, \<open>finalize_executes_again\<close>,
  \<open>value_round_trip\<close>, \<open>ior_file_round_trip\<close>, \<open>resolve_misses_early_result\<close>, \<open>gestalt_service_replies\<close>, \<open>stub_reference_active\<close>), the run that shows it.

  \<^bold>\<open>Not modelled.\<close>  The sources of SQLite under \<^verbatim>\<open>LDBC/SQLite/sqlite3\<close>, which are copied from elsewhere and are the parameter
  of \<open>LDBC_SQLite\<close>.  The servers of \<^verbatim>\<open>TAF\<close> that do nothing but call the request broker (\<^verbatim>\<open>ORBManager.cpp\<close>,
  most of \<^verbatim>\<open>TAFServer_impl.cpp\<close>, policies, streams, quality of service), its wrappers of a data distribution service and of
  transport security, and the back end of its IDL compiler, a visitor of the syntax trees of TAO's compiler that prints
  C++: all of them consist of calls into libraries that are not in the repository.  Terminal streams are system calls on device handles;
  geographic conversion is floating-point trigonometry; terminate events exist on Windows only.  Start-up code, macros,
  tests, training material and bindings have no logic of their own.  The manifest lists them by file.
\<close>

end
